(* ===== verification/Prelude.thy ===== *)
theory Prelude
  imports Main "HOL-Library.Word"
begin

text \<open>
  Shared types, automation and generic lemmas of the development.

  It names the machine integers of the C code, gives checked reads of an array, the
  \<^emph>\<open>for(;;)\<close> loop as a partial function with its fuel characterisation, and the locale
  of two loops that run in lock step, which the refinement of the matcher is an instance of.
\<close>

unbundle bit_operations_syntax

type_synonym u8 = "8 word"
type_synonym u16 = "16 word"
type_synonym u32 = "32 word"

named_theorems cdefs \<open>definitions of small C helpers, unfolded together\<close>
named_theorems vm_defs \<open>the operations of the matcher on its state\<close>

section \<open>Bits of words\<close>

text \<open>The masks of the code are powers of two less one: an AND with one keeps the low bits.\<close>

lemma and_low_mask:
  "(x :: u32) AND 0x3f = take_bit 6 x" "x AND 0x1f = take_bit 5 x" "x AND 0xf = take_bit 4 x"
  "x AND 0x7 = take_bit 3 x" "x AND 0x3 = take_bit 2 x" "x AND 1 = take_bit 1 x"
  "x AND 0x3ff = take_bit 10 x"
  by (simp_all add: take_bit_eq_mask mask_eq_exp_minus_1)

lemma bit_word_unat: "bit (w :: 'a::len word) n \<longleftrightarrow> odd (unat w div 2 ^ n)"
proof -
  have "bit (unat w) n \<longleftrightarrow> bit w n" by (simp add: bit_unsigned_iff)
  then show ?thesis by (simp add: bit_iff_odd)
qed

section \<open>Checked array reads\<close>

definition rd :: "'a list \<Rightarrow> nat \<Rightarrow> 'a option" where
  "rd xs i = (if i < length xs then Some (xs ! i) else None)"

lemma rd_Some_iff: "rd xs i = Some v \<longleftrightarrow> i < length xs \<and> xs ! i = v"
  by (simp add: rd_def)

lemma rd_None_iff: "rd xs i = None \<longleftrightarrow> length xs \<le> i"
  by (simp add: rd_def not_less)

lemma rd_append_left: "i < length xs \<Longrightarrow> rd (xs @ ys) i = rd xs i"
  by (simp add: rd_def nth_append)

lemma rd_append_right: "length xs \<le> i \<Longrightarrow> rd (xs @ ys) i = rd ys (i - length xs)"
  by (auto simp: rd_def nth_append)

lemma rd_take: "i < n \<Longrightarrow> rd (take n xs) i = rd xs i"
  by (simp add: rd_def)

section \<open>Loops without a bound\<close>

text \<open>
  The body of a \<^verbatim>\<open>for(;;)\<close> loop maps the state to \<open>Inl\<close> the next state or
  \<open>Inr\<close> the value the loop returns. \<open>None\<close> is a loop that never returns.
\<close>

partial_function (option) loop :: "('s \<Rightarrow> 's + 'r) \<Rightarrow> 's \<Rightarrow> 'r option" where
  "loop f s = (case f s of Inl s' \<Rightarrow> loop f s' | Inr r \<Rightarrow> Some r)"

declare loop.simps [code]

primrec loop_fuel :: "('s \<Rightarrow> 's + 'r) \<Rightarrow> nat \<Rightarrow> 's \<Rightarrow> 'r option" where
  "loop_fuel f 0 s = None"
| "loop_fuel f (Suc n) s = (case f s of Inl s' \<Rightarrow> loop_fuel f n s' | Inr r \<Rightarrow> Some r)"

lemma loop_fuel_imp_loop: "loop_fuel f n s = Some r \<Longrightarrow> loop f s = Some r"
proof (induction n arbitrary: s)
  case 0
  then show ?case by simp
next
  case (Suc n)
  then show ?case by (subst loop.simps) (auto split: sum.splits)
qed

lemma loop_imp_loop_fuel:
  assumes "loop f s = Some r"
  shows "\<exists>n. loop_fuel f n s = Some r"
proof (rule loop.raw_induct [where P = "\<lambda>f s r. \<exists>n. loop_fuel f n s = Some r", OF _ assms])
  fix lp :: "('s \<Rightarrow> 's + 'r) \<Rightarrow> 's \<Rightarrow> 'r option" and f s r
  assume IH: "\<And>f s r. lp f s = Some r \<Longrightarrow> \<exists>n. loop_fuel f n s = Some r"
    and eq: "(case f s of Inl s' \<Rightarrow> lp f s' | Inr r \<Rightarrow> Some r) = Some r"
  show "\<exists>n. loop_fuel f n s = Some r"
  proof (cases "f s")
    case (Inl s')
    with eq have "lp f s' = Some r" by simp
    from IH [OF this] obtain n where "loop_fuel f n s' = Some r" ..
    with Inl show ?thesis by (intro exI [of _ "Suc n"]) simp
  next
    case (Inr r')
    with eq show ?thesis by (intro exI [of _ 1]) simp
  qed
qed

lemma loop_eq_Some_iff: "loop f s = Some r \<longleftrightarrow> (\<exists>n. loop_fuel f n s = Some r)"
  using loop_imp_loop_fuel loop_fuel_imp_loop by metis

text \<open>An invariant of the body, and what it gives for the result.\<close>

locale loop_invariant =
  fixes I :: "'s \<Rightarrow> bool"
    and P :: "'r \<Rightarrow> bool"
    and f :: "'s \<Rightarrow> 's + 'r"
  assumes keeps: "I s \<Longrightarrow> f s = Inl s' \<Longrightarrow> I s'"
    and ends: "I s \<Longrightarrow> f s = Inr r \<Longrightarrow> P r"
begin

lemma fuel_result: "I s \<Longrightarrow> loop_fuel f n s = Some r \<Longrightarrow> P r"
proof (induction n arbitrary: s)
  case 0
  then show ?case by simp
next
  case (Suc n)
  then show ?case by (auto split: sum.splits dest: keeps ends)
qed

theorem loop_result: "I s \<Longrightarrow> loop f s = Some r \<Longrightarrow> P r"
  using fuel_result loop_imp_loop_fuel by metis

end

text \<open>
  Two loops whose bodies keep a relation between their states, and return related values at
  the same time; the first may also give up with a value of \<open>E\<close>. Then what the first returns
  is such a value or related to what the second returns, and it returns when the second does.
\<close>

locale lockstep =
  fixes R :: "'s \<Rightarrow> 't \<Rightarrow> bool"
    and Q :: "'r \<Rightarrow> 'q \<Rightarrow> bool"
    and E :: "'r \<Rightarrow> bool"
    and f :: "'s \<Rightarrow> 's + 'r"
    and g :: "'t \<Rightarrow> 't + 'q"
  assumes body: "R s t \<Longrightarrow> rel_sum R Q (f s) (g t) \<or> (\<exists>r. f s = Inr r \<and> E r)"
begin

lemma fuel_sound:
  "R s t \<Longrightarrow> loop_fuel f n s = Some r \<Longrightarrow> E r \<or> (\<exists>q. loop_fuel g n t = Some q \<and> Q r q)"
proof (induction n arbitrary: s t)
  case 0
  then show ?case by simp
next
  case (Suc n)
  from body [OF Suc.prems(1)] Suc.prems(2) show ?case
    by (auto elim!: rel_sum.cases dest: Suc.IH)
qed

lemma fuel_complete:
  "R s t \<Longrightarrow> loop_fuel g n t = Some q \<Longrightarrow> \<exists>r. loop_fuel f n s = Some r \<and> (E r \<or> Q r q)"
proof (induction n arbitrary: s t)
  case 0
  then show ?case by simp
next
  case (Suc n)
  from body [OF Suc.prems(1)] Suc.prems(2) show ?case
    by (auto elim!: rel_sum.cases dest: Suc.IH)
qed

theorem loop_sound: "R s t \<Longrightarrow> loop f s = Some r \<Longrightarrow> E r \<or> (\<exists>q. loop g t = Some q \<and> Q r q)"
  using fuel_sound loop_fuel_imp_loop loop_imp_loop_fuel by metis

theorem loop_complete: "R s t \<Longrightarrow> loop g t = Some q \<Longrightarrow> \<exists>r. loop f s = Some r \<and> (E r \<or> Q r q)"
  using fuel_complete loop_fuel_imp_loop loop_imp_loop_fuel by metis

end

end
