(* ===== verification/Cutils.thy ===== *)
theory Cutils
  imports Prelude
begin

text \<open>
  \<^verbatim>\<open>libregexp/cutils.h\<close> and \<^verbatim>\<open>libregexp/cutils.c\<close> without the UTF-8 codec and the sort:
  little-endian loads and stores, surrogate arithmetic, hexadecimal digits, bounded string
  copies and the dynamic byte buffer.

  Memory is a byte list and a pointer into it an index. A load outside the list is
  \<open>None\<close>. The stores of the packed structs are little endian, as on every target the
  module is built for.
\<close>

section \<open>Integers\<close>

definition max_int :: "int \<Rightarrow> int \<Rightarrow> int" where
  "max_int a b = (if a > b then a else b)"

definition is_surrogate :: "u32 \<Rightarrow> bool" where
  "is_surrogate c \<longleftrightarrow> drop_bit 11 c = drop_bit 11 0xD800"

definition is_hi_surrogate :: "u32 \<Rightarrow> bool" where
  "is_hi_surrogate c \<longleftrightarrow> drop_bit 10 c = drop_bit 10 0xD800"

definition is_lo_surrogate :: "u32 \<Rightarrow> bool" where
  "is_lo_surrogate c \<longleftrightarrow> drop_bit 10 c = drop_bit 10 0xDC00"

definition get_hi_surrogate :: "u32 \<Rightarrow> u32" where
  "get_hi_surrogate c = drop_bit 10 c - drop_bit 10 0x10000 + 0xD800"

definition get_lo_surrogate :: "u32 \<Rightarrow> u32" where
  "get_lo_surrogate c = (c AND 0x3FF) OR 0xDC00"

definition from_surrogate :: "u32 \<Rightarrow> u32 \<Rightarrow> u32" where
  "from_surrogate hi lo = 0x10000 + 0x400 * (hi - 0xD800) + (lo - 0xDC00)"

definition from_hex :: "int \<Rightarrow> int" where
  "from_hex c =
     (if c \<ge> 0x30 \<and> c \<le> 0x39 then c - 0x30
      else if c \<ge> 0x41 \<and> c \<le> 0x46 then c - 0x41 + 10
      else if c \<ge> 0x61 \<and> c \<le> 0x66 then c - 0x61 + 10
      else - 1)"

section \<open>Memory\<close>

text \<open>\<^verbatim>\<open>memcpy\<close> and \<^verbatim>\<open>memmove\<close> inside one allocated block.\<close>

definition mem_write :: "u8 list \<Rightarrow> nat \<Rightarrow> u8 list \<Rightarrow> u8 list" where
  "mem_write mem pos data = take pos mem @ data @ drop (pos + length data) mem"

definition mem_move :: "u8 list \<Rightarrow> nat \<Rightarrow> nat \<Rightarrow> nat \<Rightarrow> u8 list" where
  "mem_move mem dst src len = mem_write mem dst (take len (drop src mem))"

lemma length_mem_write: "pos + length data \<le> length mem \<Longrightarrow> length (mem_write mem pos data) = length mem"
  by (simp add: mem_write_def)

lemma nth_mem_write:
  assumes "pos + length data \<le> length mem" and "i < length mem"
  shows "mem_write mem pos data ! i =
    (if pos \<le> i \<and> i < pos + length data then data ! (i - pos) else mem ! i)"
  using assms by (auto simp: mem_write_def nth_append min_def)

lemma take_mem_write_end:
  "pos + length data \<le> length mem \<Longrightarrow>
   take (pos + length data) (mem_write mem pos data) = take pos mem @ data"
  by (simp add: mem_write_def)

section \<open>Little-endian loads and stores\<close>

definition le16 :: "u16 \<Rightarrow> u8 list" where
  "le16 v = [ucast v, ucast (drop_bit 8 v)]"

definition le32 :: "u32 \<Rightarrow> u8 list" where
  "le32 v = [ucast v, ucast (drop_bit 8 v), ucast (drop_bit 16 v), ucast (drop_bit 24 v)]"

definition put_u16 :: "u8 list \<Rightarrow> nat \<Rightarrow> u16 \<Rightarrow> u8 list" where
  "put_u16 tab pos val = mem_write tab pos (le16 val)"

definition put_u32 :: "u8 list \<Rightarrow> nat \<Rightarrow> u32 \<Rightarrow> u8 list" where
  "put_u32 tab pos val = mem_write tab pos (le32 val)"

definition get_u8 :: "u8 list \<Rightarrow> nat \<Rightarrow> u32 option" where
  "get_u8 tab pos = map_option ucast (rd tab pos)"

definition get_u16 :: "u8 list \<Rightarrow> nat \<Rightarrow> u32 option" where
  "get_u16 tab pos =
     (if pos + 2 \<le> length tab
      then Some (ucast (tab ! pos) OR push_bit 8 (ucast (tab ! (pos + 1))))
      else None)"

definition get_u32 :: "u8 list \<Rightarrow> nat \<Rightarrow> u32 option" where
  "get_u32 tab pos =
     (if pos + 4 \<le> length tab
      then Some (ucast (tab ! pos) OR push_bit 8 (ucast (tab ! (pos + 1)))
             OR push_bit 16 (ucast (tab ! (pos + 2))) OR push_bit 24 (ucast (tab ! (pos + 3))))
      else None)"

text \<open>
  The contract of a fixed-width field in a byte block: what the emitter stores, the matcher
  loads, and stores to other fields do not touch it.
\<close>

locale byte_field =
  fixes width :: nat
    and enc :: "'a \<Rightarrow> u8 list"
    and dec :: "u8 list \<Rightarrow> nat \<Rightarrow> 'b option"
    and val :: "'a \<Rightarrow> 'b"
  assumes enc_length: "length (enc v) = width"
    and dec_enc: "dec (pre @ enc v @ post) (length pre) = Some (val v)"
    and dec_local: "\<lbrakk>pos + width \<le> length m; length m = length m';
      \<And>i. pos \<le> i \<Longrightarrow> i < pos + width \<Longrightarrow> m ! i = m' ! i\<rbrakk> \<Longrightarrow> dec m pos = dec m' pos"
begin

lemma load_store:
  assumes "pos + width \<le> length m"
  shows "dec (mem_write m pos (enc v)) pos = Some (val v)"
  using assms dec_enc [of "take pos m" v "drop (pos + width) m"]
  by (simp add: mem_write_def enc_length)

lemma load_store_other:
  assumes "pos + length data \<le> length m" and "q + width \<le> length m"
    and "q + width \<le> pos \<or> pos + length data \<le> q"
  shows "dec (mem_write m pos data) q = dec m q"
  using assms
  by (intro dec_local) (auto simp: length_mem_write nth_mem_write)

lemma load_appended: "dec (m @ enc v) (length m) = Some (val v)"
  using dec_enc [of m v "[]"] by simp

end

lemma ucast_halves_u16:
  "(ucast (ucast (v :: u16) :: u8) :: u32) OR push_bit 8 (ucast (ucast (drop_bit 8 v) :: u8)) = ucast v"
  by (rule bit_word_eqI) (use bit_imp_le_length [of v] in \<open>force simp: bit_simps not_less\<close>)

lemma ucast_quarters_u32:
  "(ucast (ucast (v :: u32) :: u8) :: u32) OR push_bit 8 (ucast (ucast (drop_bit 8 v) :: u8))
     OR push_bit 16 (ucast (ucast (drop_bit 16 v) :: u8))
     OR push_bit 24 (ucast (ucast (drop_bit 24 v) :: u8)) = v"
proof (rule bit_word_eqI)
  fix n
  assume "n < LENGTH(32)"
  then consider "n < 8" | "8 \<le> n" "n < 16" | "16 \<le> n" "n < 24" | "24 \<le> n" "n < 32"
    by fastforce
  then show "bit ((ucast (ucast v :: u8) :: u32) OR push_bit 8 (ucast (ucast (drop_bit 8 v) :: u8))
     OR push_bit 16 (ucast (ucast (drop_bit 16 v) :: u8))
     OR push_bit 24 (ucast (ucast (drop_bit 24 v) :: u8))) n = bit v n"
    by cases (auto simp: bit_simps)
qed

interpretation f16: byte_field 2 le16 get_u16 "\<lambda>v. ucast v"
proof unfold_locales
  show "length (le16 v) = 2" for v by (simp add: le16_def)
  show "get_u16 (pre @ le16 v @ post) (length pre) = Some (ucast v)" for pre v post
    by (simp add: get_u16_def le16_def nth_append ucast_halves_u16)
  show "get_u16 m pos = get_u16 m' pos"
    if "pos + 2 \<le> length m" "length m = length m'"
      "\<And>i. pos \<le> i \<Longrightarrow> i < pos + 2 \<Longrightarrow> m ! i = m' ! i" for m m' pos
    using that by (simp add: get_u16_def)
qed

interpretation f32: byte_field 4 le32 get_u32 "\<lambda>v. v"
proof unfold_locales
  show "length (le32 v) = 4" for v by (simp add: le32_def)
  show "get_u32 (pre @ le32 v @ post) (length pre) = Some v" for pre v post
    by (simp add: get_u32_def le32_def nth_append ucast_quarters_u32)
  show "get_u32 m pos = get_u32 m' pos"
    if "pos + 4 \<le> length m" "length m = length m'"
      "\<And>i. pos \<le> i \<Longrightarrow> i < pos + 4 \<Longrightarrow> m ! i = m' ! i" for m m' pos
    using that by (simp add: get_u32_def)
qed

section \<open>C strings\<close>

text \<open>
  A \<^verbatim>\<open>const char *\<close> argument is the list of its bytes before the terminating zero; reading
  its end yields the zero. \<open>cstr\<close> reads the string that a buffer holds.
\<close>

definition cstr :: "u8 list \<Rightarrow> u8 list" where
  "cstr mem = takeWhile (\<lambda>b. b \<noteq> 0) mem"

fun pstrcpy_loop :: "u8 list \<Rightarrow> nat \<Rightarrow> int \<Rightarrow> u8 list \<Rightarrow> u8 list" where
  "pstrcpy_loop buf q buf_size [] = buf[q := 0]"
| "pstrcpy_loop buf q buf_size (c # str) =
     (if c = 0 \<or> int q \<ge> buf_size - 1 then buf[q := 0]
      else pstrcpy_loop (buf[q := c]) (q + 1) buf_size str)"

definition pstrcpy :: "u8 list \<Rightarrow> int \<Rightarrow> u8 list \<Rightarrow> u8 list" where
  "pstrcpy buf buf_size str = (if buf_size \<le> 0 then buf else pstrcpy_loop buf 0 buf_size str)"

definition pstrcat :: "u8 list \<Rightarrow> int \<Rightarrow> u8 list \<Rightarrow> u8 list" where
  "pstrcat buf buf_size s =
     (let len = length (cstr buf) in
      if int len < buf_size
      then take len buf @ pstrcpy (drop len buf) (buf_size - int len) s
      else buf)"

fun strstart :: "u8 list \<Rightarrow> u8 list \<Rightarrow> u8 list option" where
  "strstart p [] = Some p"
| "strstart [] (q # qs) = None"
| "strstart (p # ps) (q # qs) = (if p \<noteq> q then None else strstart ps qs)"

definition has_suffix :: "u8 list \<Rightarrow> u8 list \<Rightarrow> bool" where
  "has_suffix str suffix =
     (let len = length str; slen = length suffix in
      len \<ge> slen \<and> take slen (drop (len - slen) str) = suffix)"

lemma pstrcpy_loop_eq:
  assumes "q < n" and "n \<le> length buf" and "0 \<notin> set str"
  shows "pstrcpy_loop buf q (int n) str =
    take q buf @ take (n - 1 - q) str @ [0] @ drop (q + length (take (n - 1 - q) str) + 1) buf"
  using assms
proof (induction str arbitrary: q buf)
  case Nil
  then show ?case by (simp add: upd_conv_take_nth_drop)
next
  case (Cons c str)
  show ?case
  proof (cases "int q \<ge> int n - 1")
    case True
    with Cons.prems show ?thesis by (simp add: upd_conv_take_nth_drop)
  next
    case False
    then have "q + 1 < n" by simp
    with Cons.prems have "pstrcpy_loop (buf[q := c]) (q + 1) (int n) str =
        take (q + 1) (buf[q := c]) @ take (n - 1 - (q + 1)) str @ [0] @
        drop (q + 1 + length (take (n - 1 - (q + 1)) str) + 1) (buf[q := c])"
      by (intro Cons.IH) auto
    moreover have "take (n - 1 - q) (c # str) = c # take (n - 1 - (q + 1)) str"
      using \<open>q + 1 < n\<close> by (simp add: take_Cons')
    moreover have "take (q + 1) (buf[q := c]) = take q buf @ [c]"
      using Cons.prems \<open>q + 1 < n\<close> by (simp add: take_Suc_conv_app_nth)
    ultimately show ?thesis
      using False Cons.prems by simp
  qed
qed

end
