(* ===== verification/DynBuf.thy ===== *)
theory DynBuf
  imports Cutils
begin

text \<open>
  The dynamic byte buffer of \<^verbatim>\<open>libregexp/cutils.c\<close> and \<^verbatim>\<open>dbuf_insert\<close> of
  \<^verbatim>\<open>libregexp/libregexp.c\<close>.

  \<open>dbuf_mem\<close> is the allocated block, so its length is the C field \<^verbatim>\<open>allocated_size\<close>
  (the invariant \<open>dbuf_wf\<close>); a fresh byte of a grown block is 0 in the model and
  indeterminate in C, and is written before it is read. The reallocation callback is the
  argument \<open>alloc\<close>: whether a request for that many bytes succeeds. A status of 0 or -1 is
  returned beside the buffer, as the C functions return it.
\<close>

record dynbuf =
  dbuf_mem :: "u8 list"
  dbuf_size :: nat
  dbuf_allocated :: nat
  dbuf_err :: bool

definition dbuf_init2 :: dynbuf where
  "dbuf_init2 = \<lparr>dbuf_mem = [], dbuf_size = 0, dbuf_allocated = 0, dbuf_err = False\<rparr>"

text \<open>The bytes a client has written.\<close>

definition dbuf_content :: "dynbuf \<Rightarrow> u8 list" where
  "dbuf_content s = take (dbuf_size s) (dbuf_mem s)"

definition dbuf_wf :: "dynbuf \<Rightarrow> bool" where
  "dbuf_wf s \<longleftrightarrow> length (dbuf_mem s) = dbuf_allocated s \<and> dbuf_size s \<le> dbuf_allocated s
     \<and> dbuf_allocated s < 2 ^ 64"

definition dbuf_claim :: "(nat \<Rightarrow> bool) \<Rightarrow> dynbuf \<Rightarrow> nat \<Rightarrow> int \<times> dynbuf" where
  "dbuf_claim alloc s len =
     (let new_size = (dbuf_size s + len) mod 2 ^ 64 in
      if new_size < len then (- 1, s)
      else if new_size > dbuf_allocated s then
        (if dbuf_err s then (- 1, s)
         else let size = (dbuf_allocated s + dbuf_allocated s div 2) mod 2 ^ 64 in
           if size < dbuf_allocated s then (- 1, s)
           else let new_size = (if size > new_size then size else new_size) in
             if \<not> alloc new_size then (- 1, s\<lparr>dbuf_err := True\<rparr>)
             else (0, s\<lparr>dbuf_mem := dbuf_mem s @ replicate (new_size - dbuf_allocated s) 0,
                        dbuf_allocated := new_size\<rparr>))
      else (0, s))"

definition dbuf_put :: "(nat \<Rightarrow> bool) \<Rightarrow> dynbuf \<Rightarrow> u8 list \<Rightarrow> int \<times> dynbuf" where
  "dbuf_put alloc s data =
     (let len = length data;
          (rc, s) = (if dbuf_allocated s - dbuf_size s < len then dbuf_claim alloc s len else (0, s))
      in if rc \<noteq> 0 then (- 1, s)
         else (0, s\<lparr>dbuf_mem := mem_write (dbuf_mem s) (dbuf_size s) data,
                    dbuf_size := dbuf_size s + len\<rparr>))"

definition dbuf_put_self :: "(nat \<Rightarrow> bool) \<Rightarrow> dynbuf \<Rightarrow> nat \<Rightarrow> nat \<Rightarrow> int \<times> dynbuf" where
  "dbuf_put_self alloc s offset len =
     (let (rc, s) = (if dbuf_allocated s - dbuf_size s < len then dbuf_claim alloc s len else (0, s))
      in if rc \<noteq> 0 then (- 1, s)
         else (0, s\<lparr>dbuf_mem := mem_move (dbuf_mem s) (dbuf_size s) offset len,
                    dbuf_size := dbuf_size s + len\<rparr>))"

definition dbuf_putc :: "(nat \<Rightarrow> bool) \<Rightarrow> dynbuf \<Rightarrow> u8 \<Rightarrow> int \<times> dynbuf" where
  "dbuf_putc alloc s val =
     (if dbuf_allocated s - dbuf_size s < 1 then dbuf_put alloc s [val]
      else (0, s\<lparr>dbuf_mem := (dbuf_mem s)[dbuf_size s := val], dbuf_size := dbuf_size s + 1\<rparr>))"

definition dbuf_put_u16 :: "(nat \<Rightarrow> bool) \<Rightarrow> dynbuf \<Rightarrow> u16 \<Rightarrow> int \<times> dynbuf" where
  "dbuf_put_u16 alloc s val =
     (if dbuf_allocated s - dbuf_size s < 2 then dbuf_put alloc s (le16 val)
      else (0, s\<lparr>dbuf_mem := put_u16 (dbuf_mem s) (dbuf_size s) val, dbuf_size := dbuf_size s + 2\<rparr>))"

definition dbuf_put_u32 :: "(nat \<Rightarrow> bool) \<Rightarrow> dynbuf \<Rightarrow> u32 \<Rightarrow> int \<times> dynbuf" where
  "dbuf_put_u32 alloc s val =
     (if dbuf_allocated s - dbuf_size s < 4 then dbuf_put alloc s (le32 val)
      else (0, s\<lparr>dbuf_mem := put_u32 (dbuf_mem s) (dbuf_size s) val, dbuf_size := dbuf_size s + 4\<rparr>))"

definition dbuf_putstr :: "(nat \<Rightarrow> bool) \<Rightarrow> dynbuf \<Rightarrow> u8 list \<Rightarrow> int \<times> dynbuf" where
  "dbuf_putstr alloc s str = dbuf_put alloc s (cstr str)"

text \<open>\<^verbatim>\<open>dbuf_insert\<close> opens a gap of \<open>len\<close> bytes; the bytes of the gap keep their old value.\<close>

definition dbuf_insert :: "(nat \<Rightarrow> bool) \<Rightarrow> dynbuf \<Rightarrow> nat \<Rightarrow> nat \<Rightarrow> int \<times> dynbuf" where
  "dbuf_insert alloc s pos len =
     (let (rc, s) = dbuf_claim alloc s len in
      if rc \<noteq> 0 then (- 1, s)
      else (0, s\<lparr>dbuf_mem := mem_move (dbuf_mem s) (pos + len) pos (dbuf_size s - pos),
                 dbuf_size := dbuf_size s + len\<rparr>))"

definition dbuf_free :: "dynbuf \<Rightarrow> dynbuf" where
  "dbuf_free s = dbuf_init2"

section \<open>The buffer as an appendable byte string\<close>

lemma dbuf_init_wf: "dbuf_wf dbuf_init2" "dbuf_content dbuf_init2 = []"
  by (simp_all add: dbuf_wf_def dbuf_init2_def dbuf_content_def)

lemma dbuf_claim_cases:
  assumes wf: "dbuf_wf s" and claim: "dbuf_claim alloc s len = (rc, s')"
  shows "dbuf_wf s'" and "dbuf_content s' = dbuf_content s" and "dbuf_size s' = dbuf_size s"
    and "rc = 0 \<Longrightarrow> dbuf_size s + len \<le> dbuf_allocated s'" and "rc = 0 \<or> rc = - 1"
    and "rc = 0 \<Longrightarrow> dbuf_err s' = dbuf_err s"
proof -
  have size: "dbuf_size s < 2 ^ 64" using wf by (simp add: dbuf_wf_def)
  have no_wrap: "dbuf_size s + len < 2 ^ 64" if "\<not> (dbuf_size s + len) mod 2 ^ 64 < len"
  proof (rule ccontr)
    assume over: "\<not> dbuf_size s + len < 2 ^ 64"
    show False
    proof (cases "len < 2 ^ 64")
      case True
      then have "(dbuf_size s + len) mod 2 ^ 64 = dbuf_size s + len - 2 ^ 64"
        using over size by (simp add: le_mod_geq)
      with that True size over show False by simp
    next
      case False
      moreover have "(dbuf_size s + len) mod 2 ^ 64 < 2 ^ 64" by simp
      ultimately show False using that by linarith
    qed
  qed
  show "dbuf_wf s'" "dbuf_content s' = dbuf_content s" "dbuf_size s' = dbuf_size s"
      "rc = 0 \<Longrightarrow> dbuf_size s + len \<le> dbuf_allocated s'" "rc = 0 \<or> rc = - 1"
      "rc = 0 \<Longrightarrow> dbuf_err s' = dbuf_err s"
    using wf claim no_wrap
    by (auto simp: dbuf_claim_def dbuf_wf_def dbuf_content_def Let_def split: if_splits)
qed

lemma dbuf_put_cases:
  assumes wf: "dbuf_wf s" and put: "dbuf_put alloc s data = (rc, s')"
  shows "dbuf_wf s'" and "rc = 0 \<or> rc = - 1"
    and "rc = 0 \<Longrightarrow> dbuf_content s' = dbuf_content s @ data"
    and "rc \<noteq> 0 \<Longrightarrow> dbuf_content s' = dbuf_content s"
proof -
  obtain rc0 s0 where s0: "(if dbuf_allocated s - dbuf_size s < length data
      then dbuf_claim alloc s (length data) else (0, s)) = (rc0, s0)"
    by fastforce
  have room: "dbuf_size s + length data \<le> dbuf_allocated s"
    if "\<not> dbuf_allocated s - dbuf_size s < length data"
    using that wf unfolding dbuf_wf_def by arith
  have facts: "dbuf_wf s0 \<and> dbuf_content s0 = dbuf_content s \<and> dbuf_size s0 = dbuf_size s \<and>
      (rc0 = 0 \<longrightarrow> dbuf_size s + length data \<le> dbuf_allocated s0) \<and> (rc0 = 0 \<or> rc0 = - 1)"
    using s0 wf room dbuf_claim_cases [OF wf, of alloc "length data" rc0 s0]
    by (cases "dbuf_allocated s - dbuf_size s < length data") auto
  show "dbuf_wf s'" "rc = 0 \<or> rc = - 1"
      "rc = 0 \<Longrightarrow> dbuf_content s' = dbuf_content s @ data"
      "rc \<noteq> 0 \<Longrightarrow> dbuf_content s' = dbuf_content s"
    using put facts
    by (auto simp: dbuf_put_def s0 dbuf_wf_def length_mem_write dbuf_content_def take_mem_write_end
        split: if_splits)
qed

text \<open>The inlined fast paths do what the general append does.\<close>

lemma list_update_mem_write: "p < length m \<Longrightarrow> m[p := v] = mem_write m p [v]"
  by (simp add: mem_write_def upd_conv_take_nth_drop)

lemma dbuf_putc_eq: "dbuf_wf s \<Longrightarrow> dbuf_putc alloc s v = dbuf_put alloc s [v]"
  by (auto simp: dbuf_putc_def dbuf_put_def Let_def dbuf_wf_def list_update_mem_write)

lemma dbuf_put_u16_eq: "dbuf_put_u16 alloc s v = dbuf_put alloc s (le16 v)"
  by (auto simp: dbuf_put_u16_def dbuf_put_def Let_def put_u16_def le16_def)

lemma dbuf_put_u32_eq: "dbuf_put_u32 alloc s v = dbuf_put alloc s (le32 v)"
  by (auto simp: dbuf_put_u32_def dbuf_put_def Let_def put_u32_def le32_def)

text \<open>What a client of an append-only buffer relies on.\<close>

locale appender =
  fixes wf :: "'s \<Rightarrow> bool"
    and content :: "'s \<Rightarrow> u8 list"
    and put :: "'s \<Rightarrow> 'v \<Rightarrow> int \<times> 's"
    and enc :: "'v \<Rightarrow> u8 list"
  assumes put_wf: "wf s \<Longrightarrow> put s v = (rc, s') \<Longrightarrow> wf s'"
    and put_ok: "wf s \<Longrightarrow> put s v = (0, s') \<Longrightarrow> content s' = content s @ enc v"
    and put_fail: "wf s \<Longrightarrow> put s v = (rc, s') \<Longrightarrow> rc \<noteq> 0 \<Longrightarrow> rc = - 1 \<and> content s' = content s"
begin

text \<open>A sequence of writes that ignores the status of each, as the emitters do.\<close>

primrec put_all :: "'s \<Rightarrow> 'v list \<Rightarrow> 's" where
  "put_all s [] = s"
| "put_all s (v # vs) = put_all (snd (put s v)) vs"

lemma put_snd_wf: "wf s \<Longrightarrow> wf (snd (put s v))"
  using put_wf by (metis prod.collapse)

lemma put_prefix: "wf s \<Longrightarrow> \<exists>t. content (snd (put s v)) = content s @ t \<and> set t \<subseteq> set (enc v)"
  using put_ok put_fail by (metis append_Nil2 empty_subsetI list.set(1) order_refl prod.collapse)

lemma put_all_wf: "wf s \<Longrightarrow> wf (put_all s vs)"
  by (induction vs arbitrary: s) (auto intro: put_snd_wf)

lemma put_all_prefix: "wf s \<Longrightarrow> \<exists>t. content (put_all s vs) = content s @ t"
proof (induction vs arbitrary: s)
  case Nil
  then show ?case by simp
next
  case (Cons v vs)
  obtain t where "content (snd (put s v)) = content s @ t"
    using put_prefix [OF Cons.prems] by blast
  with Cons.IH [OF put_snd_wf [OF Cons.prems], of v] show ?case by auto
qed

end

interpretation bytes: appender dbuf_wf dbuf_content "dbuf_put alloc" "\<lambda>d. d" for alloc
  by unfold_locales (auto dest: dbuf_put_cases)

interpretation byte1: appender dbuf_wf dbuf_content "dbuf_putc alloc" "\<lambda>c. [c]" for alloc
  by unfold_locales (auto simp: dbuf_putc_eq dest: dbuf_put_cases)

interpretation half: appender dbuf_wf dbuf_content "dbuf_put_u16 alloc" le16 for alloc
  by unfold_locales (auto simp: dbuf_put_u16_eq dest: dbuf_put_cases)

interpretation word: appender dbuf_wf dbuf_content "dbuf_put_u32 alloc" le32 for alloc
  by unfold_locales (auto simp: dbuf_put_u32_eq dest: dbuf_put_cases)

lemma dbuf_insert_cases:
  assumes wf: "dbuf_wf s" and pos: "pos \<le> dbuf_size s"
    and ins: "dbuf_insert alloc s pos len = (rc, s')"
  shows "dbuf_wf s'" and "rc = 0 \<or> rc = - 1"
    and "rc = 0 \<Longrightarrow> \<exists>gap. length gap = len \<and>
      dbuf_content s' = take pos (dbuf_content s) @ gap @ drop pos (dbuf_content s)"
    and "rc \<noteq> 0 \<Longrightarrow> dbuf_content s' = dbuf_content s"
proof -
  obtain rc0 s0 where s0: "dbuf_claim alloc s len = (rc0, s0)" by fastforce
  note c = dbuf_claim_cases [OF wf s0]
  have mem: "take (dbuf_size s0) (dbuf_mem s0) = dbuf_content s"
    using c(2) by (simp add: dbuf_content_def)
  show "dbuf_wf s'" "rc = 0 \<or> rc = - 1" "rc \<noteq> 0 \<Longrightarrow> dbuf_content s' = dbuf_content s"
    using ins c wf pos
    by (auto simp: dbuf_insert_def s0 dbuf_wf_def mem_move_def length_mem_write split: if_splits)
  assume "rc = 0"
  with ins c have rc0: "rc0 = 0" and room: "dbuf_size s + len \<le> length (dbuf_mem s0)"
    and sz: "dbuf_size s0 = dbuf_size s"
    by (auto simp: dbuf_insert_def s0 dbuf_wf_def split: if_splits)
  have "s' = s0\<lparr>dbuf_mem := mem_move (dbuf_mem s0) (pos + len) pos (dbuf_size s0 - pos),
      dbuf_size := dbuf_size s0 + len\<rparr>"
    using ins rc0 by (simp add: dbuf_insert_def s0)
  moreover define mem where "mem = dbuf_mem s0"
  ultimately have "dbuf_content s' = take (pos + len) mem @ take (dbuf_size s - pos) (drop pos mem)"
    using room pos sz by (simp add: dbuf_content_def mem_move_def mem_write_def)
  also have "take (pos + len) mem = take pos mem @ take len (drop pos mem)"
    by (simp add: take_add)
  also have "take pos mem = take pos (dbuf_content s)"
    using pos mem sz by (metis mem_def min.absorb1 take_take)
  also have "take (dbuf_size s - pos) (drop pos mem) = drop pos (dbuf_content s)"
    using mem sz by (metis drop_take mem_def)
  finally show "\<exists>gap. length gap = len \<and>
      dbuf_content s' = take pos (dbuf_content s) @ gap @ drop pos (dbuf_content s)"
    using room pos by (intro exI [of _ "take len (drop pos mem)"]) (simp add: mem_def)
qed

end
