(* ===== verification/CharRange.thy ===== *)
theory CharRange
  imports Cutils
begin

text \<open>
  The character ranges of \<^verbatim>\<open>libregexp/libunicode.c\<close> and \<^verbatim>\<open>libunicode.h\<close>: a set of code
  points kept as the sorted bounds \<open>[a0, b0, a1, b1, ...]\<close> of the half-open intervals
  \<open>[a0, b0), [a1, b1), ...\<close>, with union, intersection, difference, symmetric difference and
  complement as merges of the bounds.

  \<open>cr_points\<close> holds the \<^verbatim>\<open>len\<close> valid points, \<open>cr_size\<close> is the allocated number. The
  reallocation callback is the argument \<open>alloc\<close>, the success of a request for that many
  bytes; \<open>None\<close> is the status -1, after which every caller frees the range.
\<close>

record char_range =
  cr_points :: "u32 list"
  cr_size :: nat

datatype cr_op_enum = CR_OP_UNION | CR_OP_INTER | CR_OP_XOR | CR_OP_SUB

definition cr_init :: char_range where
  "cr_init = \<lparr>cr_points = [], cr_size = 0\<rparr>"

definition cr_realloc :: "(nat \<Rightarrow> bool) \<Rightarrow> char_range \<Rightarrow> nat \<Rightarrow> char_range option" where
  "cr_realloc alloc cr n =
     (if n > cr_size cr then
        let new_size = nat (max_int (int n) (int (cr_size cr * 3 div 2))) in
        if alloc (new_size * 4) then Some (cr\<lparr>cr_size := new_size\<rparr>) else None
      else Some cr)"

definition cr_copy :: "(nat \<Rightarrow> bool) \<Rightarrow> char_range \<Rightarrow> char_range \<Rightarrow> char_range option" where
  "cr_copy alloc cr cr1 =
     (case cr_realloc alloc cr (length (cr_points cr1)) of
        None \<Rightarrow> None
      | Some cr \<Rightarrow> Some (cr\<lparr>cr_points := cr_points cr1\<rparr>))"

definition cr_add_point :: "(nat \<Rightarrow> bool) \<Rightarrow> char_range \<Rightarrow> u32 \<Rightarrow> char_range option" where
  "cr_add_point alloc cr v =
     (case (if length (cr_points cr) \<ge> cr_size cr
            then cr_realloc alloc cr (length (cr_points cr) + 1) else Some cr) of
        None \<Rightarrow> None
      | Some cr \<Rightarrow> Some (cr\<lparr>cr_points := cr_points cr @ [v]\<rparr>))"

definition cr_add_interval :: "(nat \<Rightarrow> bool) \<Rightarrow> char_range \<Rightarrow> u32 \<Rightarrow> u32 \<Rightarrow> char_range option" where
  "cr_add_interval alloc cr c1 c2 =
     (case (if length (cr_points cr) + 2 > cr_size cr
            then cr_realloc alloc cr (length (cr_points cr) + 2) else Some cr) of
        None \<Rightarrow> None
      | Some cr \<Rightarrow> Some (cr\<lparr>cr_points := cr_points cr @ [c1, c2]\<rparr>))"

section \<open>Compression\<close>

text \<open>The inner loop of \<^verbatim>\<open>cr_compress\<close> moves \<open>j\<close> to the last interval of a touching run.\<close>

function cr_compress_run :: "u32 list \<Rightarrow> nat \<Rightarrow> nat \<Rightarrow> nat" where
  "cr_compress_run pt len j =
     (if j + 3 < len \<and> pt ! (j + 1) = pt ! (j + 2) then cr_compress_run pt len (j + 2) else j)"
  by pat_completeness auto
termination by (relation "measure (\<lambda>(pt, len, j). len - j)") auto

declare cr_compress_run.simps [simp del]

lemma cr_compress_run_ge: "j \<le> cr_compress_run pt len j"
proof (induction pt len j rule: cr_compress_run.induct)
  case (1 pt len j)
  then show ?case by (subst cr_compress_run.simps) auto
qed

text \<open>The outer loop works in place: reads at \<open>i\<close> and above, writes at \<open>k\<close> and \<open>k + 1\<close>.\<close>

function cr_compress_loop :: "u32 list \<Rightarrow> nat \<Rightarrow> nat \<Rightarrow> nat \<Rightarrow> u32 list \<times> nat" where
  "cr_compress_loop pt len i k =
     (if i + 1 < len then
        if pt ! i = pt ! (i + 1) then cr_compress_loop pt len (i + 2) k
        else let j = cr_compress_run pt len i;
                 pt = pt[k := pt ! i];
                 pt = pt[k + 1 := pt ! (j + 1)]
             in cr_compress_loop pt len (j + 2) (k + 2)
      else (pt, k))"
  by pat_completeness auto
termination
proof (relation "measure (\<lambda>(pt, len, i, k). len - i)", goal_cases)
  case (3 pt len i k)
  then show ?case using cr_compress_run_ge [of i pt len] by simp
qed auto

declare cr_compress_loop.simps [simp del]

definition cr_compress :: "char_range \<Rightarrow> char_range" where
  "cr_compress cr =
     (case cr_compress_loop (cr_points cr) (length (cr_points cr)) 0 0 of
        (pt, k) \<Rightarrow> cr\<lparr>cr_points := take k pt\<rparr>)"

section \<open>Set operations\<close>

text \<open>
  One more point of \<open>a\<close> or \<open>b\<close> in increasing order, with the two indices after it;
  \<open>None\<close> when both are used up.
\<close>

definition cr_op_next ::
  "u32 list \<Rightarrow> u32 list \<Rightarrow> nat \<Rightarrow> nat \<Rightarrow> (u32 \<times> nat \<times> nat) option" where
  "cr_op_next a_pt b_pt a_idx b_idx =
     (if a_idx < length a_pt \<and> b_idx < length b_pt then
        if a_pt ! a_idx < b_pt ! b_idx then Some (a_pt ! a_idx, a_idx + 1, b_idx)
        else if a_pt ! a_idx = b_pt ! b_idx then Some (a_pt ! a_idx, a_idx + 1, b_idx + 1)
        else Some (b_pt ! b_idx, a_idx, b_idx + 1)
      else if a_idx < length a_pt then Some (a_pt ! a_idx, a_idx + 1, b_idx)
      else if b_idx < length b_pt then Some (b_pt ! b_idx, a_idx, b_idx + 1)
      else None)"

fun cr_is_in :: "cr_op_enum \<Rightarrow> bool \<Rightarrow> bool \<Rightarrow> bool" where
  "cr_is_in CR_OP_UNION a b = (a \<or> b)"
| "cr_is_in CR_OP_INTER a b = (a \<and> b)"
| "cr_is_in CR_OP_XOR a b = (a \<noteq> b)"
| "cr_is_in CR_OP_SUB a b = (a \<and> \<not> b)"

lemma cr_op_next_progress:
  "cr_op_next a b i j = Some (v, i', j') \<Longrightarrow>
   (length a - i') + (length b - j') < (length a - i) + (length b - j)"
  by (auto simp: cr_op_next_def split: if_splits)

function cr_op_loop ::
  "(nat \<Rightarrow> bool) \<Rightarrow> u32 list \<Rightarrow> u32 list \<Rightarrow> cr_op_enum \<Rightarrow> nat \<Rightarrow> nat \<Rightarrow> char_range
    \<Rightarrow> char_range option" where
  "cr_op_loop alloc a_pt b_pt op a_idx b_idx cr =
     (case cr_op_next a_pt b_pt a_idx b_idx of
        None \<Rightarrow> Some cr
      | Some (v, a_idx, b_idx) \<Rightarrow>
          if cr_is_in op (odd a_idx) (odd b_idx) \<noteq> odd (length (cr_points cr)) then
            (case cr_add_point alloc cr v of
               None \<Rightarrow> None
             | Some cr \<Rightarrow> cr_op_loop alloc a_pt b_pt op a_idx b_idx cr)
          else cr_op_loop alloc a_pt b_pt op a_idx b_idx cr)"
  by pat_completeness auto
termination
proof (relation "measure (\<lambda>(alloc, a, b, op, i, j, cr). (length a - i) + (length b - j))", goal_cases)
  case 1
  then show ?case by simp
qed (use cr_op_next_progress in fastforce)+

declare cr_op_loop.simps [simp del]

definition cr_op ::
  "(nat \<Rightarrow> bool) \<Rightarrow> char_range \<Rightarrow> u32 list \<Rightarrow> u32 list \<Rightarrow> cr_op_enum \<Rightarrow> char_range option" where
  "cr_op alloc cr a_pt b_pt op =
     (case cr_op_loop alloc a_pt b_pt op 0 0 cr of
        None \<Rightarrow> None
      | Some cr \<Rightarrow> Some (cr_compress cr))"

definition cr_op1 ::
  "(nat \<Rightarrow> bool) \<Rightarrow> char_range \<Rightarrow> u32 list \<Rightarrow> cr_op_enum \<Rightarrow> char_range option" where
  "cr_op1 alloc cr b_pt op = cr_op alloc cr_init (cr_points cr) b_pt op"

definition cr_union_interval ::
  "(nat \<Rightarrow> bool) \<Rightarrow> char_range \<Rightarrow> u32 \<Rightarrow> u32 \<Rightarrow> char_range option" where
  "cr_union_interval alloc cr c1 c2 = cr_op1 alloc cr [c1, c2 + 1] CR_OP_UNION"

definition UINT32_MAX :: u32 where
  "UINT32_MAX = 0xFFFFFFFF"

definition cr_invert :: "(nat \<Rightarrow> bool) \<Rightarrow> char_range \<Rightarrow> char_range option" where
  "cr_invert alloc cr =
     (case cr_realloc alloc cr (length (cr_points cr) + 2) of
        None \<Rightarrow> None
      | Some cr \<Rightarrow> Some (cr_compress (cr\<lparr>cr_points := 0 # cr_points cr @ [UINT32_MAX]\<rparr>)))"

section \<open>The set of a list of bounds\<close>

fun cr_set :: "u32 list \<Rightarrow> u32 set" where
  "cr_set (a # b # pts) = {a..<b} \<union> cr_set pts"
| "cr_set pts = {}"

text \<open>
  \<open>cr_sorted\<close> is what the operations need of their arguments, \<open>cr_wf\<close> what they give: bounds
  strictly increasing, so intervals neither empty nor touching.
\<close>

definition cr_sorted :: "u32 list \<Rightarrow> bool" where
  "cr_sorted pts \<longleftrightarrow> sorted pts \<and> even (length pts)"

definition cr_wf :: "u32 list \<Rightarrow> bool" where
  "cr_wf pts \<longleftrightarrow> sorted_wrt (<) pts \<and> even (length pts)"

lemma cr_wf_sorted: "cr_wf pts \<Longrightarrow> cr_sorted pts"
  by (auto simp: cr_wf_def cr_sorted_def intro: strict_sorted_imp_sorted)

lemma cr_sorted_pair: "cr_sorted (a # b # pts) \<longleftrightarrow> a \<le> b \<and> (\<forall>p \<in> set pts. b \<le> p) \<and> cr_sorted pts"
  by (auto simp: cr_sorted_def)

lemma cr_wf_pair: "cr_wf (a # b # pts) \<longleftrightarrow> a < b \<and> (\<forall>p \<in> set pts. b < p) \<and> cr_wf pts"
  by (auto simp: cr_wf_def)

lemma pair_cases:
  assumes "even (length xs)"
  obtains "xs = []" | a b ys where "xs = a # b # ys"
  using assms by (cases xs; cases "tl xs") auto

text \<open>Membership by parity: the bounds at or below \<open>c\<close> are odd in number.\<close>

definition below :: "u32 \<Rightarrow> u32 list \<Rightarrow> nat" where
  "below c pts = length (filter (\<lambda>p. p \<le> c) pts)"

lemma below_simps [simp]:
  "below c [] = 0"
  "below c (p # pts) = (if p \<le> c then Suc (below c pts) else below c pts)"
  "below c (xs @ ys) = below c xs + below c ys"
  by (simp_all add: below_def)

lemma below_zero: "\<forall>p \<in> set pts. c < p \<Longrightarrow> below c pts = 0"
  by (auto simp: below_def filter_empty_conv)

lemma cr_set_below: "cr_sorted pts \<Longrightarrow> c \<in> cr_set pts \<longleftrightarrow> odd (below c pts)"
proof (induction pts rule: cr_set.induct)
  case (1 a b pts)
  then have ab: "a \<le> b" and above: "\<forall>p \<in> set pts. b \<le> p" and IH: "c \<in> cr_set pts \<longleftrightarrow> odd (below c pts)"
    by (auto simp: cr_sorted_pair)
  show ?case
  proof (cases "c < b")
    case True
    with above have "below c pts = 0" by (auto intro!: below_zero)
    with True ab IH show ?thesis by auto
  next
    case False
    with ab IH show ?thesis by auto
  qed
qed (auto simp: cr_sorted_def)

lemma cr_set_ge: "cr_sorted pts \<Longrightarrow> c \<in> cr_set pts \<Longrightarrow> \<exists>p \<in> set pts. p \<le> c"
  by (induction pts rule: cr_set.induct) (auto simp: cr_sorted_pair)

section \<open>Compression keeps the set\<close>

text \<open>The in-place loop, read as a function on the points not yet seen.\<close>

fun run_end :: "u32 \<Rightarrow> u32 list \<Rightarrow> u32 \<times> u32 list" where
  "run_end b (c # d # pts) = (if b = c then run_end d pts else (b, c # d # pts))"
| "run_end b pts = (b, pts)"

lemma run_end_length: "length (snd (run_end b pts)) \<le> length pts"
  by (induction b pts rule: run_end.induct) auto

function compress :: "u32 list \<Rightarrow> u32 list" where
  "compress (a # b # pts) =
     (if a = b then compress pts
      else a # fst (run_end b pts) # compress (snd (run_end b pts)))"
| "compress [] = []"
| "compress [p] = []"
  by pat_completeness auto
termination
  by (relation "measure length") (auto simp: less_Suc_eq_le intro: le_SucI run_end_length)

lemma cr_compress_run_end:
  "j + 1 < length pt \<Longrightarrow>
   run_end (pt ! (j + 1)) (drop (j + 2) pt) =
     (pt ! (cr_compress_run pt (length pt) j + 1), drop (cr_compress_run pt (length pt) j + 2) pt)"
proof (induction pt "length pt" j rule: cr_compress_run.induct)
  case (1 pt j)
  show ?case
  proof (cases "j + 3 < length pt")
    case True
    then have "drop (j + 2) pt = pt ! (j + 2) # pt ! (j + 3) # drop (j + 4) pt"
      by (simp add: Cons_nth_drop_Suc numeral_eq_Suc)
    with 1 True show ?thesis
      by (subst (1 2) cr_compress_run.simps) (simp add: numeral_eq_Suc)
  next
    case False
    have "run_end b ys = (b, ys)" if "length ys \<le> 1" for b ys
      using that by (cases "(b, ys)" rule: run_end.cases) auto
    then have "run_end (pt ! (j + 1)) (drop (j + 2) pt) = (pt ! (j + 1), drop (j + 2) pt)"
      using False by simp
    with False show ?thesis by (subst (1 2) cr_compress_run.simps) simp
  qed
qed

lemma cr_compress_run_less: "j + 1 < len \<Longrightarrow> cr_compress_run pt len j + 1 < len"
proof (induction pt len j rule: cr_compress_run.induct)
  case (1 pt len j)
  then show ?case by (subst cr_compress_run.simps) auto
qed

lemma cr_compress_loop_eq:
  assumes "k \<le> i" and "len = length pt"
  shows "case cr_compress_loop pt len i k of (pt', k') \<Rightarrow>
    take k' pt' = take k pt @ compress (drop i pt) \<and> length pt' = len"
  using assms
proof (induction pt len i k rule: cr_compress_loop.induct)
  case (1 pt len i k)
  show ?case
  proof (cases "i + 1 < len")
    case False
    then have "length (drop i pt) \<le> 1" using "1.prems" by simp
    then have "compress (drop i pt) = []"
      by (cases "drop i pt" rule: compress.cases) (simp_all del: length_drop)
    with False "1.prems" show ?thesis by (subst cr_compress_loop.simps) simp
  next
    case True
    then have dr: "drop i pt = pt ! i # pt ! (i + 1) # drop (i + 2) pt"
      using "1.prems" by (simp add: Cons_nth_drop_Suc)
    show ?thesis
    proof (cases "pt ! i = pt ! (i + 1)")
      case True
      with "1.IH"(1) [OF \<open>i + 1 < len\<close> True] "1.prems" dr \<open>i + 1 < len\<close> show ?thesis
        by (subst cr_compress_loop.simps) (simp add: case_prod_unfold)
    next
      case False
      define j where "j = cr_compress_run pt len i"
      define pt2 where "pt2 = (pt[k := pt ! i])[k + 1 := pt[k := pt ! i] ! (j + 1)]"
      have j: "i \<le> j" "j + 1 < len"
        using cr_compress_run_ge cr_compress_run_less \<open>i + 1 < len\<close> by (simp_all add: j_def)
      have "case cr_compress_loop pt2 len (j + 2) (k + 2) of (pt', k') \<Rightarrow>
          take k' pt' = take (k + 2) pt2 @ compress (drop (j + 2) pt2) \<and> length pt' = len"
        using "1.IH"(2) [OF \<open>i + 1 < len\<close> False j_def refl refl] "1.prems" j
        by (simp add: pt2_def)
      moreover have "take (k + 2) pt2 = take k pt @ [pt ! i, pt ! (j + 1)]"
        using "1.prems" j by (simp add: pt2_def take_Suc_conv_app_nth nth_append)
      moreover have "drop (j + 2) pt2 = drop (j + 2) pt"
        using "1.prems" j by (simp add: pt2_def)
      moreover have "compress (drop i pt) = pt ! i # pt ! (j + 1) # compress (drop (j + 2) pt)"
        using cr_compress_run_end [of i pt] \<open>i + 1 < len\<close> "1.prems"(2) False dr
        by (simp add: j_def)
      moreover have "cr_compress_loop pt len i k = cr_compress_loop pt2 len (j + 2) (k + 2)"
        using \<open>i + 1 < len\<close> False
        by (subst cr_compress_loop.simps) (simp add: j_def pt2_def Let_def)
      ultimately show ?thesis by simp
    qed
  qed
qed

lemma cr_compress_points: "cr_points (cr_compress cr) = compress (cr_points cr)"
  using cr_compress_loop_eq [of 0 0 "length (cr_points cr)" "cr_points cr"]
  by (simp add: cr_compress_def case_prod_unfold)

lemma run_end_set:
  assumes "cr_sorted (a # b # pts)"
  shows "cr_sorted (a # fst (run_end b pts) # snd (run_end b pts)) \<and>
    cr_set (a # fst (run_end b pts) # snd (run_end b pts)) = cr_set (a # b # pts) \<and>
    b \<le> fst (run_end b pts) \<and> (\<forall>p \<in> set (snd (run_end b pts)). fst (run_end b pts) < p)"
  using assms
proof (induction b pts rule: run_end.induct)
  case (1 b c d pts)
  show ?case
  proof (cases "b = c")
    case True
    with "1.prems" have "cr_sorted (a # d # pts)" by (auto simp: cr_sorted_pair)
    with "1.IH" True have "cr_sorted (a # fst (run_end d pts) # snd (run_end d pts)) \<and>
        cr_set (a # fst (run_end d pts) # snd (run_end d pts)) = cr_set (a # d # pts) \<and>
        d \<le> fst (run_end d pts) \<and> (\<forall>p \<in> set (snd (run_end d pts)). fst (run_end d pts) < p)"
      by simp
    moreover have "cr_set (a # d # pts) = cr_set (a # b # c # d # pts)"
      using True "1.prems" by (auto simp: cr_sorted_pair)
    ultimately show ?thesis using True "1.prems" by (auto simp: cr_sorted_pair)
  next
    case False
    with "1.prems" show ?thesis by (auto simp: cr_sorted_pair)
  qed
qed (auto simp: cr_sorted_def)

lemma compress_subset: "cr_sorted pts \<Longrightarrow> p \<in> set (compress pts) \<Longrightarrow> \<exists>q \<in> set pts. q \<le> p"
proof (induction pts rule: compress.induct)
  case (1 a b pts)
  show ?case
  proof (cases "a = b")
    case True
    with 1 show ?thesis by (auto simp: cr_sorted_pair)
  next
    case False
    note re = run_end_set [OF "1.prems"(1)]
    then have "cr_sorted (snd (run_end b pts))" by (simp add: cr_sorted_pair)
    with 1 False re show ?thesis by (fastforce simp: cr_sorted_pair)
  qed
qed simp_all

lemma compress_wf: "cr_sorted pts \<Longrightarrow> cr_wf (compress pts) \<and> cr_set (compress pts) = cr_set pts"
proof (induction pts rule: compress.induct)
  case (1 a b pts)
  show ?case
  proof (cases "a = b")
    case True
    with 1 show ?thesis by (auto simp: cr_sorted_pair)
  next
    case False
    note re = run_end_set [OF "1.prems"(1)]
    then have srt: "cr_sorted (snd (run_end b pts))" by (simp add: cr_sorted_pair)
    have "a < fst (run_end b pts)" using False re "1.prems" by (auto simp: cr_sorted_pair)
    moreover have "\<forall>p \<in> set (compress (snd (run_end b pts))). fst (run_end b pts) < p"
      using compress_subset [OF srt] re by (meson less_le_trans)
    ultimately show ?thesis
      using "1.IH"(2) [OF False srt] False re by (simp add: cr_wf_pair)
  qed
qed (simp_all add: cr_wf_def cr_sorted_def)

section \<open>The merge of two bound lists\<close>

text \<open>The points that the loop emits from a state, as a function of the points not yet read.\<close>

fun op_points :: "(bool \<Rightarrow> bool \<Rightarrow> bool) \<Rightarrow> bool \<Rightarrow> bool \<Rightarrow> u32 list \<Rightarrow> u32 list \<Rightarrow> u32 list" where
  "op_points f p q [] [] = []"
| "op_points f p q (x # xs) [] =
     (if f (\<not> p) q \<noteq> f p q then [x] else []) @ op_points f (\<not> p) q xs []"
| "op_points f p q [] (y # ys) =
     (if f p (\<not> q) \<noteq> f p q then [y] else []) @ op_points f p (\<not> q) [] ys"
| "op_points f p q (x # xs) (y # ys) =
     (if x < y then (if f (\<not> p) q \<noteq> f p q then [x] else []) @ op_points f (\<not> p) q xs (y # ys)
      else if x = y then (if f (\<not> p) (\<not> q) \<noteq> f p q then [x] else []) @ op_points f (\<not> p) (\<not> q) xs ys
      else (if f p (\<not> q) \<noteq> f p q then [y] else []) @ op_points f p (\<not> q) (x # xs) ys)"

lemma op_points_subset: "set (op_points f p q xs ys) \<subseteq> set xs \<union> set ys"
  by (induction f p q xs ys rule: op_points.induct) auto

lemma sorted_emit:
  "sorted zs \<Longrightarrow> \<forall>z \<in> set zs. v \<le> z \<Longrightarrow> sorted ((if emit then [v] else []) @ zs)"
  by simp

lemma op_points_ge:
  "\<forall>z \<in> set xs \<union> set ys. v \<le> z \<Longrightarrow> \<forall>z \<in> set (op_points f p q xs ys). v \<le> z"
  using op_points_subset by blast

lemma op_points_sorted: "sorted xs \<Longrightarrow> sorted ys \<Longrightarrow> sorted (op_points f p q xs ys)"
proof (induction f p q xs ys rule: op_points.induct)
  case (4 f p q x xs y ys)
  consider "x < y" | "x = y" | "y < x" by force
  then show ?case
  proof cases
    case 1
    have "\<forall>z \<in> set (op_points f (\<not> p) q xs (y # ys)). x \<le> z"
      by (rule op_points_ge) (use "4.prems" 1 in auto)
    from sorted_emit [OF _ this] "4.IH"(1) [OF 1] "4.prems" 1 show ?thesis by simp
  next
    case 2
    have "\<forall>z \<in> set (op_points f (\<not> p) (\<not> q) xs ys). x \<le> z"
      by (rule op_points_ge) (use "4.prems" 2 in auto)
    with "4.IH"(2) [OF _ 2] "4.prems" 2 show ?thesis by simp
  next
    case 3
    have "\<forall>z \<in> set (op_points f p (\<not> q) (x # xs) ys). y \<le> z"
      by (rule op_points_ge) (use "4.prems" 3 in auto)
    moreover have "\<not> x < y" "x \<noteq> y" using 3 by auto
    ultimately show ?thesis using "4.IH"(3) "4.prems" by simp
  qed
next
  case (2 f p q x xs)
  have "\<forall>z \<in> set (op_points f (\<not> p) q xs []). x \<le> z"
    by (rule op_points_ge) (use "2.prems" in auto)
  from sorted_emit [OF _ this] 2 show ?case by simp
next
  case (3 f p q y ys)
  have "\<forall>z \<in> set (op_points f p (\<not> q) [] ys). y \<le> z"
    by (rule op_points_ge) (use "3.prems" in auto)
  from sorted_emit [OF _ this] 3 show ?case by simp
qed simp

text \<open>
  The parity of the emitted points at or below \<open>c\<close> says whether the in/out status at \<open>c\<close>
  differs from the status at the start. With no bound on \<open>c\<close> it gives the total length.
\<close>

lemma below_op_points:
  "sorted xs \<Longrightarrow> sorted ys \<Longrightarrow>
   odd (below c (op_points f p q xs ys)) \<longleftrightarrow>
     f (p \<noteq> odd (below c xs)) (q \<noteq> odd (below c ys)) \<noteq> f p q"
proof (induction f p q xs ys rule: op_points.induct)
  case (4 f p q x xs y ys)
  have above: "below c zs = 0" if "sorted (z # zs)" "c < z" for z zs
    using that by (auto intro!: below_zero)
  show ?case
  proof (cases "x < y \<and> c < x \<or> y < x \<and> c < y \<or> x = y \<and> c < x")
    case True
    then have "below c (x # xs) = 0" "below c (y # ys) = 0"
      using 4 by (auto simp: above intro!: below_zero)
    moreover have "\<forall>z \<in> set (op_points f p q (x # xs) (y # ys)). c < z"
      using op_points_subset [of f p q "x # xs" "y # ys"] True "4.prems" by fastforce
    then have "below c (op_points f p q (x # xs) (y # ys)) = 0" by (rule below_zero)
    ultimately show ?thesis by simp
  next
    case False
    then consider "x < y" "x \<le> c" | "x = y" "x \<le> c" | "y < x" "y \<le> c" by force
    then show ?thesis using 4 by cases auto
  qed
next
  case (2 f p q x xs)
  show ?case
  proof (cases "x \<le> c")
    case True with 2 show ?thesis by auto
  next
    case False
    then have "below c xs = 0" using 2 by (auto intro!: below_zero)
    moreover have "below c (op_points f (\<not> p) q xs []) = 0"
      using op_points_subset [of f "\<not> p" q xs "[]"] False "2.prems" by (fastforce intro!: below_zero)
    ultimately show ?thesis using False by simp
  qed
next
  case (3 f p q y ys)
  show ?case
  proof (cases "y \<le> c")
    case True with 3 show ?thesis by auto
  next
    case False
    then have "below c ys = 0" using 3 by (auto intro!: below_zero)
    moreover have "below c (op_points f p (\<not> q) [] ys) = 0"
      using op_points_subset [of f p "\<not> q" "[]" ys] False "3.prems" by (fastforce intro!: below_zero)
    ultimately show ?thesis using False by simp
  qed
qed simp

lemma below_all: "below (- 1) pts = length pts"
  by (simp add: below_def)

lemma op_points_even:
  assumes "cr_sorted xs" and "cr_sorted ys"
  shows "even (length (op_points f False False xs ys))"
  using below_op_points [of xs ys "- 1" f False False] assms by (simp add: below_all cr_sorted_def)

lemma op_points_set:
  assumes "cr_sorted xs" and "cr_sorted ys" and "\<not> f False False"
  shows "cr_sorted (op_points f False False xs ys)"
    and "c \<in> cr_set (op_points f False False xs ys) \<longleftrightarrow> f (c \<in> cr_set xs) (c \<in> cr_set ys)"
proof -
  show srt: "cr_sorted (op_points f False False xs ys)"
    using assms op_points_even [of xs ys f] op_points_sorted [of xs ys f] by (simp add: cr_sorted_def)
  show "c \<in> cr_set (op_points f False False xs ys) \<longleftrightarrow> f (c \<in> cr_set xs) (c \<in> cr_set ys)"
    using assms below_op_points [of xs ys c f False False]
    by (simp add: cr_set_below srt) (simp add: cr_sorted_def)
qed

text \<open>The loop over indices emits exactly these points.\<close>

lemma cr_add_point_points: "cr_add_point alloc cr v = Some cr' \<Longrightarrow> cr_points cr' = cr_points cr @ [v]"
  by (auto simp: cr_add_point_def cr_realloc_def Let_def split: option.splits if_splits)

lemma cr_add_point_ok: "cr_add_point (\<lambda>_. True) cr v \<noteq> None"
  by (auto simp: cr_add_point_def cr_realloc_def Let_def split: option.splits)

lemma drop_at: "i < length xs \<Longrightarrow> drop i xs = xs ! i # drop (Suc i) xs"
  by (simp add: Cons_nth_drop_Suc)

lemma cr_op_next_points:
  "op_points f (odd i) (odd j) (drop i a) (drop j b) =
    (case cr_op_next a b i j of
       None \<Rightarrow> []
     | Some (v, i', j') \<Rightarrow>
         (if f (odd i') (odd j') \<noteq> f (odd i) (odd j) then [v] else []) @
         op_points f (odd i') (odd j') (drop i' a) (drop j' b))"
  by (auto simp: cr_op_next_def drop_at not_less)

lemma cr_op_loop_points:
  assumes "cr_is_in op (odd i) (odd j) = odd (length (cr_points cr))"
    and "cr_op_loop alloc a b op i j cr = Some cr'"
  shows "cr_points cr' = cr_points cr @ op_points (cr_is_in op) (odd i) (odd j) (drop i a) (drop j b)"
  using assms
proof (induction alloc a b op i j cr rule: cr_op_loop.induct)
  case (1 alloc a b op i j cr)
  show ?case
  proof (cases "cr_op_next a b i j")
    case None
    with "1.prems" show ?thesis
      by (subst cr_op_next_points) (simp add: cr_op_loop.simps [of alloc a b op i j cr])
  next
    case (Some t)
    obtain v i' j' where t: "t = (v, i', j')" by (cases t)
    note nxt = Some [unfolded t]
    have unf: "cr_op_loop alloc a b op i j cr =
        (if cr_is_in op (odd i') (odd j') \<noteq> odd (length (cr_points cr)) then
           (case cr_add_point alloc cr v of None \<Rightarrow> None
            | Some cr \<Rightarrow> cr_op_loop alloc a b op i' j' cr)
         else cr_op_loop alloc a b op i' j' cr)"
      by (subst cr_op_loop.simps) (simp add: nxt)
    show ?thesis
    proof (cases "cr_is_in op (odd i') (odd j') \<noteq> odd (length (cr_points cr))")
      case True
      with "1.prems"(2) unf obtain cr1 where add: "cr_add_point alloc cr v = Some cr1"
        and rest: "cr_op_loop alloc a b op i' j' cr1 = Some cr'"
        by (auto split: option.splits)
      note p1 = cr_add_point_points [OF add]
      have "cr_points cr' = cr_points cr1 @ op_points (cr_is_in op) (odd i') (odd j') (drop i' a) (drop j' b)"
        using "1.IH"(1) [OF nxt refl refl True add] rest p1 True by simp
      with p1 True "1.prems"(1) show ?thesis
        by (subst cr_op_next_points) (simp add: nxt)
    next
      case False
      with "1.IH"(2) [OF nxt refl refl False] "1.prems" unf
      have "cr_points cr' = cr_points cr @ op_points (cr_is_in op) (odd i') (odd j') (drop i' a) (drop j' b)"
        by simp
      with False "1.prems"(1) show ?thesis
        by (subst cr_op_next_points) (simp add: nxt)
    qed
  qed
qed

lemma cr_op_loop_ok: "cr_op_loop (\<lambda>_. True) a b op i j cr \<noteq> None"
proof (induction "\<lambda>_ :: nat. True" a b op i j cr rule: cr_op_loop.induct)
  case (1 a b op i j cr)
  then show ?case
    using cr_add_point_ok
    by (subst cr_op_loop.simps) (fastforce split: option.splits prod.splits)
qed

section \<open>The operations on sets\<close>

lemma cr_op_wf:
  assumes "cr_points cr = []" and "cr_sorted a" and "cr_sorted b"
    and "cr_op alloc cr a b op = Some cr'"
  shows "cr_wf (cr_points cr')"
    and "cr_set (cr_points cr') = {c. cr_is_in op (c \<in> cr_set a) (c \<in> cr_set b)}"
proof -
  from assms(4) obtain cr1 where lp: "cr_op_loop alloc a b op 0 0 cr = Some cr1"
    and cr': "cr' = cr_compress cr1"
    by (auto simp: cr_op_def split: option.splits)
  have start: "\<not> cr_is_in op False False" by (cases op) simp_all
  have pts: "cr_points cr1 = op_points (cr_is_in op) False False a b"
    using cr_op_loop_points [OF _ lp] start assms(1) by simp
  note ops = op_points_set [where f = "cr_is_in op", OF assms(2,3) start]
  show "cr_wf (cr_points cr')"
    "cr_set (cr_points cr') = {c. cr_is_in op (c \<in> cr_set a) (c \<in> cr_set b)}"
    using compress_wf [OF ops(1)] ops(2) by (auto simp: cr' cr_compress_points pts)
qed

lemma cr_op_ok: "\<exists>cr'. cr_op (\<lambda>_. True) cr a b op = Some cr'"
  using cr_op_loop_ok [of a b op 0 0 cr] by (auto simp: cr_op_def)

lemma UINT32_MAX_top: "v \<le> UINT32_MAX"
proof -
  have "unat v < 2 ^ LENGTH(32)" by (rule unsigned_less)
  then show ?thesis by (simp add: UINT32_MAX_def word_le_nat_alt)
qed

lemma cr_set_max: "cr_set pts \<subseteq> {..<UINT32_MAX}"
proof (induction pts rule: cr_set.induct)
  case (1 a b pts)
  have "{a..<b} \<subseteq> {..<UINT32_MAX}" using UINT32_MAX_top by (auto intro: less_le_trans)
  with 1 show ?case by simp
qed simp_all

lemma cr_set_snoc_pair: "even (length pts) \<Longrightarrow> cr_set (pts @ [a, b]) = cr_set pts \<union> {a..<b}"
  by (induction pts rule: cr_set.induct) auto

lemma cr_invert_sorted:
  assumes "cr_sorted pts"
  shows "cr_sorted (0 # pts @ [UINT32_MAX])"
  using assms by (auto simp: cr_sorted_def sorted_append UINT32_MAX_top)

lemma cr_invert_set:
  assumes "cr_sorted pts"
  shows "cr_set (0 # pts @ [UINT32_MAX]) = {..<UINT32_MAX} - cr_set pts"
proof (rule set_eqI)
  fix c
  have "c \<in> cr_set (0 # pts @ [UINT32_MAX]) \<longleftrightarrow> odd (Suc (below c pts) + (if UINT32_MAX \<le> c then 1 else 0))"
    by (simp add: cr_set_below cr_invert_sorted assms)
  moreover have "even (below c pts)" if "UINT32_MAX \<le> c"
  proof -
    have "c \<notin> cr_set pts" using that cr_set_max [of pts] by fastforce
    then show ?thesis using assms by (simp add: cr_set_below)
  qed
  ultimately show "c \<in> cr_set (0 # pts @ [UINT32_MAX]) \<longleftrightarrow> c \<in> {..<UINT32_MAX} - cr_set pts"
    using assms by (auto simp: cr_set_below not_le)
qed

lemma cr_realloc_points: "cr_realloc alloc cr n = Some cr' \<Longrightarrow> cr_points cr' = cr_points cr"
  by (auto simp: cr_realloc_def Let_def split: if_splits)

lemma cr_invert_wf:
  assumes "cr_sorted (cr_points cr)" and "cr_invert alloc cr = Some cr'"
  shows "cr_wf (cr_points cr')" and "cr_set (cr_points cr') = {..<UINT32_MAX} - cr_set (cr_points cr)"
proof -
  from assms(2) obtain cr1 where "cr_points cr1 = cr_points cr"
    and "cr' = cr_compress (cr1\<lparr>cr_points := 0 # cr_points cr1 @ [UINT32_MAX]\<rparr>)"
    by (auto simp: cr_invert_def dest: cr_realloc_points split: option.splits)
  with compress_wf [OF cr_invert_sorted [OF assms(1)]] cr_invert_set [OF assms(1)]
  show "cr_wf (cr_points cr')" "cr_set (cr_points cr') = {..<UINT32_MAX} - cr_set (cr_points cr)"
    by (simp_all add: cr_compress_points)
qed

lemma cr_invert_ok: "\<exists>cr'. cr_invert (\<lambda>_. True) cr = Some cr'"
  by (auto simp: cr_invert_def cr_realloc_def Let_def)

text \<open>A set has one list of bounds: equality of ranges is equality of the points.\<close>

lemma cr_wf_head:
  assumes "cr_wf (a # b # xs)"
  shows "a \<in> cr_set (a # b # xs)" and "\<forall>c \<in> cr_set (a # b # xs). a \<le> c"
    and "b \<notin> cr_set (a # b # xs)" and "\<forall>c. a \<le> c \<longrightarrow> c < b \<longrightarrow> c \<in> cr_set (a # b # xs)"
proof -
  have xs: "cr_sorted xs" "\<forall>p \<in> set xs. b < p" and "a < b"
    using assms by (auto simp: cr_wf_pair intro: cr_wf_sorted)
  then show "a \<in> cr_set (a # b # xs)" "\<forall>c. a \<le> c \<longrightarrow> c < b \<longrightarrow> c \<in> cr_set (a # b # xs)" by auto
  show "\<forall>c \<in> cr_set (a # b # xs). a \<le> c" "b \<notin> cr_set (a # b # xs)"
    using xs \<open>a < b\<close> cr_set_ge [OF xs(1)] by (fastforce)+
qed

lemma cr_set_tail:
  assumes "cr_wf (a # b # xs)"
  shows "cr_set xs = cr_set (a # b # xs) - {a..<b}"
proof -
  have xs: "cr_sorted xs" "\<forall>p \<in> set xs. b < p"
    using assms by (auto simp: cr_wf_pair intro: cr_wf_sorted)
  have "b < c" if "c \<in> cr_set xs" for c
    using cr_set_ge [OF xs(1) that] xs(2) by (auto intro: less_le_trans)
  then show ?thesis by fastforce
qed

lemma cr_canonical: "cr_wf xs \<Longrightarrow> cr_wf ys \<Longrightarrow> cr_set xs = cr_set ys \<Longrightarrow> xs = ys"
proof (induction xs arbitrary: ys rule: cr_set.induct)
  case (1 a b xs)
  then obtain c d zs where ys: "ys = c # d # zs"
    by (metis cr_wf_def cr_set.simps(2) cr_wf_head(1) empty_iff pair_cases)
  note h = cr_wf_head [OF "1.prems"(1)]
  note k = cr_wf_head [OF "1.prems"(2) [unfolded ys]]
  have eq: "cr_set (a # b # xs) = cr_set (c # d # zs)" using "1.prems"(3) ys by simp
  have ac: "a = c"
    by (rule antisym) (use h(2) k(1) eq in blast, use h(1) k(2) eq in blast)
  have lt: "a < b" "c < d" using "1.prems"(1,2) ys by (auto simp: cr_wf_pair)
  have bd: "b = d"
  proof (rule antisym)
    have "d \<in> cr_set (a # b # xs)" if "d < b"
      by (rule h(4) [rule_format]) (use that ac lt in auto)
    then show "b \<le> d" using k(3) eq by (auto simp del: cr_set.simps simp: not_le [symmetric])
    have "b \<in> cr_set (c # d # zs)" if "b < d"
      by (rule k(4) [rule_format]) (use that ac lt in auto)
    then show "d \<le> b" using h(3) eq by (auto simp del: cr_set.simps simp: not_le [symmetric])
  qed
  have "cr_set xs = cr_set zs"
    using cr_set_tail [OF "1.prems"(1)] cr_set_tail [OF "1.prems"(2) [unfolded ys]] eq ac bd by simp
  with "1.IH" "1.prems"(1,2) ys have "xs = zs" by (simp add: cr_wf_pair)
  with ac bd ys show ?case by simp
next
  case "2_1"
  then show ?case by (metis cr_wf_def cr_set.simps(2) cr_wf_head(1) empty_iff pair_cases)
qed (simp add: cr_wf_def)

section \<open>The interface of a character set\<close>

text \<open>
  What the parser of character classes and the case folding rely on: the binary operations and
  the complement are those of sets below \<open>top\<close>, results are well formed, and well-formed
  values with the same elements are equal.
\<close>

locale charset =
  fixes wf :: "'r \<Rightarrow> bool"
    and elems :: "'r \<Rightarrow> 'c set"
    and top :: "'c set"
    and bin :: "cr_op_enum \<Rightarrow> 'r \<Rightarrow> 'r \<Rightarrow> 'r option"
    and inv :: "'r \<Rightarrow> 'r option"
  assumes elems_top: "wf a \<Longrightarrow> elems a \<subseteq> top"
    and bin_wf: "\<lbrakk>wf a; wf b; bin op a b = Some r\<rbrakk> \<Longrightarrow> wf r"
    and bin_elems: "\<lbrakk>wf a; wf b; bin op a b = Some r\<rbrakk> \<Longrightarrow>
      elems r = {c. cr_is_in op (c \<in> elems a) (c \<in> elems b)}"
    and inv_wf: "\<lbrakk>wf a; inv a = Some r\<rbrakk> \<Longrightarrow> wf r"
    and inv_elems: "\<lbrakk>wf a; inv a = Some r\<rbrakk> \<Longrightarrow> elems r = top - elems a"
    and extensional: "\<lbrakk>wf a; wf b; elems a = elems b\<rbrakk> \<Longrightarrow> a = b"
begin

lemma involution:
  assumes "wf a" and "inv a = Some b" and "inv b = Some c"
  shows "c = a"
proof (rule extensional)
  have b: "wf b" "elems b = top - elems a" using assms by (auto intro: inv_wf simp: inv_elems)
  with assms show "wf c" by (auto intro: inv_wf)
  from b assms elems_top [of a] show "elems c = elems a" by (auto simp: inv_elems)
qed (rule assms)

lemma difference_by_complement:
  assumes "wf a" and "wf b" and "inv b = Some b'"
    and "bin CR_OP_SUB a b = Some r" and "bin CR_OP_INTER a b' = Some r'"
  shows "r = r'"
proof (rule extensional)
  have b': "wf b'" "elems b' = top - elems b" using assms by (auto intro: inv_wf simp: inv_elems)
  with assms show "wf r" "wf r'" by (auto intro: bin_wf)
  from b' assms elems_top [of a] show "elems r = elems r'"
    by (auto simp: bin_elems)
qed

text \<open>A set is put together again from its part inside and its part outside of a mask.\<close>

lemma mask_split:
  assumes "wf a" and "wf m" and "inv m = Some m'"
    and "bin CR_OP_INTER m a = Some inside" and "bin CR_OP_INTER m' a = Some outside"
    and "bin CR_OP_UNION inside outside = Some r"
  shows "r = a \<and> elems inside \<inter> elems outside = {}"
proof -
  have m': "wf m'" "elems m' = top - elems m" using assms by (auto intro: inv_wf simp: inv_elems)
  have io: "wf inside" "wf outside" using assms m' by (auto intro: bin_wf)
  have "elems inside = elems m \<inter> elems a" "elems outside = (top - elems m) \<inter> elems a"
    using assms m' by (auto simp: bin_elems)
  moreover have "elems r = elems inside \<union> elems outside"
    using assms io by (auto simp: bin_elems)
  moreover have "wf r" using assms io by (auto intro: bin_wf)
  ultimately show ?thesis
    using assms(1) elems_top [of a] by (auto intro!: extensional)
qed

lemma de_morgan:
  assumes "wf a" and "wf b" and "bin CR_OP_UNION a b = Some u" and "inv u = Some u'"
    and "inv a = Some a'" and "inv b = Some b'" and "bin CR_OP_INTER a' b' = Some r"
  shows "u' = r"
proof (rule extensional)
  have wfs: "wf u" "wf a'" "wf b'" using assms by (auto intro: bin_wf inv_wf)
  with assms show "wf u'" "wf r" by (auto intro: bin_wf inv_wf)
  from assms wfs show "elems u' = elems r" by (auto simp: bin_elems inv_elems)
qed

end

definition points_op ::
  "(nat \<Rightarrow> bool) \<Rightarrow> cr_op_enum \<Rightarrow> u32 list \<Rightarrow> u32 list \<Rightarrow> u32 list option" where
  "points_op alloc op a b = map_option cr_points (cr_op alloc cr_init a b op)"

definition points_invert :: "(nat \<Rightarrow> bool) \<Rightarrow> u32 list \<Rightarrow> u32 list option" where
  "points_invert alloc a =
     map_option cr_points (cr_invert alloc \<lparr>cr_points = a, cr_size = length a\<rparr>)"

interpretation cr: charset cr_wf cr_set "{..<UINT32_MAX}" "points_op alloc" "points_invert alloc"
  for alloc
proof unfold_locales
  have init: "cr_points cr_init = []" by (simp add: cr_init_def)
  fix a b r :: "u32 list" and op
  show "cr_wf a \<Longrightarrow> cr_set a \<subseteq> {..<UINT32_MAX}" by (rule cr_set_max)
  show "\<lbrakk>cr_wf a; cr_wf b; points_op alloc op a b = Some r\<rbrakk> \<Longrightarrow> cr_wf r"
    "\<lbrakk>cr_wf a; cr_wf b; points_op alloc op a b = Some r\<rbrakk> \<Longrightarrow>
      cr_set r = {c. cr_is_in op (c \<in> cr_set a) (c \<in> cr_set b)}"
    by (auto simp: points_op_def dest: cr_op_wf [OF init cr_wf_sorted cr_wf_sorted])
  show "\<lbrakk>cr_wf a; points_invert alloc a = Some r\<rbrakk> \<Longrightarrow> cr_wf r"
    "\<lbrakk>cr_wf a; points_invert alloc a = Some r\<rbrakk> \<Longrightarrow> cr_set r = {..<UINT32_MAX} - cr_set a"
    using cr_invert_wf [of "\<lparr>cr_points = a, cr_size = length a\<rparr>" alloc]
    by (auto simp: points_invert_def dest: cr_wf_sorted)
  show "\<lbrakk>cr_wf a; cr_wf b; cr_set a = cr_set b\<rbrakk> \<Longrightarrow> a = b" by (rule cr_canonical)
qed

section \<open>Properties\<close>

text \<open>
  C11. Union, intersection, symmetric difference and difference of two sorted bound lists are
  the operations on the sets they denote, whatever the allocator does short of failing; the
  result is canonical (bounds strictly increasing), and it exists when memory does.
\<close>

theorem cr_op_correct:
  assumes "cr_sorted a" and "cr_sorted b"
  shows "(\<forall>alloc cr. cr_op alloc cr_init a b op = Some cr \<longrightarrow>
      cr_wf (cr_points cr) \<and>
      cr_set (cr_points cr) = {c. cr_is_in op (c \<in> cr_set a) (c \<in> cr_set b)}) \<and>
    (\<exists>cr. cr_op (\<lambda>_. True) cr_init a b op = Some cr)"
proof -
  have "cr_points cr_init = []" by (simp add: cr_init_def)
  from cr_op_wf [OF this assms] cr_op_ok show ?thesis by blast
qed

theorem cr_op_correct_witness:
  "\<exists>cr. cr_op (\<lambda>_. True) cr_init [0x30, 0x3a] [0x35, 0x41, 0x61, 0x7b] CR_OP_UNION = Some cr \<and>
     cr_set (cr_points cr) = cr_set [0x30, 0x3a] \<union> cr_set [0x35, 0x41, 0x61, 0x7b]"
proof -
  have s: "cr_sorted [0x30, 0x3a]" "cr_sorted [0x35, 0x41, 0x61, 0x7b]"
    by (simp_all add: cr_sorted_def)
  from cr_op_correct [OF s, of CR_OP_UNION] obtain cr where
    c: "cr_op (\<lambda>_. True) cr_init [0x30, 0x3a] [0x35, 0x41, 0x61, 0x7b] CR_OP_UNION = Some cr"
    and e: "cr_set (cr_points cr) =
      {c. cr_is_in CR_OP_UNION (c \<in> cr_set [0x30, 0x3a]) (c \<in> cr_set [0x35, 0x41, 0x61, 0x7b])}"
    by blast
  from e have "cr_set (cr_points cr) = cr_set [0x30, 0x3a] \<union> cr_set [0x35, 0x41, 0x61, 0x7b]"
    by (simp only: cr_is_in.simps Un_def)
  with c show ?thesis by blast
qed

text \<open>
  C26. The complement is the set complement below \<open>UINT32_MAX\<close>, and complementing twice gives
  the very list of bounds one started from.
\<close>

theorem cr_invert_involution:
  assumes "cr_wf (cr_points cr)"
    and "cr_invert alloc cr = Some cr1" and "cr_invert alloc' cr1 = Some cr2"
  shows "cr_set (cr_points cr1) = {..<UINT32_MAX} - cr_set (cr_points cr) \<and>
    cr_points cr2 = cr_points cr"
proof -
  note i1 = cr_invert_wf [OF cr_wf_sorted [OF assms(1)] assms(2)]
  note i2 = cr_invert_wf [OF cr_wf_sorted [OF i1(1)] assms(3)]
  have "cr_set (cr_points cr2) = cr_set (cr_points cr)"
    using i1(2) i2(2) cr_set_max [of "cr_points cr"] by auto
  with i1(2) cr_canonical [OF i2(1) assms(1)] show ?thesis by simp
qed

theorem cr_invert_involution_witness:
  "\<exists>cr1 cr2. cr_invert (\<lambda>_. True) \<lparr>cr_points = [0x30, 0x3a], cr_size = 2\<rparr> = Some cr1 \<and>
     cr_invert (\<lambda>_. True) cr1 = Some cr2 \<and> cr_points cr2 = [0x30, 0x3a]"
proof -
  obtain cr1 where 1: "cr_invert (\<lambda>_. True) \<lparr>cr_points = [0x30, 0x3a], cr_size = 2\<rparr> = Some cr1"
    using cr_invert_ok by blast
  obtain cr2 where 2: "cr_invert (\<lambda>_. True) cr1 = Some cr2" using cr_invert_ok by blast
  have "cr_wf (cr_points \<lparr>cr_points = [0x30, 0x3a], cr_size = 2\<rparr>)" by (simp add: cr_wf_def)
  from cr_invert_involution [OF this 1 2] 1 2 show ?thesis by simp
qed

text \<open>
  C27. Splitting a set by a mask, as the case folding does with the characters that a case
  table changes, loses nothing: the union of the part inside the mask and the part inside its
  complement is the set, point for point, and the two parts are disjoint.
\<close>

theorem cr_mask_partition:
  assumes "cr_wf a" and "cr_wf m" and "points_invert alloc m = Some m'"
    and "points_op alloc CR_OP_INTER m a = Some inside"
    and "points_op alloc CR_OP_INTER m' a = Some outside"
    and "points_op alloc CR_OP_UNION inside outside = Some r"
  shows "r = a \<and> cr_set inside \<inter> cr_set outside = {}"
  by (rule cr.mask_split [OF assms])

theorem cr_mask_partition_witness:
  "\<exists>m' i out r. points_invert (\<lambda>_. True) [0x61, 0x7b] = Some m' \<and>
     points_op (\<lambda>_. True) CR_OP_INTER [0x61, 0x7b] [0x41, 0x7a] = Some i \<and>
     points_op (\<lambda>_. True) CR_OP_INTER m' [0x41, 0x7a] = Some out \<and>
     points_op (\<lambda>_. True) CR_OP_UNION i out = Some r \<and> r = [0x41, 0x7a]"
proof -
  have ok: "\<exists>r. points_op (\<lambda>_. True) op x y = Some r" "\<exists>r. points_invert (\<lambda>_. True) x = Some r"
    for op x y
    using cr_op_ok [of cr_init x y op] cr_invert_ok by (auto simp: points_op_def points_invert_def)
  obtain m' where m': "points_invert (\<lambda>_. True) [0x61, 0x7b] = Some m'" using ok by blast
  obtain i where i: "points_op (\<lambda>_. True) CR_OP_INTER [0x61, 0x7b] [0x41, 0x7a] = Some i"
    using ok by blast
  obtain out where out: "points_op (\<lambda>_. True) CR_OP_INTER m' [0x41, 0x7a] = Some out"
    using ok by blast
  obtain r where r: "points_op (\<lambda>_. True) CR_OP_UNION i out = Some r" using ok by blast
  have "cr_wf [0x41, 0x7a]" "cr_wf [0x61, 0x7b]" by (simp_all add: cr_wf_def)
  from cr_mask_partition [OF this m' i out r] m' i out r show ?thesis by blast
qed

lemma cr_union_interval_set:
  assumes "cr_sorted (cr_points cr)" and "c1 \<le> c2" and "c2 < UINT32_MAX"
    and "cr_union_interval alloc cr c1 c2 = Some cr'"
  shows "cr_wf (cr_points cr') \<and> cr_set (cr_points cr') = cr_set (cr_points cr) \<union> {c1..c2}"
proof -
  have next_gt: "c \<le> c2 \<longleftrightarrow> c < c2 + 1" for c
  proof -
    have "unat c2 < 4294967295"
      using assms(3) by (simp add: UINT32_MAX_def word_less_nat_alt)
    then have "unat (c2 + 1) = unat c2 + 1" by (simp add: unat_word_ariths)
    then show ?thesis by (simp add: word_less_nat_alt word_le_nat_alt less_Suc_eq_le)
  qed
  have srt: "cr_sorted [c1, c2 + 1]"
    using assms(2) next_gt [of c1] by (simp add: cr_sorted_def)
  have init: "cr_points cr_init = []" by (simp add: cr_init_def)
  have "cr_op alloc cr_init (cr_points cr) [c1, c2 + 1] CR_OP_UNION = Some cr'"
    using assms(4) by (simp add: cr_union_interval_def cr_op1_def)
  from cr_op_wf [OF init assms(1) srt this] next_gt show ?thesis by auto
qed

text \<open>
  C25. Adding an interval with both ends included adds exactly its code points and keeps the
  bounds canonical, as long as the upper end is not the largest 32-bit value.
\<close>

theorem cr_union_interval_correct:
  assumes "cr_sorted (cr_points cr)" and "c1 \<le> c2" and "c2 < UINT32_MAX"
    and "cr_union_interval alloc cr c1 c2 = Some cr'"
  shows "cr_wf (cr_points cr') \<and> cr_set (cr_points cr') = cr_set (cr_points cr) \<union> {c1..c2}"
  by (rule cr_union_interval_set [OF assms])

theorem cr_union_interval_correct_witness:
  "\<exists>cr'. cr_union_interval (\<lambda>_. True) cr_init 0x61 0x7a = Some cr' \<and>
     cr_set (cr_points cr') = {0x61..0x7a}"
proof -
  obtain cr' where c: "cr_union_interval (\<lambda>_. True) cr_init 0x61 0x7a = Some cr'"
    using cr_op_ok [of cr_init "cr_points cr_init" "[0x61, 0x7a + 1]" CR_OP_UNION]
    by (auto simp: cr_union_interval_def cr_op1_def)
  have "cr_sorted (cr_points cr_init)" "(0x61::u32) \<le> 0x7a" "0x7a < UINT32_MAX"
    by (simp_all add: cr_sorted_def cr_init_def UINT32_MAX_def)
  from cr_union_interval_correct [OF this c] c show ?thesis by (auto simp: cr_init_def)
qed

end
