(* ===== verification/CaseConv.thy ===== *)
theory CaseConv
  imports Cutils
begin

text \<open>
  Case conversion and the classification of characters in \<^verbatim>\<open>libregexp/libunicode.c\<close>, with the
  tables of \<^verbatim>\<open>libregexp/libunicode-table.h\<close> they search.

  An entry of \<open>case_conv_table1\<close> packs the first code point of a run (17 bits), the length of
  the run (7 bits), the kind of conversion (4 bits) and the high bits of its data (4 bits).
  The three functions that look a code point up share one binary search, \<open>case_conv_search\<close>.
\<close>

section \<open>Tables\<close>

definition case_conv_table1 :: "u32 list" where
  "case_conv_table1 = [
     0x209a30, 0x309a00, 0x5a8173, 0x601730, 0x6c0730, 0x6f81b3, 0x701700, 0x7c0700, 0x7f8100, 0x803040,
     0x9801c3, 0x988190, 0x990640, 0x9c9040, 0xa481b4, 0xa52e40, 0xbc0130, 0xbc8640, 0xbf8170, 0xc00100,
     0xc08130, 0xc10440, 0xc30130, 0xc38240, 0xc48230, 0xc58240, 0xc70130, 0xc78130, 0xc80130, 0xc88240,
     0xc98130, 0xca0130, 0xca8100, 0xcb0130, 0xcb8130, 0xcc0240, 0xcd0100, 0xcd8101, 0xce0130, 0xce8130,
     0xcf0100, 0xcf8130, 0xd00640, 0xd30130, 0xd38240, 0xd48130, 0xd60240, 0xd70130, 0xd78240, 0xd88230,
     0xd98440, 0xdb8130, 0xdc0240, 0xde0240, 0xdf8100, 0xe20350, 0xe38350, 0xe50350, 0xe69040, 0xee8100,
     0xef1240, 0xf801b4, 0xf88350, 0xfa0240, 0xfb0130, 0xfb8130, 0xfc2840, 0x1100130, 0x1111240, 0x11d0131,
     0x11d8240, 0x11e8130, 0x11f0131, 0x11f8201, 0x1208240, 0x1218130, 0x1220130, 0x1228130, 0x1230a40, 0x1280101,
     0x1288101, 0x1290101, 0x1298100, 0x12a0100, 0x12b0200, 0x12c8100, 0x12d8100, 0x12e0101, 0x1300100, 0x1308101,
     0x1318100, 0x1320101, 0x1328101, 0x1330101, 0x1340100, 0x1348100, 0x1350101, 0x1358101, 0x1360101, 0x1378100,
     0x1388101, 0x1390100, 0x13a8100, 0x13e8101, 0x1400100, 0x1410101, 0x1418100, 0x1438101, 0x1440100, 0x1448100,
     0x1450200, 0x1460100, 0x1490100, 0x14e8101, 0x14f0101, 0x1a28173, 0x1b80440, 0x1bb0240, 0x1bd8300, 0x1bf8130,
     0x1c30130, 0x1c40330, 0x1c60130, 0x1c70230, 0x1c801d0, 0x1c89130, 0x1d18930, 0x1d60100, 0x1d68300, 0x1d801d3,
     0x1d89100, 0x1e10173, 0x1e18900, 0x1e60100, 0x1e68200, 0x1e78130, 0x1e80173, 0x1e88173, 0x1ea8173, 0x1eb0173,
     0x1eb8100, 0x1ec1840, 0x1f80173, 0x1f88173, 0x1f90100, 0x1f98100, 0x1fa01a0, 0x1fa8173, 0x1fb8240, 0x1fc8130,
     0x1fd0240, 0x1fe8330, 0x2001030, 0x2082030, 0x2182000, 0x2281000, 0x2302240, 0x2453640, 0x2600130, 0x2608e40,
     0x2678100, 0x2686040, 0x298a630, 0x2b0a600, 0x2c381b5, 0x8502631, 0x8638131, 0x8668131, 0x8682b00, 0x87e8300,
     0x9d05011, 0x9f80610, 0x9fc0620, 0xe400174, 0xe408174, 0xe410174, 0xe418174, 0xe420174, 0xe428174, 0xe430174,
     0xe438180, 0xe440180, 0xe448240, 0xe482b30, 0xe5e8330, 0xebc8101, 0xebe8101, 0xec70101, 0xf007e40, 0xf3f1840,
     0xf4b01b5, 0xf4b81b6, 0xf4c01b6, 0xf4c81b6, 0xf4d01b7, 0xf4d8180, 0xf4f0130, 0xf506040, 0xf800800, 0xf840830,
     0xf880600, 0xf8c0630, 0xf900800, 0xf940830, 0xf980800, 0xf9c0830, 0xfa00600, 0xfa40630, 0xfa801b0, 0xfa88100,
     0xfa901d3, 0xfa98100, 0xfaa01d3, 0xfaa8100, 0xfab01d3, 0xfab8100, 0xfac8130, 0xfad8130, 0xfae8130, 0xfaf8130,
     0xfb00800, 0xfb40830, 0xfb80200, 0xfb90400, 0xfbb0201, 0xfbc0201, 0xfbd0201, 0xfbe0201, 0xfc008b7, 0xfc40867,
     0xfc808b8, 0xfcc0868, 0xfd008b8, 0xfd40868, 0xfd80200, 0xfd901b9, 0xfd981b1, 0xfda01b9, 0xfdb01b1, 0xfdb81d7,
     0xfdc0230, 0xfdd0230, 0xfde0161, 0xfdf0173, 0xfe101b9, 0xfe181b2, 0xfe201ba, 0xfe301b2, 0xfe381d8, 0xfe40430,
     0xfe60162, 0xfe80201, 0xfe901d0, 0xfe981d0, 0xfeb01b0, 0xfeb81d0, 0xfec0230, 0xfed0230, 0xff00201, 0xff101d3,
     0xff181d3, 0xff201ba, 0xff28101, 0xff301b0, 0xff381d3, 0xff40231, 0xff50230, 0xff60131, 0xff901ba, 0xff981b2,
     0xffa01bb, 0xffb01b2, 0xffb81d9, 0xffc0230, 0xffd0230, 0xffe0162, 0x109301a0, 0x109501a0, 0x109581a0, 0x10990131,
     0x10a70101, 0x10b01031, 0x10b81001, 0x10c18240, 0x125b1a31, 0x12681a01, 0x16003031, 0x16183001, 0x16300240, 0x16310130,
     0x16318130, 0x16320130, 0x16328100, 0x16330100, 0x16338640, 0x16368130, 0x16370130, 0x16378130, 0x16380130, 0x16390240,
     0x163a8240, 0x163f0230, 0x16406440, 0x16758440, 0x16790240, 0x16802600, 0x16938100, 0x16968100, 0x53202e40, 0x53401c40,
     0x53910e40, 0x53993e40, 0x53bc8440, 0x53be8130, 0x53bf0a40, 0x53c58240, 0x53c68130, 0x53c80440, 0x53ca0101, 0x53cb1440,
     0x53d50130, 0x53d58130, 0x53d60130, 0x53d68130, 0x53d70130, 0x53d80130, 0x53d88130, 0x53d90130, 0x53d98131, 0x53da1040,
     0x53e20131, 0x53e28130, 0x53e30130, 0x53e38440, 0x53e58130, 0x53e61040, 0x53ee0130, 0x53fa8240, 0x55a98101, 0x55b85020,
     0x7d8001b2, 0x7d8081b2, 0x7d8101b2, 0x7d8181da, 0x7d8201da, 0x7d8281b3, 0x7d8301b3, 0x7d8981bb, 0x7d8a01bb, 0x7d8a81bb,
     0x7d8b01bc, 0x7d8b81bb, 0x7f909a31, 0x7fa09a01, 0x82002831, 0x82142801, 0x82582431, 0x826c2401, 0x82b80b31, 0x82be0f31,
     0x82c60731, 0x82ca0231, 0x82cb8b01, 0x82d18f01, 0x82d98701, 0x82dd8201, 0x86403331, 0x86603301, 0x86a81631, 0x86b81601,
     0x8c502031, 0x8c602001, 0xb7202031, 0xb7302001, 0xb7501931, 0xb75d9901, 0xf4802231, 0xf4912201]"

definition case_conv_table2 :: "u8 list" where
  "case_conv_table2 = [
     0x1, 0x0, 0x9c, 0x6, 0x7, 0x4d, 0x3, 0x4, 0x10, 0x0, 0x8f, 0xb, 0x0, 0x0,
     0x11, 0x0, 0x8, 0x0, 0x53, 0x4b, 0x52, 0x0, 0x53, 0x0, 0x54, 0x0, 0x3b, 0x55,
     0x56, 0x0, 0x58, 0x5a, 0x40, 0x5f, 0x5e, 0x0, 0x47, 0x50, 0x63, 0x65, 0x43, 0x66,
     0x0, 0x68, 0x0, 0x6a, 0x0, 0x6c, 0x0, 0x6e, 0x0, 0x70, 0x0, 0x0, 0x41, 0x0,
     0x0, 0x0, 0x0, 0x1a, 0x0, 0x93, 0x0, 0x0, 0x20, 0x36, 0x0, 0x28, 0x0, 0x24,
     0x0, 0x24, 0x25, 0x2d, 0x0, 0x13, 0x6d, 0x6f, 0x0, 0x29, 0x27, 0x2a, 0x14, 0x16,
     0x18, 0x1b, 0x1c, 0x41, 0x1e, 0x42, 0x1f, 0x4e, 0x3c, 0x40, 0x22, 0x21, 0x44, 0x21,
     0x43, 0x26, 0x28, 0x27, 0x29, 0x23, 0x2b, 0x4b, 0x2d, 0x46, 0x2f, 0x4c, 0x31, 0x4d,
     0x33, 0x47, 0x45, 0x99, 0x0, 0x0, 0x97, 0x91, 0x7f, 0x80, 0x85, 0x86, 0x12, 0x82,
     0x84, 0x78, 0x79, 0x12, 0x7d, 0xa3, 0x7e, 0x7a, 0x7b, 0x8c, 0x92, 0x98, 0xa6, 0xa0,
     0x87, 0x0, 0x9a, 0xa1, 0x95, 0x77, 0x33, 0x95, 0x0, 0x90, 0x0, 0x76, 0x9b, 0x9a,
     0x99, 0x98, 0x0, 0x0, 0xa0, 0x0, 0x9e, 0x0, 0xa3, 0xa2, 0x15, 0x31, 0x32, 0x33,
     0xb7, 0xb8, 0x53, 0xac, 0xab, 0x12, 0x14, 0x1e, 0x21, 0x22, 0x22, 0x2a, 0x34, 0x35,
     0x0, 0xa8, 0xa9, 0x39, 0x22, 0x4c, 0x0, 0x0, 0x97, 0x1, 0x5a, 0xda, 0x1d, 0x36,
     0x5, 0x0, 0xc7, 0xc6, 0xc9, 0xc8, 0xcb, 0xca, 0xcd, 0xcc, 0xcf, 0xce, 0xc4, 0xd8,
     0x45, 0xd9, 0x42, 0xda, 0x46, 0xdb, 0xd1, 0xd3, 0xd5, 0xd7, 0xdd, 0xdc, 0xf1, 0xf9,
     0x1, 0x11, 0xa, 0x12, 0x80, 0x9f, 0x0, 0x21, 0x80, 0xa3, 0xf0, 0x0, 0xc0, 0x40,
     0xc6, 0x60, 0xea, 0xde, 0xe6, 0x99, 0xc0, 0x0, 0x0, 0x6, 0x60, 0xdf, 0x29, 0x0,
     0x15, 0x12, 0x6, 0x16, 0xfb, 0xe0, 0x9, 0x15, 0x12, 0x84, 0xb, 0xc6, 0x16, 0x2,
     0xe2, 0x6, 0xc0, 0x40, 0x0, 0x46, 0x60, 0xe1, 0xe3, 0x6d, 0x37, 0x38, 0x39, 0x18,
     0x17, 0x1a, 0x19, 0x0, 0x1d, 0x1c, 0x1f, 0x1e, 0x0, 0x61, 0xba, 0x67, 0x45, 0x48,
     0x0, 0x50, 0x64, 0x4f, 0x51, 0x0, 0x0, 0x49, 0x0, 0x0, 0x0, 0xa5, 0xa6, 0xa7,
     0x0, 0x0, 0x0, 0x0, 0x0, 0xb9, 0x0, 0x0, 0x5c, 0x0, 0x4a, 0x0, 0x5d, 0x57,
     0x59, 0x62, 0x60, 0x72, 0x6b, 0x71, 0x52, 0x0, 0x3e, 0x69, 0xbb, 0x0, 0x5b, 0x0,
     0x25, 0x0, 0x48, 0xaa, 0x8a, 0x8b, 0x8c, 0xab, 0xac, 0x58, 0x58, 0xaf, 0x94, 0xb0,
     0x6f, 0xb2, 0x61, 0x60, 0x63, 0x62, 0x65, 0x64, 0x6a, 0x6b, 0x6c, 0x6d, 0x66, 0x67,
     0x68, 0x69, 0x6f, 0x6e, 0x71, 0x70, 0x73, 0x72, 0x75, 0x74, 0x77, 0x76, 0x79, 0x78]"

definition case_conv_ext :: "u16 list" where
  "case_conv_ext = [
     0x399, 0x308, 0x301, 0x3a5, 0x313, 0x300, 0x342, 0x391, 0x397, 0x3a9,
     0x46, 0x49, 0x4c, 0x53, 0x69, 0x307, 0x2bc, 0x4e, 0x4a, 0x30c,
     0x535, 0x552, 0x48, 0x331, 0x54, 0x57, 0x30a, 0x59, 0x41, 0x2be,
     0x1f08, 0x1f80, 0x1f28, 0x1f90, 0x1f68, 0x1fa0, 0x1fba, 0x386, 0x1fb3, 0x1fca,
     0x389, 0x1fc3, 0x3a1, 0x1ffa, 0x38f, 0x1ff3, 0x544, 0x546, 0x53b, 0x54e,
     0x53d, 0x3b8, 0x462, 0xa64a, 0x1e60, 0x3c9, 0x6b, 0xe5]"

section \<open>The search\<close>

definition run_code :: "u32 \<Rightarrow> u32" where
  "run_code v = drop_bit (32 - 17) v"

definition run_len :: "u32 \<Rightarrow> u32" where
  "run_len v = drop_bit (32 - 17 - 7) v AND 0x7f"

definition run_type :: "u32 \<Rightarrow> u32" where
  "run_type v = drop_bit (32 - 17 - 7 - 4) v AND 0xf"

text \<open>
  The loop of \<^verbatim>\<open>lre_case_conv\<close>, \<^verbatim>\<open>lre_canonicalize\<close> and \<^verbatim>\<open>lre_is_cased\<close>, on signed indices as
  in C: the index and the entry of the run that holds \<open>c\<close>.
\<close>

function table_search ::
  "u32 list \<Rightarrow> u32 \<Rightarrow> int \<Rightarrow> int \<Rightarrow> (nat \<times> u32) option" where
  "table_search tab c idx_min idx_max =
     (if idx_min \<le> idx_max \<and> 0 \<le> idx_min \<and> idx_max < int (length tab) then
        let idx = (idx_max + idx_min) div 2;
            v = tab ! nat idx;
            code = run_code v;
            len = run_len v
        in if c < code then table_search tab c idx_min (idx - 1)
           else if c \<ge> code + len then table_search tab c (idx + 1) idx_max
           else Some (nat idx, v)
      else None)"
  by pat_completeness auto
termination
  by (relation "measure (\<lambda>(tab, c, lo, hi). nat (hi + 1 - lo))") auto

declare table_search.simps [simp del]

definition case_conv_search :: "u32 \<Rightarrow> (nat \<times> u32) option" where
  "case_conv_search c = table_search case_conv_table1 c 0 (int (length case_conv_table1) - 1)"

section \<open>What the search finds\<close>

text \<open>
  A sorted array of disjoint intervals, seen from one key: an interval is above the key, below
  it or holds it. Comparing with the middle one decides for a whole side of the array.
\<close>

locale interval_table =
  fixes starts_after ends_before :: "nat \<Rightarrow> bool"
    and n :: nat
  assumes after_mono: "i \<le> j \<Longrightarrow> j < n \<Longrightarrow> starts_after i \<Longrightarrow> starts_after j"
    and before_mono: "i \<le> j \<Longrightarrow> j < n \<Longrightarrow> ends_before j \<Longrightarrow> ends_before i"
    and exclusive: "i < n \<Longrightarrow> starts_after i \<Longrightarrow> \<not> ends_before i"
begin

definition holds_key :: "nat \<Rightarrow> bool" where
  "holds_key i \<longleftrightarrow> i < n \<and> \<not> starts_after i \<and> \<not> ends_before i"

lemma go_left: "m < n \<Longrightarrow> starts_after m \<Longrightarrow> holds_key i \<Longrightarrow> i < m"
  using after_mono [of m i] by (auto simp: holds_key_def not_less [symmetric])

lemma go_right: "m < n \<Longrightarrow> ends_before m \<Longrightarrow> holds_key i \<Longrightarrow> m < i"
  using before_mono [of i m] by (auto simp: holds_key_def not_less [symmetric])

end

definition runs_disjoint :: "u32 list \<Rightarrow> bool" where
  "runs_disjoint tab \<longleftrightarrow>
     sorted_wrt (\<lambda>v w. unat (run_code v) + unat (run_len v) \<le> unat (run_code w)) tab"

lemma run_code_bound: "unat (run_code v) < 2 ^ 17"
proof -
  have "unat v < 2 ^ LENGTH(32)" by (rule unsigned_less)
  then show ?thesis
    by (simp add: run_code_def drop_bit_eq_div unat_div div_less_iff_less_mult)
qed

lemma run_len_bound: "unat (run_len v) < 2 ^ 7"
proof -
  have "run_len v = take_bit 7 (drop_bit 8 v)"
    by (simp add: run_len_def take_bit_eq_mask mask_eq_exp_minus_1)
  then show ?thesis using take_bit_nat_less_exp [of 7] by (simp add: unsigned_take_bit_eq)
qed

lemma unat_run_end: "unat (run_code v + run_len v) = unat (run_code v) + unat (run_len v)"
  using run_code_bound [of v] run_len_bound [of v]
  by (simp add: unat_word_ariths)

definition in_run :: "u32 \<Rightarrow> u32 \<Rightarrow> bool" where
  "in_run c v \<longleftrightarrow> run_code v \<le> c \<and> c < run_code v + run_len v"

lemma runs_disjointD:
  "runs_disjoint tab \<Longrightarrow> i < j \<Longrightarrow> j < length tab \<Longrightarrow>
     unat (run_code (tab ! i)) + unat (run_len (tab ! i)) \<le> unat (run_code (tab ! j))"
  by (auto simp: runs_disjoint_def sorted_wrt_iff_nth_less)

lemma interval_table_runs:
  assumes "runs_disjoint tab"
  shows "interval_table (\<lambda>i. c < run_code (tab ! i)) (\<lambda>i. c \<ge> run_code (tab ! i) + run_len (tab ! i))
    (length tab)"
proof
  fix i j
  assume "i \<le> j" "j < length tab"
  then have le: "i = j \<or> unat (run_code (tab ! i)) + unat (run_len (tab ! i)) \<le> unat (run_code (tab ! j))"
    using runs_disjointD [OF assms, of i j] by (cases "i = j") auto
  show "c < run_code (tab ! j)" if "c < run_code (tab ! i)"
    using le that by (auto simp: word_less_nat_alt)
  show "c \<ge> run_code (tab ! i) + run_len (tab ! i)" if "c \<ge> run_code (tab ! j) + run_len (tab ! j)"
    using le that by (auto simp: word_le_nat_alt unat_run_end)
next
  fix i
  assume "i < length tab" "c < run_code (tab ! i)"
  then show "\<not> c \<ge> run_code (tab ! i) + run_len (tab ! i)"
    by (simp add: word_less_nat_alt word_le_nat_alt unat_run_end)
qed

lemma table_search_sound:
  "table_search tab c lo hi = Some (i, v) \<Longrightarrow> i < length tab \<and> v = tab ! i \<and> in_run c v"
proof (induction "nat (hi + 1 - lo)" arbitrary: lo hi rule: less_induct)
  case less
  define m where "m = (hi + lo) div 2"
  from less.prems have cond: "lo \<le> hi" "0 \<le> lo" "hi < int (length tab)"
    by (subst (asm) table_search.simps, simp split: if_splits)+
  then have m: "lo \<le> m" "m \<le> hi" by (auto simp: m_def)
  have unf: "table_search tab c lo hi =
      (if c < run_code (tab ! nat m) then table_search tab c lo (m - 1)
       else if c \<ge> run_code (tab ! nat m) + run_len (tab ! nat m) then table_search tab c (m + 1) hi
       else Some (nat m, tab ! nat m))"
    using cond by (subst table_search.simps) (simp add: Let_def m_def)
  show ?case
    using less.prems less.hyps [of "m - 1" lo] less.hyps [of hi "m + 1"] cond m
    by (auto simp: unf in_run_def not_less not_le split: if_splits)
qed

lemma table_search_complete:
  assumes "runs_disjoint tab" and "j < length tab" and "in_run c (tab ! j)"
    and "0 \<le> lo" and "hi < int (length tab)" and "lo \<le> int j" and "int j \<le> hi"
  shows "table_search tab c lo hi = Some (j, tab ! j)"
  using assms(4-7)
proof (induction "nat (hi + 1 - lo)" arbitrary: lo hi rule: less_induct)
  case less
  note tab = interval_table_runs [OF assms(1), of c]
  have key: "interval_table.holds_key (\<lambda>i. c < run_code (tab ! i))
      (\<lambda>i. c \<ge> run_code (tab ! i) + run_len (tab ! i)) (length tab) j"
    using assms(2,3) by (auto simp: interval_table.holds_key_def [OF tab] in_run_def not_less not_le)
  define m where "m = nat ((hi + lo) div 2)"
  have m: "lo \<le> int m" "int m \<le> hi" "m < length tab" "(hi + lo) div 2 = int m"
    using less.prems by (auto simp: m_def)
  have unf: "table_search tab c lo hi =
      (if c < run_code (tab ! m) then table_search tab c lo (int m - 1)
       else if c \<ge> run_code (tab ! m) + run_len (tab ! m) then table_search tab c (int m + 1) hi
       else Some (m, tab ! m))"
    using less.prems m by (subst table_search.simps) (simp add: Let_def)
  show ?case
  proof (cases "c < run_code (tab ! m)")
    case True
    then have "j < m" using interval_table.go_left [OF tab m(3) _ key] by simp
    with less.hyps [of "int m - 1" lo] less.prems m True show ?thesis by (simp add: unf)
  next
    case False
    show ?thesis
    proof (cases "c \<ge> run_code (tab ! m) + run_len (tab ! m)")
      case True
      then have "m < j" using interval_table.go_right [OF tab m(3) _ key] by simp
      with less.hyps [of hi "int m + 1"] less.prems m True False show ?thesis by (simp add: unf)
    next
      case False
      have "m = j"
      proof (rule ccontr)
        assume "m \<noteq> j"
        then have "m < j \<or> j < m" by auto
        with runs_disjointD [OF assms(1), of m j] runs_disjointD [OF assms(1), of j m] assms(2,3) m(3)
          False \<open>\<not> c < run_code (tab ! m)\<close>
        show False by (auto simp: in_run_def word_less_nat_alt word_le_nat_alt unat_run_end)
      qed
      with False \<open>\<not> c < run_code (tab ! m)\<close> show ?thesis by (simp add: unf)
    qed
  qed
qed

fun runs_chain :: "u32 list \<Rightarrow> bool" where
  "runs_chain (v # w # vs) \<longleftrightarrow>
     unat (run_code v) + unat (run_len v) \<le> unat (run_code w) \<and> runs_chain (w # vs)"
| "runs_chain _ \<longleftrightarrow> True"

lemma runs_chain_disjoint: "runs_chain vs \<Longrightarrow> runs_disjoint vs"
proof (induction vs rule: runs_chain.induct)
  case (1 v w vs)
  then have IH: "runs_disjoint (w # vs)" and "unat (run_code v) + unat (run_len v) \<le> unat (run_code w)"
    by auto
  with IH show ?case
    by (auto simp: runs_disjoint_def intro: order_trans)
qed (simp_all add: runs_disjoint_def)

lemma case_conv_table1_disjoint: "runs_disjoint case_conv_table1"
proof (rule runs_chain_disjoint)
  show "runs_chain case_conv_table1"
    unfolding case_conv_table1_def by (simp add: run_code_def run_len_def)
qed

interpretation conv: interval_table
  "\<lambda>i. c < run_code (case_conv_table1 ! i)"
  "\<lambda>i. c \<ge> run_code (case_conv_table1 ! i) + run_len (case_conv_table1 ! i)"
  "length case_conv_table1" for c
  by (rule interval_table_runs [OF case_conv_table1_disjoint])

text \<open>
  C28. The binary search of the case tables is exact: it returns an entry precisely when that
  entry's run holds the character, and the run is then the only one, so every character has at
  most one conversion rule and none is missed.
\<close>

theorem case_conv_search_exact:
  "case_conv_search c = Some (i, v) \<longleftrightarrow>
     i < length case_conv_table1 \<and> v = case_conv_table1 ! i \<and> run_code v \<le> c \<and>
     c < run_code v + run_len v"
proof
  assume "case_conv_search c = Some (i, v)"
  then show "i < length case_conv_table1 \<and> v = case_conv_table1 ! i \<and> run_code v \<le> c \<and>
     c < run_code v + run_len v"
    using table_search_sound by (auto simp: case_conv_search_def in_run_def)
next
  assume a: "i < length case_conv_table1 \<and> v = case_conv_table1 ! i \<and> run_code v \<le> c \<and>
     c < run_code v + run_len v"
  then show "case_conv_search c = Some (i, v)"
    using table_search_complete [OF case_conv_table1_disjoint, of i c 0 "int (length case_conv_table1) - 1"]
    by (auto simp: case_conv_search_def in_run_def)
qed

section \<open>Conversion of one character\<close>

abbreviation (input) "RUN_TYPE_U \<equiv> (0 :: u32)"
abbreviation (input) "RUN_TYPE_L \<equiv> (1 :: u32)"
abbreviation (input) "RUN_TYPE_UF \<equiv> (2 :: u32)"
abbreviation (input) "RUN_TYPE_LF \<equiv> (3 :: u32)"
abbreviation (input) "RUN_TYPE_UL \<equiv> (4 :: u32)"
abbreviation (input) "RUN_TYPE_LSU \<equiv> (5 :: u32)"
abbreviation (input) "RUN_TYPE_U2L_399_EXT2 \<equiv> (6 :: u32)"
abbreviation (input) "RUN_TYPE_UF_D20 \<equiv> (7 :: u32)"
abbreviation (input) "RUN_TYPE_UF_D1_EXT \<equiv> (8 :: u32)"
abbreviation (input) "RUN_TYPE_U_EXT \<equiv> (9 :: u32)"
abbreviation (input) "RUN_TYPE_LF_EXT \<equiv> (10 :: u32)"
abbreviation (input) "RUN_TYPE_UF_EXT2 \<equiv> (11 :: u32)"
abbreviation (input) "RUN_TYPE_LF_EXT2 \<equiv> (12 :: u32)"
abbreviation (input) "RUN_TYPE_UF_EXT3 \<equiv> (13 :: u32)"

text \<open>
  \<open>conv_type\<close> is 0 for upper case, 1 for lower case, 2 for case folding. The result is the
  list of the one to three characters that C writes to \<^verbatim>\<open>res\<close>. The entries of the two
  \<open>EXT\<close> folding kinds convert each character of their result to lower case with the function
  \<open>lower\<close>; \<open>lre_case_conv\<close> below supplies the code's own conversion there, which for lower
  case asks for no further one.
\<close>

definition case_conv_ext_at :: "u32 \<Rightarrow> u32" where
  "case_conv_ext_at i = ucast (case_conv_ext ! unat i)"

definition lre_case_conv_entry ::
  "(u32 \<Rightarrow> u32) \<Rightarrow> u32 \<Rightarrow> nat \<Rightarrow> nat \<Rightarrow> u32 \<Rightarrow> u32 list" where
  "lre_case_conv_entry lower c conv_type idx v =
     (let is_lower = (if conv_type \<noteq> 0 then 1 else 0 :: u32);
          type = run_type v;
          data = push_bit 8 (v AND 0xf) OR ucast (case_conv_table2 ! idx);
          code = run_code v
      in if type = RUN_TYPE_U \<or> type = RUN_TYPE_L \<or> type = RUN_TYPE_UF \<or> type = RUN_TYPE_LF then
           (if conv_type = unat (type AND 1) \<or> type \<ge> RUN_TYPE_UF \<and> conv_type = 2
            then [c - code + drop_bit (32 - 17) (case_conv_table1 ! unat data)] else [c])
         else if type = RUN_TYPE_UL then
           (let a = c - code in
            if (a AND 1) \<noteq> 1 - is_lower then [c] else [(a XOR 1) + code])
         else if type = RUN_TYPE_LSU then
           (let a = c - code in
            if a = 1 then [c + (2 * is_lower - 1)]
            else if a = (1 - is_lower) * 2 then [c + (2 * is_lower - 1) * 2]
            else [c])
         else if type = RUN_TYPE_U2L_399_EXT2 then
           (if is_lower = 0 then [c - code + case_conv_ext_at (drop_bit 6 data), 0x399]
            else [c - code + case_conv_ext_at (data AND 0x3f)])
         else if type = RUN_TYPE_UF_D20 then
           (if conv_type = 1 then [c] else [data + (if conv_type = 2 then 0x20 else 0)])
         else if type = RUN_TYPE_UF_D1_EXT then
           (if conv_type = 1 then [c]
            else [case_conv_ext_at data + (if conv_type = 2 then 1 else 0)])
         else if type = RUN_TYPE_U_EXT \<or> type = RUN_TYPE_LF_EXT then
           (if is_lower \<noteq> type - RUN_TYPE_U_EXT then [c] else [case_conv_ext_at data])
         else if type = RUN_TYPE_LF_EXT2 then
           (if is_lower = 0 then [c]
            else [c - code + case_conv_ext_at (drop_bit 6 data), case_conv_ext_at (data AND 0x3f)])
         else if type = RUN_TYPE_UF_EXT2 then
           (if conv_type = 1 then [c]
            else let res = [c - code + case_conv_ext_at (drop_bit 6 data),
                            case_conv_ext_at (data AND 0x3f)]
                 in if conv_type = 2 then map lower res else res)
         else
           (if conv_type = 1 then [c]
            else let res = [case_conv_ext_at (drop_bit 8 data),
                            case_conv_ext_at (drop_bit 4 data AND 0xf),
                            case_conv_ext_at (data AND 0xf)]
                 in if conv_type = 2 then map lower res else res))"

text \<open>The body of \<^verbatim>\<open>lre_case_conv\<close>, and the two levels of its recursion.\<close>

definition case_conv_step :: "(u32 \<Rightarrow> u32) \<Rightarrow> u32 \<Rightarrow> nat \<Rightarrow> u32 list" where
  "case_conv_step lower c conv_type =
     (if c < 128 then
        (if conv_type \<noteq> 0 then
           (if c \<ge> 0x41 \<and> c \<le> 0x5a then [c - 0x41 + 0x61] else [c])
         else
           (if c \<ge> 0x61 \<and> c \<le> 0x7a then [c - 0x61 + 0x41] else [c]))
      else
        (case case_conv_search c of
           None \<Rightarrow> [c]
         | Some (idx, v) \<Rightarrow> lre_case_conv_entry lower c conv_type idx v))"

text \<open>To lower case: the entry never calls back, so any function serves as \<open>lower\<close>.\<close>

definition lre_case_conv1_lower :: "u32 \<Rightarrow> u32" where
  "lre_case_conv1_lower c = hd (case_conv_step (\<lambda>c. c) c 1)"

definition lre_case_conv :: "u32 \<Rightarrow> nat \<Rightarrow> u32 list" where
  "lre_case_conv c conv_type = case_conv_step lre_case_conv1_lower c conv_type"

definition lre_case_folding_entry :: "u32 \<Rightarrow> nat \<Rightarrow> u32 \<Rightarrow> bool \<Rightarrow> u32" where
  "lre_case_folding_entry c idx v is_unicode =
     (if is_unicode then
        (let res = lre_case_conv_entry lre_case_conv1_lower c 2 idx v in
         if length res = 1 then res ! 0
         else if c = 0xfb06 then 0xfb05
         else if c = 0x01fd3 then 0x390
         else if c = 0x01fe3 then 0x3b0
         else c)
      else if c < 128 then
        (if c \<ge> 0x61 \<and> c \<le> 0x7a then c - 0x61 + 0x41 else c)
      else
        (let res = lre_case_conv_entry lre_case_conv1_lower c 0 idx v in
         if length res = 1 \<and> res ! 0 \<ge> 128 then res ! 0 else c))"

definition lre_canonicalize :: "u32 \<Rightarrow> bool \<Rightarrow> u32" where
  "lre_canonicalize c is_unicode =
     (if c < 128 then
        (if is_unicode then
           (if c \<ge> 0x41 \<and> c \<le> 0x5a then c - 0x41 + 0x61 else c)
         else
           (if c \<ge> 0x61 \<and> c \<le> 0x7a then c - 0x61 + 0x41 else c))
      else
        (case case_conv_search c of
           None \<Rightarrow> c
         | Some (idx, v) \<Rightarrow> lre_case_folding_entry c idx v is_unicode))"

section \<open>Classes of characters\<close>

abbreviation (input) "UNICODE_C_SPACE \<equiv> (1 :: u8)"
abbreviation (input) "UNICODE_C_DIGIT \<equiv> (2 :: u8)"
abbreviation (input) "UNICODE_C_UPPER \<equiv> (4 :: u8)"
abbreviation (input) "UNICODE_C_LOWER \<equiv> (8 :: u8)"
abbreviation (input) "UNICODE_C_UNDER \<equiv> (16 :: u8)"
abbreviation (input) "UNICODE_C_DOLLAR \<equiv> (32 :: u8)"

definition lre_ctype_bits :: "u8 list" where
  "lre_ctype_bits = [
     0, 0, 0, 0, 0, 0, 0, 0, 0, 1, 1, 1, 1, 1, 0, 0,
     0, 0, 0, 0, 0, 0, 0, 0, 0, 0, 0, 0, 0, 0, 0, 0,
     1, 0, 0, 0, 32, 0, 0, 0, 0, 0, 0, 0, 0, 0, 0, 0,
     66, 66, 66, 66, 66, 66, 66, 66, 66, 66, 0, 0, 0, 0, 0, 0,
     0, 68, 68, 68, 68, 68, 68, 4, 4, 4, 4, 4, 4, 4, 4, 4,
     4, 4, 4, 4, 4, 4, 4, 4, 4, 4, 4, 0, 0, 0, 0, 16,
     0, 72, 72, 72, 72, 72, 72, 8, 8, 8, 8, 8, 8, 8, 8, 8,
     8, 8, 8, 8, 8, 8, 8, 8, 8, 8, 8, 0, 0, 0, 0, 0,
     0, 0, 0, 0, 0, 0, 0, 0, 0, 0, 0, 0, 0, 0, 0, 0,
     0, 0, 0, 0, 0, 0, 0, 0, 0, 0, 0, 0, 0, 0, 0, 0,
     1, 0, 0, 0, 0, 0, 0, 0, 0, 0, 0, 0, 0, 0, 0, 0,
     0, 0, 0, 0, 0, 0, 0, 0, 0, 0, 0, 0, 0, 0, 0, 0,
     0, 0, 0, 0, 0, 0, 0, 0, 0, 0, 0, 0, 0, 0, 0, 0,
     0, 0, 0, 0, 0, 0, 0, 0, 0, 0, 0, 0, 0, 0, 0, 0,
     0, 0, 0, 0, 0, 0, 0, 0, 0, 0, 0, 0, 0, 0, 0, 0,
     0, 0, 0, 0, 0, 0, 0, 0, 0, 0, 0, 0, 0, 0, 0, 0]"

definition lre_is_space_byte :: "u8 \<Rightarrow> bool" where
  "lre_is_space_byte c \<longleftrightarrow> lre_ctype_bits ! unat c AND UNICODE_C_SPACE \<noteq> 0"

definition lre_is_id_start_byte :: "u8 \<Rightarrow> bool" where
  "lre_is_id_start_byte c \<longleftrightarrow>
     lre_ctype_bits ! unat c AND
       (UNICODE_C_UPPER OR UNICODE_C_LOWER OR UNICODE_C_UNDER OR UNICODE_C_DOLLAR) \<noteq> 0"

definition lre_is_id_continue_byte :: "u8 \<Rightarrow> bool" where
  "lre_is_id_continue_byte c \<longleftrightarrow>
     lre_ctype_bits ! unat c AND
       (UNICODE_C_UPPER OR UNICODE_C_LOWER OR UNICODE_C_UNDER OR UNICODE_C_DOLLAR OR UNICODE_C_DIGIT) \<noteq> 0"

definition lre_is_word_byte :: "u8 \<Rightarrow> bool" where
  "lre_is_word_byte c \<longleftrightarrow>
     lre_ctype_bits ! unat c AND
       (UNICODE_C_UPPER OR UNICODE_C_LOWER OR UNICODE_C_UNDER OR UNICODE_C_DIGIT) \<noteq> 0"

definition char_range_s :: "u16 list" where
  "char_range_s = [10,
     0x0009, 0x000D + 1, 0x0020, 0x0020 + 1, 0x00A0, 0x00A0 + 1, 0x1680, 0x1680 + 1,
     0x2000, 0x200A + 1, 0x2028, 0x2029 + 1, 0x202F, 0x202F + 1, 0x205F, 0x205F + 1,
     0x3000, 0x3000 + 1, 0xFEFF, 0xFEFF + 1]"

text \<open>The loop starts at the third range and leaves at the first that begins above \<open>c\<close>.\<close>

fun space_scan :: "u16 list \<Rightarrow> u32 \<Rightarrow> bool" where
  "space_scan (low # high # rest) c =
     (if c < ucast low then False
      else if c < ucast high then True
      else space_scan rest c)"
| "space_scan _ c = False"

definition lre_is_space_non_ascii :: "u32 \<Rightarrow> bool" where
  "lre_is_space_non_ascii c = space_scan (drop 5 char_range_s) c"

definition lre_is_space :: "u32 \<Rightarrow> bool" where
  "lre_is_space c = (if c < 256 then lre_is_space_byte (ucast c) else lre_is_space_non_ascii c)"

end
