(* ===== verification/Opcodes.thy ===== *)
theory Opcodes
  imports Cutils
begin

text \<open>
  The byte code of \<^verbatim>\<open>libregexp/libregexp-opcode.h\<close>: the operations with their numbers and
  sizes, and the header in front of the code with its accessors (\<^verbatim>\<open>lre_get_*\<close> of
  \<^verbatim>\<open>libregexp/libregexp.c\<close>).
\<close>

section \<open>Operations\<close>

datatype reopcode =
    REOP_invalid
  | REOP_char
  | REOP_char_i
  | REOP_char32
  | REOP_char32_i
  | REOP_dot
  | REOP_any
  | REOP_space
  | REOP_not_space
  | REOP_line_start
  | REOP_line_start_m
  | REOP_line_end
  | REOP_line_end_m
  | REOP_goto
  | REOP_split_goto_first
  | REOP_split_next_first
  | REOP_match
  | REOP_lookahead_match
  | REOP_negative_lookahead_match
  | REOP_save_start
  | REOP_save_end
  | REOP_save_reset
  | REOP_loop
  | REOP_loop_split_goto_first
  | REOP_loop_split_next_first
  | REOP_loop_check_adv_split_goto_first
  | REOP_loop_check_adv_split_next_first
  | REOP_set_i32
  | REOP_word_boundary
  | REOP_word_boundary_i
  | REOP_not_word_boundary
  | REOP_not_word_boundary_i
  | REOP_back_reference
  | REOP_back_reference_i
  | REOP_backward_back_reference
  | REOP_backward_back_reference_i
  | REOP_range
  | REOP_range_i
  | REOP_range32
  | REOP_range32_i
  | REOP_lookahead
  | REOP_negative_lookahead
  | REOP_set_char_pos
  | REOP_check_advance
  | REOP_prev

text \<open>The operations in the order of the \<^verbatim>\<open>DEF\<close> list, whose positions are their numbers.\<close>

definition reopcodes :: "reopcode list" where
  "reopcodes = [
     REOP_invalid, REOP_char, REOP_char_i, REOP_char32, REOP_char32_i, REOP_dot, REOP_any,
     REOP_space, REOP_not_space, REOP_line_start, REOP_line_start_m, REOP_line_end,
     REOP_line_end_m, REOP_goto, REOP_split_goto_first, REOP_split_next_first, REOP_match,
     REOP_lookahead_match, REOP_negative_lookahead_match, REOP_save_start, REOP_save_end,
     REOP_save_reset, REOP_loop, REOP_loop_split_goto_first, REOP_loop_split_next_first,
     REOP_loop_check_adv_split_goto_first, REOP_loop_check_adv_split_next_first,
     REOP_set_i32, REOP_word_boundary, REOP_word_boundary_i, REOP_not_word_boundary,
     REOP_not_word_boundary_i, REOP_back_reference, REOP_back_reference_i,
     REOP_backward_back_reference, REOP_backward_back_reference_i, REOP_range, REOP_range_i,
     REOP_range32, REOP_range32_i, REOP_lookahead, REOP_negative_lookahead,
     REOP_set_char_pos, REOP_check_advance, REOP_prev]"

definition REOP_COUNT :: nat where
  "REOP_COUNT = length reopcodes"

text \<open>The byte of an operation, and the operation of a byte that has one.\<close>

primrec reop_byte :: "reopcode \<Rightarrow> u8" where
  "reop_byte REOP_invalid = 0"
| "reop_byte REOP_char = 1"
| "reop_byte REOP_char_i = 2"
| "reop_byte REOP_char32 = 3"
| "reop_byte REOP_char32_i = 4"
| "reop_byte REOP_dot = 5"
| "reop_byte REOP_any = 6"
| "reop_byte REOP_space = 7"
| "reop_byte REOP_not_space = 8"
| "reop_byte REOP_line_start = 9"
| "reop_byte REOP_line_start_m = 10"
| "reop_byte REOP_line_end = 11"
| "reop_byte REOP_line_end_m = 12"
| "reop_byte REOP_goto = 13"
| "reop_byte REOP_split_goto_first = 14"
| "reop_byte REOP_split_next_first = 15"
| "reop_byte REOP_match = 16"
| "reop_byte REOP_lookahead_match = 17"
| "reop_byte REOP_negative_lookahead_match = 18"
| "reop_byte REOP_save_start = 19"
| "reop_byte REOP_save_end = 20"
| "reop_byte REOP_save_reset = 21"
| "reop_byte REOP_loop = 22"
| "reop_byte REOP_loop_split_goto_first = 23"
| "reop_byte REOP_loop_split_next_first = 24"
| "reop_byte REOP_loop_check_adv_split_goto_first = 25"
| "reop_byte REOP_loop_check_adv_split_next_first = 26"
| "reop_byte REOP_set_i32 = 27"
| "reop_byte REOP_word_boundary = 28"
| "reop_byte REOP_word_boundary_i = 29"
| "reop_byte REOP_not_word_boundary = 30"
| "reop_byte REOP_not_word_boundary_i = 31"
| "reop_byte REOP_back_reference = 32"
| "reop_byte REOP_back_reference_i = 33"
| "reop_byte REOP_backward_back_reference = 34"
| "reop_byte REOP_backward_back_reference_i = 35"
| "reop_byte REOP_range = 36"
| "reop_byte REOP_range_i = 37"
| "reop_byte REOP_range32 = 38"
| "reop_byte REOP_range32_i = 39"
| "reop_byte REOP_lookahead = 40"
| "reop_byte REOP_negative_lookahead = 41"
| "reop_byte REOP_set_char_pos = 42"
| "reop_byte REOP_check_advance = 43"
| "reop_byte REOP_prev = 44"

definition reop_of :: "u32 \<Rightarrow> reopcode option" where
  "reop_of b = rd reopcodes (unat b)"

text \<open>The sizes; the variable part of \<^verbatim>\<open>back_reference*\<close> and \<^verbatim>\<open>range*\<close> is not in them.\<close>

definition reop_sizes :: "nat list" where
  "reop_sizes = [
     1, 3, 3, 5, 5, 1, 1, 1, 1, 1, 1, 1, 1, 5, 5, 5, 1, 1, 1, 2, 2, 3, 6, 10, 10, 10, 10, 6,
     1, 1, 1, 1, 2, 2, 2, 2, 3, 3, 3, 3, 5, 5, 2, 2, 1]"

definition reopcode_size :: "reopcode \<Rightarrow> nat" where
  "reopcode_size op = reop_sizes ! unat (reop_byte op)"

lemma reop_byte_lt: "unat (reop_byte op) < REOP_COUNT"
  by (cases op) (simp_all add: REOP_COUNT_def reopcodes_def)

lemma reopcodes_reop_byte: "reopcodes ! unat (reop_byte op) = op"
  by (cases op) (simp_all add: reopcodes_def)

lemma reop_of_reop_byte: "reop_of (ucast (reop_byte op)) = Some op"
proof -
  have "unat (ucast (reop_byte op) :: u32) = unat (reop_byte op)"
    by (cases op) simp_all
  then show ?thesis
    using reop_byte_lt [of op] by (simp add: reop_of_def rd_def REOP_COUNT_def reopcodes_reop_byte)
qed

lemma reop_byte_inject: "reop_byte a = reop_byte b \<longleftrightarrow> a = b"
  by (metis reopcodes_reop_byte)

text \<open>The code compares operations by their numbers (\<^verbatim>\<open>must come after\<close> in the list).\<close>

instantiation reopcode :: linorder
begin

definition less_eq_reopcode :: "reopcode \<Rightarrow> reopcode \<Rightarrow> bool" where
  "a \<le> b \<longleftrightarrow> reop_byte a \<le> reop_byte b"

definition less_reopcode :: "reopcode \<Rightarrow> reopcode \<Rightarrow> bool" where
  "a < b \<longleftrightarrow> reop_byte a < reop_byte b"

instance
  by standard (auto simp: less_eq_reopcode_def less_reopcode_def reop_byte_inject less_le)

end

section \<open>The header\<close>

definition LRE_FLAG_GLOBAL :: u32 where "LRE_FLAG_GLOBAL = push_bit 0 1"
definition LRE_FLAG_IGNORECASE :: u32 where "LRE_FLAG_IGNORECASE = push_bit 1 1"
definition LRE_FLAG_MULTILINE :: u32 where "LRE_FLAG_MULTILINE = push_bit 2 1"
definition LRE_FLAG_DOTALL :: u32 where "LRE_FLAG_DOTALL = push_bit 3 1"
definition LRE_FLAG_UNICODE :: u32 where "LRE_FLAG_UNICODE = push_bit 4 1"
definition LRE_FLAG_STICKY :: u32 where "LRE_FLAG_STICKY = push_bit 5 1"
definition LRE_FLAG_INDICES :: u32 where "LRE_FLAG_INDICES = push_bit 6 1"
definition LRE_FLAG_NAMED_GROUPS :: u32 where "LRE_FLAG_NAMED_GROUPS = push_bit 7 1"
definition LRE_FLAG_UNICODE_SETS :: u32 where "LRE_FLAG_UNICODE_SETS = push_bit 8 1"

definition RE_HEADER_FLAGS :: nat where "RE_HEADER_FLAGS = 0"
definition RE_HEADER_CAPTURE_COUNT :: nat where "RE_HEADER_CAPTURE_COUNT = 2"
definition RE_HEADER_REGISTER_COUNT :: nat where "RE_HEADER_REGISTER_COUNT = 3"
definition RE_HEADER_BYTECODE_LEN :: nat where "RE_HEADER_BYTECODE_LEN = 4"
definition RE_HEADER_LEN :: nat where "RE_HEADER_LEN = 8"
definition LRE_GROUP_NAME_TRAILER_LEN :: nat where "LRE_GROUP_NAME_TRAILER_LEN = 2"
definition CAPTURE_COUNT_MAX :: nat where "CAPTURE_COUNT_MAX = 255"
definition REGISTER_COUNT_MAX :: nat where "REGISTER_COUNT_MAX = 255"

definition lre_get_capture_count :: "u8 list \<Rightarrow> nat option" where
  "lre_get_capture_count bc_buf = map_option unat (get_u8 bc_buf RE_HEADER_CAPTURE_COUNT)"

definition lre_get_alloc_count :: "u8 list \<Rightarrow> nat option" where
  "lre_get_alloc_count bc_buf =
     (case (get_u8 bc_buf RE_HEADER_CAPTURE_COUNT, get_u8 bc_buf RE_HEADER_REGISTER_COUNT) of
        (Some c, Some r) \<Rightarrow> Some (unat c * 2 + unat r)
      | _ \<Rightarrow> None)"

definition lre_get_flags :: "u8 list \<Rightarrow> u32 option" where
  "lre_get_flags bc_buf = get_u16 bc_buf RE_HEADER_FLAGS"

text \<open>
  \<open>Some None\<close> is the \<^verbatim>\<open>NULL\<close> of a regexp without group names, \<open>Some (Some p)\<close> the index in
  the buffer where the names start.
\<close>

definition lre_get_groupnames :: "u8 list \<Rightarrow> nat option option" where
  "lre_get_groupnames bc_buf =
     (case lre_get_flags bc_buf of
        None \<Rightarrow> None
      | Some flags \<Rightarrow>
          if flags AND LRE_FLAG_NAMED_GROUPS = 0 then Some None
          else (case get_u32 bc_buf RE_HEADER_BYTECODE_LEN of
              None \<Rightarrow> None
            | Some re_bytecode_len \<Rightarrow> Some (Some (RE_HEADER_LEN + unat re_bytecode_len))))"

end
