(* ===== verification/Subject.thy ===== *)
theory Subject
  imports Cutils
begin

text \<open>
  How the matcher of \<^verbatim>\<open>libregexp/libregexp.c\<close> reads the subject string: the macros
  \<^verbatim>\<open>GET_CHAR\<close>, \<^verbatim>\<open>PEEK_CHAR\<close>, \<^verbatim>\<open>PEEK_PREV_CHAR\<close>, \<^verbatim>\<open>GET_PREV_CHAR\<close> and \<^verbatim>\<open>PREV_CHAR\<close>.

  The subject is a list of code units, bytes for buffer type 0 and 16-bit units for the types
  1 and 2; a pointer into it is an index. Type 2 pairs surrogates. A read outside the buffer
  is \<open>None\<close>.
\<close>

type_synonym units = "u16 list"

definition CP_LS :: u32 where "CP_LS = 0x2028"
definition CP_PS :: u32 where "CP_PS = 0x2029"

definition is_line_terminator :: "u32 \<Rightarrow> bool" where
  "is_line_terminator c \<longleftrightarrow> c = 0xa \<or> c = 0xd \<or> c = CP_LS \<or> c = CP_PS"

definition get_char :: "units \<Rightarrow> nat \<Rightarrow> nat \<Rightarrow> nat \<Rightarrow> (u32 \<times> nat) option" where
  "get_char cbuf cbuf_end cbuf_type cptr =
     (case rd cbuf cptr of
        None \<Rightarrow> None
      | Some u \<Rightarrow>
          (let c = ucast u; p = cptr + 1 in
           if cbuf_type = 0 then Some (c, p)
           else if is_hi_surrogate c \<and> cbuf_type = 2 \<and> p < cbuf_end then
             (case rd cbuf p of
                None \<Rightarrow> None
              | Some v \<Rightarrow>
                  if is_lo_surrogate (ucast v) then Some (from_surrogate c (ucast v), p + 1)
                  else Some (c, p))
           else Some (c, p)))"

definition peek_char :: "units \<Rightarrow> nat \<Rightarrow> nat \<Rightarrow> nat \<Rightarrow> u32 option" where
  "peek_char cbuf cbuf_end cbuf_type cptr =
     (case rd cbuf cptr of
        None \<Rightarrow> None
      | Some u \<Rightarrow>
          (let c = ucast u; p = cptr + 1 in
           if cbuf_type = 0 then Some c
           else if is_hi_surrogate c \<and> cbuf_type = 2 \<and> p < cbuf_end then
             (case rd cbuf p of
                None \<Rightarrow> None
              | Some v \<Rightarrow>
                  if is_lo_surrogate (ucast v) then Some (from_surrogate c (ucast v)) else Some c)
           else Some c))"

text \<open>One step back reads the unit below the pointer: there is none at index 0.\<close>

definition rd_prev :: "units \<Rightarrow> nat \<Rightarrow> u16 option" where
  "rd_prev cbuf p = (if p = 0 then None else rd cbuf (p - 1))"

definition get_prev_char :: "units \<Rightarrow> nat \<Rightarrow> nat \<Rightarrow> nat \<Rightarrow> (u32 \<times> nat) option" where
  "get_prev_char cbuf cbuf_start cbuf_type cptr =
     (case rd_prev cbuf cptr of
        None \<Rightarrow> None
      | Some u \<Rightarrow>
          (let c = ucast u; p = cptr - 1 in
           if cbuf_type = 0 then Some (c, p)
           else if is_lo_surrogate c \<and> cbuf_type = 2 \<and> p > cbuf_start then
             (case rd_prev cbuf p of
                None \<Rightarrow> None
              | Some v \<Rightarrow>
                  if is_hi_surrogate (ucast v) then Some (from_surrogate (ucast v) c, p - 1)
                  else Some (c, p))
           else Some (c, p)))"

definition peek_prev_char :: "units \<Rightarrow> nat \<Rightarrow> nat \<Rightarrow> nat \<Rightarrow> u32 option" where
  "peek_prev_char cbuf cbuf_start cbuf_type cptr =
     (case rd_prev cbuf cptr of
        None \<Rightarrow> None
      | Some u \<Rightarrow>
          (let c = ucast u; p = cptr - 1 in
           if cbuf_type = 0 then Some c
           else if is_lo_surrogate c \<and> cbuf_type = 2 \<and> p > cbuf_start then
             (case rd_prev cbuf p of
                None \<Rightarrow> None
              | Some v \<Rightarrow>
                  if is_hi_surrogate (ucast v) then Some (from_surrogate (ucast v) c) else Some c)
           else Some c))"

text \<open>For bytes \<^verbatim>\<open>PREV_CHAR\<close> moves the pointer and reads nothing.\<close>

definition prev_char :: "units \<Rightarrow> nat \<Rightarrow> nat \<Rightarrow> nat \<Rightarrow> nat option" where
  "prev_char cbuf cbuf_start cbuf_type cptr =
     (if cptr = 0 then None
      else if cbuf_type = 0 then Some (cptr - 1)
      else case rd_prev cbuf cptr of
        None \<Rightarrow> None
      | Some u \<Rightarrow>
          (let p = cptr - 1 in
           if is_lo_surrogate (ucast u) \<and> cbuf_type = 2 \<and> p > cbuf_start then
             (case rd_prev cbuf p of
                None \<Rightarrow> None
              | Some v \<Rightarrow> if is_hi_surrogate (ucast v) then Some (p - 1) else Some p)
           else Some p))"

section \<open>Progress and safety of the reads\<close>

lemma get_char_progress: "get_char b e t p = Some (c, q) \<Longrightarrow> p < q \<and> q \<le> length b \<and> (p < e \<longrightarrow> q \<le> e)"
  by (auto simp: get_char_def Let_def rd_def split: option.splits if_splits)

lemma get_char_defined: "p < e \<Longrightarrow> e \<le> length b \<Longrightarrow> \<exists>c q. get_char b e t p = Some (c, q)"
  by (auto simp: get_char_def Let_def rd_def split: option.splits if_splits)

lemma get_prev_char_progress:
  "get_prev_char b s t p = Some (c, q) \<Longrightarrow> q < p \<and> (s < p \<longrightarrow> s \<le> q)"
  by (auto simp: get_prev_char_def Let_def rd_def rd_prev_def split: option.splits if_splits)

lemma get_prev_char_defined: "0 < p \<Longrightarrow> p \<le> length b \<Longrightarrow> \<exists>c q. get_prev_char b s t p = Some (c, q)"
  by (auto simp: get_prev_char_def Let_def rd_def rd_prev_def split: option.splits if_splits)

lemma peek_char_get: "peek_char b e t p = map_option fst (get_char b e t p)"
  by (auto simp: peek_char_def get_char_def Let_def split: option.splits if_splits)

lemma peek_prev_char_get: "peek_prev_char b s t p = map_option fst (get_prev_char b s t p)"
  by (auto simp: peek_prev_char_def get_prev_char_def Let_def split: option.splits if_splits)

lemma prev_char_get: "p \<le> length b \<Longrightarrow> prev_char b s t p = map_option snd (get_prev_char b s t p)"
  by (auto simp: prev_char_def get_prev_char_def rd_prev_def rd_def Let_def split: option.splits if_splits)

section \<open>Reading forwards and backwards\<close>

text \<open>A position is inside a pair when it stands between a high and a low surrogate.\<close>

definition inside_pair :: "units \<Rightarrow> nat \<Rightarrow> bool" where
  "inside_pair b p \<longleftrightarrow> 0 < p \<and> p < length b \<and>
     is_hi_surrogate (ucast (b ! (p - 1))) \<and> is_lo_surrogate (ucast (b ! p))"

lemma hi_not_lo: "is_hi_surrogate c \<Longrightarrow> \<not> is_lo_surrogate c"
  by (simp add: is_hi_surrogate_def is_lo_surrogate_def)

text \<open>
  C33. Reading a character forwards and then backwards returns to the same place with the same
  character, for every buffer type, from every position that is not inside a surrogate pair.
\<close>

theorem get_prev_char_get_char:
  assumes get: "get_char b e t p = Some (c, q)" and outside: "t = 2 \<longrightarrow> \<not> inside_pair b p"
    and "p < e" and "e \<le> length b"
  shows "get_prev_char b 0 t q = Some (c, p)"
proof -
  from get have p: "p < length b" by (auto simp: get_char_def rd_def split: if_splits)
  show ?thesis
  proof (cases "t = 2 \<and> is_hi_surrogate (ucast (b ! p)) \<and> p + 1 < e \<and> is_lo_surrogate (ucast (b ! (p + 1)))")
    case True
    with get p assms(4) have "q = p + 2" "c = from_surrogate (ucast (b ! p)) (ucast (b ! (p + 1)))"
      by (auto simp: get_char_def rd_def Let_def)
    with True assms(4) show ?thesis
      by (simp add: get_prev_char_def rd_prev_def rd_def Let_def)
  next
    case False
    with get p assms(4) have q: "q = p + 1" "c = ucast (b ! p)"
      by (auto simp: get_char_def rd_def Let_def split: if_splits)
    with p outside show ?thesis
      by (auto simp: get_prev_char_def rd_prev_def rd_def Let_def inside_pair_def)
  qed
qed

theorem get_prev_char_get_char_witness:
  "get_prev_char [0x61, 0xD83D, 0xDE00] 0 2 3 = Some (0x1F600, 1)"
proof (rule get_prev_char_get_char)
  show "get_char [0x61, 0xD83D, 0xDE00] 3 2 1 = Some (0x1F600, 3)" by code_simp
  show "(2 :: nat) = 2 \<longrightarrow> \<not> inside_pair [0x61, 0xD83D, 0xDE00] 1" by code_simp
qed simp_all

section \<open>UTF-16\<close>

text \<open>The two units of a character above the basic plane, as \<^verbatim>\<open>cutils.h\<close> splits it.\<close>

definition utf16_units :: "u32 \<Rightarrow> units" where
  "utf16_units c =
     (if c > 0xffff then [ucast (get_hi_surrogate c), ucast (get_lo_surrogate c)] else [ucast c])"

lemma get_lo_surrogate_add: "get_lo_surrogate c = take_bit 10 c + 0xDC00"
proof -
  have "get_lo_surrogate c = take_bit 10 c OR 0xDC00"
    by (simp add: get_lo_surrogate_def and_low_mask)
  also have "\<dots> = take_bit 10 c + 0xDC00"
  proof (rule disjunctive_add [symmetric])
    fix n
    show "\<not> bit (take_bit 10 c) n \<or> \<not> bit (0xDC00 :: u32) n"
      by (cases "n < 10") (auto simp: bit_take_bit_iff numeral_eq_Suc less_Suc_eq)
  qed
  finally show ?thesis .
qed

lemma surrogate_arith:
  assumes "0x10000 \<le> (c :: u32)" and "c < 0x110000"
  shows "unat (get_hi_surrogate c) = 0xD800 + (unat c - 0x10000) div 0x400"
    and "unat (get_lo_surrogate c) = 0xDC00 + unat c mod 0x400"
proof -
  have c: "0x10000 \<le> unat c" "unat c < 0x110000"
    using assms by (simp_all add: word_le_nat_alt word_less_nat_alt)
  have d: "unat (drop_bit 10 c) = unat c div 0x400"
    by (simp add: drop_bit_eq_div unat_div)
  have ge: "0x40 \<le> unat c div 0x400" and lt: "unat c div 0x400 < 0x440"
    using c by (simp_all add: less_eq_div_iff_mult_less_eq div_less_iff_less_mult)
  have "(0x40 :: u32) \<le> drop_bit 10 c"
    using ge by (simp add: word_le_nat_alt d)
  then have "unat (drop_bit 10 c - 0x40) = unat c div 0x400 - 0x40"
    by (simp add: unat_sub d)
  moreover have "get_hi_surrogate c = (drop_bit 10 c - 0x40) + 0xD800"
    by (simp add: get_hi_surrogate_def)
  ultimately have "unat (get_hi_surrogate c) = (unat c div 0x400 - 0x40) + 0xD800"
    using lt by (simp only: unat_word_ariths(1)) simp
  then show "unat (get_hi_surrogate c) = 0xD800 + (unat c - 0x10000) div 0x400"
    using c by simp
  note get_lo_surrogate_add [of c]
  then show "unat (get_lo_surrogate c) = 0xDC00 + unat c mod 0x400"
  proof -
    assume eq: "get_lo_surrogate c = take_bit 10 c + 0xDC00"
    have "unat (take_bit 10 c) = unat c mod 0x400"
      by (simp only: unsigned_take_bit_eq) (simp add: take_bit_eq_mod)
    moreover have "unat c mod 0x400 < 0x400" by simp
    ultimately show ?thesis by (simp add: eq unat_word_ariths)
  qed
qed

lemma surrogate_units:
  assumes "0x10000 \<le> (c :: u32)" and "c < 0x110000"
  shows "is_hi_surrogate (ucast (ucast (get_hi_surrogate c) :: u16))"
    and "is_lo_surrogate (ucast (ucast (get_lo_surrogate c) :: u16))"
    and "from_surrogate (ucast (ucast (get_hi_surrogate c) :: u16)) (ucast (ucast (get_lo_surrogate c) :: u16)) = c"
proof -
  have c: "0x10000 \<le> unat c" "unat c < 0x110000"
    using assms by (simp_all add: word_le_nat_alt word_less_nat_alt)
  let ?h = "get_hi_surrogate c" and ?l = "get_lo_surrogate c"
  note ar = surrogate_arith [OF assms]
  have h: "unat ?h < 0xDC00" "0xD800 \<le> unat ?h" using ar(1) c by (simp_all add: div_less_iff_less_mult)
  have l: "unat ?l < 0xE000" "0xDC00 \<le> unat ?l" using ar(2) by simp_all
  have "(ucast (ucast ?h :: u16) :: u32) = ?h"
    using h by (simp add: word_unat_eq_iff unsigned_ucast_eq unsigned_take_bit_eq take_bit_nat_eq_self)
  moreover have "(ucast (ucast ?l :: u16) :: u32) = ?l"
    using l by (simp add: word_unat_eq_iff unsigned_ucast_eq unsigned_take_bit_eq take_bit_nat_eq_self)
  moreover have "is_hi_surrogate ?h"
    using h by (simp add: is_hi_surrogate_def word_unat_eq_iff drop_bit_eq_div unat_div)
  moreover have "is_lo_surrogate ?l"
    using l by (simp add: is_lo_surrogate_def word_unat_eq_iff drop_bit_eq_div unat_div)
  moreover have "from_surrogate ?h ?l = c"
  proof -
    have "?h = (drop_bit 10 c - 0x40) + 0xD800"
      by (simp add: get_hi_surrogate_def)
    then have "from_surrogate ?h ?l = push_bit 10 (drop_bit 10 c) + take_bit 10 c"
      by (simp add: from_surrogate_def get_lo_surrogate_add push_bit_eq_mult algebra_simps)
    then show ?thesis by (simp add: bits_ident)
  qed
  ultimately show "is_hi_surrogate (ucast (ucast ?h :: u16))" "is_lo_surrogate (ucast (ucast ?l :: u16))"
    "from_surrogate (ucast (ucast ?h :: u16)) (ucast (ucast ?l :: u16)) = c"
    by simp_all
qed

end
