(* ===== verification/Instr.thy ===== *)
theory Instr
  imports Opcodes Subject CaseConv
begin

text \<open>
  What one instruction of \<^verbatim>\<open>lre_exec_backtrack\<close> in \<^verbatim>\<open>libregexp/libregexp.c\<close> does.

  An instruction reads its operands behind \<open>pc\<close>, the subject at \<open>cptr\<close> and the array
  \<open>capture\<close>. It changes the backtracking state only through the macros \<^verbatim>\<open>SAVE_CAPTURE\<close>,
  \<^verbatim>\<open>SAVE_CAPTURE_CHECK\<close>, \<^verbatim>\<open>CHECK_STACK_SPACE\<close> and the push of a choice point, here the
  \<open>micro\<close> operations in the order the code runs them, and then leaves the \<^verbatim>\<open>switch\<close> at a
  \<^verbatim>\<open>break\<close>, a \<^verbatim>\<open>goto no_match\<close> or a \<^verbatim>\<open>return\<close>, here its \<open>ctrl\<close>. Theory \<open>Exec\<close> gives both
  the code's meaning on the stack.
\<close>

section \<open>Registers, contexts and effects\<close>

text \<open>
  One element of \<open>capture\<close>: \<^verbatim>\<open>NULL\<close>, a position in the subject, a counter, or what the
  caller's array held before.
\<close>

datatype slot = SNull | SPtr nat | SNum u32 | SUninit

datatype re_exec_state =
    RE_EXEC_STATE_SPLIT
  | RE_EXEC_STATE_LOOKAHEAD
  | RE_EXEC_STATE_NEGATIVE_LOOKAHEAD

text \<open>The fields of \<^verbatim>\<open>REExecContext\<close> that stay fixed during a match.\<close>

record re_exec_context =
  cbuf :: units
  cbuf_end :: nat
  cbuf_type :: nat
  capture_count :: nat
  is_unicode :: bool

datatype micro =
    Check_stack_space nat
  | Save_capture nat slot
  | Save_capture_check nat slot
  | Push_state int nat re_exec_state

datatype ctrl =
    Go int nat
  | Poll int nat
  | No_match
  | Matched
  | Lookahead_matched
  | Negative_lookahead_matched
  | Undefined

text \<open>
  \<open>Undefined\<close> is what the C code leaves undefined or aborts on: an operand or a character read
  outside its buffer, a failed \<^verbatim>\<open>assert\<close>, an unknown operation, a register that is read as
  the other kind than it was written.
\<close>

definition fetch8 :: "u8 list \<Rightarrow> int \<Rightarrow> u32 option" where
  "fetch8 bc p = (if p < 0 then None else get_u8 bc (nat p))"

definition fetch16 :: "u8 list \<Rightarrow> int \<Rightarrow> u32 option" where
  "fetch16 bc p = (if p < 0 then None else get_u16 bc (nat p))"

definition fetch32 :: "u8 list \<Rightarrow> int \<Rightarrow> u32 option" where
  "fetch32 bc p = (if p < 0 then None else get_u32 bc (nat p))"

abbreviation (input) at_end :: "re_exec_context \<Rightarrow> nat \<Rightarrow> bool" where
  "at_end ctx cptr \<equiv> cptr \<ge> cbuf_end ctx"

definition next_char :: "re_exec_context \<Rightarrow> nat \<Rightarrow> (u32 \<times> nat) option" where
  "next_char ctx cptr = get_char (cbuf ctx) (cbuf_end ctx) (cbuf_type ctx) cptr"

section \<open>Characters and classes\<close>

definition exec_char :: "re_exec_context \<Rightarrow> u8 list \<Rightarrow> reopcode \<Rightarrow> int \<Rightarrow> nat \<Rightarrow> ctrl" where
  "exec_char ctx bc opcode pc cptr =
     (let wide = (opcode = REOP_char32 \<or> opcode = REOP_char32_i);
          pc' = (if wide then pc + 4 else pc + 2)
      in case (if wide then fetch32 bc pc else fetch16 bc pc) of
           None \<Rightarrow> Undefined
         | Some val \<Rightarrow>
             if at_end ctx cptr then No_match
             else (case next_char ctx cptr of
                 None \<Rightarrow> Undefined
               | Some (c, cptr') \<Rightarrow>
                   (let c = (if opcode = REOP_char_i \<or> opcode = REOP_char32_i
                             then lre_canonicalize c (is_unicode ctx) else c)
                    in if val \<noteq> c then No_match else Go pc' cptr')))"

definition exec_dot :: "re_exec_context \<Rightarrow> int \<Rightarrow> nat \<Rightarrow> ctrl" where
  "exec_dot ctx pc cptr =
     (if cptr = cbuf_end ctx then No_match
      else (case next_char ctx cptr of
          None \<Rightarrow> Undefined
        | Some (c, cptr') \<Rightarrow> if is_line_terminator c then No_match else Go pc cptr'))"

definition exec_any :: "re_exec_context \<Rightarrow> int \<Rightarrow> nat \<Rightarrow> ctrl" where
  "exec_any ctx pc cptr =
     (if cptr = cbuf_end ctx then No_match
      else (case next_char ctx cptr of
          None \<Rightarrow> Undefined
        | Some (c, cptr') \<Rightarrow> Go pc cptr'))"

definition exec_space :: "re_exec_context \<Rightarrow> int \<Rightarrow> nat \<Rightarrow> ctrl" where
  "exec_space ctx pc cptr =
     (if cptr = cbuf_end ctx then No_match
      else (case next_char ctx cptr of
          None \<Rightarrow> Undefined
        | Some (c, cptr') \<Rightarrow> if \<not> lre_is_space c then No_match else Go pc cptr'))"

definition exec_not_space :: "re_exec_context \<Rightarrow> int \<Rightarrow> nat \<Rightarrow> ctrl" where
  "exec_not_space ctx pc cptr =
     (if cptr = cbuf_end ctx then No_match
      else (case next_char ctx cptr of
          None \<Rightarrow> Undefined
        | Some (c, cptr') \<Rightarrow> if lre_is_space c then No_match else Go pc cptr'))"

lemmas exec_class_defs = exec_dot_def exec_any_def exec_space_def exec_not_space_def

definition exec_line_start :: "re_exec_context \<Rightarrow> reopcode \<Rightarrow> int \<Rightarrow> nat \<Rightarrow> ctrl" where
  "exec_line_start ctx opcode pc cptr =
     (if cptr = 0 then Go pc cptr
      else if opcode = REOP_line_start then No_match
      else (case peek_prev_char (cbuf ctx) 0 (cbuf_type ctx) cptr of
          None \<Rightarrow> Undefined
        | Some c \<Rightarrow> if \<not> is_line_terminator c then No_match else Go pc cptr))"

definition exec_line_end :: "re_exec_context \<Rightarrow> reopcode \<Rightarrow> int \<Rightarrow> nat \<Rightarrow> ctrl" where
  "exec_line_end ctx opcode pc cptr =
     (if cptr = cbuf_end ctx then Go pc cptr
      else if opcode = REOP_line_end then No_match
      else (case peek_char (cbuf ctx) (cbuf_end ctx) (cbuf_type ctx) cptr of
          None \<Rightarrow> Undefined
        | Some c \<Rightarrow> if \<not> is_line_terminator c then No_match else Go pc cptr))"

definition word_char :: "bool \<Rightarrow> u32 \<Rightarrow> bool" where
  "word_char ignore_case c =
     (if c < 256 then lre_is_word_byte (ucast c) else ignore_case \<and> (c = 0x017f \<or> c = 0x212a))"

definition exec_word_boundary :: "re_exec_context \<Rightarrow> reopcode \<Rightarrow> int \<Rightarrow> nat \<Rightarrow> ctrl" where
  "exec_word_boundary ctx opcode pc cptr =
     (let ignore_case = (opcode = REOP_word_boundary_i \<or> opcode = REOP_not_word_boundary_i);
          is_boundary = (opcode = REOP_word_boundary \<or> opcode = REOP_word_boundary_i);
          v1 = (if cptr = 0 then Some False
                else map_option (word_char ignore_case)
                       (peek_prev_char (cbuf ctx) 0 (cbuf_type ctx) cptr));
          v2 = (if at_end ctx cptr then Some False
                else map_option (word_char ignore_case)
                       (peek_char (cbuf ctx) (cbuf_end ctx) (cbuf_type ctx) cptr))
      in case (v1, v2) of
           (Some v1, Some v2) \<Rightarrow> if (v1 \<noteq> v2) \<noteq> is_boundary then No_match else Go pc cptr
         | _ \<Rightarrow> Undefined)"

definition exec_prev :: "re_exec_context \<Rightarrow> int \<Rightarrow> nat \<Rightarrow> ctrl" where
  "exec_prev ctx pc cptr =
     (if cptr = 0 then No_match
      else (case prev_char (cbuf ctx) 0 (cbuf_type ctx) cptr of
          None \<Rightarrow> Undefined
        | Some cptr' \<Rightarrow> Go pc cptr'))"

section \<open>Ranges\<close>

datatype search_result = Hit | Miss | Bad_read

text \<open>
  The loop of \<^verbatim>\<open>range\<close> and \<^verbatim>\<open>range32\<close> on 32-bit indices. \<open>entry\<close> reads the bounds of one
  interval. The function is \<open>None\<close> where the loop would not end.
\<close>

partial_function (option) range_search ::
  "(u32 \<Rightarrow> (u32 \<times> u32) option) \<Rightarrow> u32 \<Rightarrow> u32 \<Rightarrow> u32 \<Rightarrow> search_result option" where
  "range_search entry c idx_min idx_max =
     (if idx_min \<le> idx_max then
        (let idx = (idx_min + idx_max) div 2 in
         case entry idx of
           None \<Rightarrow> Some Bad_read
         | Some (low, high) \<Rightarrow>
             if c < low then range_search entry c idx_min (idx - 1)
             else if c > high then range_search entry c (idx + 1) idx_max
             else Some Hit)
      else Some Miss)"

declare range_search.simps [code]

definition range16_entry :: "u8 list \<Rightarrow> int \<Rightarrow> u32 \<Rightarrow> (u32 \<times> u32) option" where
  "range16_entry bc pc idx =
     (case (fetch16 bc (pc + uint (idx * 4)), fetch16 bc (pc + uint (idx * 4) + 2)) of
        (Some low, Some high) \<Rightarrow> Some (low, high)
      | _ \<Rightarrow> None)"

definition range32_entry :: "u8 list \<Rightarrow> int \<Rightarrow> u32 \<Rightarrow> (u32 \<times> u32) option" where
  "range32_entry bc pc idx =
     (case (fetch32 bc (pc + uint (idx * 8)), fetch32 bc (pc + uint (idx * 8) + 4)) of
        (Some low, Some high) \<Rightarrow> Some (low, high)
      | _ \<Rightarrow> None)"

definition search_ctrl :: "search_result option \<Rightarrow> int \<Rightarrow> nat \<Rightarrow> ctrl" where
  "search_ctrl r pc cptr =
     (case r of Some Hit \<Rightarrow> Go pc cptr | Some Miss \<Rightarrow> No_match | _ \<Rightarrow> Undefined)"

definition exec_range :: "re_exec_context \<Rightarrow> u8 list \<Rightarrow> reopcode \<Rightarrow> int \<Rightarrow> nat \<Rightarrow> ctrl" where
  "exec_range ctx bc opcode pc cptr =
     (case fetch16 bc pc of
        None \<Rightarrow> Undefined
      | Some n \<Rightarrow>
          (let pc = pc + 2; pc_end = pc + 4 * int (unat n) in
           if at_end ctx cptr then No_match
           else (case next_char ctx cptr of
               None \<Rightarrow> Undefined
             | Some (c, cptr') \<Rightarrow>
                 (let c = (if opcode = REOP_range_i then lre_canonicalize c (is_unicode ctx) else c);
                      idx_max = n - 1
                  in case fetch16 bc pc of
                       None \<Rightarrow> Undefined
                     | Some low \<Rightarrow>
                         if c < low then No_match
                         else (case fetch16 bc (pc + uint (idx_max * 4) + 2) of
                             None \<Rightarrow> Undefined
                           | Some high \<Rightarrow>
                               if c \<ge> 0xffff \<and> high = 0xffff then Go pc_end cptr'
                               else if c > high then No_match
                               else search_ctrl (range_search (range16_entry bc pc) c 0 idx_max)
                                      pc_end cptr')))))"

definition exec_range32 :: "re_exec_context \<Rightarrow> u8 list \<Rightarrow> reopcode \<Rightarrow> int \<Rightarrow> nat \<Rightarrow> ctrl" where
  "exec_range32 ctx bc opcode pc cptr =
     (case fetch16 bc pc of
        None \<Rightarrow> Undefined
      | Some n \<Rightarrow>
          (let pc = pc + 2; pc_end = pc + 8 * int (unat n) in
           if at_end ctx cptr then No_match
           else (case next_char ctx cptr of
               None \<Rightarrow> Undefined
             | Some (c, cptr') \<Rightarrow>
                 (let c = (if opcode = REOP_range32_i then lre_canonicalize c (is_unicode ctx) else c);
                      idx_max = n - 1
                  in case fetch32 bc pc of
                       None \<Rightarrow> Undefined
                     | Some low \<Rightarrow>
                         if c < low then No_match
                         else (case fetch32 bc (pc + uint (idx_max * 8) + 4) of
                             None \<Rightarrow> Undefined
                           | Some high \<Rightarrow>
                               if c > high then No_match
                               else search_ctrl (range_search (range32_entry bc pc) c 0 idx_max)
                                      pc_end cptr')))))"

section \<open>Back references\<close>

text \<open>
  The comparison of the captured text \<open>cptr1 .. cptr1_end\<close> with the subject from \<open>cptr\<close>
  on; the result is where the subject stands afterwards.
\<close>

definition fold_char :: "re_exec_context \<Rightarrow> bool \<Rightarrow> u32 \<Rightarrow> u32" where
  "fold_char ctx icase c = (if icase then lre_canonicalize c (is_unicode ctx) else c)"

function back_ref_forward ::
  "re_exec_context \<Rightarrow> bool \<Rightarrow> int \<Rightarrow> nat \<Rightarrow> nat \<Rightarrow> nat \<Rightarrow> ctrl" where
  "back_ref_forward ctx icase pc cptr1 cptr1_end cptr =
     (if cptr1 < cptr1_end then
        if at_end ctx cptr then No_match
        else (case get_char (cbuf ctx) cptr1_end (cbuf_type ctx) cptr1 of
            None \<Rightarrow> Undefined
          | Some (c1, cptr1') \<Rightarrow>
              (case next_char ctx cptr of
                 None \<Rightarrow> Undefined
               | Some (c2, cptr') \<Rightarrow>
                   if fold_char ctx icase c1 \<noteq> fold_char ctx icase c2 then No_match
                   else back_ref_forward ctx icase pc cptr1' cptr1_end cptr'))
      else Go pc cptr)"
  by pat_completeness auto
termination
  by (relation "measure (\<lambda>(ctx, icase, pc, p, e, q). e - p)") (auto dest!: get_char_progress)

function back_ref_backward ::
  "re_exec_context \<Rightarrow> bool \<Rightarrow> int \<Rightarrow> nat \<Rightarrow> nat \<Rightarrow> nat \<Rightarrow> ctrl" where
  "back_ref_backward ctx icase pc cptr1 cptr1_start cptr =
     (if cptr1 > cptr1_start then
        if cptr = 0 then No_match
        else (case get_prev_char (cbuf ctx) cptr1_start (cbuf_type ctx) cptr1 of
            None \<Rightarrow> Undefined
          | Some (c1, cptr1') \<Rightarrow>
              (case get_prev_char (cbuf ctx) 0 (cbuf_type ctx) cptr of
                 None \<Rightarrow> Undefined
               | Some (c2, cptr') \<Rightarrow>
                   if fold_char ctx icase c1 \<noteq> fold_char ctx icase c2 then No_match
                   else back_ref_backward ctx icase pc cptr1' cptr1_start cptr'))
      else Go pc cptr)"
  by pat_completeness auto
termination
  by (relation "measure (\<lambda>(ctx, icase, pc, p, e, q). p)") (auto dest!: get_prev_char_progress)

declare back_ref_forward.simps [simp del] back_ref_backward.simps [simp del]

text \<open>
  The loop over the \<open>n\<close> group numbers at \<open>pc1\<close>: the first group with both ends set is
  compared, and without one the reference matches the empty string.
\<close>

fun back_ref_groups ::
  "re_exec_context \<Rightarrow> u8 list \<Rightarrow> reopcode \<Rightarrow> int \<Rightarrow> nat \<Rightarrow> int \<Rightarrow> nat \<Rightarrow> slot list \<Rightarrow> ctrl" where
  "back_ref_groups ctx bc opcode pc1 0 pc cptr capture = Go pc cptr"
| "back_ref_groups ctx bc opcode pc1 (Suc n) pc cptr capture =
     (case fetch8 bc pc1 of
        None \<Rightarrow> Undefined
      | Some val \<Rightarrow>
          if unat val \<ge> capture_count ctx then No_match
          else (case (rd capture (2 * unat val), rd capture (2 * unat val + 1)) of
              (Some (SPtr cptr1_start), Some (SPtr cptr1_end)) \<Rightarrow>
                if opcode = REOP_back_reference \<or> opcode = REOP_back_reference_i
                then back_ref_forward ctx (opcode = REOP_back_reference_i) pc
                       cptr1_start cptr1_end cptr
                else back_ref_backward ctx (opcode = REOP_backward_back_reference_i) pc
                       cptr1_end cptr1_start cptr
            | (Some SNull, Some SNull) \<Rightarrow> back_ref_groups ctx bc opcode (pc1 + 1) n pc cptr capture
            | (Some SNull, Some (SPtr _)) \<Rightarrow> back_ref_groups ctx bc opcode (pc1 + 1) n pc cptr capture
            | (Some (SPtr _), Some SNull) \<Rightarrow> back_ref_groups ctx bc opcode (pc1 + 1) n pc cptr capture
            | _ \<Rightarrow> Undefined))"

definition exec_back_reference ::
  "re_exec_context \<Rightarrow> u8 list \<Rightarrow> reopcode \<Rightarrow> int \<Rightarrow> nat \<Rightarrow> slot list \<Rightarrow> ctrl" where
  "exec_back_reference ctx bc opcode pc cptr capture =
     (case fetch8 bc pc of
        None \<Rightarrow> Undefined
      | Some n \<Rightarrow>
          back_ref_groups ctx bc opcode (pc + 1) (unat n) (pc + 1 + int (unat n)) cptr capture)"

section \<open>Registers and choice points\<close>

definition exec_split :: "u8 list \<Rightarrow> reopcode \<Rightarrow> int \<Rightarrow> nat \<Rightarrow> micro list \<times> ctrl" where
  "exec_split bc opcode pc cptr =
     (case fetch32 bc pc of
        None \<Rightarrow> ([], Undefined)
      | Some val \<Rightarrow>
          (let pc = pc + 4 in
           if opcode = REOP_split_next_first then
             ([Push_state (pc + sint val) cptr RE_EXEC_STATE_SPLIT], Go pc cptr)
           else
             ([Push_state pc cptr RE_EXEC_STATE_SPLIT], Go (pc + sint val) cptr)))"

definition exec_lookahead :: "u8 list \<Rightarrow> reopcode \<Rightarrow> int \<Rightarrow> nat \<Rightarrow> micro list \<times> ctrl" where
  "exec_lookahead bc opcode pc cptr =
     (case fetch32 bc pc of
        None \<Rightarrow> ([], Undefined)
      | Some val \<Rightarrow>
          (let pc = pc + 4 in
           ([Push_state (pc + sint val) cptr
               (if opcode = REOP_lookahead then RE_EXEC_STATE_LOOKAHEAD
                else RE_EXEC_STATE_NEGATIVE_LOOKAHEAD)], Go pc cptr)))"

definition exec_goto :: "u8 list \<Rightarrow> int \<Rightarrow> nat \<Rightarrow> ctrl" where
  "exec_goto bc pc cptr =
     (case fetch32 bc pc of None \<Rightarrow> Undefined | Some val \<Rightarrow> Poll (pc + 4 + sint val) cptr)"

definition exec_save ::
  "re_exec_context \<Rightarrow> u8 list \<Rightarrow> reopcode \<Rightarrow> int \<Rightarrow> nat \<Rightarrow> micro list \<times> ctrl" where
  "exec_save ctx bc opcode pc cptr =
     (case fetch8 bc pc of
        None \<Rightarrow> ([], Undefined)
      | Some val \<Rightarrow>
          if unat val < capture_count ctx then
            ([Save_capture (2 * unat val + (if opcode = REOP_save_start then 0 else 1)) (SPtr cptr)],
             Go (pc + 1) cptr)
          else ([], Undefined))"

definition exec_save_reset :: "re_exec_context \<Rightarrow> u8 list \<Rightarrow> int \<Rightarrow> nat \<Rightarrow> micro list \<times> ctrl" where
  "exec_save_reset ctx bc pc cptr =
     (case (fetch8 bc pc, fetch8 bc (pc + 1)) of
        (Some val, Some val2) \<Rightarrow>
          if unat val2 < capture_count ctx then
            (Check_stack_space (unat (2 * (val2 - val + 1)))
               # concat (map (\<lambda>v. [Save_capture (2 * v) SNull, Save_capture (2 * v + 1) SNull])
                           [unat val..<unat val2 + 1]),
             Go (pc + 2) cptr)
          else ([], Undefined)
      | _ \<Rightarrow> ([], Undefined))"

definition exec_set_i32 :: "re_exec_context \<Rightarrow> u8 list \<Rightarrow> int \<Rightarrow> nat \<Rightarrow> micro list \<times> ctrl" where
  "exec_set_i32 ctx bc pc cptr =
     (case (fetch8 bc pc, fetch32 bc (pc + 1)) of
        (Some r, Some val) \<Rightarrow>
          ([Save_capture_check (2 * capture_count ctx + unat r) (SNum val)], Go (pc + 5) cptr)
      | _ \<Rightarrow> ([], Undefined))"

text \<open>A register read as a number, and a register compared with a position.\<close>

definition slot_num :: "slot list \<Rightarrow> nat \<Rightarrow> u32 option" where
  "slot_num capture idx = (case rd capture idx of Some (SNum v) \<Rightarrow> Some v | _ \<Rightarrow> None)"

definition slot_is_ptr :: "slot list \<Rightarrow> nat \<Rightarrow> nat \<Rightarrow> bool option" where
  "slot_is_ptr capture idx cptr =
     (case rd capture idx of
        Some (SPtr p) \<Rightarrow> Some (p = cptr)
      | Some SNull \<Rightarrow> Some False
      | _ \<Rightarrow> None)"

definition exec_loop ::
  "re_exec_context \<Rightarrow> u8 list \<Rightarrow> int \<Rightarrow> nat \<Rightarrow> slot list \<Rightarrow> micro list \<times> ctrl" where
  "exec_loop ctx bc pc cptr capture =
     (case (fetch8 bc pc, fetch32 bc (pc + 1)) of
        (Some r, Some val) \<Rightarrow>
          (let idx = 2 * capture_count ctx + unat r; pc = pc + 5 in
           case slot_num capture idx of
             None \<Rightarrow> ([], Undefined)
           | Some v \<Rightarrow>
               (let val2 = v - 1 in
                ([Save_capture_check idx (SNum val2)],
                 if val2 \<noteq> 0 then Poll (pc + sint val) cptr else Go pc cptr)))
      | _ \<Rightarrow> ([], Undefined))"

definition exec_loop_split ::
  "re_exec_context \<Rightarrow> u8 list \<Rightarrow> reopcode \<Rightarrow> int \<Rightarrow> nat \<Rightarrow> slot list \<Rightarrow> micro list \<times> ctrl" where
  "exec_loop_split ctx bc opcode pc cptr capture =
     (case (fetch8 bc pc, fetch32 bc (pc + 1), fetch32 bc (pc + 5)) of
        (Some r, Some limit, Some val) \<Rightarrow>
          (let idx = 2 * capture_count ctx + unat r;
               pc = pc + 9;
               check_adv = (opcode = REOP_loop_check_adv_split_goto_first \<or>
                            opcode = REOP_loop_check_adv_split_next_first);
               next_first = (opcode = REOP_loop_split_next_first \<or>
                             opcode = REOP_loop_check_adv_split_next_first)
           in case slot_num capture idx of
                None \<Rightarrow> ([], Undefined)
              | Some v \<Rightarrow>
                  (let val2 = v - 1; save = Save_capture_check idx (SNum val2) in
                   if val2 > limit then ([save], Poll (pc + sint val) cptr)
                   else (case (if check_adv then slot_is_ptr capture (idx + 1) cptr else Some False) of
                       None \<Rightarrow> ([save], Undefined)
                     | Some same \<Rightarrow>
                         if check_adv \<and> same \<and> val2 \<noteq> limit then ([save], No_match)
                         else if val2 \<noteq> 0 then
                           (if next_first
                            then ([save, Push_state (pc + sint val) cptr RE_EXEC_STATE_SPLIT], Go pc cptr)
                            else ([save, Push_state pc cptr RE_EXEC_STATE_SPLIT], Go (pc + sint val) cptr))
                         else ([save], Go pc cptr))))
      | _ \<Rightarrow> ([], Undefined))"

definition exec_set_char_pos :: "re_exec_context \<Rightarrow> u8 list \<Rightarrow> int \<Rightarrow> nat \<Rightarrow> micro list \<times> ctrl" where
  "exec_set_char_pos ctx bc pc cptr =
     (case fetch8 bc pc of
        None \<Rightarrow> ([], Undefined)
      | Some r \<Rightarrow>
          ([Save_capture_check (2 * capture_count ctx + unat r) (SPtr cptr)], Go (pc + 1) cptr))"

definition exec_check_advance ::
  "re_exec_context \<Rightarrow> u8 list \<Rightarrow> int \<Rightarrow> nat \<Rightarrow> slot list \<Rightarrow> ctrl" where
  "exec_check_advance ctx bc pc cptr capture =
     (case fetch8 bc pc of
        None \<Rightarrow> Undefined
      | Some r \<Rightarrow>
          (case slot_is_ptr capture (2 * capture_count ctx + unat r) cptr of
             None \<Rightarrow> Undefined
           | Some same \<Rightarrow> if same then No_match else Go (pc + 1) cptr))"

section \<open>The switch\<close>

definition instr ::
  "re_exec_context \<Rightarrow> u8 list \<Rightarrow> reopcode \<Rightarrow> int \<Rightarrow> nat \<Rightarrow> slot list \<Rightarrow> micro list \<times> ctrl" where
  "instr ctx bc opcode pc cptr capture =
     (case opcode of
        REOP_match \<Rightarrow> ([], Matched)
      | REOP_lookahead_match \<Rightarrow> ([], Lookahead_matched)
      | REOP_negative_lookahead_match \<Rightarrow> ([], Negative_lookahead_matched)
      | REOP_char32 \<Rightarrow> ([], exec_char ctx bc opcode pc cptr)
      | REOP_char32_i \<Rightarrow> ([], exec_char ctx bc opcode pc cptr)
      | REOP_char \<Rightarrow> ([], exec_char ctx bc opcode pc cptr)
      | REOP_char_i \<Rightarrow> ([], exec_char ctx bc opcode pc cptr)
      | REOP_split_goto_first \<Rightarrow> exec_split bc opcode pc cptr
      | REOP_split_next_first \<Rightarrow> exec_split bc opcode pc cptr
      | REOP_lookahead \<Rightarrow> exec_lookahead bc opcode pc cptr
      | REOP_negative_lookahead \<Rightarrow> exec_lookahead bc opcode pc cptr
      | REOP_goto \<Rightarrow> ([], exec_goto bc pc cptr)
      | REOP_line_start \<Rightarrow> ([], exec_line_start ctx opcode pc cptr)
      | REOP_line_start_m \<Rightarrow> ([], exec_line_start ctx opcode pc cptr)
      | REOP_line_end \<Rightarrow> ([], exec_line_end ctx opcode pc cptr)
      | REOP_line_end_m \<Rightarrow> ([], exec_line_end ctx opcode pc cptr)
      | REOP_dot \<Rightarrow> ([], exec_dot ctx pc cptr)
      | REOP_any \<Rightarrow> ([], exec_any ctx pc cptr)
      | REOP_space \<Rightarrow> ([], exec_space ctx pc cptr)
      | REOP_not_space \<Rightarrow> ([], exec_not_space ctx pc cptr)
      | REOP_save_start \<Rightarrow> exec_save ctx bc opcode pc cptr
      | REOP_save_end \<Rightarrow> exec_save ctx bc opcode pc cptr
      | REOP_save_reset \<Rightarrow> exec_save_reset ctx bc pc cptr
      | REOP_set_i32 \<Rightarrow> exec_set_i32 ctx bc pc cptr
      | REOP_loop \<Rightarrow> exec_loop ctx bc pc cptr capture
      | REOP_loop_split_goto_first \<Rightarrow> exec_loop_split ctx bc opcode pc cptr capture
      | REOP_loop_split_next_first \<Rightarrow> exec_loop_split ctx bc opcode pc cptr capture
      | REOP_loop_check_adv_split_goto_first \<Rightarrow> exec_loop_split ctx bc opcode pc cptr capture
      | REOP_loop_check_adv_split_next_first \<Rightarrow> exec_loop_split ctx bc opcode pc cptr capture
      | REOP_set_char_pos \<Rightarrow> exec_set_char_pos ctx bc pc cptr
      | REOP_check_advance \<Rightarrow> ([], exec_check_advance ctx bc pc cptr capture)
      | REOP_word_boundary \<Rightarrow> ([], exec_word_boundary ctx opcode pc cptr)
      | REOP_word_boundary_i \<Rightarrow> ([], exec_word_boundary ctx opcode pc cptr)
      | REOP_not_word_boundary \<Rightarrow> ([], exec_word_boundary ctx opcode pc cptr)
      | REOP_not_word_boundary_i \<Rightarrow> ([], exec_word_boundary ctx opcode pc cptr)
      | REOP_back_reference \<Rightarrow> ([], exec_back_reference ctx bc opcode pc cptr capture)
      | REOP_back_reference_i \<Rightarrow> ([], exec_back_reference ctx bc opcode pc cptr capture)
      | REOP_backward_back_reference \<Rightarrow> ([], exec_back_reference ctx bc opcode pc cptr capture)
      | REOP_backward_back_reference_i \<Rightarrow> ([], exec_back_reference ctx bc opcode pc cptr capture)
      | REOP_range \<Rightarrow> ([], exec_range ctx bc opcode pc cptr)
      | REOP_range_i \<Rightarrow> ([], exec_range ctx bc opcode pc cptr)
      | REOP_range32 \<Rightarrow> ([], exec_range32 ctx bc opcode pc cptr)
      | REOP_range32_i \<Rightarrow> ([], exec_range32 ctx bc opcode pc cptr)
      | REOP_prev \<Rightarrow> ([], exec_prev ctx pc cptr)
      | REOP_invalid \<Rightarrow> ([], Undefined))"

end
