(* ===== verification/MatchOps.thy ===== *)
theory MatchOps
  imports Instr
begin

text \<open>
  What single instructions accept: the interval tables of \<^verbatim>\<open>range\<close> and \<^verbatim>\<open>range32\<close>.
\<close>

section \<open>The interval search\<close>

text \<open>Sorted, disjoint, closed intervals, as the class compiler emits them.\<close>

fun intervals_sorted :: "(u32 \<times> u32) list \<Rightarrow> bool" where
  "intervals_sorted ((l, h) # (l', h') # rs) \<longleftrightarrow> l \<le> h \<and> h < l' \<and> intervals_sorted ((l', h') # rs)"
| "intervals_sorted [(l, h)] \<longleftrightarrow> l \<le> h"
| "intervals_sorted [] \<longleftrightarrow> True"

lemma intervals_sorted_Cons:
  "intervals_sorted ((l, h) # rs) \<longleftrightarrow> l \<le> h \<and> (\<forall>(l', h') \<in> set rs. h < l') \<and> intervals_sorted rs"
proof (induction rs arbitrary: l h)
  case Nil
  then show ?case by simp
next
  case (Cons r rs)
  obtain l' h' where r: "r = (l', h')" by (cases r)
  show ?case
    using Cons.IH [of l' h'] by (auto simp: r)
qed

lemma intervals_sorted_nth:
  "intervals_sorted rs \<Longrightarrow> j < length rs \<Longrightarrow>
     fst (rs ! j) \<le> snd (rs ! j) \<and> (\<forall>i < j. snd (rs ! i) < fst (rs ! j))"
proof (induction rs arbitrary: j)
  case Nil
  then show ?case by simp
next
  case (Cons r rs)
  obtain l h where r: "r = (l, h)" by (cases r)
  with Cons.prems have rs: "intervals_sorted rs" and le: "l \<le> h"
    and lt: "\<And>k. k < length rs \<Longrightarrow> h < fst (rs ! k)"
    by (auto simp: intervals_sorted_Cons split_beta)
  show ?case
  proof (cases j)
    case 0
    then show ?thesis using le by (simp add: r)
  next
    case (Suc k)
    with Cons.IH [OF rs, of k] Cons.prems(2) lt [of k] show ?thesis
      by (auto simp: r less_Suc_eq_0_disj)
  qed
qed

lemma interval_table_sorted:
  assumes "intervals_sorted rs"
  shows "interval_table (\<lambda>i. c < fst (rs ! i)) (\<lambda>i. c > snd (rs ! i)) (length rs)"
proof
  fix i j
  assume ij: "i \<le> j" "j < length rs"
  then have "i = j \<or> fst (rs ! i) \<le> snd (rs ! i) \<and> snd (rs ! i) < fst (rs ! j) \<and> fst (rs ! j) \<le> snd (rs ! j)"
    using intervals_sorted_nth [OF assms, of j] intervals_sorted_nth [OF assms, of i]
    by (cases "i = j") auto
  then show "c < fst (rs ! i) \<Longrightarrow> c < fst (rs ! j)" "c > snd (rs ! j) \<Longrightarrow> c > snd (rs ! i)"
    by auto
next
  fix i
  assume "i < length rs" "c < fst (rs ! i)"
  then show "\<not> c > snd (rs ! i)"
    using intervals_sorted_nth [OF assms, of i] by auto
qed

lemma range_search_correct:
  assumes sorted: "intervals_sorted rs" and n: "length rs \<le> 0xffff"
    and entry: "\<And>i. i < length rs \<Longrightarrow> entry (word_of_nat i) = Some (rs ! i)"
    and first: "fst (rs ! 0) \<le> c" and "unat hi < length rs" and "unat lo \<le> unat hi + 1"
    and key: "\<And>i. i < length rs \<Longrightarrow> fst (rs ! i) \<le> c \<Longrightarrow> c \<le> snd (rs ! i) \<Longrightarrow> unat lo \<le> i \<and> i \<le> unat hi"
  shows "range_search entry c lo hi =
    Some (if \<exists>i < length rs. fst (rs ! i) \<le> c \<and> c \<le> snd (rs ! i) then Hit else Miss)"
  using assms(5-7)
proof (induction "unat hi + 1 - unat lo" arbitrary: lo hi rule: less_induct)
  case less
  note tab = interval_table_sorted [OF sorted, of c]
  have holds: "interval_table.holds_key (\<lambda>i. c < fst (rs ! i)) (\<lambda>i. c > snd (rs ! i)) (length rs) i \<longleftrightarrow>
      i < length rs \<and> fst (rs ! i) \<le> c \<and> c \<le> snd (rs ! i)" for i
    by (auto simp: interval_table.holds_key_def [OF tab] not_less)
  show ?case
  proof (cases "lo \<le> hi")
    case False
    then have "unat hi < unat lo" by (simp add: word_le_nat_alt)
    with less.prems(3) have "\<not> (\<exists>i < length rs. fst (rs ! i) \<le> c \<and> c \<le> snd (rs ! i))" by fastforce
    with False show ?thesis by (subst range_search.simps) simp
  next
    case True
    define m where "m = (unat lo + unat hi) div 2"
    have m: "unat lo \<le> m" "m \<le> unat hi" "m < length rs" "m < 0xffff"
      using True less.prems(1) n by (auto simp: m_def word_le_nat_alt)
    have "unat (lo + hi) = unat lo + unat hi"
      using less.prems(1,2) n by (simp add: unat_word_ariths)
    then have um: "unat ((lo + hi) div 2) = m"
      by (simp add: unat_div m_def)
    have wm: "(lo + hi) div 2 = word_of_nat m"
      using um m(4) by (simp add: word_unat_eq_iff unat_of_nat)
    have unf: "range_search entry c lo hi =
        (if c < fst (rs ! m) then range_search entry c lo (word_of_nat m - 1)
         else if c > snd (rs ! m) then range_search entry c (word_of_nat m + 1) hi
         else Some Hit)"
      using True entry [OF m(3)] by (subst range_search.simps) (simp add: wm Let_def split_beta)
    show ?thesis
    proof (cases "c < fst (rs ! m)")
      case left: True
      have "m \<noteq> 0"
      proof
        assume "m = 0"
        with left first show False by simp
      qed
      then have um1: "unat (word_of_nat m - 1 :: u32) = m - 1"
        using m(4) by (simp add: unat_sub word_le_nat_alt unat_of_nat)
      have "i < m" if "i < length rs" "fst (rs ! i) \<le> c" "c \<le> snd (rs ! i)" for i
        using interval_table.go_left [OF tab m(3) left] holds that by blast
      then show ?thesis
        using less.hyps [of "word_of_nat m - 1" lo] less.prems m \<open>m \<noteq> 0\<close> left
        by (fastforce simp: unf um1)
    next
      case nl: False
      show ?thesis
      proof (cases "c > snd (rs ! m)")
        case right: True
        have um1: "unat (word_of_nat m + 1 :: u32) = m + 1"
          using m(4) by (simp add: unat_word_ariths unat_of_nat)
        have "m < i" if "i < length rs" "fst (rs ! i) \<le> c" "c \<le> snd (rs ! i)" for i
          using interval_table.go_right [OF tab m(3) right] holds that by blast
        then show ?thesis
          using less.hyps [of hi "word_of_nat m + 1"] less.prems m right nl
          by (fastforce simp: unf um1)
      next
        case False
        with nl m(3) show ?thesis by (auto simp: unf not_less)
      qed
    qed
  qed
qed

section \<open>Range instructions\<close>

definition range_bytes :: "(u16 \<times> u16) list \<Rightarrow> u8 list" where
  "range_bytes rs = concat (map (\<lambda>(l, h). le16 l @ le16 h) rs)"

definition range32_bytes :: "(u32 \<times> u32) list \<Rightarrow> u8 list" where
  "range32_bytes rs = concat (map (\<lambda>(l, h). le32 l @ le32 h) rs)"

definition in_intervals :: "u32 \<Rightarrow> (u32 \<times> u32) list \<Rightarrow> bool" where
  "in_intervals c rs \<longleftrightarrow> (\<exists>(l, h) \<in> set rs. l \<le> c \<and> c \<le> h)"

definition widen :: "(u16 \<times> u16) list \<Rightarrow> (u32 \<times> u32) list" where
  "widen rs = map (\<lambda>(l, h). (ucast l, ucast h)) rs"

lemma length_range_bytes [simp]: "length (range_bytes rs) = 4 * length rs"
  by (induction rs) (auto simp: range_bytes_def le16_def)

lemma length_range32_bytes [simp]: "length (range32_bytes rs) = 8 * length rs"
  by (induction rs) (auto simp: range32_bytes_def le32_def)

lemma fetch16_at: "fetch16 (pre @ le16 v @ post) (int (length pre)) = Some (ucast v)"
  using f16.dec_enc [of pre v post] by (simp add: fetch16_def)

lemma fetch32_at: "fetch32 (pre @ le32 v @ post) (int (length pre)) = Some v"
  using f32.dec_enc [of pre v post] by (simp add: fetch32_def)

lemma uint_scaled:
  assumes "i \<le> 0xffff" and "k \<le> 8"
  shows "uint (word_of_nat i * word_of_nat k :: u32) = int (i * k)"
proof -
  have "i * k \<le> 0xffff * 8" using assms by (rule mult_le_mono)
  then have "unat (word_of_nat i * word_of_nat k :: u32) = i * k"
    by (simp flip: of_nat_mult add: unat_of_nat)
  then show ?thesis by (simp only: uint_nat)
qed

lemma range16_entry_at:
  assumes "i < length rs" and "length rs \<le> 0xffff"
  shows "range16_entry (pre @ range_bytes rs @ post) (int (length pre)) (word_of_nat i) = Some (widen rs ! i)"
proof -
  obtain l h where lh: "rs ! i = (l, h)" by (cases "rs ! i")
  have split: "rs = take i rs @ (l, h) # drop (Suc i) rs"
    using assms(1) lh by (metis id_take_nth_drop)
  let ?pre = "pre @ range_bytes (take i rs)" and ?post = "range_bytes (drop (Suc i) rs) @ post"
  have bytes: "pre @ range_bytes rs @ post = ?pre @ le16 l @ le16 h @ ?post"
    by (subst split) (simp add: range_bytes_def)
  have len: "length ?pre = length pre + 4 * i" using assms(1) by simp
  have "fetch16 (?pre @ le16 l @ le16 h @ ?post) (int (length pre + 4 * i)) = Some (ucast l)"
    using fetch16_at [of ?pre l "le16 h @ ?post"] by (simp only: len)
  moreover have "fetch16 (?pre @ le16 l @ le16 h @ ?post) (int (length pre + 4 * i + 2)) = Some (ucast h)"
    using fetch16_at [of "?pre @ le16 l" h ?post] assms(1)
    by (simp add: len le16_def min_absorb2 ac_simps)
  moreover have "uint (word_of_nat i * 4 :: u32) = int (4 * i)"
    using uint_scaled [of i 4] assms by simp
  ultimately show ?thesis
    using assms(1) by (simp add: range16_entry_def bytes widen_def lh ac_simps)
qed

lemma range32_entry_at:
  assumes "i < length rs" and "length rs \<le> 0xffff"
  shows "range32_entry (pre @ range32_bytes rs @ post) (int (length pre)) (word_of_nat i) = Some (rs ! i)"
proof -
  obtain l h where lh: "rs ! i = (l, h)" by (cases "rs ! i")
  have split: "rs = take i rs @ (l, h) # drop (Suc i) rs"
    using assms(1) lh by (metis id_take_nth_drop)
  let ?pre = "pre @ range32_bytes (take i rs)" and ?post = "range32_bytes (drop (Suc i) rs) @ post"
  have bytes: "pre @ range32_bytes rs @ post = ?pre @ le32 l @ le32 h @ ?post"
    by (subst split) (simp add: range32_bytes_def)
  have len: "length ?pre = length pre + 8 * i" using assms(1) by simp
  have "fetch32 (?pre @ le32 l @ le32 h @ ?post) (int (length pre + 8 * i)) = Some l"
    using fetch32_at [of ?pre l "le32 h @ ?post"] by (simp only: len)
  moreover have "fetch32 (?pre @ le32 l @ le32 h @ ?post) (int (length pre + 8 * i + 4)) = Some h"
    using fetch32_at [of "?pre @ le32 l" h ?post] assms(1)
    by (simp add: len le32_def min_absorb2 ac_simps)
  moreover have "uint (word_of_nat i * 8 :: u32) = int (8 * i)"
    using uint_scaled [of i 8] assms by simp
  ultimately show ?thesis
    using assms(1) by (simp add: range32_entry_def bytes lh ac_simps)
qed

text \<open>The whole search as the instructions start it, after their two tests at the ends.\<close>

lemma search_intervals:
  assumes "intervals_sorted rs" and "0 < length rs" and "length rs \<le> 0xffff"
    and "\<And>i. i < length rs \<Longrightarrow> entry (word_of_nat i) = Some (rs ! i)"
    and "fst (rs ! 0) \<le> c"
  shows "range_search entry c 0 (word_of_nat (length rs) - 1) =
    Some (if in_intervals c rs then Hit else Miss)"
proof -
  have "unat (word_of_nat n - 1 :: u32) = n - 1" if "0 < n" "n \<le> 0xffff" for n
    using that by (simp add: unat_sub word_le_nat_alt unat_of_nat)
  from this [OF assms(2,3)] have "unat (word_of_nat (length rs) - 1 :: u32) = length rs - 1" .
  with assms(2) have "range_search entry c 0 (word_of_nat (length rs) - 1) =
      Some (if \<exists>i < length rs. fst (rs ! i) \<le> c \<and> c \<le> snd (rs ! i) then Hit else Miss)"
    by (intro range_search_correct assms) auto
  moreover have "in_intervals c rs \<longleftrightarrow> (\<exists>i < length rs. fst (rs ! i) \<le> c \<and> c \<le> snd (rs ! i))"
    by (fastforce simp: in_intervals_def in_set_conv_nth split_beta)
  ultimately show ?thesis by simp
qed

lemma in_intervals_bounds:
  assumes "intervals_sorted rs" and "in_intervals c rs"
  shows "fst (rs ! 0) \<le> c" and "c \<le> snd (last rs)"
proof -
  from assms(2) obtain i where i: "i < length rs" "fst (rs ! i) \<le> c" "c \<le> snd (rs ! i)"
    by (auto simp: in_intervals_def in_set_conv_nth split_beta)
  have "rs \<noteq> []" using i(1) by auto
  then have last: "last rs = rs ! (length rs - 1)" by (rule last_conv_nth)
  show "fst (rs ! 0) \<le> c"
    using i intervals_sorted_nth [OF assms(1), of i] intervals_sorted_nth [OF assms(1), of 0]
    by (cases "i = 0") fastforce+
  show "c \<le> snd (last rs)"
  proof (cases "i = length rs - 1")
    case True
    with i show ?thesis by (simp add: last)
  next
    case False
    with i have lt: "i < length rs - 1" by simp
    then have "snd (rs ! i) < fst (last rs)" "fst (last rs) \<le> snd (last rs)"
      using intervals_sorted_nth [OF assms(1), of "length rs - 1"] by (auto simp: last)
    with i(3) show ?thesis by (meson less_imp_le order_trans)
  qed
qed

lemma ucast16_le: "(ucast (v :: u16) :: u32) \<le> 0xffff"
proof -
  have "unat v < 2 ^ LENGTH(16)" by (rule unsigned_less)
  then show ?thesis by (simp add: word_le_nat_alt unsigned_ucast_eq take_bit_nat_eq_self)
qed

lemma ucast16_eq_ffff: "(ucast (v :: u16) :: u32) = 0xffff \<longleftrightarrow> v = 0xffff"
proof -
  have "unat v < 2 ^ LENGTH(16)" by (rule unsigned_less)
  then show ?thesis by (simp add: word_unat_eq_iff unsigned_ucast_eq take_bit_nat_eq_self)
qed

text \<open>
  C9. The \<^verbatim>\<open>range\<close> instruction accepts exactly the characters (canonicalised for the \<^verbatim>\<open>_i\<close>
  form) of its table of sorted 16-bit intervals, where an upper bound 0xffff of the last
  interval stands for infinity, and then continues behind the table.
\<close>

theorem exec_range_correct:
  assumes bc: "bc = pre @ le16 (word_of_nat (length rs)) @ range_bytes rs @ post"
    and rs: "rs \<noteq> []" "length rs \<le> 0xffff" "intervals_sorted (widen rs)"
    and q: "q < cbuf_end ctx" "next_char ctx q = Some (c0, q')"
    and c: "c = (if op = REOP_range_i then lre_canonicalize c0 (is_unicode ctx) else c0)"
  shows "exec_range ctx bc op (int (length pre)) q =
    (if in_intervals c (widen rs) \<or> c \<ge> 0xffff \<and> snd (last rs) = 0xffff
     then Go (int (length pre + 2 + 4 * length rs)) q' else No_match)"
proof -
  let ?n = "word_of_nat (length rs) :: u16" and ?p = "int (length pre) + 2"
  have un: "(ucast ?n :: u32) = word_of_nat (length rs)" "unat (ucast ?n :: u32) = length rs"
    using rs(2) by (simp_all add: word_unat_eq_iff unsigned_ucast_eq unat_of_nat take_bit_nat_eq_self)
  have n: "fetch16 bc (int (length pre)) = Some (word_of_nat (length rs))"
    using fetch16_at [of pre ?n "range_bytes rs @ post"] by (simp add: bc un)
  let ?pre = "pre @ le16 ?n"
  have bc': "bc = ?pre @ range_bytes rs @ post" and lp: "int (length ?pre) = ?p"
    by (simp_all add: bc le16_def)
  have entry: "range16_entry bc ?p (word_of_nat i) = Some (widen rs ! i)" if "i < length rs" for i
    using range16_entry_at [OF that rs(2), of ?pre post] by (simp only: bc' lp)
  have first: "fetch16 bc ?p = Some (fst (widen rs ! 0))"
    using entry [of 0] rs(1) by (auto simp: range16_entry_def prod_eq_iff split: option.splits)
  have wlast: "snd (widen rs ! (length rs - 1)) = ucast (snd (last rs))"
    using rs(1) by (simp add: widen_def last_conv_nth split_beta)
  have im: "word_of_nat (length rs) - 1 = (word_of_nat (length rs - 1) :: u32)"
    using rs(1) by (cases rs) simp_all
  have last: "fetch16 bc (?p + uint ((word_of_nat (length rs) - 1 :: u32) * 4) + 2) = Some (ucast (snd (last rs)))"
    using entry [of "length rs - 1"] rs(1) wlast
    by (auto simp: range16_entry_def prod_eq_iff im split: option.splits)
  have inf: "(ucast (snd (last rs)) :: u32) = 0xffff \<longleftrightarrow> snd (last rs) = 0xffff"
    by (rule ucast16_eq_ffff)
  have search: "range_search (range16_entry bc ?p) c 0 (word_of_nat (length rs) - 1) =
      Some (if in_intervals c (widen rs) then Hit else Miss)" if "fst (widen rs ! 0) \<le> c"
    using search_intervals [of "widen rs" "range16_entry bc ?p" c] rs entry that
    by (simp add: widen_def)
  have lasteq: "snd (last (widen rs)) = ucast (snd (last rs))"
    using rs(1) by (simp add: widen_def last_map split_beta)
  note bounds = in_intervals_bounds [OF rs(3), of c, unfolded lasteq]
  have low: "fst (widen rs ! 0) \<le> 0xffff"
    using rs(1) ucast16_le by (simp add: widen_def split_beta)
  have "exec_range ctx bc op (int (length pre)) q =
      (if c < fst (widen rs ! 0) then No_match
       else if c \<ge> 0xffff \<and> snd (last rs) = 0xffff then Go (int (length pre + 2 + 4 * length rs)) q'
       else if c > ucast (snd (last rs)) then No_match
       else search_ctrl (range_search (range16_entry bc ?p) c 0 (word_of_nat (length rs) - 1))
              (int (length pre + 2 + 4 * length rs)) q')"
  proof -
    have pe: "?p + 4 * int (unat (word_of_nat (length rs) :: u32)) = int (length pre + 2 + 4 * length rs)"
      using un by simp
    show ?thesis
      unfolding exec_range_def n option.case Let_def
      using q(1)
      by (simp only: q(2) option.case prod.case c [symmetric] first last inf pe) simp
  qed
  then have run: "exec_range ctx bc op (int (length pre)) q =
      (if c < fst (widen rs ! 0) then No_match
       else if c \<ge> 0xffff \<and> snd (last rs) = 0xffff then Go (int (length pre + 2 + 4 * length rs)) q'
       else if in_intervals c (widen rs) then Go (int (length pre + 2 + 4 * length rs)) q' else No_match)"
    using search bounds(2) by (auto simp: search_ctrl_def not_less not_le)
  show ?thesis
  proof (cases "c < fst (widen rs ! 0)")
    case True
    with low bounds(1) have "\<not> in_intervals c (widen rs)" "\<not> c \<ge> 0xffff" by auto
    with True show ?thesis unfolding run by simp
  next
    case False
    then show ?thesis unfolding run by simp
  qed
qed

theorem exec_range_correct_witness:
  "exec_range \<lparr>cbuf = [0x62], cbuf_end = 1, cbuf_type = 0, capture_count = 1, is_unicode = False\<rparr>
     [36, 2, 0, 0x30, 0, 0x39, 0, 0x61, 0, 0x7a, 0, 16] REOP_range 1 0 = Go 11 1"
proof -
  have "exec_range \<lparr>cbuf = [0x62], cbuf_end = 1, cbuf_type = 0, capture_count = 1, is_unicode = False\<rparr>
     [36, 2, 0, 0x30, 0, 0x39, 0, 0x61, 0, 0x7a, 0, 16] REOP_range (int (length [36 :: u8])) 0 =
    (if in_intervals 0x62 (widen [(0x30, 0x39), (0x61, 0x7a)]) \<or>
        (0x62 :: u32) \<ge> 0xffff \<and> snd (last [(0x30 :: u16, 0x39 :: u16), (0x61, 0x7a)]) = 0xffff
     then Go (int (length [36 :: u8] + 2 + 4 * length [(0x30 :: u16, 0x39 :: u16), (0x61, 0x7a)])) 1 else No_match)"
    by (rule exec_range_correct [where post = "[16]" and rs = "[(0x30, 0x39), (0x61, 0x7a)]"])
      (simp_all add: le16_def range_bytes_def widen_def next_char_def get_char_def rd_def)
  then show ?thesis by (simp add: in_intervals_def widen_def)
qed

text \<open>
  C10. The \<^verbatim>\<open>range32\<close> instruction accepts exactly the characters (canonicalised for the
  \<^verbatim>\<open>_i\<close> form) of its table of sorted 32-bit intervals and then continues behind the table.
\<close>

theorem exec_range32_correct:
  assumes bc: "bc = pre @ le16 (word_of_nat (length rs)) @ range32_bytes rs @ post"
    and rs: "rs \<noteq> []" "length rs \<le> 0xffff" "intervals_sorted rs"
    and q: "q < cbuf_end ctx" "next_char ctx q = Some (c0, q')"
    and c: "c = (if op = REOP_range32_i then lre_canonicalize c0 (is_unicode ctx) else c0)"
  shows "exec_range32 ctx bc op (int (length pre)) q =
    (if in_intervals c rs then Go (int (length pre + 2 + 8 * length rs)) q' else No_match)"
proof -
  let ?n = "word_of_nat (length rs) :: u16" and ?p = "int (length pre) + 2"
  have un: "(ucast ?n :: u32) = word_of_nat (length rs)" "unat (ucast ?n :: u32) = length rs"
    using rs(2) by (simp_all add: word_unat_eq_iff unsigned_ucast_eq unat_of_nat take_bit_nat_eq_self)
  have n: "fetch16 bc (int (length pre)) = Some (word_of_nat (length rs))"
    using fetch16_at [of pre ?n "range32_bytes rs @ post"] by (simp add: bc un)
  let ?pre = "pre @ le16 ?n"
  have bc': "bc = ?pre @ range32_bytes rs @ post" and lp: "int (length ?pre) = ?p"
    by (simp_all add: bc le16_def)
  have entry: "range32_entry bc ?p (word_of_nat i) = Some (rs ! i)" if "i < length rs" for i
    using range32_entry_at [OF that rs(2), of ?pre post] by (simp only: bc' lp)
  have first: "fetch32 bc ?p = Some (fst (rs ! 0))"
    using entry [of 0] rs(1) by (auto simp: range32_entry_def prod_eq_iff split: option.splits)
  have im: "word_of_nat (length rs) - 1 = (word_of_nat (length rs - 1) :: u32)"
    using rs(1) by (cases rs) simp_all
  have last: "fetch32 bc (?p + uint ((word_of_nat (length rs) - 1 :: u32) * 8) + 4) = Some (snd (last rs))"
    using entry [of "length rs - 1"] rs(1)
    by (auto simp: range32_entry_def prod_eq_iff im last_conv_nth split: option.splits)
  have search: "range_search (range32_entry bc ?p) c 0 (word_of_nat (length rs) - 1) =
      Some (if in_intervals c rs then Hit else Miss)" if "fst (rs ! 0) \<le> c"
    using search_intervals [of rs "range32_entry bc ?p" c] rs entry that by simp
  note bounds = in_intervals_bounds [OF rs(3), of c]
  have pe: "?p + 8 * int (unat (word_of_nat (length rs) :: u32)) = int (length pre + 2 + 8 * length rs)"
    using un by simp
  have "exec_range32 ctx bc op (int (length pre)) q =
      (if c < fst (rs ! 0) then No_match
       else if c > snd (last rs) then No_match
       else search_ctrl (range_search (range32_entry bc ?p) c 0 (word_of_nat (length rs) - 1))
              (int (length pre + 2 + 8 * length rs)) q')"
    unfolding exec_range32_def n option.case Let_def
    using q(1) by (simp only: q(2) option.case prod.case c [symmetric] first last pe) simp
  then show ?thesis
    using search bounds by (auto simp: search_ctrl_def not_less not_le)
qed

theorem exec_range32_correct_witness:
  "exec_range32 \<lparr>cbuf = [0xD83D, 0xDE00], cbuf_end = 2, cbuf_type = 2, capture_count = 1, is_unicode = True\<rparr>
     [38, 1, 0, 0, 0xf6, 1, 0, 0x4f, 0xf6, 1, 0, 16] REOP_range32 1 0 = Go 11 2"
proof -
  have ch: "next_char \<lparr>cbuf = [0xD83D, 0xDE00], cbuf_end = 2, cbuf_type = 2, capture_count = 1, is_unicode = True\<rparr> 0
      = Some (0x1F600, 2)"
    by code_simp
  have "exec_range32 \<lparr>cbuf = [0xD83D, 0xDE00], cbuf_end = 2, cbuf_type = 2, capture_count = 1, is_unicode = True\<rparr>
     [38, 1, 0, 0, 0xf6, 1, 0, 0x4f, 0xf6, 1, 0, 16] REOP_range32 (int (length [38 :: u8])) 0 =
    (if in_intervals 0x1F600 [(0x1F600, 0x1F64F)]
     then Go (int (length [38 :: u8] + 2 + 8 * length [(0x1F600 :: u32, 0x1F64F :: u32)])) 2 else No_match)"
    by (rule exec_range32_correct [where post = "[16]" and rs = "[(0x1F600, 0x1F64F)]", OF _ _ _ _ _ ch])
      (simp_all add: le16_def le32_def range32_bytes_def)
  then show ?thesis by (simp add: in_intervals_def)
qed

end
