(* ===== verification/MatchText.thy ===== *)
theory MatchText
  imports MatchOps "HOL-Library.Sublist"
begin

text \<open>
  What the instructions that compare text accept, in all three kinds of subject. The reference is
  the text of a block of units: its characters from left to right, with the number of units of
  each. In UTF-16 a high surrogate that a low one follows is one character with it.
\<close>

section \<open>The text of a block\<close>

fun text_of :: "nat \<Rightarrow> units \<Rightarrow> (u32 \<times> nat) list" where
  "text_of t [] = []"
| "text_of t [u] = [(ucast u, 1)]"
| "text_of t (u # v # us) =
     (if t = 2 \<and> is_hi_surrogate (ucast u) \<and> is_lo_surrogate (ucast v)
      then (from_surrogate (ucast u) (ucast v), 2) # text_of t us
      else (ucast u, 1) # text_of t (v # us))"

definition units_of :: "(u32 \<times> nat) list \<Rightarrow> nat" where
  "units_of cs = sum_list (map snd cs)"

lemma units_of_simps [simp]: "units_of [] = 0" "units_of (c # cs) = snd c + units_of cs"
  "units_of (cs @ ds) = units_of cs + units_of ds"
  by (simp_all add: units_of_def)

lemma units_of_text [simp]: "units_of (text_of t us) = length us"
  by (induction t us rule: text_of.induct) simp_all

text \<open>The units from \<open>p\<close> on, \<open>k\<close> of them.\<close>

definition piece :: "'a list \<Rightarrow> nat \<Rightarrow> nat \<Rightarrow> 'a list" where
  "piece xs p k = take k (drop p xs)"

lemma piece_0 [simp]: "piece xs p 0 = []"
  by (simp add: piece_def)

lemma piece_step: "p < e \<Longrightarrow> e \<le> length xs \<Longrightarrow> piece xs p (e - p) = xs ! p # piece xs (p + 1) (e - (p + 1))"
  by (simp add: piece_def Cons_nth_drop_Suc [symmetric] take_Cons' )

lemma length_piece [simp]: "p \<le> e \<Longrightarrow> e \<le> length xs \<Longrightarrow> length (piece xs p (e - p)) = e - p"
  by (simp add: piece_def)

text \<open>Reading forwards takes the first character of the rest of the block.\<close>

lemma get_char_text:
  assumes "p < e" and "e \<le> length b" and "get_char b e t p = Some (c, q)"
  shows "text_of t (piece b p (e - p)) = (c, q - p) # text_of t (piece b q (e - q)) \<and> p < q \<and> q \<le> e"
proof (cases "t = 2 \<and> is_hi_surrogate (ucast (b ! p)) \<and> p + 1 < e \<and> is_lo_surrogate (ucast (b ! (p + 1)))")
  case True
  with assms have "q = p + 2" "c = from_surrogate (ucast (b ! p)) (ucast (b ! (p + 1)))"
    by (auto simp: get_char_def rd_def Let_def)
  with True assms(1,2) show ?thesis
    using piece_step [of p e b] piece_step [of "p + 1" e b] by simp
next
  case False
  with assms have q: "q = p + 1" "c = ucast (b ! p)"
    by (auto simp: get_char_def rd_def Let_def split: if_splits)
  show ?thesis
  proof (cases "p + 1 < e")
    case True
    with False q assms(1,2) show ?thesis
      using piece_step [of p e b] piece_step [of "p + 1" e b] by auto
  next
    case last: False
    with assms(1) have "e = p + 1" by simp
    with q assms(2) show ?thesis using piece_step [of p e b] by simp
  qed
qed

text \<open>Reading backwards takes the last one: a pair is a pair from both sides.\<close>

lemma text_snoc:
  "\<not> (t = 2 \<and> us \<noteq> [] \<and> is_hi_surrogate (ucast (last us)) \<and> is_lo_surrogate (ucast u)) \<Longrightarrow>
   text_of t (us @ [u]) = text_of t us @ [(ucast u, 1)]"
proof (induction t us rule: text_of.induct)
  case (3 t v w us)
  then show ?case by (cases us) (auto split: if_splits)
qed (auto split: if_splits)

lemma text_snoc_pair:
  "is_hi_surrogate (ucast h) \<Longrightarrow> is_lo_surrogate (ucast l) \<Longrightarrow>
   text_of 2 (us @ [h, l]) = text_of 2 us @ [(from_surrogate (ucast h) (ucast l), 2)]"
proof (induction "2 :: nat" us rule: text_of.induct)
  case (3 v w us)
  then show ?case by auto
qed (auto dest: hi_not_lo)

lemma piece_snoc: "p < e \<Longrightarrow> e \<le> length xs \<Longrightarrow> piece xs p (e - p) = piece xs p (e - 1 - p) @ [xs ! (e - 1)]"
  using take_Suc_conv_app_nth [of "e - 1 - p" "drop p xs"] by (simp add: piece_def Suc_diff_Suc)

lemma get_prev_char_text:
  assumes "s < e" and "e \<le> length b" and get: "get_prev_char b s t e = Some (c, q)"
  shows "text_of t (piece b s (e - s)) = text_of t (piece b s (q - s)) @ [(c, e - q)] \<and> q < e \<and> s \<le> q"
proof -
  have rds: "rd_prev b e = Some (b ! (e - 1))" "s < e - 1 \<Longrightarrow> rd_prev b (e - 1) = Some (b ! (e - 1 - 1))"
    using assms(1,2) by (auto simp: rd_prev_def rd_def)
  show ?thesis
  proof (cases "t = 2 \<and> is_lo_surrogate (ucast (b ! (e - 1))) \<and> s < e - 1 \<and> is_hi_surrogate (ucast (b ! (e - 1 - 1)))")
    case True
    with get rds have q: "q = e - 1 - 1" "c = from_surrogate (ucast (b ! (e - 1 - 1))) (ucast (b ! (e - 1)))"
      by (auto simp: get_prev_char_def Let_def)
    have "piece b s (e - s) = piece b s (e - 1 - 1 - s) @ [b ! (e - 1 - 1), b ! (e - 1)]"
      using True assms(1,2) piece_snoc [of s e b] piece_snoc [of s "e - 1" b] by simp
    with q True assms(1) show ?thesis by (auto simp: text_snoc_pair)
  next
    case False
    with get rds have q: "q = e - 1" "c = ucast (b ! (e - 1))"
      by (auto simp: get_prev_char_def Let_def split: if_splits)
    have "text_of t (piece b s (e - 1 - s) @ [b ! (e - 1)]) = text_of t (piece b s (e - 1 - s)) @ [(c, 1)]"
    proof (cases "s < e - 1")
      case True
      then have "last (piece b s (e - 1 - s)) = b ! (e - 1 - 1)"
        using assms(2) piece_snoc [of s "e - 1" b] by simp
      with True False q(2) show ?thesis by (subst text_snoc) auto
    qed (simp add: q(2))
    with q assms(1,2) show ?thesis using piece_snoc [of s e b] by auto
  qed
qed

section \<open>Back references\<close>

text \<open>The characters as they are compared.\<close>

definition folded :: "re_exec_context \<Rightarrow> bool \<Rightarrow> (u32 \<times> nat) list \<Rightarrow> u32 list" where
  "folded ctx icase cs = map (fold_char ctx icase \<circ> fst) cs"

lemma folded_simps [simp]: "folded ctx icase [] = []"
  "folded ctx icase (c # cs) = fold_char ctx icase (fst c) # folded ctx icase cs"
  "folded ctx icase (cs @ ds) = folded ctx icase cs @ folded ctx icase ds"
  "length (folded ctx icase cs) = length cs"
  by (simp_all add: folded_def)

text \<open>
  C23. A back reference compares characters, with or without case folding, in all three kinds of
  subject: it succeeds exactly when the folded characters of the captured text are the first
  folded characters of the rest of the subject, and continues behind these. A surrogate at the end
  of the captured text is not paired with a unit outside it.
\<close>

theorem back_ref_forward_exact:
  assumes "cbuf_end ctx \<le> length (cbuf ctx)" and "s \<le> e" and "e \<le> cbuf_end ctx" and "q \<le> cbuf_end ctx"
  defines "captured \<equiv> text_of (cbuf_type ctx) (piece (cbuf ctx) s (e - s))"
    and "rest \<equiv> text_of (cbuf_type ctx) (piece (cbuf ctx) q (cbuf_end ctx - q))"
  shows "back_ref_forward ctx icase p s e q =
    (if prefix (folded ctx icase captured) (folded ctx icase rest)
     then Go p (q + units_of (take (length captured) rest)) else No_match)"
  using assms(2-4) unfolding captured_def rest_def
proof (induction "e - s" arbitrary: s q rule: less_induct)
  case less
  show ?case
  proof (cases "s < e \<and> q < cbuf_end ctx")
    case False
    then consider "s = e" | "s < e" "q = cbuf_end ctx" using less.prems by linarith
    then show ?thesis
    proof cases
      case 2
      then obtain c cs where "text_of (cbuf_type ctx) (piece (cbuf ctx) s (e - s)) = c # cs"
        using get_char_text [of s e "cbuf ctx"] get_char_defined [of s e "cbuf ctx"] less.prems assms(1) by fastforce
      with 2 show ?thesis by (subst back_ref_forward.simps) simp
    qed (subst back_ref_forward.simps, simp)
  next
    case True
    obtain c1 s' where c1: "get_char (cbuf ctx) e (cbuf_type ctx) s = Some (c1, s')"
      using get_char_defined [of s e "cbuf ctx"] True less.prems assms(1) by fastforce
    obtain c2 q' where c2: "get_char (cbuf ctx) (cbuf_end ctx) (cbuf_type ctx) q = Some (c2, q')"
      using get_char_defined [of q "cbuf_end ctx" "cbuf ctx"] True assms(1) by blast
    have t1: "text_of (cbuf_type ctx) (piece (cbuf ctx) s (e - s)) =
        (c1, s' - s) # text_of (cbuf_type ctx) (piece (cbuf ctx) s' (e - s'))" "s < s'" "s' \<le> e"
      using get_char_text [OF _ _ c1] True less.prems assms(1) by auto
    have t2: "text_of (cbuf_type ctx) (piece (cbuf ctx) q (cbuf_end ctx - q)) =
        (c2, q' - q) # text_of (cbuf_type ctx) (piece (cbuf ctx) q' (cbuf_end ctx - q'))" "q < q'" "q' \<le> cbuf_end ctx"
      using get_char_text [OF _ _ c2] True assms(1) by auto
    have "e - s' < e - s" using t1 True by simp
    from less.hyps [OF this t1(3) less.prems(2) t2(3)] show ?thesis
      using True c1 c2 t1 t2 by (subst back_ref_forward.simps) (simp add: next_char_def)
  qed
qed

theorem back_ref_forward_exact_witness:
  "back_ref_forward \<lparr>cbuf = [0xD83D, 0xDE00, 0x61, 0xD83D, 0xDE00, 0x41], cbuf_end = 6, cbuf_type = 2, capture_count = 2,
     is_unicode = True\<rparr> True 7 0 3 3 = Go 7 6"
proof -
  let ?ctx = "\<lparr>cbuf = [0xD83D, 0xDE00, 0x61, 0xD83D, 0xDE00, 0x41], cbuf_end = 6, cbuf_type = 2, capture_count = 2,
     is_unicode = True\<rparr>"
  have "text_of 2 (piece (cbuf ?ctx) 0 3) = [(0x1F600, 2), (0x61, 1)]"
    "text_of 2 (piece (cbuf ?ctx) 3 3) = [(0x1F600, 2), (0x41, 1)]"
    "folded ?ctx True [(0x1F600, 2), (0x61, 1)] = folded ?ctx True [(0x1F600, 2), (0x41, 1)]"
    by code_simp+
  with back_ref_forward_exact [of ?ctx 0 3 3 True 7] show ?thesis by simp
qed

text \<open>
  C24. In a lookbehind a back reference compares backwards, with or without case folding, in all
  three kinds of subject: it succeeds exactly when the folded characters of the captured text are
  the last folded characters before the current position, and continues in front of these.
\<close>

theorem back_ref_backward_exact:
  assumes "e \<le> length (cbuf ctx)" and "q \<le> length (cbuf ctx)" and "s \<le> e"
  defines "captured \<equiv> text_of (cbuf_type ctx) (piece (cbuf ctx) s (e - s))"
    and "before \<equiv> text_of (cbuf_type ctx) (piece (cbuf ctx) 0 q)"
  shows "back_ref_backward ctx icase p e s q =
    (if suffix (folded ctx icase captured) (folded ctx icase before)
     then Go p (q - units_of (drop (length before - length captured) before)) else No_match)"
  using assms(1-3) unfolding captured_def before_def
proof (induction "e - s" arbitrary: e q rule: less_induct)
  case less
  show ?case
  proof (cases "s < e \<and> 0 < q")
    case False
    then consider "s = e" | "s < e" "q = 0" using less.prems by linarith
    then show ?thesis
    proof cases
      case 2
      then obtain c cs where "text_of (cbuf_type ctx) (piece (cbuf ctx) s (e - s)) = cs @ [c]"
        using get_prev_char_text [of s e "cbuf ctx"] get_prev_char_defined [of e "cbuf ctx"] less.prems by fastforce
      with 2 show ?thesis by (subst back_ref_backward.simps) simp
    qed (subst back_ref_backward.simps, simp)
  next
    case True
    obtain c1 e' where c1: "get_prev_char (cbuf ctx) s (cbuf_type ctx) e = Some (c1, e')"
      using get_prev_char_defined [of e "cbuf ctx"] True less.prems by fastforce
    obtain c2 q' where c2: "get_prev_char (cbuf ctx) 0 (cbuf_type ctx) q = Some (c2, q')"
      using get_prev_char_defined [of q "cbuf ctx"] True less.prems by blast
    have t1: "text_of (cbuf_type ctx) (piece (cbuf ctx) s (e - s)) =
        text_of (cbuf_type ctx) (piece (cbuf ctx) s (e' - s)) @ [(c1, e - e')]" "e' < e" "s \<le> e'"
      using get_prev_char_text [OF _ _ c1] True less.prems by auto
    have t2: "text_of (cbuf_type ctx) (piece (cbuf ctx) 0 q) =
        text_of (cbuf_type ctx) (piece (cbuf ctx) 0 q') @ [(c2, q - q')]" "q' < q"
      using get_prev_char_text [OF _ _ c2] True less.prems by auto
    have "e' - s < e - s" using t1 True by simp
    from less.hyps [OF this _ _ t1(3), of q'] less.prems t1 t2 show ?thesis
      using True c1 c2 by (subst back_ref_backward.simps) auto
  qed
qed

theorem back_ref_backward_exact_witness:
  "back_ref_backward \<lparr>cbuf = [0x61, 0xD83D, 0xDE00, 0x41, 0xD83D, 0xDE00], cbuf_end = 6, cbuf_type = 2, capture_count = 2,
     is_unicode = True\<rparr> True 7 6 3 3 = Go 7 0"
proof -
  let ?ctx = "\<lparr>cbuf = [0x61, 0xD83D, 0xDE00, 0x41, 0xD83D, 0xDE00], cbuf_end = 6, cbuf_type = 2, capture_count = 2,
     is_unicode = True\<rparr>"
  have "text_of 2 (piece (cbuf ?ctx) 3 3) = [(0x41, 1), (0x1F600, 2)]"
    "text_of 2 (piece (cbuf ?ctx) 0 3) = [(0x61, 1), (0x1F600, 2)]"
    "folded ?ctx True [(0x41, 1), (0x1F600, 2)] = folded ?ctx True [(0x61, 1), (0x1F600, 2)]"
    by code_simp+
  with back_ref_backward_exact [of 6 ?ctx 3 3 True 7] show ?thesis by simp
qed

section \<open>Classes of characters\<close>

definition line_terminators :: "u32 set" where
  "line_terminators = {0x0a, 0x0d, 0x2028, 0x2029}"

definition white_space :: "u32 set" where
  "white_space = {0x09 .. 0x0d} \<union> {0x20, 0xa0, 0x1680} \<union> {0x2000 .. 0x200a} \<union>
     {0x2028, 0x2029, 0x202f, 0x205f, 0x3000, 0xfeff}"

definition word_characters :: "bool \<Rightarrow> u32 set" where
  "word_characters icase = {0x30 .. 0x39} \<union> {0x41 .. 0x5a} \<union> {0x5f} \<union> {0x61 .. 0x7a} \<union>
     (if icase then {0x17f, 0x212a} else {})"

lemma line_terminators_mem: "is_line_terminator c \<longleftrightarrow> c \<in> line_terminators"
  by (auto simp: is_line_terminator_def line_terminators_def CP_LS_def CP_PS_def)

text \<open>The table of bytes, by evaluation at all 256 of them.\<close>

lemma bytes_by_evaluation:
  assumes "list_all (\<lambda>n. P (word_of_nat n) = Q (word_of_nat n)) [0..<256]" and "(c :: u32) < 256"
  shows "P (ucast c :: u8) = Q c"
proof -
  have "unat c < 256" using assms(2) by (simp add: word_less_nat_alt)
  then have "unat c \<in> set [0..<256]" by simp
  with assms(1) have "P (word_of_nat (unat c)) = Q (word_of_nat (unat c))"
    unfolding list_all_iff by blast
  moreover have "(word_of_nat (unat c) :: u8) = ucast c" "(word_of_nat (unat c) :: u32) = c"
    by (simp_all add: of_nat_unat)
  ultimately show ?thesis by simp
qed

lemma white_space_mem: "lre_is_space c \<longleftrightarrow> c \<in> white_space"
proof (cases "c < 256")
  case True
  have "list_all (\<lambda>n. lre_is_space_byte (word_of_nat n) =
      (\<lambda>c :: u32. 0x09 \<le> c \<and> c \<le> 0x0d \<or> c = 0x20 \<or> c = 0xa0) (word_of_nat n)) [0..<256]"
    by code_simp
  from bytes_by_evaluation [OF this True] True show ?thesis
    by (auto simp: lre_is_space_def white_space_def word_le_nat_alt word_less_nat_alt)
next
  case False
  then show ?thesis
    by (auto simp: lre_is_space_def lre_is_space_non_ascii_def char_range_s_def white_space_def
        word_le_nat_alt word_less_nat_alt unat_arith_simps)
qed

lemma word_characters_mem: "word_char icase c \<longleftrightarrow> c \<in> word_characters icase"
proof (cases "c < 256")
  case True
  have "list_all (\<lambda>n. lre_is_word_byte (word_of_nat n) =
      (\<lambda>c :: u32. 0x30 \<le> c \<and> c \<le> 0x39 \<or> 0x41 \<le> c \<and> c \<le> 0x5a \<or> c = 0x5f \<or> 0x61 \<le> c \<and> c \<le> 0x7a)
        (word_of_nat n)) [0..<256]"
    by code_simp
  from bytes_by_evaluation [OF this True] True show ?thesis
    by (auto simp: word_char_def word_characters_def)
next
  case False
  then show ?thesis by (auto simp: word_char_def word_characters_def word_le_nat_alt word_less_nat_alt)
qed

text \<open>The character behind a position and the one in front of it.\<close>

lemma next_char_rest:
  assumes "q < cbuf_end ctx" and "cbuf_end ctx \<le> length (cbuf ctx)"
  obtains c q' cs where "next_char ctx q = Some (c, q')" and "q < q'"
    and "text_of (cbuf_type ctx) (piece (cbuf ctx) q (cbuf_end ctx - q)) = (c, q' - q) # cs"
    and "peek_char (cbuf ctx) (cbuf_end ctx) (cbuf_type ctx) q = Some c"
proof -
  obtain c q' where c: "get_char (cbuf ctx) (cbuf_end ctx) (cbuf_type ctx) q = Some (c, q')"
    using get_char_defined [of q "cbuf_end ctx" "cbuf ctx"] assms by blast
  with get_char_text [OF assms this] that show thesis by (auto simp: next_char_def peek_char_get)
qed

lemma prev_char_before:
  assumes "0 < q" and "q \<le> length (cbuf ctx)"
  obtains c n cs where "peek_prev_char (cbuf ctx) 0 (cbuf_type ctx) q = Some c"
    and "text_of (cbuf_type ctx) (piece (cbuf ctx) 0 q) = cs @ [(c, n)]"
proof -
  obtain c q' where c: "get_prev_char (cbuf ctx) 0 (cbuf_type ctx) q = Some (c, q')"
    using get_prev_char_defined [of q "cbuf ctx"] assms by blast
  with get_prev_char_text [OF assms this] that show thesis by (auto simp: peek_prev_char_get)
qed

text \<open>One character of the set, and the position behind it.\<close>

definition accepts_one :: "u32 set \<Rightarrow> (u32 \<times> nat) list \<Rightarrow> int \<Rightarrow> nat \<Rightarrow> ctrl" where
  "accepts_one A cs p q = (case cs of [] \<Rightarrow> No_match | (c, n) # _ \<Rightarrow> if c \<in> A then Go p (q + n) else No_match)"

text \<open>
  C34. The four instructions for classes of characters, in all three kinds of subject: a full stop
  takes the first character of the rest unless it is a line terminator, \<^verbatim>\<open>any\<close> takes every one,
  \<^verbatim>\<open>space\<close> those of the white space and line terminators of the standard and \<^verbatim>\<open>not_space\<close> the
  others. They fail at the end of the subject and continue behind the character.
\<close>

theorem class_instructions_exact:
  assumes "cbuf_end ctx \<le> length (cbuf ctx)" and "q \<le> cbuf_end ctx"
  defines "rest \<equiv> text_of (cbuf_type ctx) (piece (cbuf ctx) q (cbuf_end ctx - q))"
  shows "snd (instr ctx bc REOP_dot p q caps) = accepts_one (- line_terminators) rest p q \<and>
    snd (instr ctx bc REOP_any p q caps) = accepts_one UNIV rest p q \<and>
    snd (instr ctx bc REOP_space p q caps) = accepts_one white_space rest p q \<and>
    snd (instr ctx bc REOP_not_space p q caps) = accepts_one (- white_space) rest p q"
proof (cases "q < cbuf_end ctx")
  case True
  from this assms(1) obtain c q' cs where "next_char ctx q = Some (c, q')" "q < q'" "rest = (c, q' - q) # cs"
    unfolding rest_def by (rule next_char_rest)
  with True show ?thesis
    by (simp add: instr_def exec_class_defs accepts_one_def line_terminators_mem white_space_mem)
next
  case False
  with assms(2) show ?thesis by (simp add: instr_def exec_class_defs accepts_one_def rest_def)
qed

theorem class_instructions_exact_witness:
  "snd (instr \<lparr>cbuf = [0xD83D, 0xDE00, 0x2028], cbuf_end = 3, cbuf_type = 2, capture_count = 1, is_unicode = True\<rparr>
     [] REOP_dot 7 0 []) = Go 7 2"
proof -
  let ?ctx = "\<lparr>cbuf = [0xD83D, 0xDE00, 0x2028], cbuf_end = 3, cbuf_type = 2, capture_count = 1, is_unicode = True\<rparr>"
  have "text_of 2 (piece (cbuf ?ctx) 0 3) = [(0x1F600, 2), (0x2028, 1)]" by code_simp
  with class_instructions_exact [of ?ctx 0 "[]" 7 "[]"] show ?thesis
    by (simp add: accepts_one_def line_terminators_def)
qed

text \<open>Whether the character in front of the position, or behind it, is in the set.\<close>

definition last_in :: "u32 set \<Rightarrow> (u32 \<times> nat) list \<Rightarrow> bool" where
  "last_in A cs \<longleftrightarrow> cs \<noteq> [] \<and> fst (last cs) \<in> A"

definition first_in :: "u32 set \<Rightarrow> (u32 \<times> nat) list \<Rightarrow> bool" where
  "first_in A cs \<longleftrightarrow> cs \<noteq> [] \<and> fst (hd cs) \<in> A"

abbreviation (input) go_if :: "bool \<Rightarrow> int \<Rightarrow> nat \<Rightarrow> ctrl" where
  "go_if b p q \<equiv> (if b then Go p q else No_match)"

text \<open>
  C35. The assertions, in all three kinds of subject. With the flag m a line starts at the beginning
  of the subject and behind a line terminator, and ends at its end and in front of one; without it
  only at the ends. \<^verbatim>\<open>\b\<close> holds when exactly one of the characters on both sides is a word
  character, where the ends of the subject count as others, and \<^verbatim>\<open>\B\<close> when both or none is; with
  case folding the long s and the Kelvin sign are word characters.
\<close>

theorem assertion_instructions_exact:
  assumes "cbuf_end ctx \<le> length (cbuf ctx)" and "q \<le> cbuf_end ctx"
  defines "before \<equiv> text_of (cbuf_type ctx) (piece (cbuf ctx) 0 q)"
    and "rest \<equiv> text_of (cbuf_type ctx) (piece (cbuf ctx) q (cbuf_end ctx - q))"
    and "boundary \<equiv> \<lambda>icase. last_in (word_characters icase) (text_of (cbuf_type ctx) (piece (cbuf ctx) 0 q)) \<noteq>
      first_in (word_characters icase) (text_of (cbuf_type ctx) (piece (cbuf ctx) q (cbuf_end ctx - q)))"
  shows "snd (instr ctx bc REOP_line_start p q caps) = go_if (before = []) p q \<and>
    snd (instr ctx bc REOP_line_start_m p q caps) = go_if (before = [] \<or> last_in line_terminators before) p q \<and>
    snd (instr ctx bc REOP_line_end p q caps) = go_if (rest = []) p q \<and>
    snd (instr ctx bc REOP_line_end_m p q caps) = go_if (rest = [] \<or> first_in line_terminators rest) p q \<and>
    snd (instr ctx bc REOP_word_boundary p q caps) = go_if (boundary False) p q \<and>
    snd (instr ctx bc REOP_not_word_boundary p q caps) = go_if (\<not> boundary False) p q \<and>
    snd (instr ctx bc REOP_word_boundary_i p q caps) = go_if (boundary True) p q \<and>
    snd (instr ctx bc REOP_not_word_boundary_i p q caps) = go_if (\<not> boundary True) p q"
proof -
  have behind: "q = 0 \<and> before = [] \<or> q \<noteq> 0 \<and> (\<exists>c n cs. before = cs @ [(c, n)] \<and>
      peek_prev_char (cbuf ctx) 0 (cbuf_type ctx) q = Some c)"
  proof (cases "q = 0")
    case False
    with assms(1,2) have "0 < q" "q \<le> length (cbuf ctx)" by simp_all
    then obtain c n cs where "peek_prev_char (cbuf ctx) 0 (cbuf_type ctx) q = Some c" "before = cs @ [(c, n)]"
      unfolding before_def by (rule prev_char_before)
    with False show ?thesis by blast
  qed (simp add: before_def)
  have ahead: "q = cbuf_end ctx \<and> rest = [] \<or> q < cbuf_end ctx \<and> (\<exists>c n cs. rest = (c, n) # cs \<and>
      peek_char (cbuf ctx) (cbuf_end ctx) (cbuf_type ctx) q = Some c)"
  proof (cases "q < cbuf_end ctx")
    case True
    from this assms(1) obtain c q' cs where "rest = (c, q' - q) # cs"
      "peek_char (cbuf ctx) (cbuf_end ctx) (cbuf_type ctx) q = Some c"
      unfolding rest_def by (rule next_char_rest)
    with True show ?thesis by blast
  next
    case False
    with assms(2) show ?thesis by (simp add: rest_def)
  qed
  show ?thesis
    using behind ahead unfolding boundary_def before_def [symmetric] rest_def [symmetric]
    by (elim disjE conjE exE)
      (simp_all add: instr_def exec_line_start_def exec_line_end_def exec_word_boundary_def Let_def
        last_in_def first_in_def line_terminators_mem word_characters_mem)
qed

theorem assertion_instructions_exact_witness:
  "snd (instr \<lparr>cbuf = [0x61, 0x17f, 0x20], cbuf_end = 3, cbuf_type = 2, capture_count = 1, is_unicode = True\<rparr>
     [] REOP_word_boundary_i 7 2 []) = Go 7 2"
proof -
  let ?ctx = "\<lparr>cbuf = [0x61, 0x17f, 0x20], cbuf_end = 3, cbuf_type = 2, capture_count = 1, is_unicode = True\<rparr>"
  have "text_of 2 (piece (cbuf ?ctx) 0 2) = [(0x61, 1), (0x17f, 1)]" "text_of 2 (piece (cbuf ?ctx) 2 1) = [(0x20, 1)]"
    by code_simp+
  with assertion_instructions_exact [of ?ctx 2 "[]" 7 "[]"] show ?thesis
    by (simp add: last_in_def first_in_def word_characters_def)
qed

end
