(* ===== verification/Exec.thy ===== *)
theory Exec
  imports Instr
begin

text \<open>
  The backtracking matcher \<^verbatim>\<open>lre_exec_backtrack\<close> and its entry \<^verbatim>\<open>lre_exec\<close> of
  \<^verbatim>\<open>libregexp/libregexp.c\<close>: one growing stack holds the choice points and, above each, the
  undo entries of the captures changed since.

  \<open>sp\<close> and \<open>bp\<close> are indices into \<open>stack_buf\<close>. A choice point takes three elements, \<open>pc\<close>,
  \<open>cptr\<close> and the index of the choice point below together with its kind; an undo entry takes
  two, an index of \<open>capture\<close> and the value it had.
\<close>

section \<open>State\<close>

datatype stack_elem =
    EIdx nat
  | ESlot slot
  | EPc int
  | ECptr nat
  | EBp nat re_exec_state
  | ESp nat
  | EUninit

record re_exec =
  pc :: int
  cptr :: nat
  capture :: "slot list"
  stack_buf :: "stack_elem list"
  sp :: nat
  bp :: nat
  interrupt_counter :: int
  n_realloc :: nat

text \<open>
  \<open>Ret v captures\<close> is a return of \<open>v\<close> with what \<open>capture\<close> then holds, \<open>Fault\<close> undefined
  behaviour or an abort. An operation on the state gives the next state or the end of the
  run. The allocator is a parameter: \<open>alloc k size\<close> tells whether the request number \<open>k\<close>,
  for \<open>size\<close> bytes, succeeds.
\<close>

datatype outcome = Ret int "slot list" | Fault

type_synonym exec_result = "re_exec + outcome"
type_synonym allocator = "nat \<Rightarrow> nat \<Rightarrow> bool"

definition LRE_RET_MEMORY_ERROR :: int where "LRE_RET_MEMORY_ERROR = - 1"
definition LRE_RET_TIMEOUT :: int where "LRE_RET_TIMEOUT = - 2"
definition INTERRUPT_COUNTER_INIT :: int where "INTERRUPT_COUNTER_INIT = 10000"
definition sizeof_stack_elem :: nat where "sizeof_stack_elem = 8"

definition and_then :: "exec_result \<Rightarrow> (re_exec \<Rightarrow> exec_result) \<Rightarrow> exec_result" where
  "and_then r f = (case r of Inl s \<Rightarrow> f s | Inr e \<Rightarrow> Inr e)"

section \<open>Interrupts\<close>

text \<open>\<^verbatim>\<open>lre_check_timeout\<close> is the callback that \<^verbatim>\<open>jsregexp.c\<close> supplies.\<close>

definition lre_check_timeout :: int where
  "lre_check_timeout = 0"

definition lre_poll_timeout :: "re_exec \<Rightarrow> exec_result" where
  "lre_poll_timeout s =
     (let s = s\<lparr>interrupt_counter := interrupt_counter s - 1\<rparr> in
      if interrupt_counter s \<le> 0 then
        (let s = s\<lparr>interrupt_counter := INTERRUPT_COUNTER_INIT\<rparr> in
         if lre_check_timeout \<noteq> 0 then Inr (Ret LRE_RET_TIMEOUT (capture s)) else Inl s)
      else Inl s)"

section \<open>The stack\<close>

definition stack_realloc :: "allocator \<Rightarrow> nat \<Rightarrow> re_exec \<Rightarrow> re_exec option" where
  "stack_realloc alloc n s =
     (let stack_size = length (stack_buf s);
          new_size = stack_size * 3 div 2;
          new_size = (if new_size < n then n else new_size)
      in if alloc (n_realloc s) (new_size * sizeof_stack_elem) then
           Some (s\<lparr>stack_buf := stack_buf s @ replicate (new_size - stack_size) EUninit,
                   n_realloc := n_realloc s + 1\<rparr>)
         else None)"

definition check_stack_space :: "allocator \<Rightarrow> nat \<Rightarrow> re_exec \<Rightarrow> exec_result" where
  "check_stack_space alloc n s =
     (if int (length (stack_buf s)) - int (sp s) < int n then
        (case stack_realloc alloc (sp s + n) s of
           None \<Rightarrow> Inr (Ret LRE_RET_MEMORY_ERROR (capture s))
         | Some s' \<Rightarrow> Inl s')
      else Inl s)"

text \<open>Stores into the stack and into \<open>capture\<close>; outside them they are undefined.\<close>

definition push2 :: "stack_elem \<Rightarrow> stack_elem \<Rightarrow> re_exec \<Rightarrow> exec_result" where
  "push2 e0 e1 s =
     (if sp s + 2 \<le> length (stack_buf s) then
        Inl (s\<lparr>stack_buf := (stack_buf s)[sp s := e0, sp s + 1 := e1], sp := sp s + 2\<rparr>)
      else Inr Fault)"

definition set_capture :: "nat \<Rightarrow> slot \<Rightarrow> re_exec \<Rightarrow> exec_result" where
  "set_capture idx v s =
     (if idx < length (capture s) then Inl (s\<lparr>capture := (capture s)[idx := v]\<rparr>)
      else Inr Fault)"

definition push_undo :: "nat \<Rightarrow> re_exec \<Rightarrow> exec_result" where
  "push_undo idx s =
     (case rd (capture s) idx of
        None \<Rightarrow> Inr Fault
      | Some old \<Rightarrow> push2 (EIdx idx) (ESlot old) s)"

definition save_capture :: "allocator \<Rightarrow> nat \<Rightarrow> slot \<Rightarrow> re_exec \<Rightarrow> exec_result" where
  "save_capture alloc idx v s =
     and_then (check_stack_space alloc 2 s) (\<lambda>s.
     and_then (push_undo idx s) (\<lambda>s.
     set_capture idx v s))"

text \<open>
  The loop of \<^verbatim>\<open>SAVE_CAPTURE_CHECK\<close>: is \<open>idx\<close> among the undo entries above the last choice
  point? \<open>None\<close> is an element that is no index.
\<close>

fun saved_above :: "stack_elem list \<Rightarrow> nat \<Rightarrow> nat \<Rightarrow> nat \<Rightarrow> bool option" where
  "saved_above stack sp1 base idx =
     (if sp1 > base then
        (if sp1 < 2 then None
         else (case rd stack (sp1 - 2) of
             Some (EIdx i) \<Rightarrow> if i = idx then Some True else saved_above stack (sp1 - 2) base idx
           | _ \<Rightarrow> None))
      else Some False)"

declare saved_above.simps [simp del]

definition save_capture_check :: "allocator \<Rightarrow> nat \<Rightarrow> slot \<Rightarrow> re_exec \<Rightarrow> exec_result" where
  "save_capture_check alloc idx v s =
     (case saved_above (stack_buf s) (sp s) (bp s) idx of
        None \<Rightarrow> Inr Fault
      | Some True \<Rightarrow> set_capture idx v s
      | Some False \<Rightarrow>
          and_then (check_stack_space alloc 2 s) (\<lambda>s.
          and_then (push_undo idx s) (\<lambda>s.
          set_capture idx v s)))"

definition push_state :: "allocator \<Rightarrow> int \<Rightarrow> nat \<Rightarrow> re_exec_state \<Rightarrow> re_exec \<Rightarrow> exec_result" where
  "push_state alloc pc1 cptr1 type s =
     and_then (check_stack_space alloc 3 s) (\<lambda>s.
       if sp s + 3 \<le> length (stack_buf s) then
         Inl (s\<lparr>stack_buf := (stack_buf s)[sp s := EPc pc1, sp s + 1 := ECptr cptr1,
                                          sp s + 2 := EBp (bp s) type],
                sp := sp s + 3, bp := sp s + 3\<rparr>)
       else Inr Fault)"

primrec run_micro :: "allocator \<Rightarrow> micro \<Rightarrow> re_exec \<Rightarrow> exec_result" where
  "run_micro alloc (Check_stack_space n) s = check_stack_space alloc n s"
| "run_micro alloc (Save_capture idx v) s = save_capture alloc idx v s"
| "run_micro alloc (Save_capture_check idx v) s = save_capture_check alloc idx v s"
| "run_micro alloc (Push_state pc1 cptr1 type) s = push_state alloc pc1 cptr1 type s"

primrec run_micros :: "allocator \<Rightarrow> micro list \<Rightarrow> re_exec \<Rightarrow> exec_result" where
  "run_micros alloc [] s = Inl s"
| "run_micros alloc (m # ms) s = and_then (run_micro alloc m s) (run_micros alloc ms)"

section \<open>Backtracking\<close>

text \<open>The inner loop of \<^verbatim>\<open>no_match\<close>: undo the changes above the last choice point.\<close>

fun undo_captures :: "stack_elem list \<Rightarrow> nat \<Rightarrow> nat \<Rightarrow> slot list \<Rightarrow> (nat \<times> slot list) option" where
  "undo_captures stack high base caps =
     (if high > base then
        (if high < 2 then None
         else (case (rd stack (high - 2), rd stack (high - 1)) of
             (Some (EIdx i), Some (ESlot v)) \<Rightarrow>
               if i < length caps then undo_captures stack (high - 2) base (caps[i := v]) else None
           | _ \<Rightarrow> None))
      else Some (high, caps))"

declare undo_captures.simps [simp del]

text \<open>Reading the choice point below the index \<open>high\<close>.\<close>

definition read_state :: "stack_elem list \<Rightarrow> nat \<Rightarrow> (int \<times> nat \<times> nat \<times> re_exec_state) option" where
  "read_state stack high =
     (if high < 3 then None
      else (case (rd stack (high - 3), rd stack (high - 2), rd stack (high - 1)) of
          (Some (EPc pc'), Some (ECptr cptr'), Some (EBp bp' type)) \<Rightarrow> Some (pc', cptr', bp', type)
        | _ \<Rightarrow> None))"

text \<open>
  The loop at \<^verbatim>\<open>no_match\<close>. A choice point whose link does not lead down would be a corrupt
  stack and is a fault here; the refinement shows that there is none.
\<close>

function no_match :: "re_exec \<Rightarrow> exec_result" where
  "no_match s =
     (if bp s = 0 then Inr (Ret 0 (capture s))
      else (case undo_captures (stack_buf s) (sp s) (bp s) (capture s) of
          None \<Rightarrow> Inr Fault
        | Some (sp', capture') \<Rightarrow>
            (case read_state (stack_buf s) sp' of
               None \<Rightarrow> Inr Fault
             | Some (pc', cptr', bp', type) \<Rightarrow>
                 if bp' < bp s then
                   (let s = s\<lparr>pc := pc', cptr := cptr', capture := capture', sp := sp' - 3, bp := bp'\<rparr>
                    in if type \<noteq> RE_EXEC_STATE_LOOKAHEAD then Inl s else no_match s)
                 else Inr Fault)))"
  by pat_completeness auto
termination
  by (relation "measure bp") auto

declare no_match.simps [simp del]

definition fail_match :: "re_exec \<Rightarrow> exec_result" where
  "fail_match s = and_then (no_match s) lre_poll_timeout"

text \<open>
  \<^verbatim>\<open>lookahead_match\<close>: drop the choice points down to the start of the lookahead, leaving in
  each the end of its undo entries, then move the undo entries together.
\<close>

function lookahead_pop ::
  "stack_elem list \<Rightarrow> nat \<Rightarrow> nat \<Rightarrow> (stack_elem list \<times> nat \<times> nat \<times> int \<times> nat) option" where
  "lookahead_pop stack high base =
     (case read_state stack base of
        None \<Rightarrow> None
      | Some (pc', cptr', bp', type) \<Rightarrow>
          (let stack = stack[base - 1 := ESp high] in
           if type = RE_EXEC_STATE_LOOKAHEAD then Some (stack, base - 3, bp', pc', cptr')
           else if bp' < base then lookahead_pop stack (base - 3) bp'
           else None))"
  by pat_completeness auto
termination
  by (relation "measure (\<lambda>(stack, high, base). base)") auto

declare lookahead_pop.simps [simp del]

function move_elems :: "stack_elem list \<Rightarrow> nat \<Rightarrow> nat \<Rightarrow> nat \<Rightarrow> stack_elem list \<times> nat \<times> nat" where
  "move_elems stack dst sp1 next_sp =
     (if sp1 < next_sp then move_elems (stack[dst := stack ! sp1]) (dst + 1) (sp1 + 1) next_sp
      else (stack, dst, sp1))"
  by pat_completeness auto
termination
  by (relation "measure (\<lambda>(stack, dst, sp1, next_sp). next_sp - sp1)") auto

declare move_elems.simps [simp del]

function lookahead_keep ::
  "stack_elem list \<Rightarrow> nat \<Rightarrow> nat \<Rightarrow> nat \<Rightarrow> (stack_elem list \<times> nat) option" where
  "lookahead_keep stack dst sp1 sp_top =
     (if sp1 < sp_top then
        (case rd stack (sp1 + 2) of
           Some (ESp next_sp) \<Rightarrow>
             if next_sp \<le> length stack then
               (let (stack, dst, sp1) = move_elems stack dst (sp1 + 3) next_sp
                in lookahead_keep stack dst sp1 sp_top)
             else None
         | _ \<Rightarrow> None)
      else Some (stack, dst))"
  by pat_completeness auto

lemma move_elems_sp1: "move_elems stack dst sp1 e = (stack', dst', sp1') \<Longrightarrow> sp1 \<le> sp1'"
proof (induction stack dst sp1 e rule: move_elems.induct)
  case (1 stack dst sp1 e)
  show ?case
    using 1 by (subst (asm) move_elems.simps) (fastforce split: if_splits)
qed

termination lookahead_keep
proof (relation "measure (\<lambda>(stack, dst, sp1, sp_top). sp_top - sp1)", goal_cases)
  case 1
  show ?case by simp
next
  case (2 stack dst sp1 sp_top x x6 p stack' y dst' sp1')
  then have "sp1 + 3 \<le> sp1'"
    using move_elems_sp1 [of stack dst "sp1 + 3"] by metis
  with 2 show ?case by simp
qed

declare lookahead_keep.simps [simp del]

definition lookahead_match :: "re_exec \<Rightarrow> exec_result" where
  "lookahead_match s =
     (case lookahead_pop (stack_buf s) (sp s) (bp s) of
        None \<Rightarrow> Inr Fault
      | Some (stack, sp', bp', pc', cptr') \<Rightarrow>
          (case (if sp' \<noteq> 0 then lookahead_keep stack sp' sp' (sp s) else Some (stack, sp')) of
             None \<Rightarrow> Inr Fault
           | Some (stack, sp') \<Rightarrow>
               Inl (s\<lparr>pc := pc', cptr := cptr', stack_buf := stack, sp := sp', bp := bp'\<rparr>)))"

text \<open>\<^verbatim>\<open>negative_lookahead_match\<close>: undo everything up to its start, then \<^verbatim>\<open>goto no_match\<close>.\<close>

function negative_lookahead_pop :: "re_exec \<Rightarrow> exec_result" where
  "negative_lookahead_pop s =
     (case undo_captures (stack_buf s) (sp s) (bp s) (capture s) of
        None \<Rightarrow> Inr Fault
      | Some (sp', capture') \<Rightarrow>
          (case read_state (stack_buf s) sp' of
             None \<Rightarrow> Inr Fault
           | Some (pc', cptr', bp', type) \<Rightarrow>
               (let s' = s\<lparr>pc := pc', cptr := cptr', capture := capture', sp := sp' - 3, bp := bp'\<rparr>
                in if type = RE_EXEC_STATE_NEGATIVE_LOOKAHEAD then Inl s'
                   else if bp' < bp s then negative_lookahead_pop s'
                   else Inr Fault)))"
  by pat_completeness auto
termination
  by (relation "measure bp") auto

declare negative_lookahead_pop.simps [simp del]

definition negative_lookahead_match :: "re_exec \<Rightarrow> exec_result" where
  "negative_lookahead_match s = and_then (negative_lookahead_pop s) fail_match"

section \<open>The loop\<close>

primrec run_ctrl :: "ctrl \<Rightarrow> re_exec \<Rightarrow> exec_result" where
  "run_ctrl (Go pc' cptr') s = Inl (s\<lparr>pc := pc', cptr := cptr'\<rparr>)"
| "run_ctrl (Poll pc' cptr') s = lre_poll_timeout (s\<lparr>pc := pc', cptr := cptr'\<rparr>)"
| "run_ctrl No_match s = fail_match s"
| "run_ctrl Matched s = Inr (Ret 1 (capture s))"
| "run_ctrl Lookahead_matched s = lookahead_match s"
| "run_ctrl Negative_lookahead_matched s = negative_lookahead_match s"
| "run_ctrl Undefined s = Inr Fault"

definition exec_step :: "allocator \<Rightarrow> u8 list \<Rightarrow> re_exec_context \<Rightarrow> re_exec \<Rightarrow> exec_result" where
  "exec_step alloc bc ctx s =
     (case fetch8 bc (pc s) of
        None \<Rightarrow> Inr Fault
      | Some b \<Rightarrow>
          (case reop_of b of
             None \<Rightarrow> Inr Fault
           | Some opcode \<Rightarrow>
               (let (micros, next) = instr ctx bc opcode (pc s + 1) (cptr s) (capture s)
                in and_then (run_micros alloc micros s) (run_ctrl next))))"

definition lre_exec_backtrack ::
  "allocator \<Rightarrow> u8 list \<Rightarrow> re_exec_context \<Rightarrow> re_exec \<Rightarrow> outcome option" where
  "lre_exec_backtrack alloc bc ctx s = loop (exec_step alloc bc ctx) s"

section \<open>The entry\<close>

definition STATIC_STACK_SIZE :: nat where "STATIC_STACK_SIZE = 32"

definition exec_init :: "int \<Rightarrow> nat \<Rightarrow> slot list \<Rightarrow> re_exec" where
  "exec_init pc0 cptr0 capture0 =
     \<lparr>pc = pc0, cptr = cptr0, capture = capture0,
      stack_buf = replicate STATIC_STACK_SIZE EUninit, sp = 0, bp = 0,
      interrupt_counter = INTERRUPT_COUNTER_INIT, n_realloc = 0\<rparr>"

text \<open>
  The pointer \<^verbatim>\<open>cbuf + (i << cbuf_type)\<close> as an index of units, which are bytes for type 0 and 16 bits
  wide for the others; \<open>i\<close> is an \<^verbatim>\<open>int\<close>. The shift of a negative number, or one that does not fit
  into an \<^verbatim>\<open>int\<close>, is undefined. For type 2 the index is twice \<open>i\<close>.
\<close>

definition buf_offset :: "nat \<Rightarrow> int \<Rightarrow> nat option" where
  "buf_offset t i =
     (if 0 \<le> i \<and> t < 32 \<and> i * 2 ^ t < 2 ^ 31
      then Some (nat (i * 2 ^ t) div (if t = 0 then 1 else 2)) else None)"

text \<open>
  \<open>capture0\<close> is the caller's array as it is passed in; \<open>units\<close> is the block at \<^verbatim>\<open>cbuf\<close>. \<open>cindex\<close>
  and \<open>clen\<close> are the values of two \<^verbatim>\<open>int\<close> arguments.
\<close>

definition lre_exec ::
  "allocator \<Rightarrow> slot list \<Rightarrow> u8 list \<Rightarrow> units \<Rightarrow> int \<Rightarrow> int \<Rightarrow> nat \<Rightarrow> outcome option" where
  "lre_exec alloc capture0 bc_buf units cindex clen cbuf_type0 =
     (case (lre_get_flags bc_buf, lre_get_capture_count bc_buf, buf_offset cbuf_type0 clen, buf_offset cbuf_type0 cindex) of
        (Some re_flags, Some count, Some e, Some p) \<Rightarrow>
          (let uni = (re_flags AND (LRE_FLAG_UNICODE OR LRE_FLAG_UNICODE_SETS) \<noteq> 0);
               type = (if cbuf_type0 = 1 \<and> uni then 2 else cbuf_type0);
               ctx = \<lparr>cbuf = units, cbuf_end = e, cbuf_type = type,
                      capture_count = count, is_unicode = uni\<rparr>
           in if length capture0 < count * 2 then Some Fault
              else
                (let captures = replicate (count * 2) SNull @ drop (count * 2) capture0
                 in case (if 0 < cindex \<and> cindex < clen \<and> type = 2
                          then (case (rd units p, rd units (p - 1)) of
                              (Some lo, Some hi) \<Rightarrow>
                                Some (if is_lo_surrogate (ucast lo) \<and> is_hi_surrogate (ucast hi)
                                      then p - 1 else p)
                            | _ \<Rightarrow> None)
                          else Some p) of
                      None \<Rightarrow> Some Fault
                    | Some cptr0 \<Rightarrow>
                        lre_exec_backtrack alloc bc_buf ctx
                          (exec_init (int RE_HEADER_LEN) cptr0 captures)))
      | _ \<Rightarrow> Some Fault)"

lemma buf_offset_mono: "buf_offset t i = Some p \<Longrightarrow> buf_offset t j = Some q \<Longrightarrow> i \<le> j \<Longrightarrow> p \<le> q"
  by (auto simp: buf_offset_def intro!: div_le_mono nat_mono mult_right_mono split: if_splits)

lemma buf_offset_le:
  assumes "buf_offset t j = Some q" "0 \<le> i" "i \<le> j"
  shows "\<exists>p. buf_offset t i = Some p"
proof -
  have "i * 2 ^ t \<le> j * 2 ^ t" using assms(3) by (simp add: mult_right_mono)
  moreover have "j * 2 ^ t < 2 ^ 31" "t < 32" using assms(1) by (simp_all add: buf_offset_def split: if_splits)
  ultimately have "i * 2 ^ t < 2 ^ 31" "t < 32" by linarith+
  with assms(2) show ?thesis by (simp add: buf_offset_def)
qed

lemma buf_offset_less:
  assumes "buf_offset t i = Some p" "buf_offset t j = Some q" "i < j"
  shows "p < q"
proof (cases t)
  case 0
  with assms show ?thesis by (auto simp: buf_offset_def split: if_splits)
next
  case (Suc k)
  have half: "nat (2 * x) div 2 = nat x" for x :: int by (cases "0 \<le> x") (simp_all add: nat_mult_distrib)
  from assms Suc have "p = nat (i * 2 ^ k)" "q = nat (j * 2 ^ k)"
    using half [of "i * 2 ^ k"] half [of "j * 2 ^ k"] by (auto simp: buf_offset_def ac_simps split: if_splits)
  with assms show ?thesis by (simp add: buf_offset_def split: if_splits)
qed

lemma buf_offset_pos: "buf_offset t i = Some p \<Longrightarrow> 0 < i \<Longrightarrow> 0 < p"
  using buf_offset_less [of t 0 0 i p] by (auto simp: buf_offset_def split: if_splits)

lemma buf_offset_unit:
  "0 \<le> i \<Longrightarrow> i < 2 ^ 31 \<Longrightarrow> buf_offset 0 i = Some (nat i)"
  "0 \<le> i \<Longrightarrow> i < 2 ^ 30 \<Longrightarrow> buf_offset (Suc 0) i = Some (nat i)"
  by (simp_all add: buf_offset_def nat_mult_distrib)

end
