(* ===== verification/ExecSpec.thy ===== *)
theory ExecSpec
  imports Exec
begin

text \<open>
  The specification of the matcher: a machine whose choice points hold a copy of all captures.

  It runs the same instructions (\<open>instr\<close>) with the obvious meaning of backtracking: a failure
  takes the last choice point and its captures, the end of a lookahead forgets the choice
  points made since its start and keeps the captures. There is no stack of elements, no undo
  information and no memory to run out of.
\<close>

datatype choice = Choice (kind: re_exec_state) (c_pc: int) (c_cptr: nat) (c_captures: "slot list")

record spec_state =
  s_pc :: int
  s_cptr :: nat
  s_captures :: "slot list"
  s_choices :: "choice list"

type_synonym spec_result = "spec_state + outcome"

primrec spec_micro :: "micro \<Rightarrow> spec_state \<Rightarrow> spec_result" where
  "spec_micro (Check_stack_space n) t = Inl t"
| "spec_micro (Save_capture idx v) t =
     (if idx < length (s_captures t) then Inl (t\<lparr>s_captures := (s_captures t)[idx := v]\<rparr>)
      else Inr Fault)"
| "spec_micro (Save_capture_check idx v) t =
     (if idx < length (s_captures t) then Inl (t\<lparr>s_captures := (s_captures t)[idx := v]\<rparr>)
      else Inr Fault)"
| "spec_micro (Push_state pc1 cptr1 type) t =
     Inl (t\<lparr>s_choices := Choice type pc1 cptr1 (s_captures t) # s_choices t\<rparr>)"

primrec spec_micros :: "micro list \<Rightarrow> spec_state \<Rightarrow> spec_result" where
  "spec_micros [] t = Inl t"
| "spec_micros (m # ms) t = (case spec_micro m t of Inl t' \<Rightarrow> spec_micros ms t' | Inr e \<Rightarrow> Inr e)"

primrec spec_fail :: "slot list \<Rightarrow> choice list \<Rightarrow> spec_result" where
  "spec_fail captures [] = Inr (Ret 0 captures)"
| "spec_fail captures (c # cs) =
     (if kind c = RE_EXEC_STATE_LOOKAHEAD then spec_fail (c_captures c) cs
      else Inl \<lparr>s_pc = c_pc c, s_cptr = c_cptr c, s_captures = c_captures c, s_choices = cs\<rparr>)"

primrec spec_lookahead :: "slot list \<Rightarrow> choice list \<Rightarrow> spec_result" where
  "spec_lookahead captures [] = Inr Fault"
| "spec_lookahead captures (c # cs) =
     (if kind c = RE_EXEC_STATE_LOOKAHEAD then
        Inl \<lparr>s_pc = c_pc c, s_cptr = c_cptr c, s_captures = captures, s_choices = cs\<rparr>
      else spec_lookahead captures cs)"

primrec spec_negative :: "choice list \<Rightarrow> spec_result" where
  "spec_negative [] = Inr Fault"
| "spec_negative (c # cs) =
     (if kind c = RE_EXEC_STATE_NEGATIVE_LOOKAHEAD then spec_fail (c_captures c) cs
      else spec_negative cs)"

primrec spec_ctrl :: "ctrl \<Rightarrow> spec_state \<Rightarrow> spec_result" where
  "spec_ctrl (Go pc' cptr') t = Inl (t\<lparr>s_pc := pc', s_cptr := cptr'\<rparr>)"
| "spec_ctrl (Poll pc' cptr') t = Inl (t\<lparr>s_pc := pc', s_cptr := cptr'\<rparr>)"
| "spec_ctrl No_match t = spec_fail (s_captures t) (s_choices t)"
| "spec_ctrl Matched t = Inr (Ret 1 (s_captures t))"
| "spec_ctrl Lookahead_matched t = spec_lookahead (s_captures t) (s_choices t)"
| "spec_ctrl Negative_lookahead_matched t = spec_negative (s_choices t)"
| "spec_ctrl Undefined t = Inr Fault"

definition spec_step :: "u8 list \<Rightarrow> re_exec_context \<Rightarrow> spec_state \<Rightarrow> spec_result" where
  "spec_step bc ctx t =
     (case fetch8 bc (s_pc t) of
        None \<Rightarrow> Inr Fault
      | Some b \<Rightarrow>
          (case reop_of b of
             None \<Rightarrow> Inr Fault
           | Some opcode \<Rightarrow>
               (let (micros, next) = instr ctx bc opcode (s_pc t + 1) (s_cptr t) (s_captures t)
                in case spec_micros micros t of Inl t' \<Rightarrow> spec_ctrl next t' | Inr e \<Rightarrow> Inr e)))"

definition spec_run :: "u8 list \<Rightarrow> re_exec_context \<Rightarrow> spec_state \<Rightarrow> outcome option" where
  "spec_run bc ctx t = loop (spec_step bc ctx) t"

definition spec_init :: "int \<Rightarrow> nat \<Rightarrow> slot list \<Rightarrow> spec_state" where
  "spec_init pc0 cptr0 captures0 =
     \<lparr>s_pc = pc0, s_cptr = cptr0, s_captures = captures0, s_choices = []\<rparr>"

section \<open>The layout of the stack\<close>

type_synonym undo_log = "(nat \<times> slot) list"
type_synonym segment = "choice \<times> undo_log"

text \<open>The undo entries of a segment, oldest first, and what undoing them does.\<close>

definition entries :: "undo_log \<Rightarrow> stack_elem list" where
  "entries log = concat (map (\<lambda>(i, v). [EIdx i, ESlot v]) log)"

definition undo :: "undo_log \<Rightarrow> slot list \<Rightarrow> slot list" where
  "undo log caps = foldr (\<lambda>(i, v) c. c[i := v]) log caps"

text \<open>
  The used part of the stack: undo entries below the first choice point, then the choice points
  with the entries above each; segments are listed from the last one down.
\<close>

primrec stack_height :: "undo_log \<Rightarrow> segment list \<Rightarrow> nat" where
  "stack_height log0 [] = 2 * length log0"
| "stack_height log0 (g # gs) = stack_height log0 gs + 3 + 2 * length (snd g)"

primrec base :: "undo_log \<Rightarrow> segment list \<Rightarrow> nat" where
  "base log0 [] = 0"
| "base log0 (g # gs) = stack_height log0 gs + 3"

definition choice_elems :: "choice \<Rightarrow> nat \<Rightarrow> stack_elem list" where
  "choice_elems c b = [EPc (c_pc c), ECptr (c_cptr c), EBp b (kind c)]"

primrec layout :: "undo_log \<Rightarrow> segment list \<Rightarrow> stack_elem list" where
  "layout log0 [] = entries log0"
| "layout log0 (g # gs) =
     layout log0 gs @ choice_elems (fst g) (base log0 gs) @ entries (snd g)"

text \<open>Undoing the entries of a segment gives the captures that its choice point copied.\<close>

primrec consistent :: "slot list \<Rightarrow> segment list \<Rightarrow> bool" where
  "consistent caps [] \<longleftrightarrow> True"
| "consistent caps (g # gs) \<longleftrightarrow>
     c_captures (fst g) = undo (snd g) caps \<and> consistent (c_captures (fst g)) gs"

definition log_ok :: "nat \<Rightarrow> undo_log \<Rightarrow> bool" where
  "log_ok n log \<longleftrightarrow> (\<forall>(i, v) \<in> set log. i < n)"

text \<open>The stack \<open>stack_buf\<close> below \<open>sp\<close> represents the choice points of the specification.\<close>

definition represents :: "undo_log \<Rightarrow> segment list \<Rightarrow> re_exec \<Rightarrow> bool" where
  "represents log0 gs s \<longleftrightarrow>
     sp s \<le> length (stack_buf s) \<and> take (sp s) (stack_buf s) = layout log0 gs \<and>
     bp s = base log0 gs \<and> consistent (capture s) gs \<and>
     log_ok (length (capture s)) log0 \<and> (\<forall>g \<in> set gs. log_ok (length (capture s)) (snd g))"

definition refines :: "re_exec \<Rightarrow> spec_state \<Rightarrow> bool" where
  "refines s t \<longleftrightarrow>
     s_pc t = pc s \<and> s_cptr t = cptr s \<and> s_captures t = capture s \<and>
     (\<exists>log0 gs. s_choices t = map fst gs \<and> represents log0 gs s)"

section \<open>Undo entries\<close>

lemma length_entries [simp]: "length (entries log) = 2 * length log"
  by (induction log) (auto simp: entries_def)

lemma entries_append: "entries (l1 @ l2) = entries l1 @ entries l2"
  by (simp add: entries_def)

lemma entries_simps [simp]:
  "entries [] = []" "entries ((i, v) # log) = [EIdx i, ESlot v] @ entries log"
  by (simp_all add: entries_def)

lemma undo_append: "undo (l1 @ l2) caps = undo l1 (undo l2 caps)"
  by (simp add: undo_def)

lemma undo_simps [simp]: "undo [] caps = caps" "undo ((i, v) # log) caps = (undo log caps)[i := v]"
  by (simp_all add: undo_def)

lemma length_undo [simp]: "length (undo log caps) = length caps"
  by (induction log) auto

lemma log_ok_simps [simp]:
  "log_ok n []" "log_ok n ((i, v) # log) \<longleftrightarrow> i < n \<and> log_ok n log"
  "log_ok n (l1 @ l2) \<longleftrightarrow> log_ok n l1 \<and> log_ok n l2"
  by (auto simp: log_ok_def)

lemma undo_ignores_saved:
  "i \<in> fst ` set log \<Longrightarrow> undo log (caps[i := v]) = undo log caps"
proof (induction log)
  case (Cons e log)
  obtain j w where e: "e = (j, w)" by (cases e)
  show ?case
  proof (cases "i \<in> fst ` set log")
    case True
    with Cons.IH show ?thesis by (simp add: e)
  next
    case False
    with Cons.prems have "i = j" by (auto simp: e)
    have "(undo log (caps[i := v]))[i := w] = (undo log caps)[i := w]" if "i \<notin> fst ` set log" for log
      using that
    proof (induction log)
      case (Cons d log)
      obtain k x where "d = (k, x)" by (cases d)
      with Cons show ?case by (auto simp: list_update_swap)
    qed simp
    with False \<open>i = j\<close> show ?thesis by (simp add: e)
  qed
qed simp

lemma undo_new_entry:
  "i < length caps \<Longrightarrow> undo (log @ [(i, caps ! i)]) (caps[i := v]) = undo log caps"
  by (simp add: undo_append)

section \<open>Layout\<close>

lemma length_choice_elems [simp]: "length (choice_elems c b) = 3"
  by (simp add: choice_elems_def)

lemma length_layout [simp]: "length (layout log0 gs) = stack_height log0 gs"
  by (induction gs) auto

lemma base_le_height: "base log0 gs \<le> stack_height log0 gs"
  by (cases gs) auto

lemma take_prefix: "take n xs = ys @ zs \<Longrightarrow> take (length ys) xs = ys"
proof -
  assume tk: "take n xs = ys @ zs"
  then have "length ys \<le> n" by (metis append_eq_conv_conj length_append length_take min.cobounded2
        le_add1 order_trans)
  then have "take (length ys) xs = take (length ys) (take n xs)" by (simp add: min_absorb1)
  then show ?thesis by (simp add: tk)
qed

lemma rd_at: "take n xs = ys @ z # zs \<Longrightarrow> rd xs (length ys) = Some z"
proof -
  assume tk: "take n xs = ys @ z # zs"
  then have "length ys < length (take n xs)" by simp
  moreover have "xs ! length ys = take n xs ! length ys" using calculation by simp
  moreover have "length ys < length xs" using arg_cong [OF tk, of length] by simp
  ultimately show ?thesis by (simp add: rd_def tk)
qed

lemma read_state_layout:
  assumes "take n stack = pre @ choice_elems c b @ rest"
  shows "read_state stack (length pre + 3) = Some (c_pc c, c_cptr c, b, kind c)"
proof -
  have tk: "take n stack = pre @ EPc (c_pc c) # ECptr (c_cptr c) # EBp b (kind c) # rest"
    using assms by (simp add: choice_elems_def)
  have "rd stack (length pre) = Some (EPc (c_pc c))"
    using rd_at [OF tk] .
  moreover have "rd stack (length pre + 1) = Some (ECptr (c_cptr c))"
    using rd_at [of n stack "pre @ [EPc (c_pc c)]"] tk by simp
  moreover have "rd stack (length pre + 2) = Some (EBp b (kind c))"
    using rd_at [of n stack "pre @ [EPc (c_pc c), ECptr (c_cptr c)]"] tk by simp
  ultimately show ?thesis by (simp add: read_state_def eval_nat_numeral)
qed

text \<open>The last entry of a segment, as both loops over the entries meet it.\<close>

lemma last_entry:
  assumes "take n stack = pre @ entries (log @ [(i, v)])" and "n = length (pre @ entries (log @ [(i, v)]))"
  shows "n = length pre + 2 * length log + 2" and "rd stack (n - 2) = Some (EIdx i)"
    and "rd stack (n - 1) = Some (ESlot v)" and "take (n - 2) stack = pre @ entries log"
proof -
  show n: "n = length pre + 2 * length log + 2" using assms(2) by (simp add: entries_append)
  have tk: "take n stack = (pre @ entries log) @ [EIdx i, ESlot v]"
    using assms(1) by (simp add: entries_append)
  show "rd stack (n - 2) = Some (EIdx i)"
    using rd_at [OF tk] n by simp
  show "rd stack (n - 1) = Some (ESlot v)"
    using rd_at [of n stack "(pre @ entries log) @ [EIdx i]"] tk n by simp
  show "take (n - 2) stack = pre @ entries log"
    using take_prefix [OF tk] n by simp
qed

lemma saved_above_entries:
  assumes "take n stack = pre @ entries log" and "n = length (pre @ entries log)"
  shows "saved_above stack n (length pre) idx = Some (idx \<in> fst ` set log)"
  using assms
proof (induction log arbitrary: n rule: rev_induct)
  case Nil
  then show ?case by (subst saved_above.simps) simp
next
  case (snoc e log)
  obtain i v where e: "e = (i, v)" by (cases e)
  note last = last_entry [OF snoc.prems(1,2) [unfolded e]]
  show ?case
    using last snoc.IH [of "n - 2"] by (subst saved_above.simps) (auto simp: e)
qed

lemma undo_captures_entries:
  assumes "take n stack = pre @ entries log" and "n = length (pre @ entries log)"
    and "log_ok (length caps) log"
  shows "undo_captures stack n (length pre) caps = Some (length pre, undo log caps)"
  using assms
proof (induction log arbitrary: n caps rule: rev_induct)
  case Nil
  then show ?case by (subst undo_captures.simps) simp
next
  case (snoc e log)
  obtain i v where e: "e = (i, v)" by (cases e)
  note last = last_entry [OF snoc.prems(1,2) [unfolded e]]
  show ?case
    using last snoc.IH [of "n - 2" "caps[i := v]"] snoc.prems(3)
    by (subst undo_captures.simps) (simp add: e undo_append)
qed

end
