(* ===== verification/Refine.thy ===== *)
theory Refine
  imports ExecSpec
begin

text \<open>
  The matcher implements its specification: every operation on the stack, on the undo entries
  and on the choice points keeps the relation \<open>refines\<close>, so that the runs agree in whether they
  return, what they return and what the captures then are, as long as memory lasts.
\<close>

section \<open>Simulation of results\<close>

definition gives_up :: "allocator \<Rightarrow> outcome \<Rightarrow> bool" where
  "gives_up alloc e \<longleftrightarrow> (\<exists>caps. e = Ret LRE_RET_MEMORY_ERROR caps) \<and> (\<exists>k n. \<not> alloc k n)"

definition sim :: "allocator \<Rightarrow> exec_result \<Rightarrow> spec_result \<Rightarrow> bool" where
  "sim alloc r u \<longleftrightarrow> rel_sum refines (=) r u \<or> (\<exists>e. r = Inr e \<and> gives_up alloc e)"

lemma sim_Inl [intro]: "refines s t \<Longrightarrow> sim alloc (Inl s) (Inl t)"
  by (simp add: sim_def)

lemma sim_Inr [simp]: "sim alloc (Inr e) (Inr e)"
  by (simp add: sim_def)

lemma sim_gives_up: "gives_up alloc e \<Longrightarrow> sim alloc (Inr e) u"
  by (simp add: sim_def)

lemma sim_and_then:
  assumes "sim alloc r u" and "\<And>s t. refines s t \<Longrightarrow> sim alloc (f s) (g t)"
  shows "sim alloc (and_then r f) (case u of Inl t \<Rightarrow> g t | Inr e \<Rightarrow> Inr e)"
  using assms by (fastforce simp: sim_def and_then_def elim!: rel_sum.cases)

section \<open>Stack space\<close>

text \<open>A request for stack space succeeds, keeping the used part, or gives up.\<close>

lemma check_stack_space_cases:
  assumes "sp s \<le> length (stack_buf s)"
  obtains (ok) stack k where "check_stack_space alloc n s = Inl (s\<lparr>stack_buf := stack, n_realloc := k\<rparr>)"
      and "sp s + n \<le> length stack" and "take (sp s) stack = take (sp s) (stack_buf s)"
  | (fail) e where "check_stack_space alloc n s = Inr e" and "gives_up alloc e"
proof (cases "int (length (stack_buf s)) - int (sp s) < int n")
  case False
  then show thesis
    using ok [where stack = "stack_buf s" and k = "n_realloc s"] assms by (simp add: check_stack_space_def)
next
  case True
  show thesis
  proof (cases "stack_realloc alloc (sp s + n) s")
    case None
    then have "\<exists>k m. \<not> alloc k m"
      by (auto simp: stack_realloc_def Let_def split: if_splits)
    with None True show thesis
      using fail [of "Ret LRE_RET_MEMORY_ERROR (capture s)"]
      by (simp add: check_stack_space_def gives_up_def)
  next
    case (Some s')
    then obtain m where s': "s' = s\<lparr>stack_buf := stack_buf s @ replicate m EUninit,
          n_realloc := n_realloc s + 1\<rparr>" and m: "sp s + n \<le> length (stack_buf s) + m"
      by (auto simp: stack_realloc_def Let_def split: if_splits)
    with Some True assms show thesis
      using ok [where stack = "stack_buf s @ replicate m EUninit" and k = "n_realloc s + 1"]
      by (simp add: check_stack_space_def)
  qed
qed

lemma refines_stack:
  assumes "refines s t" and "take (sp s) stack = take (sp s) (stack_buf s)" and "sp s \<le> length stack"
  shows "refines (s\<lparr>stack_buf := stack, n_realloc := k\<rparr>) t"
  using assms by (auto simp: refines_def represents_def)

lemma refines_sp: "refines s t \<Longrightarrow> sp s \<le> length (stack_buf s)"
  by (auto simp: refines_def represents_def)

lemma take_two_stores:
  "Suc (Suc n) \<le> length xs \<Longrightarrow> take (Suc (Suc n)) (xs[n := a, Suc n := b]) = take n xs @ [a, b]"
  by (rule nth_equalityI) (auto simp: nth_append nth_list_update less_Suc_eq)

lemma take_three_stores:
  "n + 3 \<le> length xs \<Longrightarrow>
   take (n + 3) (xs[n := a, Suc n := b, Suc (Suc n) := c]) = take n xs @ [a, b, c]"
  by (rule nth_equalityI) (auto simp: nth_append nth_list_update less_Suc_eq eval_nat_numeral)

section \<open>Undo entries\<close>

text \<open>The log of the last segment, and the stack with that log replaced.\<close>

primrec last_log :: "undo_log \<Rightarrow> segment list \<Rightarrow> undo_log" where
  "last_log log0 [] = log0"
| "last_log log0 (g # gs) = snd g"

primrec put_log0 :: "undo_log \<Rightarrow> undo_log \<Rightarrow> segment list \<Rightarrow> undo_log" where
  "put_log0 log log0 [] = log"
| "put_log0 log log0 (g # gs) = log0"

primrec put_log :: "undo_log \<Rightarrow> segment list \<Rightarrow> segment list" where
  "put_log log [] = []"
| "put_log log (g # gs) = (fst g, log) # gs"

text \<open>What lies below the last log.\<close>

primrec under_log :: "undo_log \<Rightarrow> segment list \<Rightarrow> stack_elem list" where
  "under_log log0 [] = []"
| "under_log log0 (g # gs) = layout log0 gs @ choice_elems (fst g) (base log0 gs)"

lemma layout_below: "layout log0 gs = under_log log0 gs @ entries (last_log log0 gs)"
  by (cases gs) auto

lemma length_below [simp]: "length (under_log log0 gs) = base log0 gs"
  by (cases gs) auto

lemma below_put_log: "under_log (put_log0 log log0 gs) (put_log log gs) = under_log log0 gs"
  by (cases gs) auto

lemma base_put_log: "base (put_log0 log log0 gs) (put_log log gs) = base log0 gs"
  by (cases gs) auto

lemma last_put_log: "last_log (put_log0 log log0 gs) (put_log log gs) = log"
  by (cases gs) auto

lemma layout_put_log: "layout (put_log0 log log0 gs) (put_log log gs) = under_log log0 gs @ entries log"
  by (simp add: layout_below below_put_log last_put_log)

lemma fst_put_log: "map fst (put_log log gs) = map fst gs"
  by (cases gs) auto

lemma consistent_put_log:
  "consistent caps gs \<Longrightarrow> gs = [] \<or> undo log caps' = undo (last_log log0 gs) caps \<Longrightarrow>
   consistent caps' (put_log log gs)"
  by (cases gs) auto

text \<open>
  Changing the captures and extending the last log is allowed when undoing the new log on the
  new captures has the effect of the old.
\<close>

lemma represents_update:
  assumes rep: "represents log0 gs s"
    and len: "length caps' = length (capture s)" and ok: "log_ok (length (capture s)) log"
    and same: "undo log caps' = undo (last_log log0 gs) (capture s)"
    and sp': "sp' \<le> length stack" and tk: "take sp' stack = under_log log0 gs @ entries log"
  shows "represents (put_log0 log log0 gs) (put_log log gs)
    (s\<lparr>capture := caps', stack_buf := stack, sp := sp', n_realloc := k\<rparr>)"
proof -
  have "consistent caps' (put_log log gs)"
    using rep same by (intro consistent_put_log) (auto simp: represents_def)
  moreover have "log_ok (length (capture s)) (put_log0 log log0 gs)"
    "\<forall>g \<in> set (put_log log gs). log_ok (length (capture s)) (snd g)"
    using rep ok by (cases gs; auto simp: represents_def)+
  ultimately show ?thesis
    using rep len sp' tk by (simp add: represents_def layout_put_log base_put_log)
qed

lemma saved_above_represents:
  assumes "represents log0 gs s"
  shows "saved_above (stack_buf s) (sp s) (bp s) idx = Some (idx \<in> fst ` set (last_log log0 gs))"
proof -
  have "take (sp s) (stack_buf s) = under_log log0 gs @ entries (last_log log0 gs)"
    using assms by (simp add: represents_def layout_below)
  moreover have "sp s = length (under_log log0 gs @ entries (last_log log0 gs))"
    using assms calculation by (metis represents_def length_take min_absorb2)
  ultimately show ?thesis
    using saved_above_entries [of "sp s" "stack_buf s" "under_log log0 gs" "last_log log0 gs" idx] assms
    by (simp add: represents_def)
qed

lemma represents_log_ok: "represents log0 gs s \<Longrightarrow> log_ok (length (capture s)) (last_log log0 gs)"
  by (cases gs) (auto simp: represents_def)

lemma push_undo_set_capture:
  assumes rep: "represents log0 gs s" and space: "sp s + 2 \<le> length (stack_buf s)"
    and idx: "idx < length (capture s)"
  shows "and_then (push_undo idx s) (set_capture idx v) =
      Inl (s\<lparr>capture := (capture s)[idx := v],
             stack_buf := (stack_buf s)[sp s := EIdx idx, sp s + 1 := ESlot (capture s ! idx)],
             sp := sp s + 2\<rparr>)"
    and "represents (put_log0 (last_log log0 gs @ [(idx, capture s ! idx)]) log0 gs)
      (put_log (last_log log0 gs @ [(idx, capture s ! idx)]) gs)
      (s\<lparr>capture := (capture s)[idx := v],
         stack_buf := (stack_buf s)[sp s := EIdx idx, sp s + 1 := ESlot (capture s ! idx)],
         sp := sp s + 2\<rparr>)"
proof -
  show "and_then (push_undo idx s) (set_capture idx v) =
      Inl (s\<lparr>capture := (capture s)[idx := v],
             stack_buf := (stack_buf s)[sp s := EIdx idx, sp s + 1 := ESlot (capture s ! idx)],
             sp := sp s + 2\<rparr>)"
    using space idx by (simp add: and_then_def push_undo_def push2_def set_capture_def rd_def)
  have "take (sp s + 2) ((stack_buf s)[sp s := EIdx idx, sp s + 1 := ESlot (capture s ! idx)]) =
      under_log log0 gs @ entries (last_log log0 gs @ [(idx, capture s ! idx)])"
    using rep take_two_stores [of "sp s" "stack_buf s"] space
    by (simp add: represents_def layout_below entries_append)
  then show "represents (put_log0 (last_log log0 gs @ [(idx, capture s ! idx)]) log0 gs)
      (put_log (last_log log0 gs @ [(idx, capture s ! idx)]) gs)
      (s\<lparr>capture := (capture s)[idx := v],
         stack_buf := (stack_buf s)[sp s := EIdx idx, sp s + 1 := ESlot (capture s ! idx)],
         sp := sp s + 2\<rparr>)"
    using represents_update [OF rep, where caps' = "(capture s)[idx := v]" and k = "n_realloc s"
        and sp' = "sp s + 2"]
      rep space idx represents_log_ok [OF rep]
    by (simp add: undo_new_entry)
qed

lemma refinesI:
  "represents log0 gs s \<Longrightarrow> s_choices t = map fst gs \<Longrightarrow> s_pc t = pc s \<Longrightarrow> s_cptr t = cptr s \<Longrightarrow>
   s_captures t = capture s \<Longrightarrow> refines s t"
  by (auto simp: refines_def)

lemma sim_save:
  assumes "refines s t"
  shows "sim alloc (and_then (check_stack_space alloc 2 s) (\<lambda>s. and_then (push_undo idx s) (set_capture idx v)))
    (if idx < length (s_captures t) then Inl (t\<lparr>s_captures := (s_captures t)[idx := v]\<rparr>) else Inr Fault)"
  using refines_sp [OF assms]
proof (cases rule: check_stack_space_cases [where n = 2 and alloc = alloc])
  case (fail e)
  then show ?thesis by (simp add: and_then_def sim_gives_up)
next
  case (ok stack k)
  let ?s = "s\<lparr>stack_buf := stack, n_realloc := k\<rparr>"
  have refs: "refines ?s t" using refines_stack [OF assms ok(3)] ok(2) by simp
  then obtain log0 gs where rep: "represents log0 gs ?s" and ch: "s_choices t = map fst gs"
    by (auto simp: refines_def)
  have eqs: "s_pc t = pc s" "s_cptr t = cptr s" "s_captures t = capture s"
    using assms by (auto simp: refines_def)
  show ?thesis
  proof (cases "idx < length (capture s)")
    case True
    note push = push_undo_set_capture [OF rep, of idx v]
    let ?s' = "?s\<lparr>capture := (capture s)[idx := v],
         stack_buf := stack[sp s := EIdx idx, sp s + 1 := ESlot (capture s ! idx)], sp := sp s + 2\<rparr>"
    let ?log = "last_log log0 gs @ [(idx, capture s ! idx)]"
    have "represents (put_log0 ?log log0 gs) (put_log ?log gs) ?s'"
      using push(2) True ok(2) by simp
    then have "refines ?s' (t\<lparr>s_captures := (s_captures t)[idx := v]\<rparr>)"
      by (rule refinesI) (simp_all add: eqs ch fst_put_log)
    with push(1) True ok(1,2) eqs show ?thesis
      by (auto simp: and_then_def)
  next
    case False
    with ok(1) eqs show ?thesis
      by (simp add: and_then_def push_undo_def rd_def)
  qed
qed

lemma sim_save_check:
  assumes "refines s t"
  shows "sim alloc (save_capture_check alloc idx v s)
    (if idx < length (s_captures t) then Inl (t\<lparr>s_captures := (s_captures t)[idx := v]\<rparr>) else Inr Fault)"
proof -
  obtain log0 gs where rep: "represents log0 gs s" and ch: "s_choices t = map fst gs"
    using assms by (auto simp: refines_def)
  have eqs: "s_pc t = pc s" "s_cptr t = cptr s" "s_captures t = capture s"
    using assms by (auto simp: refines_def)
  show ?thesis
  proof (cases "idx \<in> fst ` set (last_log log0 gs)")
    case False
    with saved_above_represents [OF rep] sim_save [OF assms] show ?thesis
      by (simp add: save_capture_check_def)
  next
    case True
    then have idx: "idx < length (capture s)"
      using represents_log_ok [OF rep] by (auto simp: log_ok_def)
    have "represents (put_log0 (last_log log0 gs) log0 gs) (put_log (last_log log0 gs) gs)
        (s\<lparr>capture := (capture s)[idx := v], stack_buf := stack_buf s, sp := sp s, n_realloc := n_realloc s\<rparr>)"
      using rep by (intro represents_update [OF rep] represents_log_ok [OF rep])
        (use True in \<open>simp_all add: undo_ignores_saved represents_def layout_below\<close>)
    then have "refines (s\<lparr>capture := (capture s)[idx := v]\<rparr>) (t\<lparr>s_captures := (s_captures t)[idx := v]\<rparr>)"
      by (auto intro!: refinesI simp: eqs ch fst_put_log)
    with saved_above_represents [OF rep] True idx eqs show ?thesis
      by (auto simp: save_capture_check_def set_capture_def)
  qed
qed

lemma sim_push_state:
  assumes "refines s t"
  shows "sim alloc (push_state alloc pc1 cptr1 type s)
    (Inl (t\<lparr>s_choices := Choice type pc1 cptr1 (s_captures t) # s_choices t\<rparr>))"
  using refines_sp [OF assms]
proof (cases rule: check_stack_space_cases [where n = 3 and alloc = alloc])
  case (fail e)
  then show ?thesis by (simp add: push_state_def and_then_def sim_gives_up)
next
  case (ok stack k)
  let ?s = "s\<lparr>stack_buf := stack, n_realloc := k\<rparr>"
  have refs: "refines ?s t" using refines_stack [OF assms ok(3)] ok(2) by simp
  then obtain log0 gs where rep: "represents log0 gs ?s" and ch: "s_choices t = map fst gs"
    by (auto simp: refines_def)
  have eqs: "s_pc t = pc s" "s_cptr t = cptr s" "s_captures t = capture s"
    using assms by (auto simp: refines_def)
  let ?c = "Choice type pc1 cptr1 (capture s)"
  have tk: "take (sp s) stack = layout log0 gs" and bp: "bp s = base log0 gs"
    using rep by (auto simp: represents_def)
  have sp: "sp s = stack_height log0 gs"
    using arg_cong [OF tk, of length] ok(2) by simp
  have "represents log0 ((?c, []) # gs)
      (?s\<lparr>stack_buf := stack[sp s := EPc pc1, sp s + 1 := ECptr cptr1, sp s + 2 := EBp (bp s) type],
          sp := sp s + 3, bp := sp s + 3\<rparr>)"
    using rep ok(2) by (simp add: represents_def take_three_stores tk bp choice_elems_def sp)
  then have "refines (?s\<lparr>stack_buf := stack[sp s := EPc pc1, sp s + 1 := ECptr cptr1, sp s + 2 := EBp (bp s) type],
          sp := sp s + 3, bp := sp s + 3\<rparr>)
      (t\<lparr>s_choices := ?c # s_choices t\<rparr>)"
    by (rule refinesI) (simp_all add: ch eqs)
  with ok(1,2) eqs show ?thesis
    by (auto simp: push_state_def and_then_def)
qed

section \<open>Instructions\<close>

lemma sim_micro:
  assumes "refines s t"
  shows "sim alloc (run_micro alloc m s) (spec_micro m t)"
proof (cases m)
  case (Check_stack_space n)
  show ?thesis
    using refines_sp [OF assms]
    by (cases rule: check_stack_space_cases [where n = n and alloc = alloc])
      (auto simp: Check_stack_space sim_gives_up intro!: refines_stack [OF assms])
next
  case (Save_capture idx v)
  then show ?thesis using sim_save [OF assms] by (simp add: save_capture_def)
next
  case (Save_capture_check idx v)
  then show ?thesis using sim_save_check [OF assms] by simp
next
  case (Push_state pc1 cptr1 type)
  then show ?thesis using sim_push_state [OF assms] by simp
qed

lemma sim_micros: "refines s t \<Longrightarrow> sim alloc (run_micros alloc ms s) (spec_micros ms t)"
proof (induction ms arbitrary: s t)
  case Nil
  then show ?case by auto
next
  case (Cons m ms)
  show ?case using sim_and_then [OF sim_micro [OF Cons.prems] Cons.IH] by simp
qed

section \<open>Backtracking\<close>

text \<open>The last choice point: undoing its entries gives its captures, and it reads as stored.\<close>

lemma represents_top:
  assumes "represents log0 (g # gs) s"
  shows "undo_captures (stack_buf s) (sp s) (bp s) (capture s) = Some (bp s, c_captures (fst g))"
    and "read_state (stack_buf s) (bp s) =
      Some (c_pc (fst g), c_cptr (fst g), base log0 gs, kind (fst g))"
    and "base log0 gs < bp s" and "bp s = stack_height log0 gs + 3"
    and "represents log0 gs
      (s\<lparr>pc := p, cptr := q, capture := c_captures (fst g), sp := bp s - 3, bp := base log0 gs\<rparr>)"
proof -
  have tk: "take (sp s) (stack_buf s) = under_log log0 (g # gs) @ entries (snd g)"
    and bp: "bp s = stack_height log0 gs + 3"
    and len: "sp s \<le> length (stack_buf s)"
    and caps: "c_captures (fst g) = undo (snd g) (capture s)"
    using assms by (simp_all add: represents_def)
  show "bp s = stack_height log0 gs + 3" by (fact bp)
  have "sp s = length (under_log log0 (g # gs) @ entries (snd g))"
    using arg_cong [OF tk, of length] len by simp
  from undo_captures_entries [OF tk this, of "capture s"] represents_log_ok [OF assms]
  show "undo_captures (stack_buf s) (sp s) (bp s) (capture s) = Some (bp s, c_captures (fst g))"
    by (simp add: bp caps)
  have tk': "take (sp s) (stack_buf s) =
      layout log0 gs @ choice_elems (fst g) (base log0 gs) @ entries (snd g)"
    using tk by simp
  show "read_state (stack_buf s) (bp s) =
      Some (c_pc (fst g), c_cptr (fst g), base log0 gs, kind (fst g))"
    using read_state_layout [OF tk'] by (simp add: bp)
  show "base log0 gs < bp s"
    using base_le_height [of log0 gs] by (simp add: bp)
  have "take (stack_height log0 gs) (stack_buf s) = layout log0 gs"
    using take_prefix [OF tk'] by simp
  moreover have "stack_height log0 gs \<le> length (stack_buf s)"
    using arg_cong [OF tk', of length] by simp
  ultimately show "represents log0 gs
      (s\<lparr>pc := p, cptr := q, capture := c_captures (fst g), sp := bp s - 3, bp := base log0 gs\<rparr>)"
    using assms by (auto simp: represents_def bp)
qed

lemma represents_nil: "represents log0 gs s \<Longrightarrow> bp s = 0 \<longleftrightarrow> gs = []"
  by (cases gs) (auto simp: represents_def)

lemma sim_no_match:
  "represents log0 gs s \<Longrightarrow> sim alloc (no_match s) (spec_fail (capture s) (map fst gs))"
proof (induction gs arbitrary: s)
  case Nil
  then show ?case
    using represents_nil [OF Nil] by (subst no_match.simps) simp
next
  case (Cons g gs)
  note top = represents_top [OF Cons.prems]
  let ?s = "s\<lparr>pc := c_pc (fst g), cptr := c_cptr (fst g), capture := c_captures (fst g),
      sp := bp s - 3, bp := base log0 gs\<rparr>"
  have step: "no_match s = (if kind (fst g) \<noteq> RE_EXEC_STATE_LOOKAHEAD then Inl ?s else no_match ?s)"
    using top(1-4) represents_nil [OF Cons.prems] by (subst no_match.simps) simp
  show ?case
  proof (cases "kind (fst g) = RE_EXEC_STATE_LOOKAHEAD")
    case True
    with Cons.IH [OF top(5)] show ?thesis by (simp add: step)
  next
    case False
    have "refines ?s \<lparr>s_pc = c_pc (fst g), s_cptr = c_cptr (fst g), s_captures = c_captures (fst g),
        s_choices = map fst gs\<rparr>"
      by (rule refinesI [OF top(5)]) simp_all
    with False show ?thesis by (auto simp: step)
  qed
qed

lemma sim_poll: "refines s t \<Longrightarrow> sim alloc (lre_poll_timeout s) (Inl t)"
proof -
  assume "refines s t"
  then have "refines (s\<lparr>interrupt_counter := n\<rparr>) t" for n
    by (auto simp: refines_def represents_def)
  then show ?thesis by (auto simp: lre_poll_timeout_def Let_def lre_check_timeout_def)
qed

lemma sim_poll_result: "sim alloc r u \<Longrightarrow> sim alloc (and_then r lre_poll_timeout) u"
  using sim_and_then [of alloc r u lre_poll_timeout Inl] sim_poll by (auto split: sum.splits)

lemma sim_fail_match:
  "represents log0 gs s \<Longrightarrow> sim alloc (fail_match s) (spec_fail (capture s) (map fst gs))"
  unfolding fail_match_def by (intro sim_poll_result sim_no_match)

lemma sim_negative:
  "represents log0 gs s \<Longrightarrow>
   sim alloc (negative_lookahead_match s) (spec_negative (map fst gs))"
  unfolding negative_lookahead_match_def
proof (induction gs arbitrary: s)
  case Nil
  then have tk: "take (sp s) (stack_buf s) = [] @ entries log0" and "bp s = 0"
    and len: "sp s \<le> length (stack_buf s)" and ok: "log_ok (length (capture s)) log0"
    by (simp_all add: represents_def)
  have "sp s = length ([] @ entries log0)"
    using arg_cong [OF tk, of length] len by simp
  from undo_captures_entries [OF tk this ok] have
    "undo_captures (stack_buf s) (sp s) (bp s) (capture s) = Some (0, undo log0 (capture s))"
    by (simp add: \<open>bp s = 0\<close>)
  then have "negative_lookahead_pop s = Inr Fault"
    by (subst negative_lookahead_pop.simps) (simp add: read_state_def)
  then show ?case by (simp add: and_then_def)
next
  case (Cons g gs)
  note top = represents_top [OF Cons.prems]
  let ?s = "s\<lparr>pc := c_pc (fst g), cptr := c_cptr (fst g), capture := c_captures (fst g),
      sp := bp s - 3, bp := base log0 gs\<rparr>"
  have step: "negative_lookahead_pop s =
      (if kind (fst g) = RE_EXEC_STATE_NEGATIVE_LOOKAHEAD then Inl ?s else negative_lookahead_pop ?s)"
    using top(1-4) by (subst negative_lookahead_pop.simps) (simp add: Let_def)
  show ?case
  proof (cases "kind (fst g) = RE_EXEC_STATE_NEGATIVE_LOOKAHEAD")
    case True
    with sim_fail_match [OF top(5)] show ?thesis by (simp add: step and_then_def)
  next
    case False
    with Cons.IH [OF top(5)] show ?thesis by (simp add: step)
  qed
qed

section \<open>The end of a lookahead\<close>

text \<open>
  The segments popped so far, from the lowest up, as \<^verbatim>\<open>lookahead_match\<close> leaves them: the third
  element of each choice point now is the index where its undo entries end.
\<close>

primrec popped :: "nat \<Rightarrow> segment list \<Rightarrow> stack_elem list" where
  "popped n [] = []"
| "popped n (g # gs) =
     [EPc (c_pc (fst g)), ECptr (c_cptr (fst g)), ESp (n + 3 + 2 * length (snd g))]
       @ entries (snd g) @ popped (n + 3 + 2 * length (snd g)) gs"

lemma popped_snoc:
  "popped n (gs @ [g]) = popped n gs @
     [EPc (c_pc (fst g)), ECptr (c_cptr (fst g)), ESp (n + length (popped n gs) + 3 + 2 * length (snd g))]
       @ entries (snd g)"
  by (induction gs arbitrary: n) (auto simp: algebra_simps)

lemma length_popped: "length (popped n gs) = (\<Sum>g\<leftarrow>gs. 3 + 2 * length (snd g))"
  by (induction gs arbitrary: n) auto

lemma stack_height_append:
  "stack_height log0 (us @ ls) = stack_height log0 ls + length (popped n (rev us))"
  by (induction us) (simp_all add: length_popped)

definition all_entries :: "segment list \<Rightarrow> undo_log" where
  "all_entries gs = concat (map snd gs)"

lemma all_entries_simps [simp]: "all_entries [] = []" "all_entries (g # gs) = snd g @ all_entries gs"
  by (simp_all add: all_entries_def)

text \<open>
  Popping: \<open>us\<close> are the segments above the start \<open>f\<close> of the lookahead, \<open>ls\<close> those below.
\<close>

lemma lookahead_pop_layout:
  assumes "take h stack = layout log0 (us @ f # ls)" and "h \<le> length stack"
    and "\<forall>u \<in> set us. kind (fst u) \<noteq> RE_EXEC_STATE_LOOKAHEAD" and "kind (fst f) = RE_EXEC_STATE_LOOKAHEAD"
  shows "\<exists>stack'. lookahead_pop stack h (base log0 (us @ f # ls)) =
      Some (stack', stack_height log0 ls, base log0 ls, c_pc (fst f), c_cptr (fst f)) \<and>
    take h stack' = layout log0 ls @ popped (stack_height log0 ls) (rev (us @ [f])) \<and>
    drop h stack' = drop h stack"
  using assms(1-3)
proof (induction us arbitrary: h stack)
  case Nil
  have tk: "take h stack = layout log0 ls @ choice_elems (fst f) (base log0 ls) @ entries (snd f)"
    using Nil(1) by simp
  have h: "h = stack_height log0 ls + 3 + 2 * length (snd f)"
    using arg_cong [OF tk, of length] Nil(2) by simp
  have rs: "read_state stack (stack_height log0 ls + 3) =
      Some (c_pc (fst f), c_cptr (fst f), base log0 ls, RE_EXEC_STATE_LOOKAHEAD)"
    using read_state_layout [OF tk] assms(4) by simp
  have "take h (stack[stack_height log0 ls + 2 := ESp h]) =
      (take h stack)[stack_height log0 ls + 2 := ESp h]"
    by (simp add: take_update_swap)
  also have "\<dots> = layout log0 ls @ popped (stack_height log0 ls) [f]"
    unfolding tk by (simp add: h list_update_append choice_elems_def)
  finally show ?case
    using rs h by (subst lookahead_pop.simps) simp
next
  case (Cons u us)
  let ?gs = "us @ f # ls"
  have tk: "take h stack = layout log0 ?gs @ choice_elems (fst u) (base log0 ?gs) @ entries (snd u)"
    using Cons.prems(1) by simp
  have h: "h = stack_height log0 ?gs + 3 + 2 * length (snd u)"
    using arg_cong [OF tk, of length] Cons.prems(2) by simp
  have rs: "read_state stack (stack_height log0 ?gs + 3) =
      Some (c_pc (fst u), c_cptr (fst u), base log0 ?gs, kind (fst u))"
    using read_state_layout [OF tk] by simp
  define stack1 where "stack1 = stack[stack_height log0 ?gs + 2 := ESp h]"
  have take1: "take h stack1 = layout log0 ?gs @
      [EPc (c_pc (fst u)), ECptr (c_cptr (fst u)), ESp h] @ entries (snd u)"
    unfolding stack1_def by (simp add: take_update_swap tk list_update_append choice_elems_def)
  have "take (stack_height log0 ?gs) stack1 = layout log0 ?gs"
    using take_prefix [OF take1] by simp
  moreover have "stack_height log0 ?gs \<le> length stack1"
    using Cons.prems(2) h by (simp add: stack1_def)
  ultimately obtain stack' where pop: "lookahead_pop stack1 (stack_height log0 ?gs) (base log0 ?gs) =
      Some (stack', stack_height log0 ls, base log0 ls, c_pc (fst f), c_cptr (fst f))"
    and low: "take (stack_height log0 ?gs) stack' =
      layout log0 ls @ popped (stack_height log0 ls) (rev (us @ [f]))"
    and high: "drop (stack_height log0 ?gs) stack' = drop (stack_height log0 ?gs) stack1"
    using Cons.IH [of "stack_height log0 ?gs" stack1] Cons.prems(3) by auto
  have unf: "lookahead_pop stack h (base log0 ((u # us) @ f # ls)) =
      Some (stack', stack_height log0 ls, base log0 ls, c_pc (fst f), c_cptr (fst f))"
    using rs pop Cons.prems(3) base_le_height [of log0 ?gs]
    by (subst lookahead_pop.simps) (simp add: stack1_def eval_nat_numeral)
  have hd: "h = stack_height log0 ?gs + (h - stack_height log0 ?gs)" using h by simp
  have "take h stack' = take (stack_height log0 ?gs) stack' @
      take (h - stack_height log0 ?gs) (drop (stack_height log0 ?gs) stack')"
    by (subst hd) (rule take_add)
  also have "take (h - stack_height log0 ?gs) (drop (stack_height log0 ?gs) stack') =
      drop (stack_height log0 ?gs) (take h stack1)"
    by (simp add: high drop_take)
  also have "\<dots> = [EPc (c_pc (fst u)), ECptr (c_cptr (fst u)), ESp h] @ entries (snd u)"
    by (simp add: take1)
  finally have "take h stack' = layout log0 ls @ popped (stack_height log0 ls) (rev ((u # us) @ [f]))"
    using stack_height_append [of log0 "us @ [f]" ls "stack_height log0 ls"] h
      popped_snoc [of "stack_height log0 ls" "f # rev us" u]
    by (simp add: low del: popped.simps)
  moreover have "drop h stack' = drop h stack"
  proof -
    have "drop h stack' = drop (h - stack_height log0 ?gs) (drop (stack_height log0 ?gs) stack')"
      using h by (simp add: ac_simps)
    also have "\<dots> = drop h stack1"
      using h by (simp add: high ac_simps)
    finally show ?thesis using h by (simp add: stack1_def)
  qed
  ultimately show ?case using unf by blast
qed

text \<open>Moving the undo entries together.\<close>

lemma move_elems_spec:
  assumes "dst \<le> sp1" and "sp1 \<le> e" and "e \<le> length stack"
  shows "\<exists>stack'. move_elems stack dst sp1 e = (stack', dst + (e - sp1), e) \<and>
    take (dst + (e - sp1)) stack' = take dst stack @ take (e - sp1) (drop sp1 stack) \<and>
    drop e stack' = drop e stack"
  using assms
proof (induction "e - sp1" arbitrary: stack dst sp1)
  case 0
  then show ?case by (subst move_elems.simps) simp
next
  case (Suc n)
  let ?stack = "stack[dst := stack ! sp1]"
  have lt: "sp1 < e" and n: "n = e - (sp1 + 1)" using Suc.hyps(2) by auto
  have "dst + 1 \<le> sp1 + 1" "sp1 + 1 \<le> e" "e \<le> length ?stack"
    using Suc.prems lt by auto
  from Suc.hyps(1) [OF n this] obtain stack' where
    mv: "move_elems ?stack (dst + 1) (sp1 + 1) e = (stack', dst + 1 + (e - (sp1 + 1)), e)"
    and tk: "take (dst + 1 + (e - (sp1 + 1))) stack' =
      take (dst + 1) ?stack @ take (e - (sp1 + 1)) (drop (sp1 + 1) ?stack)"
    and dr: "drop e stack' = drop e ?stack" by auto
  have "take (dst + 1) ?stack = take dst stack @ [stack ! sp1]"
    using Suc.prems lt by (simp add: take_Suc_conv_app_nth)
  moreover have "drop (sp1 + 1) ?stack = drop (sp1 + 1) stack" "drop e ?stack = drop e stack"
    using Suc.prems lt by simp_all
  moreover have "take (e - sp1) (drop sp1 stack) = stack ! sp1 # take (e - (sp1 + 1)) (drop (sp1 + 1) stack)"
    using Suc.prems lt by (metis Cons_nth_drop_Suc Suc_diff_Suc Suc_eq_plus1 order_less_le_trans take_Suc_Cons)
  moreover have "move_elems stack dst sp1 e = move_elems ?stack (dst + 1) (sp1 + 1) e"
    using lt by (subst move_elems.simps) simp
  moreover have eq: "dst + 1 + (e - (sp1 + 1)) = dst + (e - sp1)" using lt by simp
  ultimately show ?case using mv dr tk unfolding eq by (intro exI [of _ stack']) simp
qed

lemma move_elems_length: "length (fst (move_elems stack dst sp1 e)) = length stack"
  by (induction stack dst sp1 e rule: move_elems.induct) (subst move_elems.simps, simp)

lemma take_parts:
  assumes "take (length (a @ b)) xs = a @ b"
  shows "take (length a) xs = a" and "take (length b) (drop (length a) xs) = b"
proof -
  show "take (length a) xs = a" using assms by (rule take_prefix)
  have "drop (length a) (take (length (a @ b)) xs) = b" by (simp only: assms) simp
  then show "take (length b) (drop (length a) xs) = b" by (simp add: drop_take)
qed

lemma lookahead_keep_popped:
  assumes "take (length (popped sp1 gs)) (drop sp1 stack) = popped sp1 gs" and "dst \<le> sp1"
  shows "\<exists>stack'. lookahead_keep stack dst sp1 (sp1 + length (popped sp1 gs)) =
      Some (stack', dst + 2 * length (all_entries gs)) \<and>
    take (dst + 2 * length (all_entries gs)) stack' = take dst stack @ entries (all_entries gs) \<and>
    length stack' = length stack"
  using assms
proof (induction gs arbitrary: stack dst sp1)
  case Nil
  then show ?case by (subst lookahead_keep.simps) simp
next
  case (Cons g gs)
  define e where "e = sp1 + 3 + 2 * length (snd g)"
  let ?c = "[EPc (c_pc (fst g)), ECptr (c_cptr (fst g))]"
  have pop: "popped sp1 (g # gs) = ?c @ ESp e # entries (snd g) @ popped e gs"
    by (simp add: e_def)
  have parts: "take (length (popped sp1 (g # gs))) (drop sp1 stack) = ?c @ ESp e # entries (snd g) @ popped e gs"
    using Cons.prems(1) by (simp only: pop)
  have "rd (drop sp1 stack) 2 = Some (ESp e)"
    using rd_at [OF parts] by (simp add: eval_nat_numeral)
  then have rd: "rd stack (sp1 + 2) = Some (ESp e)"
    by (auto simp: rd_def split: if_splits)
  have len: "sp1 + length (popped sp1 (g # gs)) \<le> length stack"
    using arg_cong [OF Cons.prems(1), of length] by simp
  have e: "sp1 + 3 \<le> e" "e \<le> length stack"
    using len by (simp_all add: e_def)
  have "take (length ((?c @ [ESp e]) @ entries (snd g) @ popped e gs)) (drop sp1 stack) =
      (?c @ [ESp e]) @ entries (snd g) @ popped e gs"
    using parts unfolding pop by simp
  from take_parts(2) [OF this]
  have tail: "take (length (entries (snd g) @ popped e gs)) (drop (sp1 + 3) stack) =
      entries (snd g) @ popped e gs"
    by (simp add: add.commute eval_nat_numeral)
  have seg: "take (e - (sp1 + 3)) (drop (sp1 + 3) stack) = entries (snd g)"
    using take_parts(1) [OF tail] by (simp add: e_def)
  have rest: "take (length (popped e gs)) (drop e stack) = popped e gs"
    using take_parts(2) [OF tail] by (simp add: e_def ac_simps)
  from move_elems_spec [of dst "sp1 + 3" e stack] e Cons.prems(2) obtain stack1 where
    mv: "move_elems stack dst (sp1 + 3) e = (stack1, dst + 2 * length (snd g), e)"
    and tk: "take (dst + 2 * length (snd g)) stack1 = take dst stack @ entries (snd g)"
    and dr: "drop e stack1 = drop e stack"
    using seg by (auto simp: e_def)
  have len1: "length stack1 = length stack"
    using move_elems_length [of stack dst "sp1 + 3" e] mv by simp
  have "take (length (popped e gs)) (drop e stack1) = popped e gs" using rest dr by simp
  moreover have "dst + 2 * length (snd g) \<le> e" using Cons.prems(2) by (simp add: e_def)
  ultimately obtain stack' where
    kp: "lookahead_keep stack1 (dst + 2 * length (snd g)) e (e + length (popped e gs)) =
      Some (stack', dst + 2 * length (snd g) + 2 * length (all_entries gs))"
    and tk': "take (dst + 2 * length (snd g) + 2 * length (all_entries gs)) stack' =
      take (dst + 2 * length (snd g)) stack1 @ entries (all_entries gs)"
    and len': "length stack' = length stack1"
    using Cons.IH by blast
  have top: "sp1 + length (popped sp1 (g # gs)) = e + length (popped e gs)"
    by (simp add: pop e_def)
  have "lookahead_keep stack dst sp1 (e + length (popped e gs)) =
      lookahead_keep stack1 (dst + 2 * length (snd g)) e (e + length (popped e gs))"
    using rd e mv by (subst lookahead_keep.simps) simp
  with kp tk' tk len' len1 show ?case
    unfolding top by (auto simp: entries_append algebra_simps)
qed

text \<open>The captures stay; the log of the segment below grows by the entries moved to it.\<close>

lemma undo_all_entries:
  "consistent caps (us @ f # ls) \<Longrightarrow>
   c_captures (fst f) = undo (all_entries (rev (us @ [f]))) caps \<and>
   consistent (c_captures (fst f)) ls"
proof (induction us arbitrary: caps)
  case Nil
  then show ?case by auto
next
  case (Cons u us)
  then show ?case by (auto simp: all_entries_def undo_append)
qed

lemma log_ok_all_entries: "\<forall>g \<in> set gs. log_ok n (snd g) \<Longrightarrow> log_ok n (all_entries gs)"
  by (induction gs) auto

lemma consistent_extend:
  "consistent (undo l caps) gs \<Longrightarrow> consistent caps (put_log (last_log log0 gs @ l) gs)"
  by (cases gs) (auto simp: undo_append)

lemma spec_lookahead_none:
  "\<forall>c \<in> set cs. kind c \<noteq> RE_EXEC_STATE_LOOKAHEAD \<Longrightarrow> spec_lookahead caps cs = Inr Fault"
  by (induction cs) auto

lemma spec_lookahead_found:
  "\<forall>c \<in> set us. kind c \<noteq> RE_EXEC_STATE_LOOKAHEAD \<Longrightarrow> kind f = RE_EXEC_STATE_LOOKAHEAD \<Longrightarrow>
   spec_lookahead caps (us @ f # ls) =
     Inl \<lparr>s_pc = c_pc f, s_cptr = c_cptr f, s_captures = caps, s_choices = ls\<rparr>"
  by (induction us) auto

lemma lookahead_pop_none:
  assumes "take h stack = layout log0 gs" and "h \<le> length stack"
    and "\<forall>g \<in> set gs. kind (fst g) \<noteq> RE_EXEC_STATE_LOOKAHEAD"
  shows "lookahead_pop stack h (base log0 gs) = None"
  using assms
proof (induction gs arbitrary: h stack)
  case Nil
  then show ?case by (subst lookahead_pop.simps) (simp add: read_state_def)
next
  case (Cons g gs)
  have tk: "take h stack = layout log0 gs @ choice_elems (fst g) (base log0 gs) @ entries (snd g)"
    using Cons.prems(1) by simp
  have h: "h = stack_height log0 gs + 3 + 2 * length (snd g)"
    using arg_cong [OF tk, of length] Cons.prems(2) by simp
  have "take (stack_height log0 gs) (stack[stack_height log0 gs + 2 := ESp h]) = layout log0 gs"
    using take_prefix [OF tk] by simp
  with Cons.IH [of "stack_height log0 gs" "stack[stack_height log0 gs + 2 := ESp h]"]
    read_state_layout [OF tk] Cons.prems h base_le_height [of log0 gs]
  show ?case
    by (subst lookahead_pop.simps) (simp add: eval_nat_numeral)
qed

lemma lookahead_pop_length:
  "lookahead_pop stack h b = Some (stack', r) \<Longrightarrow> length stack' = length stack"
proof (induction b arbitrary: stack h rule: less_induct)
  case (less b)
  from less.prems show ?case
    by (subst (asm) lookahead_pop.simps)
      (auto simp: Let_def split: option.splits if_splits dest!: less.IH)
qed

lemma sim_lookahead:
  assumes "refines s t"
  shows "sim alloc (lookahead_match s) (spec_lookahead (s_captures t) (s_choices t))"
proof -
  obtain log0 gs where rep: "represents log0 gs s" and ch: "s_choices t = map fst gs"
    and caps: "s_captures t = capture s"
    using assms by (auto simp: refines_def)
  have tk: "take (sp s) (stack_buf s) = layout log0 gs" and len: "sp s \<le> length (stack_buf s)"
    and bp: "bp s = base log0 gs" and con: "consistent (capture s) gs"
    and ok: "\<forall>g \<in> set gs. log_ok (length (capture s)) (snd g)" "log_ok (length (capture s)) log0"
    using rep by (auto simp: represents_def)
  have sp: "sp s = stack_height log0 gs"
    using arg_cong [OF tk, of length] len by simp
  show ?thesis
  proof (cases "\<forall>g \<in> set gs. kind (fst g) \<noteq> RE_EXEC_STATE_LOOKAHEAD")
    case True
    with lookahead_pop_none [OF tk len] spec_lookahead_none [of "map fst gs"] show ?thesis
      by (simp add: lookahead_match_def ch bp)
  next
    case False
    then obtain us f ls where gs: "gs = us @ f # ls"
      and us: "\<forall>u \<in> set us. kind (fst u) \<noteq> RE_EXEC_STATE_LOOKAHEAD"
      and f: "kind (fst f) = RE_EXEC_STATE_LOOKAHEAD"
      using split_list_first_prop [of gs "\<lambda>g. kind (fst g) = RE_EXEC_STATE_LOOKAHEAD"] by auto
    let ?m = "stack_height log0 ls" and ?l = "all_entries (rev (us @ [f]))"
    from lookahead_pop_layout [OF tk [unfolded gs] len us f] obtain stack1 where
      pop: "lookahead_pop (stack_buf s) (sp s) (bp s) =
        Some (stack1, ?m, base log0 ls, c_pc (fst f), c_cptr (fst f))"
      and tk1: "take (sp s) stack1 = layout log0 ls @ popped ?m (rev (us @ [f]))"
      and dr1: "drop (sp s) stack1 = drop (sp s) (stack_buf s)"
      unfolding bp gs by blast
    have height: "sp s = ?m + length (popped ?m (rev (us @ [f])))"
      using stack_height_append [of log0 "us @ [f]" ls ?m] by (simp add: sp gs)
    have under: "take ?m stack1 = layout log0 ls"
      using take_prefix [OF tk1] by simp
    have keepable: "take (length (popped ?m (rev (us @ [f])))) (drop ?m stack1) = popped ?m (rev (us @ [f]))"
      using take_parts(2) [of "layout log0 ls" "popped ?m (rev (us @ [f]))" stack1] tk1 height
      by (simp del: popped.simps)
    from lookahead_keep_popped [OF keepable, of ?m] obtain stack2 where
      keep: "lookahead_keep stack1 ?m ?m (sp s) = Some (stack2, ?m + 2 * length ?l)"
      and tk2: "take (?m + 2 * length ?l) stack2 = layout log0 ls @ entries ?l"
      and len2: "length stack2 = length stack1"
      using height under by auto
    have "c_captures (fst f) = undo ?l (capture s) \<and> consistent (c_captures (fst f)) ls"
      using undo_all_entries [OF con [unfolded gs]] .
    then have low: "consistent (undo ?l (capture s)) ls" by metis
    have okl: "log_ok (length (capture s)) ?l"
      using ok(1) by (intro log_ok_all_entries) (simp add: gs)
    let ?stack = "if ?m \<noteq> 0 then stack2 else stack1" and ?sp = "if ?m \<noteq> 0 then ?m + 2 * length ?l else ?m"
    let ?s = "s\<lparr>pc := c_pc (fst f), cptr := c_cptr (fst f), stack_buf := ?stack, sp := ?sp, bp := base log0 ls\<rparr>"
    have run: "lookahead_match s = Inl ?s"
      using pop keep by (simp add: lookahead_match_def)
    have len1: "length stack1 = length (stack_buf s)"
      using lookahead_pop_length [OF pop] .
    have "refines ?s (\<lparr>s_pc = c_pc (fst f), s_cptr = c_cptr (fst f), s_captures = s_captures t, s_choices = map fst ls\<rparr>)"
    proof (cases "?m = 0")
      case True
      then have "ls = []" by (cases ls) auto
      with True under len1 len ok(2) show ?thesis
        by (auto simp: refines_def represents_def caps intro!: exI [of _ "[]"])
    next
      case False
      have "represents (put_log0 (last_log log0 ls @ ?l) log0 ls) (put_log (last_log log0 ls @ ?l) ls) ?s"
      proof -
        have "?m + 2 * length ?l \<le> length stack2"
          using arg_cong [OF tk2, of length] by simp
        moreover have "take (?m + 2 * length ?l) stack2 = under_log log0 ls @ entries (last_log log0 ls @ ?l)"
          using tk2 by (simp add: layout_below entries_append)
        moreover have "log_ok (length (capture s)) (put_log0 (last_log log0 ls @ ?l) log0 ls)"
          "\<forall>g \<in> set (put_log (last_log log0 ls @ ?l) ls). log_ok (length (capture s)) (snd g)"
          using ok okl by (cases ls; auto simp: gs)+
        ultimately show ?thesis
          using False consistent_extend [OF low]
          by (simp add: represents_def layout_put_log base_put_log)
      qed
      then show ?thesis
        by (rule refinesI) (simp_all add: fst_put_log caps)
    qed
    then show ?thesis
      using run spec_lookahead_found [of "map fst us" "fst f" "capture s" "map fst ls"] us f
      by (auto simp: ch caps gs)
  qed
qed

section \<open>The loop\<close>

lemma sim_ctrl:
  assumes "refines s t"
  shows "sim alloc (run_ctrl c s) (spec_ctrl c t)"
proof -
  obtain log0 gs where rep: "represents log0 gs s" and ch: "s_choices t = map fst gs"
    and eqs: "s_captures t = capture s"
    using assms by (auto simp: refines_def)
  have go: "refines (s\<lparr>pc := p, cptr := q\<rparr>) (t\<lparr>s_pc := p, s_cptr := q\<rparr>)" for p q
    using assms by (auto simp: refines_def represents_def)
  show ?thesis
  proof (cases c)
    case No_match
    then show ?thesis using sim_fail_match [OF rep] by (simp add: ch eqs)
  next
    case Lookahead_matched
    then show ?thesis using sim_lookahead [OF assms] by simp
  next
    case Negative_lookahead_matched
    then show ?thesis using sim_negative [OF rep] by (simp add: ch)
  qed (use go sim_poll [OF go] eqs in auto)
qed

lemma sim_step:
  assumes "refines s t"
  shows "sim alloc (exec_step alloc bc ctx s) (spec_step bc ctx t)"
proof -
  have eqs: "s_pc t = pc s" "s_cptr t = cptr s" "s_captures t = capture s"
    using assms by (auto simp: refines_def)
  have "sim alloc (and_then (run_micros alloc ms s) (run_ctrl c))
      (case spec_micros ms t of Inl t' \<Rightarrow> spec_ctrl c t' | Inr e \<Rightarrow> Inr e)" for ms c
    by (intro sim_and_then [OF sim_micros [OF assms]] sim_ctrl)
  then show ?thesis
    by (auto simp: exec_step_def spec_step_def eqs Let_def split: option.splits prod.splits)
qed

text \<open>The two machines run in lock step.\<close>

interpretation run: lockstep refines "(=)" "gives_up alloc" "exec_step alloc bc ctx" "spec_step bc ctx"
  for alloc bc ctx
  by unfold_locales (use sim_step in \<open>auto simp: sim_def\<close>)

lemma refines_init: "refines (exec_init p q caps) (spec_init p q caps)"
  by (auto simp: refines_def represents_def exec_init_def spec_init_def intro!: exI [of _ "[]"])

text \<open>
  C1. The backtracking matcher implements the machine with copied captures: on any byte code,
  subject and captures, with any allocator, it returns the same result with the same captures
  whenever the specification returns, or it gives up with the memory error after the allocator
  has failed; and it returns nothing else. In particular the shared undo stack never restores a
  wrong capture and the matcher is never stuck where the specification is not.
\<close>

theorem lre_exec_backtrack_refines:
  "(\<forall>r. lre_exec_backtrack alloc bc ctx (exec_init p q caps) = Some r \<longrightarrow>
      gives_up alloc r \<or> spec_run bc ctx (spec_init p q caps) = Some r) \<and>
   (\<forall>r. spec_run bc ctx (spec_init p q caps) = Some r \<longrightarrow>
      (\<exists>r'. lre_exec_backtrack alloc bc ctx (exec_init p q caps) = Some r' \<and>
        (gives_up alloc r' \<or> r' = r)))"
  unfolding lre_exec_backtrack_def spec_run_def
  using run.loop_sound [OF refines_init] run.loop_complete [OF refines_init] by blast

text \<open>
  C7. When every allocation succeeds the matcher and its specification agree completely: the
  same result and captures, and the one runs forever exactly when the other does.
\<close>

theorem lre_exec_backtrack_eq_spec:
  "lre_exec_backtrack (\<lambda>_ _. True) bc ctx (exec_init p q caps) = spec_run bc ctx (spec_init p q caps)"
proof (cases "spec_run bc ctx (spec_init p q caps)")
  case (Some r)
  then obtain r' where "lre_exec_backtrack (\<lambda>_ _. True) bc ctx (exec_init p q caps) = Some r'"
    and "gives_up (\<lambda>_ _. True) r' \<or> r' = r"
    unfolding lre_exec_backtrack_def spec_run_def using run.loop_complete [OF refines_init] by blast
  with Some show ?thesis by (simp add: gives_up_def)
next
  case None
  then have "lre_exec_backtrack (\<lambda>_ _. True) bc ctx (exec_init p q caps) \<noteq> Some r" for r
    unfolding lre_exec_backtrack_def spec_run_def
    using run.loop_sound [OF refines_init, of "\<lambda>_ _. True" bc ctx p q caps r] by (auto simp: gives_up_def)
  with None show ?thesis by auto
qed

text \<open>
  A run of \<^verbatim>\<open>match\<close> alone, and one of \<^verbatim>\<open>a|b\<close> on a \<open>b\<close>, where the second alternative
  restores the capture that the first attempt wrote.
\<close>

definition subject_ctx :: "units \<Rightarrow> re_exec_context" where
  "subject_ctx u = \<lparr>cbuf = u, cbuf_end = length u, cbuf_type = 0, capture_count = 1, is_unicode = False\<rparr>"

theorem lre_exec_backtrack_refines_witness:
  "\<exists>r. lre_exec_backtrack (\<lambda>_ _. False) [14, 6, 0, 0, 0, 19, 0, 1, 0x61, 0, 16, 20, 0, 16]
     (subject_ctx [0x62]) (exec_init 0 0 [SNull, SNull]) = Some r \<and>
   (gives_up (\<lambda>_ _. False) r \<or> r = Ret 1 [SNull, SPtr 0])"
proof -
  have "spec_run [14, 6, 0, 0, 0, 19, 0, 1, 0x61, 0, 16, 20, 0, 16] (subject_ctx [0x62])
      (spec_init 0 0 [SNull, SNull]) = Some (Ret 1 [SNull, SPtr 0])"
    by code_simp
  with lre_exec_backtrack_refines [THEN conjunct2, rule_format] show ?thesis
    by blast
qed

end
