(* ===== verification/MatchBounds.thy ===== *)
theory MatchBounds
  imports Refine
begin

text \<open>
  Safety of the results of \<^verbatim>\<open>lre_exec\<close>: whatever the byte code is, the positions in the captures
  point into the subject. The invariant is proved for the specification and reaches the code's
  machine through the refinement.
\<close>

fun slot_in :: "nat \<Rightarrow> slot \<Rightarrow> bool" where
  "slot_in n (SPtr p) \<longleftrightarrow> p \<le> n"
| "slot_in n _ \<longleftrightarrow> True"

definition slots_in :: "nat \<Rightarrow> slot list \<Rightarrow> bool" where
  "slots_in n caps \<longleftrightarrow> (\<forall>v \<in> set caps. slot_in n v)"

fun micro_in :: "nat \<Rightarrow> micro \<Rightarrow> bool" where
  "micro_in n (Check_stack_space k) \<longleftrightarrow> True"
| "micro_in n (Save_capture idx v) \<longleftrightarrow> slot_in n v"
| "micro_in n (Save_capture_check idx v) \<longleftrightarrow> slot_in n v"
| "micro_in n (Push_state pc1 cptr1 type) \<longleftrightarrow> cptr1 \<le> n"

fun ctrl_in :: "nat \<Rightarrow> ctrl \<Rightarrow> bool" where
  "ctrl_in n (Go pc' cptr') \<longleftrightarrow> cptr' \<le> n"
| "ctrl_in n (Poll pc' cptr') \<longleftrightarrow> cptr' \<le> n"
| "ctrl_in n _ \<longleftrightarrow> True"

section \<open>Instructions stay inside the subject\<close>

lemma next_char_in: "next_char ctx q = Some (c, q') \<Longrightarrow> q < cbuf_end ctx \<Longrightarrow> q' \<le> cbuf_end ctx"
  by (auto simp: next_char_def dest: get_char_progress)

lemma exec_char_in: "ctrl_in (cbuf_end ctx) (exec_char ctx bc op p q)"
  by (auto simp: exec_char_def Let_def not_le intro: next_char_in split: option.splits)

lemma exec_class_in:
  assumes "q \<le> cbuf_end ctx"
  shows "ctrl_in (cbuf_end ctx) (exec_dot ctx p q)" "ctrl_in (cbuf_end ctx) (exec_any ctx p q)"
    "ctrl_in (cbuf_end ctx) (exec_space ctx p q)" "ctrl_in (cbuf_end ctx) (exec_not_space ctx p q)"
  using assms by (auto simp: exec_class_defs intro: next_char_in split: option.splits)

lemma back_ref_forward_in:
  "q \<le> cbuf_end ctx \<Longrightarrow> ctrl_in (cbuf_end ctx) (back_ref_forward ctx icase p q1 e1 q)"
proof (induction ctx icase p q1 e1 q rule: back_ref_forward.induct)
  case (1 ctx icase p q1 e1 q)
  show ?case
    by (subst back_ref_forward.simps)
      (auto simp: 1(2) not_le intro!: 1(1) next_char_in split: option.splits)
qed

lemma prev_char_in: "get_prev_char b s t q = Some (c, q') \<Longrightarrow> q \<le> n \<Longrightarrow> q' \<le> n"
  using get_prev_char_progress by fastforce

lemma back_ref_backward_in:
  "q \<le> cbuf_end ctx \<Longrightarrow> ctrl_in (cbuf_end ctx) (back_ref_backward ctx icase p q1 e1 q)"
proof (induction ctx icase p q1 e1 q rule: back_ref_backward.induct)
  case (1 ctx icase p q1 e1 q)
  show ?case
    using 1(2)
    by (subst back_ref_backward.simps)
      (auto intro!: 1(1) intro: prev_char_in split: option.splits)
qed

lemma back_ref_groups_in:
  "q \<le> cbuf_end ctx \<Longrightarrow> ctrl_in (cbuf_end ctx) (back_ref_groups ctx bc op p1 n p q caps)"
  by (induction ctx bc op p1 n p q caps rule: back_ref_groups.induct)
    (auto simp: back_ref_forward_in back_ref_backward_in split: option.splits slot.splits)

lemma exec_range_in: "ctrl_in (cbuf_end ctx) (exec_range ctx bc op p q)"
  by (auto simp: exec_range_def search_ctrl_def Let_def not_le intro: next_char_in
      split: option.splits search_result.splits)

lemma exec_range32_in: "ctrl_in (cbuf_end ctx) (exec_range32 ctx bc op p q)"
  by (auto simp: exec_range32_def search_ctrl_def Let_def not_le intro: next_char_in
      split: option.splits search_result.splits)

lemma exec_prev_in: "q \<le> cbuf_end ctx \<Longrightarrow> ctrl_in (cbuf_end ctx) (exec_prev ctx p q)"
  by (auto simp: exec_prev_def prev_char_def Let_def split: option.splits if_splits)

lemma instr_in:
  assumes "q \<le> cbuf_end ctx"
  shows "list_all (micro_in (cbuf_end ctx)) (fst (instr ctx bc op p q caps)) \<and>
    ctrl_in (cbuf_end ctx) (snd (instr ctx bc op p q caps))"
  using assms
  by (cases op)
    (auto simp: instr_def exec_char_in exec_class_in exec_range_in exec_range32_in exec_prev_in
      back_ref_groups_in exec_back_reference_def exec_line_start_def exec_line_end_def
      exec_word_boundary_def exec_split_def exec_lookahead_def exec_goto_def exec_save_def
      exec_save_reset_def exec_set_i32_def exec_loop_def exec_loop_split_def exec_set_char_pos_def
      exec_check_advance_def list_all_iff Let_def split: option.splits)

section \<open>The invariant\<close>

definition choices_in :: "nat \<Rightarrow> choice list \<Rightarrow> bool" where
  "choices_in n cs \<longleftrightarrow> (\<forall>c \<in> set cs. c_cptr c \<le> n \<and> slots_in n (c_captures c))"

definition state_in :: "nat \<Rightarrow> nat \<Rightarrow> spec_state \<Rightarrow> bool" where
  "state_in n k t \<longleftrightarrow> s_cptr t \<le> n \<and> slots_in n (s_captures t) \<and> length (s_captures t) = k \<and>
     choices_in n (s_choices t) \<and> (\<forall>c \<in> set (s_choices t). length (c_captures c) = k)"

definition result_in :: "nat \<Rightarrow> nat \<Rightarrow> outcome \<Rightarrow> bool" where
  "result_in n k r \<longleftrightarrow> (case r of Ret v caps \<Rightarrow> slots_in n caps \<and> length caps = k \<and> v \<in> {0, 1} | Fault \<Rightarrow> True)"

definition step_in :: "nat \<Rightarrow> nat \<Rightarrow> spec_result \<Rightarrow> bool" where
  "step_in n k u \<longleftrightarrow> (case u of Inl t \<Rightarrow> state_in n k t | Inr r \<Rightarrow> result_in n k r)"

lemma step_in_bind:
  "step_in n k u \<Longrightarrow> (\<And>t. state_in n k t \<Longrightarrow> step_in n k (g t)) \<Longrightarrow>
   step_in n k (case u of Inl t \<Rightarrow> g t | Inr e \<Rightarrow> Inr e)"
  by (cases u) (simp_all add: step_in_def)

lemma slots_in_update: "slots_in n caps \<Longrightarrow> slot_in n v \<Longrightarrow> slots_in n (caps[i := v])"
  using set_update_subset_insert [of caps i v] by (auto simp: slots_in_def)

lemma spec_micro_in: "state_in n k t \<Longrightarrow> micro_in n m \<Longrightarrow> step_in n k (spec_micro m t)"
  by (cases m) (auto simp: step_in_def state_in_def result_in_def choices_in_def slots_in_update)

lemma spec_micros_in:
  "state_in n k t \<Longrightarrow> list_all (micro_in n) ms \<Longrightarrow> step_in n k (spec_micros ms t)"
proof (induction ms arbitrary: t)
  case Nil
  then show ?case by (simp add: step_in_def)
next
  case (Cons m ms)
  then have "step_in n k (spec_micro m t)" by (auto intro: spec_micro_in)
  then show ?case using Cons by (auto intro!: step_in_bind)
qed

lemma spec_fail_in:
  "slots_in n caps \<Longrightarrow> length caps = k \<Longrightarrow> choices_in n cs \<Longrightarrow> \<forall>c \<in> set cs. length (c_captures c) = k \<Longrightarrow>
   step_in n k (spec_fail caps cs)"
  by (induction cs arbitrary: caps) (auto simp: step_in_def state_in_def result_in_def choices_in_def)

lemma spec_lookahead_in:
  "slots_in n caps \<Longrightarrow> length caps = k \<Longrightarrow> choices_in n cs \<Longrightarrow> \<forall>c \<in> set cs. length (c_captures c) = k \<Longrightarrow>
   step_in n k (spec_lookahead caps cs)"
  by (induction cs) (auto simp: step_in_def state_in_def result_in_def choices_in_def)

lemma spec_negative_in:
  "choices_in n cs \<Longrightarrow> \<forall>c \<in> set cs. length (c_captures c) = k \<Longrightarrow> step_in n k (spec_negative cs)"
proof (induction cs)
  case Nil
  then show ?case by (simp add: step_in_def result_in_def)
next
  case (Cons c cs)
  then have "choices_in n cs" "slots_in n (c_captures c)" by (auto simp: choices_in_def)
  with Cons show ?case by (auto intro!: spec_fail_in)
qed

lemma spec_ctrl_in: "state_in n k t \<Longrightarrow> ctrl_in n c \<Longrightarrow> step_in n k (spec_ctrl c t)"
  by (cases c) (auto simp: state_in_def intro!: spec_fail_in spec_lookahead_in spec_negative_in,
      auto simp: step_in_def state_in_def result_in_def)

lemma spec_step_in:
  assumes "state_in (cbuf_end ctx) k t"
  shows "step_in (cbuf_end ctx) k (spec_step bc ctx t)"
proof -
  have q: "s_cptr t \<le> cbuf_end ctx" using assms by (simp add: state_in_def)
  have run: "step_in (cbuf_end ctx) k
      (case spec_micros ms t of Inl t' \<Rightarrow> spec_ctrl c t' | Inr e \<Rightarrow> Inr e)"
    if "list_all (micro_in (cbuf_end ctx)) ms" and "ctrl_in (cbuf_end ctx) c" for ms c
    using that by (intro step_in_bind spec_micros_in [OF assms] spec_ctrl_in)
  have "step_in (cbuf_end ctx) k (let (ms, c) = instr ctx bc op (s_pc t + 1) (s_cptr t) (s_captures t)
      in case spec_micros ms t of Inl t' \<Rightarrow> spec_ctrl c t' | Inr e \<Rightarrow> Inr e)" for op
    using run instr_in [OF q, of bc op "s_pc t + 1" "s_captures t"] by (simp add: case_prod_beta)
  then show ?thesis
    by (auto simp: spec_step_def step_in_def [of _ _ "Inr Fault"] result_in_def split: option.splits)
qed

interpretation bounds: loop_invariant "state_in (cbuf_end ctx) k" "result_in (cbuf_end ctx) k" "spec_step bc ctx"
  for ctx k bc
  by unfold_locales (metis spec_step_in step_in_def sum.case(1), metis spec_step_in step_in_def sum.case(2))

lemma backtrack_in_bounds:
  assumes run: "lre_exec_backtrack alloc bc ctx (exec_init p q caps) = Some (Ret v caps')"
    and "\<not> gives_up alloc (Ret v caps')"
    and "q \<le> cbuf_end ctx" and "slots_in (cbuf_end ctx) caps"
  shows "v \<in> {0, 1} \<and> length caps' = length caps \<and> slots_in (cbuf_end ctx) caps'"
proof -
  have init: "state_in (cbuf_end ctx) (length caps) (spec_init p q caps)"
    using assms(3,4) by (simp add: state_in_def spec_init_def choices_in_def)
  have "gives_up alloc (Ret v caps') \<or>
      (\<exists>r. loop (spec_step bc ctx) (spec_init p q caps) = Some r \<and> Ret v caps' = r)"
    using run.loop_sound [OF refines_init] run unfolding lre_exec_backtrack_def by blast
  with assms(2) have "loop (spec_step bc ctx) (spec_init p q caps) = Some (Ret v caps')"
    by auto
  from bounds.loop_result [OF init this] show ?thesis
    by (simp add: result_in_def)
qed

lemma slots_in_iff: "slots_in n caps \<longleftrightarrow> (\<forall>i. SPtr i \<in> set caps \<longrightarrow> i \<le> n)"
proof -
  have "slot_in n v \<longleftrightarrow> (\<forall>i. v = SPtr i \<longrightarrow> i \<le> n)" for v by (cases v) auto
  then show ?thesis by (auto simp: slots_in_def)
qed

lemma lre_exec_bounds:
  assumes "lre_exec alloc capture0 bc_buf units cindex clen type = Some (Ret v caps)"
    and "\<not> gives_up alloc (Ret v caps)" and "cindex \<le> clen" and e: "buf_offset type clen = Some e" "slots_in e capture0"
  shows "v \<in> {0, 1} \<and> length caps = length capture0 \<and> slots_in e caps"
proof -
  from assms(1) e(1) obtain ctx count p q where
    run: "lre_exec_backtrack alloc bc_buf ctx
      (exec_init (int RE_HEADER_LEN) q (replicate (count * 2) SNull @ drop (count * 2) capture0)) = Some (Ret v caps)"
    and ctx: "cbuf_end ctx = e" and p: "buf_offset type cindex = Some p" and q: "q = p \<or> q = p - 1"
    and len: "count * 2 \<le> length capture0"
    by (auto simp: lre_exec_def Let_def not_less split: option.splits if_splits)
  have "p \<le> e" by (rule buf_offset_mono [OF p e(1) assms(3)])
  moreover have "slots_in e (replicate (count * 2) SNull @ drop (count * 2) capture0)"
    using e(2) by (auto simp: slots_in_iff dest: in_set_dropD)
  ultimately show ?thesis using backtrack_in_bounds [OF run assms(2)] ctx q len by auto
qed

text \<open>
  C8. A match attempt on any byte code returns 1 or 0 (unless it ran out of memory or the byte
  code is undefined), leaves the capture array at its length, and every position in it lies
  between the start and the end \<open>e\<close> of the subject, both included: the unit that the two \<^verbatim>\<open>int\<close>
  arguments \<open>clen\<close> and \<open>type\<close> give, which for type 2 is unit \<open>2 * clen\<close>.
\<close>

theorem lre_exec_in_bounds:
  assumes "lre_exec alloc capture0 bc_buf units cindex clen type = Some (Ret v caps)"
    and "\<not> gives_up alloc (Ret v caps)" and "cindex \<le> clen" and "buf_offset type clen = Some e"
    and "\<forall>i. SPtr i \<in> set capture0 \<longrightarrow> i \<le> e"
  shows "v \<in> {0, 1} \<and> length caps = length capture0 \<and> (\<forall>i. SPtr i \<in> set caps \<longrightarrow> i \<le> e)"
  using lre_exec_bounds [OF assms(1-4)] assms(5) by (simp add: slots_in_iff)

theorem lre_exec_in_bounds_witness:
  "\<exists>v a b. lre_exec (\<lambda>_ _. True) [SUninit, SUninit]
     ([0, 0, 1, 0, 19, 0, 0, 0] @ [14, 6, 0, 0, 0, 6, 13, 245, 255, 255, 255, 19, 0, 1, 0x61, 0, 20, 0, 16])
     [0x62, 0x61] 0 1 2 = Some (Ret v [SPtr a, SPtr b]) \<and> v \<in> {0, 1} \<and> a \<le> 2 \<and> b \<le> 2"
proof -
  have run: "lre_exec (\<lambda>_ _. True) [SUninit, SUninit]
     ([0, 0, 1, 0, 19, 0, 0, 0] @ [14, 6, 0, 0, 0, 6, 13, 245, 255, 255, 255, 19, 0, 1, 0x61, 0, 20, 0, 16])
     [0x62, 0x61] 0 1 2 = Some (Ret 1 [SPtr 1, SPtr 2])"
    by code_simp
  have "buf_offset 2 1 = Some 2" by (simp add: buf_offset_def)
  from lre_exec_in_bounds [OF run _ _ this] run show ?thesis
    by (auto simp: gives_up_def)
qed

end
