(* ===== verification/Utf8.thy ===== *)
theory Utf8
  imports Cutils
begin

text \<open>
  The UTF-8 codec of \<^verbatim>\<open>libregexp/cutils.c\<close>: the encoder writes up to 31 bits in one to six
  bytes, the decoder refuses stray and missing continuation bytes and overlong forms.

  The decoder reads a block \<open>mem\<close> at index \<open>pos\<close> and returns the C result with the updated
  pointer: \<open>(-1, pos)\<close> on an error, where the C function leaves \<^verbatim>\<open>*pp\<close> alone. \<open>None\<close> is a
  read outside the block.
\<close>

definition unicode_to_utf8 :: "u32 \<Rightarrow> u8 list" where
  "unicode_to_utf8 c =
     (if c < 0x80 then [ucast c]
      else if c < 0x800 then
        [ucast (drop_bit 6 c OR 0xc0), ucast ((c AND 0x3f) OR 0x80)]
      else if c < 0x10000 then
        [ucast (drop_bit 12 c OR 0xe0), ucast ((drop_bit 6 c AND 0x3f) OR 0x80),
         ucast ((c AND 0x3f) OR 0x80)]
      else if c < 0x00200000 then
        [ucast (drop_bit 18 c OR 0xf0), ucast ((drop_bit 12 c AND 0x3f) OR 0x80),
         ucast ((drop_bit 6 c AND 0x3f) OR 0x80), ucast ((c AND 0x3f) OR 0x80)]
      else if c < 0x04000000 then
        [ucast (drop_bit 24 c OR 0xf8), ucast ((drop_bit 18 c AND 0x3f) OR 0x80),
         ucast ((drop_bit 12 c AND 0x3f) OR 0x80), ucast ((drop_bit 6 c AND 0x3f) OR 0x80),
         ucast ((c AND 0x3f) OR 0x80)]
      else if c < 0x80000000 then
        [ucast (drop_bit 30 c OR 0xfc), ucast ((drop_bit 24 c AND 0x3f) OR 0x80),
         ucast ((drop_bit 18 c AND 0x3f) OR 0x80), ucast ((drop_bit 12 c AND 0x3f) OR 0x80),
         ucast ((drop_bit 6 c AND 0x3f) OR 0x80), ucast ((c AND 0x3f) OR 0x80)]
      else [])"

definition utf8_min_code :: "u32 list" where
  "utf8_min_code = [0x80, 0x800, 0x10000, 0x00200000, 0x04000000]"

definition utf8_first_code_mask :: "u32 list" where
  "utf8_first_code_mask = [0x1f, 0xf, 0x7, 0x3, 0x1]"

text \<open>The number of continuation bytes that the first byte announces (the \<^verbatim>\<open>switch\<close>).\<close>

definition utf8_cont_len :: "u32 \<Rightarrow> nat option" where
  "utf8_cont_len c =
     (if 0xc0 \<le> c \<and> c \<le> 0xdf then Some 1
      else if 0xe0 \<le> c \<and> c \<le> 0xef then Some 2
      else if 0xf0 \<le> c \<and> c \<le> 0xf7 then Some 3
      else if 0xf8 \<le> c \<and> c \<le> 0xfb then Some 4
      else if c = 0xfc \<or> c = 0xfd then Some 5
      else None)"

text \<open>The loop over the continuation bytes; \<open>Some None\<close> is its \<^verbatim>\<open>return -1\<close>.\<close>

fun utf8_cont :: "u8 list \<Rightarrow> nat \<Rightarrow> nat \<Rightarrow> u32 \<Rightarrow> u32 option option" where
  "utf8_cont mem pos 0 c = Some (Some c)"
| "utf8_cont mem pos (Suc l) c =
     (case rd mem pos of
        None \<Rightarrow> None
      | Some b \<Rightarrow>
          if b < 0x80 \<or> b \<ge> 0xc0 then Some None
          else utf8_cont mem (pos + 1) l (push_bit 6 c OR (ucast b AND 0x3f)))"

definition unicode_from_utf8 :: "u8 list \<Rightarrow> nat \<Rightarrow> nat \<Rightarrow> (u32 \<times> nat) option" where
  "unicode_from_utf8 mem pos max_len =
     (case get_u8 mem pos of
        None \<Rightarrow> None
      | Some c \<Rightarrow>
          if c < 0x80 then Some (c, pos + 1)
          else (case utf8_cont_len c of
              None \<Rightarrow> Some (- 1, pos)
            | Some l \<Rightarrow>
                if int l > int max_len - 1 then Some (- 1, pos)
                else (case utf8_cont mem (pos + 1) l (c AND utf8_first_code_mask ! (l - 1)) of
                    None \<Rightarrow> None
                  | Some None \<Rightarrow> Some (- 1, pos)
                  | Some (Some c) \<Rightarrow>
                      if c < utf8_min_code ! (l - 1) then Some (- 1, pos)
                      else Some (c, pos + 1 + l))))"

definition UTF8_CHAR_LEN_MAX :: nat where
  "UTF8_CHAR_LEN_MAX = 6"

section \<open>The bytes of an encoded character\<close>

primrec cont_bytes :: "nat \<Rightarrow> u32 \<Rightarrow> u8 list" where
  "cont_bytes 0 c = []"
| "cont_bytes (Suc k) c = ucast ((drop_bit (6 * k) c AND 0x3f) OR 0x80) # cont_bytes k c"

lemma length_cont_bytes [simp]: "length (cont_bytes k c) = k"
  by (induction k) simp_all

text \<open>The lead byte of each form: its tag and the bits below the tag.\<close>

definition lead_tag :: "nat \<Rightarrow> u32" where
  "lead_tag l = [0xc0, 0xe0, 0xf0, 0xf8, 0xfc] ! (l - 1)"

lemma unicode_to_utf8_form:
  assumes "0x80 \<le> c" and "c < 0x80000000"
  obtains l where "l \<in> {1..5}"
    and "unicode_to_utf8 c = ucast (drop_bit (6 * l) c OR lead_tag l) # cont_bytes l c"
    and "utf8_min_code ! (l - 1) \<le> c" and "l = 5 \<or> c < utf8_min_code ! l"
proof -
  consider "c < 0x800" | "0x800 \<le> c" "c < 0x10000" | "0x10000 \<le> c" "c < 0x200000"
    | "0x200000 \<le> c" "c < 0x4000000" | "0x4000000 \<le> c"
    by (meson not_le)
  then show thesis
  proof cases
    case 1
    with assms show thesis
      by (intro that [of 1]) (simp_all add: unicode_to_utf8_def lead_tag_def utf8_min_code_def not_le)
  next
    case 2
    then have "\<not> c < 0x80" "\<not> c < 0x800" by (simp_all add: word_le_nat_alt word_less_nat_alt)
    with 2 show thesis
      by (intro that [of 2])
        (simp_all add: unicode_to_utf8_def lead_tag_def utf8_min_code_def eval_nat_numeral)
  next
    case 3
    then have "\<not> c < 0x80" "\<not> c < 0x800" "\<not> c < 0x10000"
      by (simp_all add: word_le_nat_alt word_less_nat_alt)
    with 3 show thesis
      by (intro that [of 3])
        (simp_all add: unicode_to_utf8_def lead_tag_def utf8_min_code_def eval_nat_numeral)
  next
    case 4
    then have "\<not> c < 0x80" "\<not> c < 0x800" "\<not> c < 0x10000" "\<not> c < 0x200000"
      by (simp_all add: word_le_nat_alt word_less_nat_alt)
    with 4 show thesis
      by (intro that [of 4])
        (simp_all add: unicode_to_utf8_def lead_tag_def utf8_min_code_def eval_nat_numeral)
  next
    case 5
    then have "\<not> c < 0x80" "\<not> c < 0x800" "\<not> c < 0x10000" "\<not> c < 0x200000" "\<not> c < 0x4000000"
      by (simp_all add: word_le_nat_alt word_less_nat_alt)
    with 5 assms show thesis
      by (intro that [of 5])
        (simp_all add: unicode_to_utf8_def lead_tag_def utf8_min_code_def eval_nat_numeral)
  qed
qed

text \<open>One continuation byte carries six bits, and it is a byte in \<open>0x80..0xbf\<close>.\<close>

lemma cont_byte_bits: "0x80 \<le> (b :: u8) \<and> b < 0xc0 \<longleftrightarrow> bit b 7 \<and> \<not> bit b 6"
proof -
  have "128 \<le> n \<and> n < 192 \<longleftrightarrow> odd (n div 128) \<and> even (n div 64)" if "n < 256" for n :: nat
  proof -
    define q where "q = n div 64"
    have "128 \<le> n \<longleftrightarrow> 2 \<le> q" "n < 192 \<longleftrightarrow> q < 3" "n div 128 = q div 2" "q < 4"
      using that by (auto simp: q_def div_mult2_eq [symmetric])
    moreover from \<open>q < 4\<close> have "q \<in> {0, 1, 2, 3}" by auto
    ultimately show ?thesis by (auto simp: q_def [symmetric])
  qed
  moreover have "unat b < 256" using unsigned_less [of b] by simp
  ultimately show ?thesis by (simp add: bit_word_unat word_le_nat_alt word_less_nat_alt)
qed

lemma cont_byte_range:
  "\<not> (ucast ((v AND 0x3f) OR 0x80 :: u32) :: u8) < 0x80"
  "\<not> 0xc0 \<le> (ucast ((v AND 0x3f) OR 0x80 :: u32) :: u8)"
proof -
  let ?b = "ucast ((v AND 0x3f) OR 0x80 :: u32) :: u8"
  have "bit ?b 7" "\<not> bit ?b 6" by (simp_all add: bit_simps and_low_mask)
  then have "0x80 \<le> ?b \<and> ?b < 0xc0" using cont_byte_bits by blast
  then show "\<not> ?b < 0x80" "\<not> 0xc0 \<le> ?b" by auto
qed

lemma low_six_bits:
  "i < 6 \<Longrightarrow> bit ((ucast (ucast (take_bit 6 v OR 0x80 :: u32) :: u8) :: u32)) i = bit v i"
  by (auto simp: bit_simps numeral_eq_Suc less_Suc_eq)

lemma cont_byte_join:
  "push_bit 6 (drop_bit (6 * Suc k) c) OR (ucast (ucast ((drop_bit (6 * k) c AND 0x3f) OR 0x80) :: u8) AND 0x3f)
     = drop_bit (6 * k) (c :: u32)" (is "?l = ?r")
proof (rule bit_word_eqI)
  fix i
  assume i: "i < LENGTH(32)"
  show "bit ?l i = bit ?r i"
  proof (cases "i < 6")
    case True
    then show ?thesis
      using low_six_bits [of i "drop_bit (6 * k) c"]
      by (simp add: and_low_mask bit_or_iff bit_take_bit_iff bit_push_bit_iff)
  next
    case False
    then have "6 * Suc k + (i - 6) = 6 * k + i" by simp
    with False i show ?thesis
      by (simp add: and_low_mask bit_or_iff bit_take_bit_iff bit_push_bit_iff bit_drop_bit_eq
          del: mult_Suc_right)
  qed
qed

lemma utf8_cont_encoded:
  "utf8_cont (pre @ cont_bytes k c @ rest) (length pre) k (drop_bit (6 * k) c) = Some (Some c)"
proof (induction k arbitrary: pre)
  case 0
  show ?case by simp
next
  case (Suc k)
  let ?b = "ucast ((drop_bit (6 * k) c AND 0x3f) OR 0x80) :: u8"
  have "rd (pre @ cont_bytes (Suc k) c @ rest) (length pre) = Some ?b"
    by (simp add: rd_def)
  moreover have "pre @ cont_bytes (Suc k) c @ rest = (pre @ [?b]) @ cont_bytes k c @ rest"
    by simp
  ultimately show ?case
    using Suc.IH [of "pre @ [?b]"] cont_byte_range [of "drop_bit (6 * k) c"] cont_byte_join [of k c]
    by (simp del: mult_Suc_right)
qed

section \<open>The lead byte\<close>

lemma lead_encode_table:
  "\<forall>l \<in> set [1..<6]. \<forall>n \<in> set [0..<2 ^ (6 - l)].
     (let c = word_of_nat n OR lead_tag l :: u32 in
      ucast (ucast c :: u8) = c \<and> utf8_cont_len c = Some l \<and>
      c AND utf8_first_code_mask ! (l - 1) = word_of_nat n \<and> \<not> c < 0x80)"
  by code_simp

lemma lead_decode_table:
  "\<forall>n \<in> set [0..<256]. (case utf8_cont_len (word_of_nat n) of None \<Rightarrow> True
    | Some l \<Rightarrow> 1 \<le> l \<and> l \<le> 5 \<and>
       (word_of_nat n :: u8) = ucast ((word_of_nat n AND utf8_first_code_mask ! (l - 1)) OR lead_tag l) \<and>
       (word_of_nat n AND utf8_first_code_mask ! (l - 1)) < (2 ^ (6 - l) :: u32))"
  by code_simp

lemma lead_encode:
  assumes "l \<in> {1..5}" and "h < (2 ^ (6 - l) :: u32)"
  shows "ucast (ucast (h OR lead_tag l) :: u8) = h OR lead_tag l"
    and "utf8_cont_len (h OR lead_tag l) = Some l"
    and "(h OR lead_tag l) AND utf8_first_code_mask ! (l - 1) = h"
    and "\<not> h OR lead_tag l < 0x80"
proof -
  have "unat (2 ^ (6 - l) :: u32) = 2 ^ (6 - l)"
  proof -
    from assms(1) have "l = 1 \<or> l = 2 \<or> l = 3 \<or> l = 4 \<or> l = 5" by auto
    then show ?thesis by auto
  qed
  with assms have "unat h < 2 ^ (6 - l)" by (simp add: word_less_nat_alt)
  with assms(1) have "l \<in> set [1..<6]" "unat h \<in> set [0..<2 ^ (6 - l)]" by auto
  from lead_encode_table [rule_format, OF this]
  show "ucast (ucast (h OR lead_tag l) :: u8) = h OR lead_tag l"
    "utf8_cont_len (h OR lead_tag l) = Some l"
    "(h OR lead_tag l) AND utf8_first_code_mask ! (l - 1) = h" "\<not> h OR lead_tag l < 0x80"
    by (simp_all add: Let_def)
qed

lemma lead_decode:
  assumes "utf8_cont_len (ucast (b :: u8)) = Some l"
  shows "l \<in> {1..5}"
    and "b = ucast ((ucast b AND utf8_first_code_mask ! (l - 1)) OR lead_tag l)"
    and "ucast b AND utf8_first_code_mask ! (l - 1) < (2 ^ (6 - l) :: u32)"
proof -
  have "unat b \<in> set [0..<256]" using unsigned_less [of b] by simp
  from lead_decode_table [rule_format, OF this] assms
  show "l \<in> {1..5}" "b = ucast ((ucast b AND utf8_first_code_mask ! (l - 1)) OR lead_tag l)"
    "ucast b AND utf8_first_code_mask ! (l - 1) < (2 ^ (6 - l) :: u32)"
    by (simp_all add: unsigned_ucast_eq)
qed

lemma lead_bits_bound:
  assumes "l \<in> {1..5}" and "c < 0x80000000" and "l = 5 \<or> c < utf8_min_code ! l"
  shows "drop_bit (6 * l) (c :: u32) < 2 ^ (6 - l)"
proof -
  from assms(1) have "l = 1 \<or> l = 2 \<or> l = 3 \<or> l = 4 \<or> l = 5" by auto
  with assms(2,3) show ?thesis
    by (auto simp: utf8_min_code_def word_less_nat_alt drop_bit_eq_div unat_div div_less_iff_less_mult)
qed

text \<open>What the loop accepts is what the encoder writes.\<close>

lemma cont_byte_split:
  assumes "0x80 \<le> (b :: u8)" and "b < 0xc0"
  shows "drop_bit 6 (push_bit 6 a OR (ucast b AND 0x3f)) = take_bit 26 (a :: u32)"
    and "ucast (((push_bit 6 a OR (ucast b AND 0x3f)) AND 0x3f) OR 0x80) = b"
proof -
  from assms have b: "bit b 7" "\<not> bit b 6" using cont_byte_bits by blast+
  show "drop_bit 6 (push_bit 6 a OR (ucast b AND 0x3f)) = take_bit 26 a"
    by (rule bit_word_eqI) (auto simp: bit_simps and_low_mask)
  have "(push_bit 6 a OR (ucast b AND 0x3f)) AND 0x3f = take_bit 6 (ucast b)"
    by (simp add: and_low_mask take_bit_or take_bit_push_bit)
  moreover have "(ucast (take_bit 6 (ucast b) OR 0x80 :: u32) :: u8) = b"
  proof (rule bit_word_eqI)
    fix i assume "i < LENGTH(8)"
    then consider "i < 6" | "i = 6" | "i = 7" by fastforce
    then show "bit (ucast (take_bit 6 (ucast b) OR 0x80 :: u32) :: u8) i = bit b i"
      by cases (use b in \<open>auto simp: bit_simps numeral_eq_Suc less_Suc_eq\<close>)
  qed
  ultimately show "ucast (((push_bit 6 a OR (ucast b AND 0x3f)) AND 0x3f) OR 0x80) = b"
    by simp
qed

lemma utf8_cont_sound:
  assumes "utf8_cont mem pos l a = Some (Some c)" and "l \<le> 5"
  shows "drop_bit (6 * l) c = take_bit (32 - 6 * l) a \<and> take l (drop pos mem) = cont_bytes l c"
  using assms
proof (induction l arbitrary: pos a)
  case 0
  then show ?case by (simp add: take_bit_word_eq_self)
next
  case (Suc l)
  from Suc.prems obtain b where b: "rd mem pos = Some b" "0x80 \<le> b" "b < 0xc0"
    and rest: "utf8_cont mem (pos + 1) l (push_bit 6 a OR (ucast b AND 0x3f)) = Some (Some c)"
    by (auto split: option.splits if_splits simp: not_less not_le)
  define a' where "a' = push_bit 6 a OR (ucast b AND 0x3f)"
  have IH: "drop_bit (6 * l) c = take_bit (32 - 6 * l) a'" "take l (drop (pos + 1) mem) = cont_bytes l c"
    using Suc.IH [OF rest] Suc.prems(2) by (simp_all add: a'_def)
  note split = cont_byte_split [OF b(2,3), of a, folded a'_def]
  have "drop_bit (6 * Suc l) c = drop_bit 6 (drop_bit (6 * l) c)"
    by (simp add: add.commute)
  also have "\<dots> = take_bit (32 - 6 * Suc l) a"
    using Suc.prems(2) by (simp add: IH(1) drop_bit_take_bit split(1) min_def)
  finally have high: "drop_bit (6 * Suc l) c = take_bit (32 - 6 * Suc l) a" .
  have "6 \<le> 32 - 6 * l" using Suc.prems(2) by simp
  then have "drop_bit (6 * l) c AND 0x3f = a' AND 0x3f"
    by (simp add: IH(1) and_low_mask min_absorb1)
  then have "ucast ((drop_bit (6 * l) c AND 0x3f) OR 0x80) = b" by (simp only: split(2))
  moreover have "take (Suc l) (drop pos mem) = b # take l (drop (pos + 1) mem)"
    using b(1) by (simp add: rd_Some_iff take_Suc_conv_app_nth Cons_nth_drop_Suc [symmetric])
  ultimately show ?case using high IH(2) by simp
qed

text \<open>The value of a form and its lead byte bound the character from above.\<close>

lemma decoded_bound:
  assumes "l \<in> {1..5}" and "drop_bit (6 * l) (c :: u32) < 2 ^ (6 - l)"
  shows "c < 0x80000000 \<and> (l = 5 \<or> c < utf8_min_code ! l)"
proof -
  from assms(1) have "l = 1 \<or> l = 2 \<or> l = 3 \<or> l = 4 \<or> l = 5" by auto
  with assms(2) show ?thesis
    by (auto simp: utf8_min_code_def word_less_nat_alt drop_bit_eq_div unat_div div_less_iff_less_mult)
qed

lemma unicode_to_utf8_of_form:
  assumes "l \<in> {1..5}" and "utf8_min_code ! (l - 1) \<le> c"
    and "c < 0x80000000" and "l = 5 \<or> c < utf8_min_code ! l"
  shows "unicode_to_utf8 c = ucast (drop_bit (6 * l) c OR lead_tag l) # cont_bytes l c"
proof -
  have idx: "l = 1 \<or> l = 2 \<or> l = 3 \<or> l = 4 \<or> l = 5" using assms(1) by auto
  with assms(2) have lo: "0x80 \<le> c" by (auto simp: utf8_min_code_def word_le_nat_alt)
  from lo assms(3) obtain k where k: "k \<in> {1..5}" "utf8_min_code ! (k - 1) \<le> c"
      "k = 5 \<or> c < utf8_min_code ! k"
    and eq: "unicode_to_utf8 c = ucast (drop_bit (6 * k) c OR lead_tag k) # cont_bytes k c"
    by (rule unicode_to_utf8_form)
  have "k = 1 \<or> k = 2 \<or> k = 3 \<or> k = 4 \<or> k = 5" using k(1) by auto
  with idx assms(2,4) k(2,3) have "k = l"
    by (auto simp: utf8_min_code_def word_le_nat_alt word_less_nat_alt)
  with eq show ?thesis by simp
qed

lemma unicode_from_utf8_canonical:
  assumes dec: "unicode_from_utf8 mem pos UTF8_CHAR_LEN_MAX = Some (c, pos')" and ok: "c \<noteq> - 1"
  shows "c < 0x80000000 \<and> pos' = pos + length (unicode_to_utf8 c) \<and>
    take (length (unicode_to_utf8 c)) (drop pos mem) = unicode_to_utf8 c"
proof -
  from dec obtain b where b: "rd mem pos = Some b"
    by (auto simp: unicode_from_utf8_def get_u8_def split: option.splits)
  then have mem: "drop pos mem = b # drop (pos + 1) mem"
    using Cons_nth_drop_Suc [of pos mem] by (simp add: rd_Some_iff)
  show ?thesis
  proof (cases "ucast b < (0x80 :: u32)")
    case True
    with dec b have c: "c = ucast b" "pos' = pos + 1"
      by (simp_all add: unicode_from_utf8_def get_u8_def)
    moreover have "ucast (ucast b :: u32) = b"
      by (rule bit_word_eqI) (simp add: bit_simps)
    ultimately have "ucast c = b" "c < 0x80000000"
      using True by (simp_all add: word_less_nat_alt)
    with True c mem show ?thesis by (simp add: unicode_to_utf8_def)
  next
    case False
    with dec b ok obtain l where l: "utf8_cont_len (ucast b) = Some l"
      and cont: "utf8_cont mem (pos + 1) l (ucast b AND utf8_first_code_mask ! (l - 1)) = Some (Some c)"
      and lo: "utf8_min_code ! (l - 1) \<le> c" and pos': "pos' = pos + 1 + l"
      by (auto simp: unicode_from_utf8_def get_u8_def not_less split: option.splits if_splits)
    note lead = lead_decode [OF l]
    have idx: "l = 1 \<or> l = 2 \<or> l = 3 \<or> l = 4 \<or> l = 5" using lead(1) by auto
    have "take_bit (32 - 6 * l) (ucast b AND utf8_first_code_mask ! (l - 1) :: u32)
        = ucast b AND utf8_first_code_mask ! (l - 1)"
      using idx by (auto simp: utf8_first_code_mask_def and_low_mask)
    with utf8_cont_sound [OF cont] lead(1)
    have high: "drop_bit (6 * l) c = ucast b AND utf8_first_code_mask ! (l - 1)"
      and bytes: "take l (drop (pos + 1) mem) = cont_bytes l c" by auto
    have hi: "c < 0x80000000" "l = 5 \<or> c < utf8_min_code ! l"
      using decoded_bound [OF lead(1)] lead(3) high by auto
    have "unicode_to_utf8 c = ucast (drop_bit (6 * l) c OR lead_tag l) # cont_bytes l c"
      using unicode_to_utf8_of_form [OF lead(1) lo hi] .
    then have "unicode_to_utf8 c = b # cont_bytes l c"
      by (simp only: high lead(2) [symmetric])
    with mem bytes pos' hi show ?thesis by simp
  qed
qed

text \<open>
  C22. The decoder accepts canonical forms only: when it returns a character, that character has
  at most 31 bits and the bytes it consumed are exactly the encoder's bytes for it. So no
  overlong form and no stray byte is ever accepted.
\<close>

theorem utf8_encode_decode:
  assumes dec: "unicode_from_utf8 mem pos UTF8_CHAR_LEN_MAX = Some (c, pos')" and ok: "c \<noteq> - 1"
  shows "c < 0x80000000 \<and> pos' = pos + length (unicode_to_utf8 c) \<and>
    take (length (unicode_to_utf8 c)) (drop pos mem) = unicode_to_utf8 c"
  using assms by (rule unicode_from_utf8_canonical)

lemma unicode_from_utf8_encoded:
  assumes "c < 0x80000000"
  shows "unicode_from_utf8 (pre @ unicode_to_utf8 c @ rest) (length pre) UTF8_CHAR_LEN_MAX =
    Some (c, length pre + length (unicode_to_utf8 c))"
proof (cases "c < 0x80")
  case True
  then have "ucast (ucast c :: u8) = c"
    by (simp add: word_less_nat_alt word_unat_eq_iff unsigned_ucast_eq
        unsigned_take_bit_eq take_bit_nat_eq_self)
  with True show ?thesis
    by (simp add: unicode_from_utf8_def unicode_to_utf8_def get_u8_def rd_def)
next
  case False
  then have "0x80 \<le> c" by simp
  from this assms obtain l where l: "l \<in> {1..5}"
    and form: "unicode_to_utf8 c = ucast (drop_bit (6 * l) c OR lead_tag l) # cont_bytes l c"
    and lo: "utf8_min_code ! (l - 1) \<le> c" and hi: "l = 5 \<or> c < utf8_min_code ! l"
    by (rule unicode_to_utf8_form)
  note lead = lead_encode [OF l lead_bits_bound [OF l assms hi]]
  have "utf8_cont ((pre @ [ucast (drop_bit (6 * l) c OR lead_tag l)]) @ cont_bytes l c @ rest)
      (length pre + 1) l (drop_bit (6 * l) c) = Some (Some c)"
    using utf8_cont_encoded [of "pre @ [ucast (drop_bit (6 * l) c OR lead_tag l)]" l c rest] by simp
  with lead lo l show ?thesis
    by (simp add: unicode_from_utf8_def form get_u8_def rd_def UTF8_CHAR_LEN_MAX_def not_less)
qed

text \<open>A character that is decoded takes at least one byte.\<close>

lemma unicode_from_utf8_progress:
  "unicode_from_utf8 mem pos n = Some (c, pos') \<Longrightarrow> c \<noteq> - 1 \<Longrightarrow> pos < pos' \<and> pos < length mem"
  by (auto simp: unicode_from_utf8_def get_u8_def rd_def split: option.splits if_splits)

text \<open>
  C19. Decoding what the encoder wrote, at any place of a block and whatever follows, gives the
  character back and steps over exactly its bytes.
\<close>

theorem utf8_decode_encode:
  assumes "c < 0x80000000"
  shows "unicode_from_utf8 (pre @ unicode_to_utf8 c @ rest) (length pre) UTF8_CHAR_LEN_MAX =
    Some (c, length pre + length (unicode_to_utf8 c))"
  using assms by (rule unicode_from_utf8_encoded)

theorem utf8_decode_encode_witness:
  "unicode_from_utf8 [0x41, 0xe2, 0x82, 0xac, 0] 1 UTF8_CHAR_LEN_MAX = Some (0x20ac, 4)"
  using utf8_decode_encode [of "0x20ac" "[0x41]" "[0]"] by (simp add: unicode_to_utf8_def)

theorem utf8_encode_decode_witness:
  "unicode_from_utf8 [0xc3, 0xa9, 0] 0 UTF8_CHAR_LEN_MAX = Some (0xe9, 2) \<and>
   take 2 (drop 0 [0xc3, 0xa9, 0]) = unicode_to_utf8 0xe9"
proof -
  have dec: "unicode_from_utf8 [0xc3, 0xa9, 0] 0 UTF8_CHAR_LEN_MAX = Some (0xe9, 2)"
    by code_simp
  from utf8_encode_decode [OF dec] show ?thesis
    using dec by (simp add: unicode_to_utf8_def)
qed

end
