(* ===== verification/JsString.thy ===== *)
theory JsString
  imports Utf8 Subject
begin

text \<open>
  Subject strings of the Lua module, \<^verbatim>\<open>jsregexp.c\<close>: the scans of the UTF-8 input, its
  conversion to UTF-16 with the two index maps, the string object, and \<^verbatim>\<open>escape\<close>.

  A C string is a byte list that goes on to the end of its memory block; a read or a write
  outside a block is \<open>None\<close>. Strings of the Lua API are byte lists without the terminator
  that the API puts behind them.
\<close>

section \<open>Scans\<close>

fun utf8_contains_non_bmp :: "u8 list \<Rightarrow> bool option" where
  "utf8_contains_non_bmp [] = None"
| "utf8_contains_non_bmp (c # s) =
     (if c = 0 then Some False
      else if c AND 0xf0 = 0xf0 then Some True
      else utf8_contains_non_bmp s)"

fun utf8_contains_non_ascii :: "u8 list \<Rightarrow> bool option" where
  "utf8_contains_non_ascii [] = None"
| "utf8_contains_non_ascii (c # s) =
     (if c = 0 then Some False
      else if c AND 0x80 \<noteq> 0 then Some True
      else utf8_contains_non_ascii s)"

section \<open>Conversion to UTF-16\<close>

definition write_at :: "'a list \<Rightarrow> nat \<Rightarrow> 'a \<Rightarrow> 'a list option" where
  "write_at xs i v = (if i < length xs then Some (xs[i := v]) else None)"

text \<open>
  The state of the loop: the position in the input, the units written so far (so \<^verbatim>\<open>q - str\<close> is
  their number) and the two maps. \<open>Some None\<close> is the \<^verbatim>\<open>NULL\<close> of malformed input. The output
  block has room for \<open>n + 1\<close> units.
\<close>

type_synonym utf16_string = "units \<times> u32 list \<times> u32 list"

definition utf16_put :: "u32 \<Rightarrow> units" where
  "utf16_put c =
     (if c > 0xffff then
        (let c = c - 0x10000
         in [ucast (0xd800 OR drop_bit 10 c), ucast (0xdc00 OR (c AND 0x3ff))])
      else [ucast (c AND 0xffff)])"

function utf8_to_utf16_loop ::
  "u8 list \<Rightarrow> nat \<Rightarrow> nat \<Rightarrow> units \<Rightarrow> u32 list \<Rightarrow> u32 list \<Rightarrow> utf16_string option option" where
  "utf8_to_utf16_loop input n pos str indices rev_indices =
     (case rd input pos of
        None \<Rightarrow> None
      | Some b \<Rightarrow>
          if b = 0 then
            (if length str \<le> n then
               (case (write_at indices (length str) (word_of_nat n),
                      write_at rev_indices n (word_of_nat (length str))) of
                  (Some indices, Some rev_indices) \<Rightarrow> Some (Some (str, indices, rev_indices))
                | _ \<Rightarrow> None)
             else None)
          else
            (case (write_at indices (length str) (word_of_nat pos),
                   write_at rev_indices pos (word_of_nat (length str))) of
               (Some indices, Some rev_indices) \<Rightarrow>
                 (case unicode_from_utf8 input pos UTF8_CHAR_LEN_MAX of
                    None \<Rightarrow> None
                  | Some (c, pos') \<Rightarrow>
                      if c = - 1 then Some None
                      else if length str + length (utf16_put c) \<le> n + 1 then
                        utf8_to_utf16_loop input n pos' (str @ utf16_put c) indices rev_indices
                      else None)
             | _ \<Rightarrow> None))"
  by pat_completeness auto
termination
  by (relation "measure (\<lambda>(input, n, pos, str, i, r). length input - pos)")
    (auto dest!: unicode_from_utf8_progress)

declare utf8_to_utf16_loop.simps [simp del]

text \<open>The result: the units without the terminating zero, and the two maps.\<close>

definition utf8_to_utf16 :: "u8 list \<Rightarrow> nat \<Rightarrow> utf16_string option option" where
  "utf8_to_utf16 input n =
     utf8_to_utf16_loop input n 0 [] (replicate (n + 1) 0) (replicate (n + 1) 0)"

section \<open>String objects\<close>

record jsstring =
  is_wide_char :: bool
  js_len :: nat
  bstr :: "u8 list"
  bstr_len :: nat
  indices :: "u32 list"
  rev_indices :: "u32 list"
  js_units :: units

text \<open>
  \<open>js_units\<close> is the block at \<^verbatim>\<open>u.str8\<close> or \<^verbatim>\<open>u.str16\<close> with its terminator; \<open>bstr\<close> is the block
  \<^verbatim>\<open>strdup\<close> makes, which ends at the first zero of the input. The argument is a string of the
  Lua API. \<open>Inl\<close> is the error that the function raises.
\<close>

definition strdup :: "u8 list \<Rightarrow> u8 list" where
  "strdup s = cstr s @ [0]"

text \<open>
  The length is kept in 32 bits. The blocks of the conversion have room for \<^verbatim>\<open>n + 1\<close> elements,
  computed in 32 bits too: for the largest \<^verbatim>\<open>n\<close> that is 0, and every write is undefined. A length
  that was cut off makes the conversion write behind its blocks, which is the \<open>None\<close> of
  \<open>utf8_to_utf16\<close>.
\<close>

definition jsstring_new :: "u8 list \<Rightarrow> (string + jsstring) option" where
  "jsstring_new input =
     (let n = unat (word_of_nat (length input) :: u32)
      in case utf8_contains_non_ascii (input @ [0]) of
        None \<Rightarrow> None
      | Some True \<Rightarrow>
          if (word_of_nat n + 1 :: u32) = 0 then None
          else (case utf8_to_utf16 (input @ [0]) n of
             None \<Rightarrow> None
           | Some None \<Rightarrow> Some (Inl ''malformed unicode'')
           | Some (Some (str, ind, rind)) \<Rightarrow>
               Some (Inr \<lparr>is_wide_char = True, js_len = length str, bstr = strdup input,
                          bstr_len = n, indices = ind, rev_indices = rind,
                          js_units = str @ [0]\<rparr>))
      | Some False \<Rightarrow>
          Some (Inr \<lparr>is_wide_char = False, js_len = n, bstr = strdup input,
                     bstr_len = n, indices = [], rev_indices = [],
                     js_units = map ucast (strdup input)\<rparr>))"

section \<open>Escaping\<close>

definition hex_digit :: "u8 \<Rightarrow> u8" where
  "hex_digit d = (if d < 10 then 0x30 + d else 0x61 + (d - 10))"

text \<open>\<^verbatim>\<open>snprintf(s, sizeof s, "\\x%02x", c)\<close>\<close>

definition hex2 :: "u8 \<Rightarrow> u8 list" where
  "hex2 c = [0x5c, 0x78, hex_digit (drop_bit 4 c), hex_digit (c AND 0xf)]"

definition escape_punct :: "u8 list" where
  "escape_punct =
     [0x2c, 0x2d, 0x3d, 0x3c, 0x3e, 0x23, 0x26, 0x21, 0x25, 0x3a, 0x3b, 0x40, 0x7e, 0x27, 0x60, 0x22]"

definition escape_byte :: "nat \<Rightarrow> u8 \<Rightarrow> u8 list" where
  "escape_byte i c =
     (if c < 33 then
        (if c \<ge> 9 \<and> c \<le> 13 then [0x5c, [0x74, 0x6e, 0x76, 0x66, 0x72] ! unat (c - 9)]
         else hex2 c)
      else if c < 128 then
        (if c \<ge> 0x30 \<and> c \<le> 0x39 \<or> c \<ge> 0x41 \<and> c \<le> 0x5a \<or> c \<ge> 0x61 \<and> c \<le> 0x7a then
           (if i = 0 then hex2 c else [c])
         else if c \<in> set escape_punct then hex2 c
         else if c \<noteq> 0x5f then [0x5c, c]
         else [c])
      else hex2 c)"

definition jsregexp_escape :: "u8 list \<Rightarrow> u8 list" where
  "jsregexp_escape str = concat (map (\<lambda>(i, c). escape_byte i c) (enumerate 0 str))"

section \<open>The converted string\<close>

definition utf8_bytes :: "u32 list \<Rightarrow> u8 list" where
  "utf8_bytes cs = concat (map unicode_to_utf8 cs)"

definition utf16_of :: "u32 list \<Rightarrow> units" where
  "utf16_of cs = concat (map utf16_units cs)"

text \<open>Where character \<open>i\<close> starts in the bytes and in the units.\<close>

definition byte_pos :: "u32 list \<Rightarrow> nat \<Rightarrow> nat" where
  "byte_pos cs i = length (utf8_bytes (take i cs))"

definition unit_pos :: "u32 list \<Rightarrow> nat \<Rightarrow> nat" where
  "unit_pos cs i = length (utf16_of (take i cs))"

definition text_chars :: "u32 list \<Rightarrow> bool" where
  "text_chars cs \<longleftrightarrow> (\<forall>c \<in> set cs. c \<noteq> 0 \<and> c < 0x110000)"

lemma utf8_bytes_simps [simp]:
  "utf8_bytes [] = []" "utf8_bytes (c # cs) = unicode_to_utf8 c @ utf8_bytes cs"
  "utf8_bytes (xs @ ys) = utf8_bytes xs @ utf8_bytes ys"
  by (simp_all add: utf8_bytes_def)

lemma utf16_of_simps [simp]:
  "utf16_of [] = []" "utf16_of (c # cs) = utf16_units c @ utf16_of cs"
  "utf16_of (xs @ ys) = utf16_of xs @ utf16_of ys"
  by (simp_all add: utf16_of_def)

lemma length_utf16_units: "length (utf16_units c) = (if c > 0xffff then 2 else 1)"
  by (simp add: utf16_units_def)

lemma length_unicode_to_utf8:
  "c < 0x110000 \<Longrightarrow> length (utf16_units c) \<le> length (unicode_to_utf8 c) \<and> 0 < length (unicode_to_utf8 c)"
  by (auto simp: unicode_to_utf8_def utf16_units_def word_less_nat_alt)

lemma utf16_length_le: "text_chars cs \<Longrightarrow> length (utf16_of cs) \<le> length (utf8_bytes cs)"
  by (induction cs) (auto simp: text_chars_def intro!: add_mono dest: length_unicode_to_utf8)

lemma or_low_ten: "0xd800 OR take_bit 10 (x :: u32) = 0xd800 + take_bit 10 x"
proof (rule disjunctive_add [symmetric])
  fix n
  show "\<not> bit (0xd800 :: u32) n \<or> \<not> bit (take_bit 10 x) n"
    by (cases "n < 10") (auto simp: bit_take_bit_iff numeral_eq_Suc less_Suc_eq)
qed

lemma utf16_put_units:
  assumes "c < 0x110000"
  shows "utf16_put c = utf16_units c"
proof (cases "c > 0xffff")
  case False
  have "ucast (c AND 0xffff) = (ucast c :: u16)"
    by (rule bit_word_eqI) (auto simp: bit_simps mask_eq_exp_minus_1 [of 16, symmetric] numeral_eq_Suc less_Suc_eq)
  with False show ?thesis by (simp add: utf16_put_def utf16_units_def)
next
  case True
  then have c: "0x10000 \<le> unat c" "unat c < 0x110000"
    using assms by (simp_all add: word_less_nat_alt)
  have sub: "unat (c - 0x10000) = unat c - 0x10000"
    using c by (simp add: unat_sub word_le_nat_alt)
  have "unat (drop_bit 10 (c - 0x10000)) = unat c div 0x400 - 0x40"
    using c by (simp add: drop_bit_eq_div unat_div sub)
  moreover have "unat c div 0x400 - 0x40 < 2 ^ 10"
    using c by (simp add: div_less_iff_less_mult less_diff_conv2)
  ultimately have d: "unat (drop_bit 10 (c - 0x10000)) = unat c div 0x400 - 0x40"
    "take_bit 10 (drop_bit 10 (c - 0x10000)) = drop_bit 10 (c - 0x10000)"
    by (simp_all add: word_unat_eq_iff unsigned_take_bit_eq take_bit_nat_eq_self)
  have "0xd800 OR drop_bit 10 (c - 0x10000) = 0xd800 + take_bit 10 (drop_bit 10 (c - 0x10000))"
    using or_low_ten [of "drop_bit 10 (c - 0x10000)"] by (simp only: d(2))
  then have "unat (0xd800 OR drop_bit 10 (c - 0x10000)) = 0xd800 + (unat c div 0x400 - 0x40)"
    using c d by (simp add: unat_word_ariths div_less_iff_less_mult less_diff_conv2)
  moreover have "unat (get_hi_surrogate c) = 0xD800 + (unat c - 0x10000) div 0x400"
    using surrogate_arith(1) [of c] c by (simp add: word_le_nat_alt word_less_nat_alt)
  ultimately have "0xd800 OR drop_bit 10 (c - 0x10000) = get_hi_surrogate c"
    using c by (simp add: word_unat_eq_iff)
  moreover have "0xdc00 OR ((c - 0x10000) AND 0x3ff) = get_lo_surrogate c"
  proof -
    have "take_bit 10 (c - 0x10000) = take_bit 10 c"
      unfolding word_unat_eq_iff
    proof -
      obtain k where k: "unat c = 0x10000 + k" using c(1) le_Suc_ex by blast
      show "unat (take_bit 10 (c - 0x10000)) = unat (take_bit 10 c)"
        by (simp only: unsigned_take_bit_eq sub) (simp add: k take_bit_eq_mod mod_add_eq [symmetric])
    qed
    then show ?thesis
      by (simp add: get_lo_surrogate_def and_low_mask or.commute)
  qed
  ultimately show ?thesis
    using True by (simp add: utf16_put_def utf16_units_def)
qed

section \<open>The index maps\<close>

text \<open>What the loop writes: one cell of each map per character and one at the end.\<close>

definition put_map :: "(nat \<Rightarrow> nat) \<Rightarrow> (nat \<Rightarrow> nat) \<Rightarrow> nat \<Rightarrow> nat \<Rightarrow> u32 list \<Rightarrow> u32 list" where
  "put_map at val a b m = fold (\<lambda>i m. m[at i := word_of_nat (val i)]) [a..<b] m"

lemma put_map_first: "a < b \<Longrightarrow> put_map f g (Suc a) b (m[f a := word_of_nat (g a)]) = put_map f g a b m"
  by (simp add: put_map_def upt_conv_Cons)

lemma length_put_map [simp]: "length (put_map f g a b m) = length m"
  by (induction b) (simp_all add: put_map_def)

lemma put_map_nth:
  assumes "\<And>i j. a \<le> i \<Longrightarrow> i < j \<Longrightarrow> j < b \<Longrightarrow> f i < f j" and "\<And>i. a \<le> i \<Longrightarrow> i < b \<Longrightarrow> f i < length m"
    and "a \<le> i" and "i < b"
  shows "put_map f g a b m ! f i = word_of_nat (g i)"
  using assms
proof (induction b)
  case 0
  then show ?case by simp
next
  case (Suc b)
  have unf: "put_map f g a (Suc b) m = (put_map f g a b m)[f b := word_of_nat (g b)]"
    using Suc.prems(3,4) by (simp add: put_map_def)
  show ?case
  proof (cases "i = b")
    case True
    with Suc.prems(2-4) show ?thesis by (simp add: unf)
  next
    case False
    with Suc.prems have i: "i < b" and "f i < f b" by auto
    then have ne: "f b \<noteq> f i" by simp
    have "put_map f g a b m ! f i = word_of_nat (g i)"
      using Suc.prems i by (intro Suc.IH) auto
    with ne show ?thesis by (simp add: unf)
  qed
qed

lemma put_map_other: "(\<And>i. a \<le> i \<Longrightarrow> i < b \<Longrightarrow> f i \<noteq> k) \<Longrightarrow> put_map f g a b m ! k = m ! k"
proof (induction b)
  case 0
  then show ?case by (simp add: put_map_def)
next
  case (Suc b)
  then show ?case by (cases "a \<le> b") (auto simp: put_map_def)
qed

lemma pos_Suc:
  "i < length cs \<Longrightarrow> byte_pos cs (Suc i) = byte_pos cs i + length (unicode_to_utf8 (cs ! i))"
  "i < length cs \<Longrightarrow> unit_pos cs (Suc i) = unit_pos cs i + length (utf16_units (cs ! i))"
  by (simp_all add: byte_pos_def unit_pos_def take_Suc_conv_app_nth)

lemma text_charsD: "text_chars cs \<Longrightarrow> i < length cs \<Longrightarrow> cs ! i \<noteq> 0 \<and> cs ! i < 0x110000"
  by (simp add: text_chars_def)

lemma byte_pos_less: "text_chars cs \<Longrightarrow> i < j \<Longrightarrow> j \<le> length cs \<Longrightarrow> byte_pos cs i < byte_pos cs j"
proof (induction j)
  case (Suc j)
  then have "byte_pos cs j < byte_pos cs (Suc j)"
    using text_charsD [of cs j] length_unicode_to_utf8 [of "cs ! j"] by (simp add: pos_Suc)
  with Suc show ?case by (cases "i = j") auto
qed simp

lemma unit_pos_less: "i < j \<Longrightarrow> j \<le> length cs \<Longrightarrow> unit_pos cs i < unit_pos cs j"
proof (induction j)
  case (Suc j)
  then have "unit_pos cs j < unit_pos cs (Suc j)"
    by (simp add: pos_Suc length_utf16_units)
  with Suc show ?case by (cases "i = j") auto
qed simp

lemma unit_pos_le_byte_pos: "text_chars cs \<Longrightarrow> unit_pos cs i \<le> byte_pos cs i"
  unfolding unit_pos_def byte_pos_def
  by (rule utf16_length_le) (auto simp: text_chars_def dest: in_set_takeD)

lemma pos_bounds:
  assumes "text_chars cs" and "i \<le> length cs"
  shows "byte_pos cs i \<le> byte_pos cs (length cs)" and "unit_pos cs i \<le> byte_pos cs (length cs)"
  using byte_pos_less [OF assms(1), of i "length cs"] unit_pos_le_byte_pos [OF assms(1), of i] assms(2)
  by (cases "i = length cs"; auto)+

text \<open>The first byte of a character other than the zero is not the terminator.\<close>

lemma tagged_nonzero:
  "(ucast (v OR 0xc0 :: u32) :: u8) \<noteq> 0" "(ucast (v OR 0xe0 :: u32) :: u8) \<noteq> 0"
  "(ucast (v OR 0xf0 :: u32) :: u8) \<noteq> 0"
proof -
  have "bit (ucast (v OR 0xc0 :: u32) :: u8) 7" "bit (ucast (v OR 0xe0 :: u32) :: u8) 7"
    "bit (ucast (v OR 0xf0 :: u32) :: u8) 7"
    by (simp_all add: bit_simps)
  then show "(ucast (v OR 0xc0 :: u32) :: u8) \<noteq> 0" "(ucast (v OR 0xe0 :: u32) :: u8) \<noteq> 0"
    "(ucast (v OR 0xf0 :: u32) :: u8) \<noteq> 0"
    by fastforce+
qed

lemma unicode_to_utf8_nonzero:
  assumes "c \<noteq> 0" and "c < 0x110000"
  shows "\<exists>b bs. unicode_to_utf8 c = b # bs \<and> b \<noteq> 0"
proof -
  have "(ucast c :: u8) \<noteq> 0" if "c < 0x80"
    using that assms(1)
    by (simp add: word_unat_eq_iff word_less_nat_alt unsigned_ucast_eq unsigned_take_bit_eq take_bit_nat_eq_self)
  moreover have "c < 0x200000" using assms(2) by (simp add: word_less_nat_alt)
  ultimately show ?thesis
    using tagged_nonzero by (simp add: unicode_to_utf8_def)
qed

text \<open>The loop from character \<open>k\<close> on.\<close>

lemma utf8_to_utf16_loop_text:
  assumes "text_chars cs" and "k \<le> length cs" and n: "n = byte_pos cs (length cs)"
    and "length ind = n + 1" and "length rind = n + 1"
  shows "utf8_to_utf16_loop (utf8_bytes cs @ 0 # rest) n (byte_pos cs k) (utf16_of (take k cs)) ind rind =
    Some (Some (utf16_of cs, put_map (unit_pos cs) (byte_pos cs) k (Suc (length cs)) ind,
      put_map (byte_pos cs) (unit_pos cs) k (Suc (length cs)) rind))"
  using assms(2,4,5)
proof (induction "length cs - k" arbitrary: k ind rind)
  case 0
  then have k: "k = length cs" by simp
  have "rd (utf8_bytes cs @ 0 # rest) n = Some 0"
    by (simp add: rd_def n byte_pos_def)
  moreover have "length (utf16_of cs) \<le> n"
    using pos_bounds(2) [OF assms(1), of "length cs"] by (simp add: n unit_pos_def)
  moreover have "byte_pos cs (length cs) = n" "unit_pos cs (length cs) = length (utf16_of cs)"
    by (simp_all add: n unit_pos_def)
  ultimately show ?case
    using 0 by (subst utf8_to_utf16_loop.simps) (simp add: k write_at_def put_map_def)
next
  case (Suc d)
  then have k: "k < length cs" by simp
  let ?c = "cs ! k" and ?in = "utf8_bytes cs @ 0 # rest"
  have c: "?c \<noteq> 0" "?c < 0x110000" using text_charsD [OF assms(1) k] by auto
  have split: "?in = utf8_bytes (take k cs) @ unicode_to_utf8 ?c @ (utf8_bytes (drop (Suc k) cs) @ 0 # rest)"
    by (subst id_take_nth_drop [OF k]) simp
  have dec: "unicode_from_utf8 ?in (byte_pos cs k) UTF8_CHAR_LEN_MAX = Some (?c, byte_pos cs (Suc k))"
    unfolding split byte_pos_def using c(2)
    by (subst unicode_from_utf8_encoded) (simp_all add: word_less_nat_alt pos_Suc k take_Suc_conv_app_nth)
  obtain b bs where enc: "unicode_to_utf8 ?c = b # bs" and b: "b \<noteq> 0"
    using unicode_to_utf8_nonzero [OF c] by blast
  have rd: "rd ?in (byte_pos cs k) = Some b"
    unfolding split by (simp add: rd_def byte_pos_def enc)
  have up: "unit_pos cs k = length (utf16_of (take k cs))" by (simp add: unit_pos_def)
  have room: "length (utf16_of (take k cs)) + length (utf16_units ?c) \<le> n + 1"
    using pos_bounds(2) [OF assms(1), of "Suc k"] k by (simp add: n pos_Suc flip: up)
  have in_range: "byte_pos cs k \<le> n" "unit_pos cs k \<le> n"
    using pos_bounds [OF assms(1), of k] k by (simp_all add: n)
  have nxt: "utf16_of (take k cs) @ utf16_units ?c = utf16_of (take (Suc k) cs)"
    using k by (simp add: take_Suc_conv_app_nth)
  have "?c \<noteq> - 1" using c(2) by auto
  then have "utf8_to_utf16_loop ?in n (byte_pos cs k) (utf16_of (take k cs)) ind rind =
      utf8_to_utf16_loop ?in n (byte_pos cs (Suc k)) (utf16_of (take (Suc k) cs))
        (ind[unit_pos cs k := word_of_nat (byte_pos cs k)]) (rind[byte_pos cs k := word_of_nat (unit_pos cs k)])"
    using rd b dec room in_range Suc.prems c
    by (subst utf8_to_utf16_loop.simps) (simp add: write_at_def utf16_put_units nxt flip: up)
  then show ?case
    using Suc.hyps(1) [of "Suc k"] Suc.hyps(2) Suc.prems k by (simp add: put_map_first)
qed

lemma utf8_to_utf16_maps:
  assumes "text_chars cs"
  shows "\<exists>ind rind. utf8_to_utf16 (utf8_bytes cs @ [0]) (length (utf8_bytes cs)) =
      Some (Some (utf16_of cs, ind, rind)) \<and>
    length ind = length (utf8_bytes cs) + 1 \<and> length rind = length (utf8_bytes cs) + 1 \<and>
    (\<forall>i \<le> length cs. ind ! unit_pos cs i = word_of_nat (byte_pos cs i) \<and>
       rind ! byte_pos cs i = word_of_nat (unit_pos cs i)) \<and>
    (\<forall>k \<le> length (utf8_bytes cs). (\<forall>i \<le> length cs. byte_pos cs i \<noteq> k) \<longrightarrow> rind ! k = 0)"
proof -
  let ?n = "length (utf8_bytes cs)" and ?z = "replicate (length (utf8_bytes cs) + 1) (0 :: u32)"
  have n: "?n = byte_pos cs (length cs)" by (simp add: byte_pos_def)
  have run: "utf8_to_utf16 (utf8_bytes cs @ [0]) ?n =
      Some (Some (utf16_of cs, put_map (unit_pos cs) (byte_pos cs) 0 (Suc (length cs)) ?z,
        put_map (byte_pos cs) (unit_pos cs) 0 (Suc (length cs)) ?z))"
    using utf8_to_utf16_loop_text [OF assms _ n, of 0 ?z ?z "[]"]
    by (simp add: utf8_to_utf16_def byte_pos_def)
  have "put_map (unit_pos cs) (byte_pos cs) 0 (Suc (length cs)) ?z ! unit_pos cs i = word_of_nat (byte_pos cs i)"
    if "i \<le> length cs" for i
    using that pos_bounds(2) [OF assms] unit_pos_less
    by (intro put_map_nth) (auto simp: n less_Suc_eq_le)
  moreover have "put_map (byte_pos cs) (unit_pos cs) 0 (Suc (length cs)) ?z ! byte_pos cs i = word_of_nat (unit_pos cs i)"
    if "i \<le> length cs" for i
    using that pos_bounds(1) [OF assms] byte_pos_less [OF assms]
    by (intro put_map_nth) (auto simp: n less_Suc_eq_le)
  moreover have "put_map (byte_pos cs) (unit_pos cs) 0 (Suc (length cs)) ?z ! k = 0"
    if "k \<le> ?n" "\<forall>i \<le> length cs. byte_pos cs i \<noteq> k" for k
  proof -
    have "?z ! k = 0" using that(1) by (subst nth_replicate) auto
    with that(2) show ?thesis by (subst put_map_other) auto
  qed
  ultimately show ?thesis using run by auto
qed

lemma cstr_prefix: "\<forall>b \<in> set xs. b \<noteq> 0 \<Longrightarrow> cstr (xs @ ys) = xs @ cstr ys"
  by (simp add: cstr_def)

lemma unicode_to_utf8_no_zero:
  assumes "c \<noteq> 0" and "c < 0x80000000"
  shows "\<forall>b \<in> set (unicode_to_utf8 c). b \<noteq> 0"
proof -
  have "(ucast c :: u8) \<noteq> 0" if "c < 0x80"
    using that assms(1)
    by (simp add: word_unat_eq_iff word_less_nat_alt unsigned_ucast_eq unsigned_take_bit_eq take_bit_nat_eq_self)
  moreover have "(ucast (v OR 0xf8 :: u32) :: u8) \<noteq> 0" "(ucast (v OR 0xfc :: u32) :: u8) \<noteq> 0"
    "(ucast (v OR 0x80 :: u32) :: u8) \<noteq> 0" for v
  proof -
    have "bit (ucast (v OR 0xf8 :: u32) :: u8) 7" "bit (ucast (v OR 0xfc :: u32) :: u8) 7"
      "bit (ucast (v OR 0x80 :: u32) :: u8) 7" by (simp_all add: bit_simps)
    then show "(ucast (v OR 0xf8 :: u32) :: u8) \<noteq> 0" "(ucast (v OR 0xfc :: u32) :: u8) \<noteq> 0"
      "(ucast (v OR 0x80 :: u32) :: u8) \<noteq> 0" by fastforce+
  qed
  ultimately show ?thesis
    using tagged_nonzero assms(2) by (simp add: unicode_to_utf8_def)
qed

lemma utf8_to_utf16_loop_sound:
  "utf8_to_utf16_loop input n pos str ind rind = Some (Some (str', ind', rind')) \<Longrightarrow>
   \<exists>cs. cstr (drop pos input) = utf8_bytes cs \<and> str' = str @ concat (map utf16_put cs) \<and>
     (\<forall>c \<in> set cs. c \<noteq> 0 \<and> c < 0x80000000)"
proof (induction "length input - pos" arbitrary: pos str ind rind rule: less_induct)
  case less
  from less.prems obtain b where b: "rd input pos = Some b"
    by (subst (asm) utf8_to_utf16_loop.simps) (auto split: option.splits)
  show ?case
  proof (cases "b = 0")
    case True
    then have "cstr (drop pos input) = []"
      using b Cons_nth_drop_Suc [of pos input] by (simp add: rd_Some_iff cstr_def flip: Cons_nth_drop_Suc)
    moreover have "str' = str"
      using less.prems b True
      by (subst (asm) utf8_to_utf16_loop.simps) (auto split: option.splits if_splits)
    ultimately show ?thesis by (intro exI [of _ "[]"]) simp
  next
    case False
    from less.prems b False obtain c pos' ind1 rind1 where
      dec: "unicode_from_utf8 input pos UTF8_CHAR_LEN_MAX = Some (c, pos')" and c: "c \<noteq> - 1"
      and rest: "utf8_to_utf16_loop input n pos' (str @ utf16_put c) ind1 rind1 = Some (Some (str', ind', rind'))"
      by (subst (asm) utf8_to_utf16_loop.simps) (auto split: option.splits if_splits)
    note canon = unicode_from_utf8_canonical [OF dec c]
    have "length input - pos' < length input - pos"
      using unicode_from_utf8_progress [OF dec c] by arith
    from less.hyps [OF this rest] obtain cs where
      cs: "cstr (drop pos' input) = utf8_bytes cs" "str' = (str @ utf16_put c) @ concat (map utf16_put cs)"
      "\<forall>c \<in> set cs. c \<noteq> 0 \<and> c < 0x80000000" by blast
    have split: "drop pos input = unicode_to_utf8 c @ drop pos' input"
      using canon append_take_drop_id [of "length (unicode_to_utf8 c)" "drop pos input"]
      by (simp add: add.commute)
    have "c \<noteq> 0"
    proof
      assume "c = 0"
      then have "drop pos input = 0 # drop pos' input" using split by (simp add: unicode_to_utf8_def)
      moreover have "drop pos input = b # drop (Suc pos) input"
        using b by (metis Cons_nth_drop_Suc rd_Some_iff)
      ultimately show False using False by simp
    qed
    then have "cstr (drop pos input) = unicode_to_utf8 c @ cstr (drop pos' input)"
      unfolding split using unicode_to_utf8_no_zero [of c] canon by (simp add: cstr_prefix)
    with cs canon \<open>c \<noteq> 0\<close> show ?thesis
      by (intro exI [of _ "c # cs"]) simp
  qed
qed

text \<open>
  C16. The conversion of well-formed UTF-8 (no zero character, nothing above U+10FFFF) writes the
  UTF-16 form of the same characters, and its two maps are inverse to each other at the
  boundaries of the characters: \<open>indices\<close> takes the unit where a character starts to the byte
  where it starts, \<open>rev_indices\<close> goes back, at the end too, and is 0 inside a character.
\<close>

theorem utf8_to_utf16_correct:
  assumes "text_chars cs"
  shows "\<exists>ind rind. utf8_to_utf16 (utf8_bytes cs @ [0]) (length (utf8_bytes cs)) =
      Some (Some (utf16_of cs, ind, rind)) \<and>
    length ind = length (utf8_bytes cs) + 1 \<and> length rind = length (utf8_bytes cs) + 1 \<and>
    (\<forall>i \<le> length cs. ind ! unit_pos cs i = word_of_nat (byte_pos cs i) \<and>
       rind ! byte_pos cs i = word_of_nat (unit_pos cs i)) \<and>
    (\<forall>k \<le> length (utf8_bytes cs). (\<forall>i \<le> length cs. byte_pos cs i \<noteq> k) \<longrightarrow> rind ! k = 0)"
  using utf8_to_utf16_maps [OF assms] .

theorem utf8_to_utf16_correct_witness:
  "\<exists>ind rind. utf8_to_utf16 [0x61, 0xc3, 0xa9, 0xf0, 0x9f, 0x98, 0x80, 0] 7 =
      Some (Some ([0x61, 0xe9, 0xd83d, 0xde00], ind, rind)) \<and>
    ind ! 2 = 3 \<and> rind ! 3 = 2 \<and> ind ! 4 = 7"
proof -
  have cs: "text_chars [0x61, 0xe9, 0x1f600]" by (simp add: text_chars_def)
  have enc: "utf8_bytes [0x61, 0xe9, 0x1f600] = [0x61, 0xc3, 0xa9, 0xf0, 0x9f, 0x98, 0x80]"
    "utf16_of [0x61, 0xe9, 0x1f600] = [0x61, 0xe9, 0xd83d, 0xde00]" by code_simp+
  have pos: "byte_pos [0x61, 0xe9, 0x1f600] 2 = 3" "unit_pos [0x61, 0xe9, 0x1f600] 2 = 2"
    "byte_pos [0x61, 0xe9, 0x1f600] 3 = 7" "unit_pos [0x61, 0xe9, 0x1f600] 3 = 4" by code_simp+
  from utf8_to_utf16_correct [OF cs, unfolded enc] obtain ind rind where
    run: "utf8_to_utf16 [0x61, 0xc3, 0xa9, 0xf0, 0x9f, 0x98, 0x80, 0] 7 =
      Some (Some ([0x61, 0xe9, 0xd83d, 0xde00], ind, rind))"
    and maps: "\<forall>i \<le> length [0x61, 0xe9, 0x1f600 :: u32].
       ind ! unit_pos [0x61, 0xe9, 0x1f600] i = word_of_nat (byte_pos [0x61, 0xe9, 0x1f600] i) \<and>
       rind ! byte_pos [0x61, 0xe9, 0x1f600] i = word_of_nat (unit_pos [0x61, 0xe9, 0x1f600] i)"
    by (auto simp: eval_nat_numeral)
  from maps [rule_format, of 2] maps [rule_format, of 3] run show ?thesis
    by (simp add: pos)
qed

text \<open>
  C29. What the conversion accepts is well-formed: the bytes up to the terminator are the
  canonical UTF-8 encoding of the characters it converted, none of which is zero. Everything
  else is reported as malformed or is a read outside the string.
\<close>

theorem utf8_to_utf16_sound:
  assumes "utf8_to_utf16 input n = Some (Some (str, ind, rind))"
  shows "\<exists>cs. cstr input = utf8_bytes cs \<and> str = concat (map utf16_put cs) \<and>
    (\<forall>c \<in> set cs. c \<noteq> 0 \<and> c < 0x80000000)"
  using utf8_to_utf16_loop_sound [OF assms [unfolded utf8_to_utf16_def]] by simp

theorem utf8_to_utf16_sound_witness:
  "\<exists>cs. cstr [0x61, 0xc3, 0xa9, 0] = utf8_bytes cs \<and> [0x61, 0xe9] = concat (map utf16_put cs)"
proof -
  have run: "utf8_to_utf16 [0x61, 0xc3, 0xa9, 0] 3 = Some (Some ([0x61, 0xe9], [0, 1, 3, 0], [0, 1, 0, 2]))"
    by code_simp
  from utf8_to_utf16_sound [OF run] show ?thesis by blast
qed

end
