(* ===== verification/Jsregexp.thy ===== *)
theory Jsregexp
  imports JsString Exec
begin

text \<open>
  The regular expression objects of the Lua module, \<^verbatim>\<open>jsregexp.c\<close>: flags, \<open>last_index\<close>,
  \<^verbatim>\<open>exec\<close> with the match object it builds, and \<^verbatim>\<open>test\<close>.

  A Lua function is a function of its arguments; what it leaves on the Lua stack is its
  result and an error it raises is a value.
\<close>

section \<open>Flags\<close>

record regexp =
  expr :: "u8 list"
  bc :: "u8 list"
  last_index :: u32

definition flag_of_char :: "char \<Rightarrow> u32" where
  "flag_of_char c =
     (if c = CHR ''d'' then LRE_FLAG_INDICES
      else if c = CHR ''i'' then LRE_FLAG_IGNORECASE
      else if c = CHR ''g'' then LRE_FLAG_GLOBAL
      else if c = CHR ''m'' then LRE_FLAG_MULTILINE
      else if c = CHR ''n'' then LRE_FLAG_NAMED_GROUPS
      else if c = CHR ''s'' then LRE_FLAG_DOTALL
      else if c = CHR ''u'' then LRE_FLAG_UNICODE
      else if c = CHR ''v'' then LRE_FLAG_UNICODE_SETS
      else if c = CHR ''y'' then LRE_FLAG_STICKY
      else 0)"

text \<open>
  The part of \<^verbatim>\<open>jsregexp_compile\<close> before the call of \<^verbatim>\<open>lre_compile\<close>: \<open>Inl\<close> is the argument
  error, \<open>Inr\<close> the flags. Both arguments are strings of the Lua API.
\<close>

fun compile_flag_loop :: "u32 \<Rightarrow> string \<Rightarrow> u32" where
  "compile_flag_loop re_flags [] = re_flags"
| "compile_flag_loop re_flags (c # flags) = compile_flag_loop (re_flags OR flag_of_char c) flags"

definition jsregexp_compile_flags :: "u8 list \<Rightarrow> string option \<Rightarrow> (string + u32) option" where
  "jsregexp_compile_flags regexp flags =
     (if 0xfd \<in> set (cstr regexp) then Some (Inl ''malformed unicode'')
      else (case utf8_contains_non_bmp (regexp @ [0]) of
          None \<Rightarrow> None
        | Some non_bmp \<Rightarrow>
            (let re_flags = (if non_bmp then LRE_FLAG_UNICODE else 0)
             in case flags of
                  None \<Rightarrow> Some (Inr re_flags)
                | Some fl \<Rightarrow> Some (Inr (compile_flag_loop re_flags fl)))))"

definition flags_string :: "u32 \<Rightarrow> string" where
  "flags_string flags =
     (if flags AND LRE_FLAG_INDICES \<noteq> 0 then ''d'' else []) @
     (if flags AND LRE_FLAG_IGNORECASE \<noteq> 0 then ''i'' else []) @
     (if flags AND LRE_FLAG_GLOBAL \<noteq> 0 then ''g'' else []) @
     (if flags AND LRE_FLAG_MULTILINE \<noteq> 0 then ''m'' else []) @
     (if flags AND LRE_FLAG_NAMED_GROUPS \<noteq> 0 then ''n'' else []) @
     (if flags AND LRE_FLAG_DOTALL \<noteq> 0 then ''s'' else []) @
     (if flags AND LRE_FLAG_UNICODE \<noteq> 0 then ''u'' else []) @
     (if flags AND LRE_FLAG_UNICODE_SETS \<noteq> 0 then ''v'' else []) @
     (if flags AND LRE_FLAG_STICKY \<noteq> 0 then ''y'' else [])"

definition regexp_pushflags :: "regexp \<Rightarrow> string option" where
  "regexp_pushflags r = map_option flags_string (lre_get_flags (bc r))"

section \<open>Fields\<close>

datatype lua_value =
    Lua_nil
  | Lua_number int
  | Lua_boolean bool
  | Lua_string string
  | Lua_bytes "u8 list"

text \<open>
  \<^verbatim>\<open>regexp_index\<close> for a key that is not a method; \<open>None\<close> stands for a header that cannot be
  read. Booleans are the C truth value of the masked flag.
\<close>

definition regexp_index :: "regexp \<Rightarrow> string \<Rightarrow> lua_value option" where
  "regexp_index r key =
     (case lre_get_flags (bc r) of
        None \<Rightarrow> None
      | Some flags \<Rightarrow>
          if key = ''last_index'' then Some (Lua_number (uint (last_index r + 1)))
          else if key = ''dot_all'' then Some (Lua_boolean (flags AND LRE_FLAG_DOTALL \<noteq> 0))
          else if key = ''global'' then Some (Lua_boolean (flags AND LRE_FLAG_GLOBAL \<noteq> 0))
          else if key = ''ignore_case'' then Some (Lua_boolean (flags AND LRE_FLAG_IGNORECASE \<noteq> 0))
          else if key = ''multiline'' then Some (Lua_boolean (flags AND LRE_FLAG_MULTILINE \<noteq> 0))
          else if key = ''sticky'' then Some (Lua_boolean (flags AND LRE_FLAG_STICKY \<noteq> 0))
          else if key = ''unicode'' then Some (Lua_boolean (flags AND LRE_FLAG_UNICODE \<noteq> 0))
          else if key = ''unicode_sets'' then Some (Lua_boolean (flags AND LRE_FLAG_UNICODE_SETS \<noteq> 0))
          else if key = ''has_indices'' then Some (Lua_boolean (flags AND LRE_FLAG_INDICES \<noteq> 0))
          else if key = ''source'' then Some (Lua_bytes (expr r))
          else if key = ''flags'' then map_option Lua_string (regexp_pushflags r)
          else Some Lua_nil)"

text \<open>\<^verbatim>\<open>regexp_newindex\<close>: the number has been converted to a C \<^verbatim>\<open>int\<close>.\<close>

definition regexp_newindex :: "regexp \<Rightarrow> string \<Rightarrow> int \<Rightarrow> string + regexp" where
  "regexp_newindex r key ind =
     (if key = ''last_index'' then
        (if ind \<ge> 1 then Inr (r\<lparr>last_index := word_of_int (ind - 1)\<rparr>)
         else Inl ''last_index must be positive'')
      else Inl ''unrecognized key'')"

section \<open>Where a match starts\<close>

text \<open>
  The translation of \<open>last_index\<close>, a byte index, for a wide string: on to the next byte at
  which a character starts, then to the unit that starts there.
\<close>

function next_boundary :: "jsstring \<Rightarrow> nat \<Rightarrow> nat option" where
  "next_boundary input i =
     (if i < bstr_len input then
        (case rd (rev_indices input) i of
           None \<Rightarrow> None
         | Some u \<Rightarrow> if u = 0 then next_boundary input (i + 1) else Some i)
      else Some i)"
  by pat_completeness auto
termination
  by (relation "measure (\<lambda>(input, i). bstr_len input - i)") auto

declare next_boundary.simps [simp del]

definition start_index :: "jsstring \<Rightarrow> nat \<Rightarrow> nat option" where
  "start_index input rlast =
     (if is_wide_char input \<and> rlast > 0 \<and> rlast \<le> bstr_len input then
        (case next_boundary input rlast of
           None \<Rightarrow> None
         | Some i \<Rightarrow> map_option unat (rd (rev_indices input) i))
      else Some rlast)"

section \<open>The match object\<close>

record js_match =
  m_input :: "u8 list"
  m_capture_count :: nat
  m_index :: u32
  m_captures :: "u8 list list"
  m_groups :: "(u8 list \<times> u8 list) list option"
  m_indices :: "(u32 \<times> u32) list option"
  m_indices_groups :: "(u8 list \<times> u32 \<times> u32) list option"

datatype js_result = Js_nil | Js_error string | Js_match js_match | Js_undefined

text \<open>
  A captured string with its byte range \<open>a\<close>, \<open>b\<close> (\<open>None\<close> inside: the range of an unmatched
  group, computed from null pointers). The outer \<open>None\<close> is a read outside \<open>indices\<close> or
  outside the string. The difference \<open>b - a\<close> is taken in 32 bits.
\<close>

definition capture_string :: "jsstring \<Rightarrow> slot \<Rightarrow> slot \<Rightarrow> (u8 list \<times> (u32 \<times> u32) option) option" where
  "capture_string input s e =
     (if is_wide_char input then
        (case (s, e) of
           (SPtr p, SPtr q) \<Rightarrow>
             (case (rd (indices input) p, rd (indices input) q) of
                (Some a, Some b) \<Rightarrow>
                  if unat a + unat (b - a) \<le> length (bstr input)
                  then Some (take (unat (b - a)) (drop (unat a) (bstr input)), Some (a, b))
                  else None
              | _ \<Rightarrow> None)
         | _ \<Rightarrow> None)
      else
        (case (s, e) of
           (SPtr p, SPtr q) \<Rightarrow>
             if p \<le> q \<and> q \<le> length (js_units input)
             then Some (map ucast (take (q - p) (drop p (js_units input))),
                        Some (word_of_nat p, word_of_nat q))
             else None
         | (SNull, SNull) \<Rightarrow> Some ([], None)
         | _ \<Rightarrow> None))"

text \<open>
  The pointer \<^verbatim>\<open>group_names\<close> along the groups 1, 2, \<dots>: at each a name or \<open>None\<close> for a group
  without one, as the loop of \<^verbatim>\<open>regexp_exec\<close> reads them from the byte code.
\<close>

fun group_name_walk :: "u8 list \<Rightarrow> nat \<Rightarrow> nat \<Rightarrow> u8 list option list option" where
  "group_name_walk code p 0 = Some []"
| "group_name_walk code p (Suc n) =
     (case rd code p of
        None \<Rightarrow> None
      | Some b \<Rightarrow>
          if b \<noteq> 0 then
            (let name = cstr (drop p code) in
             if p + length name < length code then
               map_option (Cons (Some name)) (group_name_walk code (p + length name + 1) n)
             else None)
          else map_option (Cons None) (group_name_walk code (p + 1) n))"

fun capture_strings :: "jsstring \<Rightarrow> slot list \<Rightarrow> nat \<Rightarrow> (u8 list \<times> (u32 \<times> u32) option) list option" where
  "capture_strings input captures 0 = Some []"
| "capture_strings input (s # e # captures) (Suc n) =
     (case (capture_string input s e, capture_strings input captures n) of
        (Some c, Some cs) \<Rightarrow> Some (c # cs)
      | _ \<Rightarrow> None)"
| "capture_strings input _ (Suc n) = None"

text \<open>Pairing the names with what the groups hold, in the order of the assignments.\<close>

definition named :: "u8 list option list \<Rightarrow> 'a list \<Rightarrow> (u8 list \<times> 'a) list" where
  "named names vals = concat (map (\<lambda>(n, v). case n of None \<Rightarrow> [] | Some name \<Rightarrow> [(name, v)]) (zip names vals))"

definition byte_index :: "jsstring \<Rightarrow> slot \<Rightarrow> u32 option" where
  "byte_index input s =
     (case s of
        SPtr p \<Rightarrow> if is_wide_char input then rd (indices input) p else Some (word_of_nat p)
      | _ \<Rightarrow> None)"

definition match_object :: "jsstring \<Rightarrow> u8 list \<Rightarrow> nat \<Rightarrow> u32 \<Rightarrow> slot list \<Rightarrow> js_result" where
  "match_object input code count flags captures =
     (case (byte_index input (captures ! 0), capture_strings input captures count, lre_get_groupnames code) of
        (Some i, Some strs, Some names_ptr) \<Rightarrow>
          (let has_indices = (flags AND LRE_FLAG_INDICES \<noteq> 0);
               names = (case names_ptr of
                   None \<Rightarrow> Some None
                 | Some p \<Rightarrow> map_option Some (group_name_walk code p (count - 1)));
               ranges = those (map snd strs)
           in case (names, if has_indices then map_option Some ranges else Some None) of
                (Some names, Some ranges) \<Rightarrow>
                  Js_match \<lparr>m_input = cstr (bstr input), m_capture_count = count, m_index = 1 + i,
                    m_captures = map fst strs,
                    m_groups = map_option (\<lambda>ns. named ns (tl (map fst strs))) names,
                    m_indices = map_option (map (\<lambda>(a, b). (a + 1, b))) ranges,
                    m_indices_groups =
                      (case (names, ranges) of
                         (Some ns, Some rs) \<Rightarrow> Some (named ns (tl (map (\<lambda>(a, b). (a + 1, b)) rs)))
                       | _ \<Rightarrow> None)\<rparr>
              | _ \<Rightarrow> Js_undefined)
      | _ \<Rightarrow> Js_undefined)"

section \<open>exec and test\<close>

text \<open>The \<^verbatim>\<open>int\<close> arguments of \<^verbatim>\<open>lre_exec\<close> are \<^verbatim>\<open>uint32_t\<close> values: negative from \<open>2 ^ 31\<close> on.\<close>

definition to_int :: "nat \<Rightarrow> int" where
  "to_int n = sint (word_of_nat n :: u32)"

definition regexp_exec :: "allocator \<Rightarrow> regexp \<Rightarrow> jsstring \<Rightarrow> (js_result \<times> regexp) option" where
  "regexp_exec alloc r input =
     (case (lre_get_flags (bc r), lre_get_capture_count (bc r), start_index input (unat (last_index r))) of
        (Some flags, Some count, Some rlast) \<Rightarrow>
          (let global = flags AND LRE_FLAG_GLOBAL \<noteq> 0;
               sticky = flags AND LRE_FLAG_STICKY \<noteq> 0;
               resume = global \<or> sticky;
               rlast = (if resume then rlast else 0);
               r = (if resume then r else r\<lparr>last_index := 0\<rparr>)
           in if resume \<and> rlast > js_len input then Some (Js_nil, r\<lparr>last_index := 0\<rparr>)
              else
                (case lre_exec alloc (replicate (CAPTURE_COUNT_MAX * 2) SUninit) (bc r) (js_units input)
                        (to_int rlast) (to_int (js_len input)) (if is_wide_char input then 1 else 0) of
                   None \<Rightarrow> None
                 | Some Fault \<Rightarrow> Some (Js_undefined, r)
                 | Some (Ret ret captures) \<Rightarrow>
                     if ret < 0 then Some (Js_error ''out of memory in regexp execution'', r)
                     else if ret = 0 then
                       Some (Js_nil, if resume then r\<lparr>last_index := 0\<rparr> else r)
                     else if resume then
                       (case byte_index input (captures ! 1) of
                          None \<Rightarrow> Some (Js_undefined, r)
                        | Some i \<Rightarrow>
                            Some (match_object input (bc r) count flags captures, r\<lparr>last_index := i\<rparr>))
                     else Some (match_object input (bc r) count flags captures, r)))
      | _ \<Rightarrow> Some (Js_undefined, r))"

text \<open>\<open>Inl\<close> is an error that is raised, of \<^verbatim>\<open>test\<close> itself or inside \<^verbatim>\<open>exec\<close>.\<close>

definition regexp_test :: "allocator \<Rightarrow> nat \<Rightarrow> regexp \<Rightarrow> jsstring \<Rightarrow> ((string + bool) \<times> regexp) option" where
  "regexp_test alloc nargs r input =
     (if nargs \<noteq> 2 then Some (Inl ''expecting exactly 2 arguments'', r)
      else (case regexp_exec alloc r input of
          None \<Rightarrow> None
        | Some (Js_error e, r) \<Rightarrow> Some (Inl e, r)
        | Some (Js_undefined, r) \<Rightarrow> None
        | Some (res, r) \<Rightarrow> Some (Inr (res \<noteq> Js_nil), r)))"

end
