(* ===== verification/JsProps.thy ===== *)
theory JsProps
  imports Jsregexp MatchBounds
begin

text \<open>
  Properties of the Lua module's objects in \<^verbatim>\<open>jsregexp.c\<close>: flags and \<open>last_index\<close>, where a search
  starts in a string with wide characters, the match object, and the places where the module
  leaves defined behaviour.
\<close>

section \<open>Flags round trip\<close>

definition flag_table :: "(char \<times> nat) list" where
  "flag_table = [(CHR ''d'', 6), (CHR ''i'', 1), (CHR ''g'', 0), (CHR ''m'', 2), (CHR ''n'', 7),
     (CHR ''s'', 3), (CHR ''u'', 4), (CHR ''v'', 8), (CHR ''y'', 5)]"

lemmas flag_defs = LRE_FLAG_INDICES_def LRE_FLAG_IGNORECASE_def LRE_FLAG_GLOBAL_def
  LRE_FLAG_MULTILINE_def LRE_FLAG_NAMED_GROUPS_def LRE_FLAG_DOTALL_def LRE_FLAG_UNICODE_def
  LRE_FLAG_UNICODE_SETS_def LRE_FLAG_STICKY_def

lemma bit_flag: "bit (push_bit k 1 :: u32) n \<longleftrightarrow> n = k \<and> k < 32"
  by (auto simp: bit_push_bit_iff bit_1_iff simp del: push_bit_of_1)

lemma and_flag: "(f :: u32) AND push_bit n 1 \<noteq> 0 \<longleftrightarrow> bit f n"
proof
  assume nz: "f AND push_bit n 1 \<noteq> 0"
  show "bit f n"
  proof (rule ccontr)
    assume "\<not> bit f n"
    then have "f AND push_bit n 1 = 0"
      by (intro bit_word_eqI) (auto simp: bit_and_iff bit_flag simp del: push_bit_of_1)
    with nz show False by simp
  qed
next
  assume b: "bit f n"
  then have "n < 32" using bit_imp_le_length [of f n] by simp
  with b have "bit (f AND push_bit n 1) n" by (simp add: bit_and_iff bit_flag del: push_bit_of_1)
  then show "f AND push_bit n 1 \<noteq> 0" by auto
qed

definition pick :: "nat \<Rightarrow> u32 \<Rightarrow> u32" where
  "pick k g = (if bit g k then push_bit k 1 else 0)"

lemma bit_pick: "bit (pick k g) n \<longleftrightarrow> n = k \<and> bit g k"
  using bit_imp_le_length [of g k] by (auto simp: pick_def bit_flag simp del: push_bit_of_1)

lemma compile_flag_loop_append: "compile_flag_loop f (s @ t) = compile_flag_loop (compile_flag_loop f s) t"
  by (induction s arbitrary: f) auto

lemma flag_letters:
  "flag_of_char CHR ''d'' = push_bit 6 1" "flag_of_char CHR ''i'' = push_bit 1 1"
  "flag_of_char CHR ''g'' = push_bit 0 1" "flag_of_char CHR ''m'' = push_bit 2 1"
  "flag_of_char CHR ''n'' = push_bit 7 1" "flag_of_char CHR ''s'' = push_bit 3 1"
  "flag_of_char CHR ''u'' = push_bit 4 1" "flag_of_char CHR ''v'' = push_bit 8 1"
  "flag_of_char CHR ''y'' = push_bit 5 1"
  by (simp_all only: flag_of_char_def flag_defs) simp_all

lemma compile_flag_if:
  "flag_of_char c = push_bit k 1 \<Longrightarrow> compile_flag_loop f (if bit g k then [c] else []) = f OR pick k g"
  by (simp add: pick_def del: push_bit_of_1)

lemma flags_print_parse: "compile_flag_loop f (flags_string g) = f OR take_bit 9 g"
proof -
  have "compile_flag_loop f (flags_string g) =
      f OR pick 6 g OR pick 1 g OR pick 0 g OR pick 2 g OR pick 7 g OR pick 3 g OR pick 4 g OR pick 8 g OR pick 5 g"
    unfolding flags_string_def flag_defs and_flag compile_flag_loop_append
    by (simp only: compile_flag_if flag_letters or.assoc)
  also have "\<dots> = f OR take_bit 9 g"
  proof (rule bit_word_eqI)
    fix n :: nat
    have "n < 9 \<longleftrightarrow> n = 0 \<or> n = 1 \<or> n = 2 \<or> n = 3 \<or> n = 4 \<or> n = 5 \<or> n = 6 \<or> n = 7 \<or> n = 8" by arith
    then show "bit (f OR pick 6 g OR pick 1 g OR pick 0 g OR pick 2 g OR pick 7 g OR pick 3 g OR pick 4 g
        OR pick 8 g OR pick 5 g) n = bit (f OR take_bit 9 g) n"
      unfolding bit_or_iff bit_pick bit_take_bit_iff by blast
  qed
  finally show ?thesis .
qed

text \<open>
  C31. The flags of a regexp object read back: parsing the string that the \<open>flags\<close> field shows
  gives the flags in the header again (the nine flags there are, in any header).
\<close>

theorem flags_roundtrip: "compile_flag_loop 0 (flags_string g) = take_bit 9 g"
  by (simp add: flags_print_parse)

text \<open>
  C32. Writing \<open>last_index\<close> and reading it back gives the number written, for every number a C
  \<^verbatim>\<open>int\<close> from 1 up can hold; other numbers and other keys are refused and change nothing.
\<close>

theorem last_index_roundtrip:
  assumes "lre_get_flags (bc r) = Some flags" and "1 \<le> n" and "n < 2 ^ 31"
  shows "\<exists>r'. regexp_newindex r ''last_index'' n = Inr r' \<and>
    regexp_index r' ''last_index'' = Some (Lua_number n) \<and> bc r' = bc r \<and> expr r' = expr r"
proof -
  have "uint (word_of_int (n - 1) + 1 :: u32) = n"
    using assms(2,3) by (simp add: uint_word_ariths uint_word_of_int)
  with assms(1,2) show ?thesis by (simp add: regexp_newindex_def regexp_index_def)
qed

theorem last_index_roundtrip_witness:
  "\<exists>r'. regexp_newindex \<lparr>expr = [], bc = [1, 0, 1, 0, 0, 0, 0, 0], last_index = 0\<rparr> ''last_index'' 5 = Inr r' \<and>
     regexp_index r' ''last_index'' = Some (Lua_number 5)"
  using last_index_roundtrip [of "\<lparr>expr = [], bc = [1, 0, 1, 0, 0, 0, 0, 0], last_index = 0\<rparr>" 1 5]
  by (auto simp: lre_get_flags_def get_u16_def RE_HEADER_FLAGS_def)

section \<open>Group names\<close>

lemma cstr_name: "\<forall>b \<in> set n. b \<noteq> 0 \<Longrightarrow> cstr (n @ 0 # rest) = n"
  by (simp add: cstr_def)

lemma group_name_step:
  assumes "n \<noteq> []" and "\<forall>b \<in> set n. b \<noteq> 0"
  shows "group_name_walk (pre @ n @ 0 # rest) (length pre) (Suc k) =
    map_option (Cons (Some n)) (group_name_walk (pre @ n @ 0 # rest) (length pre + length n + 1) k)"
proof -
  obtain b bs where n: "n = b # bs" using assms(1) by (cases n) auto
  with assms(2) show ?thesis by (simp add: rd_def cstr_name del: upt_Suc) (simp add: cstr_def)
qed

text \<open>The names as the compiler stores them: each with a zero and the byte of its scope.\<close>

definition stored_names :: "(u8 list \<times> u8) list \<Rightarrow> u8 list" where
  "stored_names ns = concat (map (\<lambda>(n, scope). n @ [0, scope]) ns)"

text \<open>
  C37. Names after the first are assigned to the wrong groups: the walk steps over one byte after
  a name, but two are stored (the zero and the scope). With three groups, all named and outside
  alternatives, the first name is right, the second group gets no name and the third group gets
  the name of the second.
\<close>

theorem group_names_shifted:
  assumes "\<And>n. n \<in> {n1, n2, n3} \<Longrightarrow> n \<noteq> [] \<and> 0 \<notin> set n"
  shows "group_name_walk (pre @ stored_names [(n1, 0), (n2, 0), (n3, 0)]) (length pre) 3 =
    Some [Some n1, None, Some n2]"
proof -
  let ?code = "pre @ stored_names [(n1, 0), (n2, 0), (n3, 0)]"
  have n: "n1 \<noteq> []" "\<forall>b \<in> set n1. b \<noteq> 0" "n2 \<noteq> []" "\<forall>b \<in> set n2. b \<noteq> 0"
    using assms [of n1] assms [of n2] by auto
  have c1: "?code = pre @ n1 @ 0 # ([0] @ n2 @ [0, 0] @ n3 @ [0, 0])" by (simp add: stored_names_def)
  have c2: "?code = (pre @ n1 @ [0, 0]) @ n2 @ 0 # ([0] @ n3 @ [0, 0])" by (simp add: stored_names_def)
  have "group_name_walk ?code (length pre + length n1 + 2) 1 = Some [Some n2]"
    using group_name_step [OF n(3,4), of "pre @ n1 @ [0, 0]" "[0] @ n3 @ [0, 0]" 0] unfolding c2 [symmetric]
    by simp
  moreover have "rd ?code (length pre + length n1 + 1) = Some 0"
    by (simp add: rd_def stored_names_def nth_append)
  ultimately have "group_name_walk ?code (length pre + length n1 + 1) 2 = Some [None, Some n2]"
    by (simp add: eval_nat_numeral)
  then show ?thesis
    using group_name_step [OF n(1,2), of pre "[0] @ n2 @ [0, 0] @ n3 @ [0, 0]" 2]
    unfolding c1 [symmetric] by (simp add: eval_nat_numeral)
qed

theorem group_names_shifted_witness:
  "group_name_walk ([9] @ stored_names [([0x61], 0), ([0x62], 0), ([0x63], 0)]) (length [9 :: u8]) 3 =
    Some [Some [0x61], None, Some [0x62]]"
  by (rule group_names_shifted) auto

section \<open>Where a wide match resumes\<close>

lemma jsstring_new_wide:
  assumes new: "jsstring_new (utf8_bytes cs) = Some (Inr input)" and "is_wide_char input" and chars: "text_chars cs"
    and small: "length (utf8_bytes cs) < 2 ^ 32"
  shows "js_units input = utf16_of cs @ [0]" and "js_len input = length (utf16_of cs)"
    and "bstr_len input = length (utf8_bytes cs)"
    and "length (rev_indices input) = bstr_len input + 1"
    and "length (indices input) = bstr_len input + 1"
    and "i \<le> length cs \<Longrightarrow> indices input ! unit_pos cs i = word_of_nat (byte_pos cs i)"
    and "i \<le> length cs \<Longrightarrow> rev_indices input ! byte_pos cs i = word_of_nat (unit_pos cs i)"
    and "k \<le> bstr_len input \<Longrightarrow> (\<And>i. i \<le> length cs \<Longrightarrow> byte_pos cs i \<noteq> k) \<Longrightarrow> rev_indices input ! k = 0"
proof -
  from utf8_to_utf16_maps [OF chars] obtain ind rind where
    conv: "utf8_to_utf16 (utf8_bytes cs @ [0]) (length (utf8_bytes cs)) = Some (Some (utf16_of cs, ind, rind))"
    and len: "length ind = length (utf8_bytes cs) + 1" "length rind = length (utf8_bytes cs) + 1"
    and maps: "\<forall>i \<le> length cs. ind ! unit_pos cs i = word_of_nat (byte_pos cs i) \<and>
       rind ! byte_pos cs i = word_of_nat (unit_pos cs i)"
    and other: "\<forall>k \<le> length (utf8_bytes cs). (\<forall>i \<le> length cs. byte_pos cs i \<noteq> k) \<longrightarrow> rind ! k = 0"
    by blast
  have inp: "input = \<lparr>is_wide_char = True, js_len = length (utf16_of cs), bstr = strdup (utf8_bytes cs),
      bstr_len = length (utf8_bytes cs), indices = ind, rev_indices = rind, js_units = utf16_of cs @ [0]\<rparr>"
    using new assms(2) conv small
    by (auto simp: jsstring_new_def Let_def unat_of_nat split: option.splits bool.splits if_splits)
  show "js_units input = utf16_of cs @ [0]" "js_len input = length (utf16_of cs)"
    "bstr_len input = length (utf8_bytes cs)" "length (rev_indices input) = bstr_len input + 1"
    "length (indices input) = bstr_len input + 1"
    by (simp_all add: inp len)
  show "i \<le> length cs \<Longrightarrow> indices input ! unit_pos cs i = word_of_nat (byte_pos cs i)"
    "i \<le> length cs \<Longrightarrow> rev_indices input ! byte_pos cs i = word_of_nat (unit_pos cs i)"
    "k \<le> bstr_len input \<Longrightarrow> (\<And>i. i \<le> length cs \<Longrightarrow> byte_pos cs i \<noteq> k) \<Longrightarrow> rev_indices input ! k = 0"
    using maps other by (auto simp: inp)
qed

lemma next_boundary_text:
  assumes new: "jsstring_new (utf8_bytes cs) = Some (Inr input)" and wide: "is_wide_char input"
    and chars: "text_chars cs" and small: "length (utf8_bytes cs) < 2 ^ 32"
    and j: "j \<le> length cs" and "0 < i" and "i \<le> byte_pos cs j" and "\<And>k. k < j \<Longrightarrow> byte_pos cs k < i"
  shows "next_boundary input i = Some (byte_pos cs j)"
proof -
  note inp = jsstring_new_wide [OF new wide chars small]
  have total: "byte_pos cs (length cs) = bstr_len input" by (simp add: byte_pos_def inp)
  have le: "byte_pos cs j \<le> bstr_len input" using pos_bounds(1) [OF chars j] total by simp
  show ?thesis
    using assms(6-8)
  proof (induction "byte_pos cs j - i" arbitrary: i)
    case 0
    then have i: "i = byte_pos cs j" by simp
    show ?case
    proof (cases "i < bstr_len input")
      case False
      then show ?thesis by (subst next_boundary.simps) (simp add: i)
    next
      case True
      have "0 < j" using 0 i by (cases j) (auto simp: byte_pos_def)
      then have "0 < unit_pos cs j" using unit_pos_less [of 0 j cs] j by (simp add: unit_pos_def)
      moreover have "unit_pos cs j < 2 ^ 32"
        using pos_bounds(2) [OF chars j] small by (simp add: byte_pos_def)
      ultimately have "(word_of_nat (unit_pos cs j) :: u32) \<noteq> 0"
        by (simp add: word_unat_eq_iff unat_of_nat)
      then show ?thesis
        using True inp(4) inp(7) [OF j] by (subst next_boundary.simps) (simp add: i rd_def)
    qed
  next
    case (Suc d)
    have lt: "i < byte_pos cs j" using Suc.hyps(2) by simp
    have "byte_pos cs k \<noteq> i" if "k \<le> length cs" for k
    proof (cases "k < j")
      case True
      with Suc.prems(3) [of k] show ?thesis by simp
    next
      case False
      then have "byte_pos cs j \<le> byte_pos cs k"
        using byte_pos_less [OF chars, of j k] that by (cases "j = k") auto
      with lt show ?thesis by simp
    qed
    then have "rev_indices input ! i = 0" using inp(8) [of i] lt le by auto
    then have "next_boundary input i = next_boundary input (i + 1)"
      using lt le inp(4) by (subst next_boundary.simps) (simp add: rd_def)
    moreover have "next_boundary input (i + 1) = Some (byte_pos cs j)"
      using Suc.prems lt Suc.hyps(2) by (intro Suc.hyps(1)) (auto intro: less_SucI)
    ultimately show ?case by simp
  qed
qed

text \<open>
  C17. For a string with characters outside ASCII, \<open>last_index\<close> is turned from a byte index into
  the unit where the first character at or after that byte starts: a byte index inside a
  character moves on to the next character, the end of the string stays the end.
\<close>

theorem start_index_correct:
  assumes "jsstring_new (utf8_bytes cs) = Some (Inr input)" and "is_wide_char input" and "text_chars cs"
    and "length (utf8_bytes cs) < 2 ^ 32"
    and "j \<le> length cs" and "i \<le> byte_pos cs j" and "\<And>k. k < j \<Longrightarrow> byte_pos cs k < i"
  shows "start_index input i = Some (unit_pos cs j)"
proof (cases "i = 0")
  case True
  with assms(7) have "j = 0" by (cases j) auto
  with True show ?thesis by (simp add: start_index_def unit_pos_def)
next
  case False
  note inp = jsstring_new_wide [OF assms(1-4)]
  have le: "byte_pos cs j \<le> bstr_len input"
    using pos_bounds(1) [OF assms(3,5)] by (simp add: byte_pos_def inp)
  have "unit_pos cs j < 2 ^ 32"
    using pos_bounds(2) [OF assms(3,5)] assms(4) by (simp add: byte_pos_def)
  with False le assms(2,6) inp(4) inp(7) [OF assms(5)]
    next_boundary_text [OF assms(1-5) _ assms(6,7)]
  show ?thesis by (simp add: start_index_def rd_def unat_of_nat)
qed

theorem start_index_correct_witness:
  "\<exists>input. jsstring_new [0x61, 0xf0, 0x9f, 0x98, 0x80, 0x62] = Some (Inr input) \<and>
     start_index input 3 = Some 3"
proof -
  let ?cs = "[0x61, 0x1f600, 0x62] :: u32 list"
  have enc: "utf8_bytes ?cs = [0x61, 0xf0, 0x9f, 0x98, 0x80, 0x62]" by code_simp
  define input where "input = (case jsstring_new (utf8_bytes ?cs) of Some (Inr i) \<Rightarrow> i)"
  have new: "jsstring_new (utf8_bytes ?cs) = Some (Inr input)"
    and wide: "is_wide_char input"
    unfolding input_def by code_simp+
  have pos: "byte_pos ?cs 0 = 0" "byte_pos ?cs 1 = 1" "byte_pos ?cs 2 = 5" "unit_pos ?cs 2 = 3" by code_simp+
  have "start_index input 3 = Some (unit_pos ?cs 2)"
  proof (rule start_index_correct [OF new wide])
    show "text_chars ?cs" by (simp add: text_chars_def)
    show "length (utf8_bytes ?cs) < 2 ^ 32" by (simp only: enc) simp
    show "3 \<le> byte_pos ?cs 2" by (simp only: pos)
    show "byte_pos ?cs k < 3" if "k < 2" for k
      using that pos by (auto simp: less_2_cases_iff)
  qed simp
  with new pos show ?thesis by (simp only: enc) blast
qed

section \<open>State between calls\<close>

lemma next_boundary_defined:
  "length (rev_indices input) = bstr_len input + 1 \<Longrightarrow> i \<le> bstr_len input \<Longrightarrow>
   \<exists>j \<le> bstr_len input. next_boundary input i = Some j"
proof (induction input i rule: next_boundary.induct)
  case (1 input i)
  show ?case
    using 1 by (subst next_boundary.simps) (auto simp: rd_def)
qed

lemma start_index_defined:
  assumes "is_wide_char input \<Longrightarrow> length (rev_indices input) = bstr_len input + 1"
  shows "\<exists>k. start_index input i = Some k"
  using next_boundary_defined [of input i] assms by (fastforce simp: start_index_def rd_def)

text \<open>
  A regexp without the flags \<^verbatim>\<open>g\<close> and \<^verbatim>\<open>y\<close> keeps no state: \<^verbatim>\<open>exec\<close> searches from the start
  whatever \<open>last_index\<close> is, and leaves it 0, matched or not.
\<close>

lemma exec_stateless:
  assumes "lre_get_flags (bc r) = Some flags"
    and "flags AND LRE_FLAG_GLOBAL = 0" and "flags AND LRE_FLAG_STICKY = 0"
    and "is_wide_char input \<Longrightarrow> length (rev_indices input) = bstr_len input + 1"
    and "lre_get_capture_count (bc r) = Some count"
  shows "regexp_exec alloc r input = regexp_exec alloc (r\<lparr>last_index := 0\<rparr>) input \<and>
    (\<forall>res r'. regexp_exec alloc r input = Some (res, r') \<longrightarrow> r' = r\<lparr>last_index := 0\<rparr>)"
proof -
  obtain k where k: "start_index input (unat (last_index r)) = Some k"
    using start_index_defined [OF assms(4)] by blast
  obtain k0 where k0: "start_index input (unat (last_index (r\<lparr>last_index := 0\<rparr>))) = Some k0"
    using start_index_defined [OF assms(4)] by blast
  show ?thesis
    using assms(1-3,5) k k0
    by (auto simp: regexp_exec_def Let_def split: option.splits outcome.splits if_splits)
qed

section \<open>Match objects of narrow strings\<close>

lemma utf8_contains_non_ascii_bytes:
  "0 \<notin> set s \<Longrightarrow> utf8_contains_non_ascii (s @ [0]) = Some (\<exists>c \<in> set s. c AND 0x80 \<noteq> 0)"
  by (induction s) auto

lemma cstr_no_zero: "0 \<notin> set s \<Longrightarrow> cstr s = s" "0 \<notin> set s \<Longrightarrow> cstr (s @ [0]) = s"
  by (induction s) (auto simp: cstr_def)

lemma jsstring_new_narrow:
  assumes new: "jsstring_new s = Some (Inr input)" and narrow: "\<not> is_wide_char input" and "0 \<notin> set s"
  shows "js_units input = map ucast (s @ [0])" and "js_len input \<le> length s" and "cstr (bstr input) = s"
proof -
  have "unat (word_of_nat (length s) :: u32) \<le> length s" by (simp add: unat_of_nat)
  then show "js_units input = map ucast (s @ [0])" "js_len input \<le> length s" "cstr (bstr input) = s"
    using new narrow cstr_no_zero [OF assms(3)]
    by (auto simp: jsstring_new_def Let_def strdup_def split: option.splits bool.splits if_splits)
qed

lemma ucast_u8_u16 [simp]: "(ucast (ucast (b :: u8) :: u16) :: u8) = b"
  by (rule bit_word_eqI) (simp add: bit_simps)

lemma capture_string_narrow:
  assumes "\<not> is_wide_char input" and "js_units input = map ucast (s @ [0])"
    and "capture_string input x y = Some (str, rng)" and "slots_in (length s) [x, y]"
  shows "\<exists>a b. a \<le> b \<and> b \<le> length s \<and> str = take (b - a) (drop a s)"
proof -
  have "map ucast (map ucast zs :: u16 list) = zs" for zs :: "u8 list"
    by (induction zs) simp_all
  then have sub: "map ucast (take k (drop a (map ucast (s @ [0]) :: u16 list))) = take k (drop a (s @ [0]))" for a k
    by (simp only: take_map [symmetric] drop_map [symmetric])
  show ?thesis
    using assms
    by (auto simp: capture_string_def sub slots_in_def simp del: map_append split: slot.splits if_splits)
qed

lemma capture_strings_all:
  assumes "capture_strings input caps n = Some strs"
    and "\<And>x y str rng. capture_string input x y = Some (str, rng) \<Longrightarrow> x \<in> set caps \<Longrightarrow> y \<in> set caps \<Longrightarrow> P str"
  shows "length strs = n \<and> (\<forall>str \<in> set (map fst strs). P str)"
  using assms
proof (induction input caps n arbitrary: strs rule: capture_strings.induct)
  case (2 input s e caps n)
  from 2(2) obtain c cs where "capture_string input s e = Some c" "capture_strings input caps n = Some cs"
    and strs: "strs = c # cs" by (auto split: option.splits)
  moreover from this 2(1) [OF this(2)] 2(3) have "length cs = n \<and> (\<forall>str \<in> set (map fst cs). P str)"
    by (meson list.set_intros(2))
  moreover have "P (fst c)" using 2(3) [of s e "fst c" "snd c"] calculation by simp
  ultimately show ?case by simp
qed auto

lemma to_int_small: "n < 2 ^ 31 \<Longrightarrow> to_int n = int n"
  by (simp add: to_int_def sint_uint signed_take_bit_int_eq_self unsigned_of_nat take_bit_nat_eq_self)

lemma to_int_large:
  assumes "2 ^ 31 \<le> n" and "n < 2 ^ 32"
  shows "to_int n < 0"
proof -
  obtain m where n: "n = 2 ^ 31 + m" using assms(1) by (rule less_eqE)
  with assms(2) have m: "m < 2 ^ 31" by simp
  then have "uint (word_of_nat n :: u32) = 2 ^ 31 + int m"
    by (simp only: n unsigned_of_nat) (simp add: take_bit_nat_eq_self)
  moreover have "(2 ^ 32 + int m) mod 2 ^ 32 = int m"
    using m by simp
  ultimately show ?thesis
    using m by (simp add: to_int_def sint_uint signed_take_bit_eq_take_bit_shift take_bit_eq_mod)
qed

lemma lre_exec_end:
  "lre_exec alloc capture0 code units cindex clen type = Some (Ret v caps) \<Longrightarrow> \<exists>e. buf_offset type clen = Some e"
  by (auto simp: lre_exec_def split: option.splits)

lemma unat_u32: "unat (x :: u32) < 2 ^ 32"
  using unsigned_less [where w = x] by simp

lemma narrow_length:
  assumes "jsstring_new s = Some (Inr input)" and "\<not> is_wide_char input"
  shows "js_len input < 2 ^ 32"
  using assms unat_u32 [of "word_of_nat (length s)"]
  by (auto simp: jsstring_new_def Let_def split: option.splits bool.splits if_splits)

lemma narrow_end:
  assumes "js_len input < 2 ^ 32" and "buf_offset 0 (to_int (js_len input)) = Some e"
  shows "e = js_len input \<and> js_len input < 2 ^ 31"
proof (cases "js_len input < 2 ^ 31")
  case True
  with assms(2) show ?thesis by (auto simp: to_int_small buf_offset_def split: if_splits)
next
  case False
  with assms to_int_large [of "js_len input"] show ?thesis by (simp add: buf_offset_def)
qed

lemma slots_in_mono: "slots_in e caps \<Longrightarrow> e \<le> n \<Longrightarrow> slots_in n caps"
  by (fastforce simp: slots_in_def elim!: slot_in.elims)

text \<open>The match object that is built from captures inside the string.\<close>

lemma match_object_narrow:
  assumes narrow: "\<not> is_wide_char input" and inp: "js_units input = map ucast (s @ [0])" "cstr (bstr input) = s"
    and caps: "slots_in e caps" "2 \<le> length caps" and e: "e \<le> length s" "e < 2 ^ 31"
    and m: "match_object input code count flags caps = Js_match m"
  shows "m_input m = s \<and> m_capture_count m = count \<and> length (m_captures m) = count \<and>
    (\<forall>c \<in> set (m_captures m). \<exists>a b. a \<le> b \<and> b \<le> length s \<and> c = take (b - a) (drop a s)) \<and>
    1 \<le> unat (m_index m) \<and> unat (m_index m) \<le> length s + 1"
    and "byte_index input (caps ! 1) = Some i \<Longrightarrow> unat i \<le> length s"
proof -
  have at: "unat i \<le> e" if "byte_index input (caps ! k) = Some i" and "k < 2" for k i
  proof -
    from that(1) narrow obtain q where q: "caps ! k = SPtr q" "i = word_of_nat q"
      by (auto simp: byte_index_def split: slot.splits if_splits)
    moreover have "caps ! k \<in> set caps" using that(2) caps(2) by simp
    ultimately have "q \<le> e" using caps(1) by (auto simp: slots_in_def)
    with e(2) show ?thesis by (simp add: q(2) unat_of_nat)
  qed
  then show "byte_index input (caps ! 1) = Some i \<Longrightarrow> unat i \<le> length s" using e(1) by fastforce
  from m obtain i strs where i: "byte_index input (caps ! 0) = Some i"
    and strs: "capture_strings input caps count = Some strs"
    and fields: "m_input m = cstr (bstr input)" "m_capture_count m = count" "m_index m = 1 + i"
      "m_captures m = map fst strs"
    by (auto simp: match_object_def Let_def split: option.splits if_splits)
  have "length strs = count \<and>
      (\<forall>str \<in> set (map fst strs). \<exists>a b. a \<le> b \<and> b \<le> length s \<and> str = take (b - a) (drop a s))"
  proof (rule capture_strings_all [OF strs])
    fix x y str rng
    assume "capture_string input x y = Some (str, rng)" "x \<in> set caps" "y \<in> set caps"
    then show "\<exists>a b. a \<le> b \<and> b \<le> length s \<and> str = take (b - a) (drop a s)"
      using capture_string_narrow [OF narrow inp(1)] slots_in_mono [OF caps(1) e(1)] by (auto simp: slots_in_def)
  qed
  moreover have "unat i \<le> e" using at [OF i] by simp
  moreover from this have "unat (1 + i) = unat i + 1" using e(2) by (simp add: unat_word_ariths)
  ultimately show "m_input m = s \<and> m_capture_count m = count \<and> length (m_captures m) = count \<and>
    (\<forall>c \<in> set (m_captures m). \<exists>a b. a \<le> b \<and> b \<le> length s \<and> c = take (b - a) (drop a s)) \<and>
    1 \<le> unat (m_index m) \<and> unat (m_index m) \<le> length s + 1"
    using e(1) by (simp add: fields inp(2))
qed

lemma exec_match_run:
  assumes exec: "regexp_exec alloc r input = Some (Js_match m, r')"
    and count: "lre_get_capture_count (bc r) = Some count" and flags: "lre_get_flags (bc r) = Some flags"
  obtains start v caps where
    "lre_exec alloc (replicate (CAPTURE_COUNT_MAX * 2) SUninit) (bc r) (js_units input)
       (to_int start) (to_int (js_len input)) (if is_wide_char input then 1 else 0) = Some (Ret v caps)"
    and "0 < v" and "start \<le> js_len input"
    and "match_object input (bc r) count flags caps = Js_match m"
    and "flags AND LRE_FLAG_GLOBAL \<noteq> 0 \<or> flags AND LRE_FLAG_STICKY \<noteq> 0 \<Longrightarrow>
      byte_index input (caps ! 1) = Some (last_index r')"
proof -
  let ?resume = "flags AND LRE_FLAG_GLOBAL \<noteq> 0 \<or> flags AND LRE_FLAG_STICKY \<noteq> 0"
  obtain k where k: "start_index input (unat (last_index r)) = Some k"
    using exec by (auto simp: regexp_exec_def count flags split: option.splits)
  let ?start = "if ?resume then k else 0"
  note run = exec [unfolded regexp_exec_def count flags k Let_def option.case prod.case]
  have le: "?start \<le> js_len input" using run by (auto split: if_splits)
  with run show thesis
    by (auto intro!: that [of ?start] split: if_splits option.splits outcome.splits)
qed

text \<open>
  C18. The match object of an ASCII string without zero bytes, whatever the length, the expression
  and the allocator are: if \<^verbatim>\<open>exec\<close> returns a match, its \<^verbatim>\<open>input\<close> is the string, there is one entry
  for each group and for the whole match, each of them a piece of the string, \<^verbatim>\<open>index\<close> counts from
  1 inside the string or one past it, and with \<^verbatim>\<open>g\<close> or \<^verbatim>\<open>y\<close> the next search starts inside the
  string or at its end.
\<close>

theorem exec_narrow_match:
  assumes new: "jsstring_new s = Some (Inr input)" and narrow: "\<not> is_wide_char input" and zero: "0 \<notin> set s"
    and exec: "regexp_exec alloc r input = Some (Js_match m, r')"
    and count: "lre_get_capture_count (bc r) = Some count" and flags: "lre_get_flags (bc r) = Some flags"
  shows "m_input m = s \<and> m_capture_count m = count \<and> length (m_captures m) = count \<and>
    (\<forall>c \<in> set (m_captures m). \<exists>a b. a \<le> b \<and> b \<le> length s \<and> c = take (b - a) (drop a s)) \<and>
    1 \<le> unat (m_index m) \<and> unat (m_index m) \<le> length s + 1 \<and>
    (flags AND LRE_FLAG_GLOBAL \<noteq> 0 \<or> flags AND LRE_FLAG_STICKY \<noteq> 0 \<longrightarrow> unat (last_index r') \<le> length s)"
proof -
  note inp = jsstring_new_narrow [OF new narrow zero]
  obtain start v caps where
    run: "lre_exec alloc (replicate (CAPTURE_COUNT_MAX * 2) SUninit) (bc r) (js_units input)
        (to_int start) (to_int (js_len input)) 0 = Some (Ret v caps)" and "0 < v"
    and le: "start \<le> js_len input" and m: "match_object input (bc r) count flags caps = Js_match m"
    and idx: "flags AND LRE_FLAG_GLOBAL \<noteq> 0 \<or> flags AND LRE_FLAG_STICKY \<noteq> 0 \<Longrightarrow>
      byte_index input (caps ! 1) = Some (last_index r')"
    using exec_match_run [OF exec count flags] narrow by auto
  obtain e where e: "buf_offset 0 (to_int (js_len input)) = Some e" using lre_exec_end [OF run] by blast
  from narrow_end [OF narrow_length [OF new narrow] e] have len: "e = js_len input" "js_len input < 2 ^ 31" by simp_all
  have caps: "slots_in e caps" "length caps = CAPTURE_COUNT_MAX * 2"
    using lre_exec_bounds [OF run _ _ e] \<open>0 < v\<close> le len
    by (auto simp: gives_up_def slots_in_def LRE_RET_MEMORY_ERROR_def to_int_small)
  have bounds: "2 \<le> length caps" "e \<le> length s" "e < 2 ^ 31"
    using caps(2) len inp(2) by (simp_all add: CAPTURE_COUNT_MAX_def)
  show ?thesis
    using match_object_narrow [OF narrow inp(1,3) caps(1) bounds m] idx by blast
qed

theorem exec_narrow_match_witness:
  "\<exists>input m r'. jsstring_new [0x78, 0x61] = Some (Inr input) \<and>
     regexp_exec (\<lambda>_ _. True) \<lparr>expr = [0x61], bc = [1, 0, 1, 0, 19, 0, 0, 0, 14, 6, 0, 0, 0, 6, 13, 245, 255, 255, 255,
       19, 0, 1, 0x61, 0, 20, 0, 16], last_index = 0\<rparr> input = Some (Js_match m, r') \<and>
     m_captures m = [[0x61]] \<and> unat (m_index m) \<le> 3 \<and> unat (last_index r') \<le> 2"
proof -
  define r where "r = \<lparr>expr = [0x61], bc = [1, 0, 1, 0, 19, 0, 0, 0, 14, 6, 0, 0, 0, 6, 13, 245, 255, 255, 255,
       19, 0, 1, 0x61, 0, 20, 0, 16], last_index = 0\<rparr>"
  define input where "input = (case jsstring_new [0x78, 0x61] of Some (Inr i) \<Rightarrow> i)"
  have new: "jsstring_new [0x78, 0x61] = Some (Inr input)" and narrow: "\<not> is_wide_char input"
    unfolding input_def by code_simp+
  define m where "m = (case regexp_exec (\<lambda>_ _. True) r input of Some (Js_match m, r') \<Rightarrow> m)"
  define r' where "r' = (case regexp_exec (\<lambda>_ _. True) r input of Some (Js_match m, r') \<Rightarrow> r')"
  have run: "regexp_exec (\<lambda>_ _. True) r input = Some (Js_match m, r')" and caps: "m_captures m = [[0x61]]"
    unfolding m_def r'_def r_def input_def by code_simp+
  have "lre_get_capture_count (bc r) = Some 1" "lre_get_flags (bc r) = Some 1"
    unfolding r_def by code_simp+
  from exec_narrow_match [OF new narrow _ run this]
  have "unat (m_index m) \<le> 3" "unat (last_index r') \<le> 2"
    by (auto simp: LRE_FLAG_GLOBAL_def)
  with new run caps show ?thesis unfolding r_def by blast
qed

section \<open>Undefined behaviour\<close>

lemma capture_strings_null:
  "is_wide_char input \<Longrightarrow> k < n \<Longrightarrow> captures ! (2 * k) = SNull \<Longrightarrow> capture_strings input captures n = None"
proof (induction input captures n arbitrary: k rule: capture_strings.induct)
  case (2 input s e captures n)
  show ?case
  proof (cases k)
    case 0
    with 2 show ?thesis by (simp add: capture_string_def)
  next
    case (Suc j)
    with 2 show ?thesis by (cases "capture_string input s e") auto
  qed
qed auto

text \<open>
  A string of at least \<open>2 ^ 31\<close> ASCII bytes: \<open>len\<close> is a \<^verbatim>\<open>uint32_t\<close>, but the argument \<^verbatim>\<open>clen\<close> of the
  matcher an \<^verbatim>\<open>int\<close>, which is negative then.
\<close>

lemma exec_long_string_undefined:
  assumes "jsstring_new s = Some (Inr input)" and "\<not> is_wide_char input" and "2 ^ 31 \<le> js_len input"
    and "lre_get_flags (bc r) = Some flags" and "flags AND LRE_FLAG_GLOBAL = 0" and "flags AND LRE_FLAG_STICKY = 0"
    and "lre_get_capture_count (bc r) = Some n"
  shows "regexp_exec alloc r input = Some (Js_undefined, r\<lparr>last_index := 0\<rparr>)"
proof -
  have "to_int (js_len input) < 0"
    using assms(3) narrow_length [OF assms(1,2)] by (rule to_int_large)
  then have "buf_offset 0 (to_int (js_len input)) = None" by (simp add: buf_offset_def)
  then have "lre_exec alloc caps (bc r) (js_units input) k (to_int (js_len input)) 0 = Some outcome.Fault" for caps k
    by (simp add: lre_exec_def split: option.splits)
  with assms show ?thesis by (simp add: regexp_exec_def start_index_def)
qed

text \<open>Byte code as compiled for 255 groups and one register: set the register and match.\<close>

definition register_code :: "u8 list" where
  "register_code =
     [0, 0, 255, 1, 11, 0, 0, 0] @ [19, 0, 27, 0, 5, 0, 0, 0, 20, 0, 16]"

text \<open>
  A group that did not take part in a match of a string with characters outside ASCII makes
  \<^verbatim>\<open>exec\<close> read \<open>indices\<close> at the difference of a null pointer: whatever the other groups are,
  the match object is undefined.
\<close>

lemma unmatched_group_wide_undefined:
  assumes "is_wide_char input" and "k < count" and "captures ! (2 * k) = SNull"
  shows "match_object input code count flags captures = Js_undefined"
proof -
  have "capture_strings input captures count = None"
    using assms by (rule capture_strings_null)
  then show ?thesis by (simp add: match_object_def split: option.splits)
qed

text \<open>
  The array of captures in \<^verbatim>\<open>exec\<close> is too small for the byte code with the most groups: with
  255 groups and one loop register the matcher needs 511 elements, which a caller that asks
  \<^verbatim>\<open>lre_get_alloc_count\<close> provides, but \<^verbatim>\<open>exec\<close> has 510, and the code that sets the register
  writes behind them.
\<close>

lemma exec_capture_array_too_small:
  "lre_get_alloc_count register_code = Some 511 \<and>
   (\<exists>caps. lre_exec (\<lambda>_ _. True) (replicate 511 SUninit) register_code [] 0 0 0 = Some (Ret 1 caps)) \<and>
   regexp_exec (\<lambda>_ _. True) \<lparr>expr = [], bc = register_code, last_index = 0\<rparr>
     \<lparr>is_wide_char = False, js_len = 0, bstr = [0], bstr_len = 0, indices = [], rev_indices = [], js_units = [0]\<rparr> =
     Some (Js_undefined, \<lparr>expr = [], bc = register_code, last_index = 0\<rparr>)"
proof -
  have "lre_get_alloc_count register_code = Some 511" by code_simp
  moreover have "(case lre_exec (\<lambda>_ _. True) (replicate 511 SUninit) register_code [] 0 0 0 of
      Some (Ret v caps) \<Rightarrow> v = 1 | _ \<Rightarrow> False)" by code_simp
  then have "\<exists>caps. lre_exec (\<lambda>_ _. True) (replicate 511 SUninit) register_code [] 0 0 0 = Some (Ret 1 caps)"
    by (auto split: option.splits outcome.splits)
  moreover have "regexp_exec (\<lambda>_ _. True) \<lparr>expr = [], bc = register_code, last_index = 0\<rparr>
     \<lparr>is_wide_char = False, js_len = 0, bstr = [0], bstr_len = 0, indices = [], rev_indices = [], js_units = [0]\<rparr> =
     Some (Js_undefined, \<lparr>expr = [], bc = register_code, last_index = 0\<rparr>)" by code_simp
  ultimately show ?thesis by blast
qed

end
