(* ===== verification/Sort.thy ===== *)
theory Sort
  imports Prelude "HOL-Library.Multiset"
begin

text \<open>
  The sorting routine of \<^verbatim>\<open>libregexp/cutils.c\<close>: \<^verbatim>\<open>rqsort\<close>, a quick sort with a three-way
  partition and an explicit stack, which falls back to \<^verbatim>\<open>heapsortx\<close> at depth 50 and leaves
  fragments of at most six elements to an insertion sort.

  The array is a list of elements and the pointers into it are indices: the address
  \<open>base + i * size\<close> of the code is the index \<open>i\<close>, and \<^verbatim>\<open>ptr\<close>, the start of the segment that is
  being sorted, is \<open>b\<close>. The comparison is an argument, as in the code; the laws it must have are
  the locale \<open>comparator\<close>.
\<close>

section \<open>Exchanging and sifting\<close>

type_synonym 'a cmp = "'a \<Rightarrow> 'a \<Rightarrow> int"

definition swap_at :: "'a list \<Rightarrow> nat \<Rightarrow> nat \<Rightarrow> 'a list" where
  "swap_at xs i j = xs[i := xs ! j, j := xs ! i]"

text \<open>\<open>swap_block\<close>: the exchange of two runs of \<open>n\<close> elements.\<close>

primrec swap_block :: "'a list \<Rightarrow> nat \<Rightarrow> nat \<Rightarrow> nat \<Rightarrow> 'a list" where
  "swap_block xs i j 0 = xs"
| "swap_block xs i j (Suc n) = swap_at (swap_block xs i j n) (i + n) (j + n)"

text \<open>
  The inner loop of \<^verbatim>\<open>heapsortx\<close>: the element at \<open>r\<close> sinks below the larger of its children at
  \<open>2r+1\<close> and \<open>2r+2\<close>, inside the first \<open>n\<close> elements of the segment.
\<close>

function heap_sift :: "'a cmp \<Rightarrow> nat \<Rightarrow> nat \<Rightarrow> nat \<Rightarrow> 'a list \<Rightarrow> 'a list" where
  "heap_sift cmp b n r xs =
     (let c = 2 * r + 1 in
      if c < n then
        (let c = (if c < n - 1 \<and> cmp (xs ! (b + c)) (xs ! (b + c + 1)) \<le> 0 then c + 1 else c) in
         if cmp (xs ! (b + r)) (xs ! (b + c)) > 0 then xs
         else heap_sift cmp b n c (swap_at xs (b + r) (b + c)))
      else xs)"
  by pat_completeness auto
termination
  by (relation "measure (\<lambda>(cmp, b, n, r, xs). n - r)") (auto simp: Let_def split: if_splits)

declare heap_sift.simps [simp del]

primrec heap_build :: "'a cmp \<Rightarrow> nat \<Rightarrow> nat \<Rightarrow> nat \<Rightarrow> 'a list \<Rightarrow> 'a list" where
  "heap_build cmp b n 0 xs = xs"
| "heap_build cmp b n (Suc i) xs = heap_build cmp b n i (heap_sift cmp b n i xs)"

primrec heap_drain :: "'a cmp \<Rightarrow> nat \<Rightarrow> nat \<Rightarrow> 'a list \<Rightarrow> 'a list" where
  "heap_drain cmp b 0 xs = xs"
| "heap_drain cmp b (Suc i) xs =
     heap_drain cmp b i (heap_sift cmp b (Suc i) 0 (swap_at xs b (b + Suc i)))"

definition heapsortx :: "'a cmp \<Rightarrow> 'a list \<Rightarrow> nat \<Rightarrow> nat \<Rightarrow> 'a list" where
  "heapsortx cmp xs b nmemb =
     (if nmemb > 1 then
        heap_drain cmp b (nmemb - 1) (heap_build cmp b nmemb (nmemb div 2) xs)
      else xs)"

section \<open>The quick sort\<close>

definition med3 :: "'a cmp \<Rightarrow> 'a list \<Rightarrow> nat \<Rightarrow> nat \<Rightarrow> nat \<Rightarrow> nat" where
  "med3 cmp xs a b c =
     (if cmp (xs ! a) (xs ! b) < 0 then
        (if cmp (xs ! b) (xs ! c) < 0 then b else if cmp (xs ! a) (xs ! c) < 0 then c else a)
      else
        (if cmp (xs ! b) (xs ! c) > 0 then b else if cmp (xs ! a) (xs ! c) < 0 then a else c))"

text \<open>
  The two scans of the partition. Indices count from the start of the segment, whose first
  element is the pivot: \<open>i\<close> is \<^verbatim>\<open>pi\<close>, \<open>j\<close> is \<^verbatim>\<open>pj\<close>, and \<open>lt\<close> and \<open>gt\<close> delimit the elements
  identical to the pivot that were collected at both ends.
\<close>

function scan_up :: "'a cmp \<Rightarrow> nat \<Rightarrow> nat \<Rightarrow> 'a list \<Rightarrow> nat \<Rightarrow> nat \<Rightarrow> 'a list \<times> nat \<times> nat" where
  "scan_up cmp b j xs lt i =
     (if i < j \<and> cmp (xs ! b) (xs ! (b + i)) \<ge> 0 then
        (if cmp (xs ! b) (xs ! (b + i)) = 0
         then scan_up cmp b j (swap_at xs (b + lt) (b + i)) (lt + 1) (i + 1)
         else scan_up cmp b j xs lt (i + 1))
      else (xs, lt, i))"
  by pat_completeness auto
termination
  by (relation "measure (\<lambda>(cmp, b, j, xs, lt, i). j - i)") auto

function scan_down :: "'a cmp \<Rightarrow> nat \<Rightarrow> nat \<Rightarrow> 'a list \<Rightarrow> nat \<Rightarrow> nat \<Rightarrow> 'a list \<times> nat \<times> nat" where
  "scan_down cmp b i xs gt j =
     (let j = j - 1 in
      if i < j \<and> cmp (xs ! b) (xs ! (b + j)) \<le> 0 then
        (if cmp (xs ! b) (xs ! (b + j)) = 0
         then scan_down cmp b i (swap_at xs (b + (gt - 1)) (b + j)) (gt - 1) j
         else scan_down cmp b i xs gt j)
      else (xs, gt, j))"
  by pat_completeness auto
termination
  by (relation "measure (\<lambda>(cmp, b, i, xs, gt, j). j)") (auto simp: Let_def)

declare scan_up.simps [simp del] scan_down.simps [simp del]

text \<open>What a scan keeps, and why it stops.\<close>

lemma scan_up_rule:
  assumes "scan_up cmp b j xs lt i = (xs', lt', i')" and "P xs lt i"
    and "\<And>xs lt i. P xs lt i \<Longrightarrow> i < j \<Longrightarrow> cmp (xs ! b) (xs ! (b + i)) = 0 \<Longrightarrow>
      P (swap_at xs (b + lt) (b + i)) (lt + 1) (i + 1)"
    and "\<And>xs lt i. P xs lt i \<Longrightarrow> i < j \<Longrightarrow> cmp (xs ! b) (xs ! (b + i)) > 0 \<Longrightarrow> P xs lt (i + 1)"
  shows "P xs' lt' i' \<and> (i' < j \<longrightarrow> cmp (xs' ! b) (xs' ! (b + i')) < 0)"
  using assms(1,2)
proof (induction "j - i" arbitrary: xs lt i)
  case 0
  then show ?case by (subst (asm) scan_up.simps) (auto split: if_splits)
next
  case (Suc d)
  show ?case
  proof (cases "cmp (xs ! b) (xs ! (b + i)) \<ge> 0")
    case False
    with Suc.prems show ?thesis by (subst (asm) scan_up.simps) (auto split: if_splits)
  next
    case True
    have "i < j" using Suc.hyps(2) by simp
    show ?thesis
    proof (cases "cmp (xs ! b) (xs ! (b + i)) = 0")
      case eq: True
      have "scan_up cmp b j (swap_at xs (b + lt) (b + i)) (lt + 1) (i + 1) = (xs', lt', i')"
        using Suc.prems(1) True eq \<open>i < j\<close> by (subst (asm) scan_up.simps) simp
      then show ?thesis
        using Suc.hyps assms(3) [OF Suc.prems(2) \<open>i < j\<close> eq] by (intro Suc.hyps(1)) simp_all
    next
      case False
      then have gt: "cmp (xs ! b) (xs ! (b + i)) > 0" using True by simp
      have "scan_up cmp b j xs lt (i + 1) = (xs', lt', i')"
        using Suc.prems(1) gt \<open>i < j\<close> by (subst (asm) scan_up.simps) simp
      then show ?thesis
        using Suc.hyps assms(4) [OF Suc.prems(2) \<open>i < j\<close> gt] by (intro Suc.hyps(1)) simp_all
    qed
  qed
qed

lemma scan_down_rule:
  assumes "scan_down cmp b i xs gt j = (xs', gt', j')" and "P xs gt j"
    and "\<And>xs gt j. P xs gt (Suc j) \<Longrightarrow> i < j \<Longrightarrow> cmp (xs ! b) (xs ! (b + j)) = 0 \<Longrightarrow>
      P (swap_at xs (b + (gt - 1)) (b + j)) (gt - 1) j"
    and "\<And>xs gt j. P xs gt (Suc j) \<Longrightarrow> i < j \<Longrightarrow> cmp (xs ! b) (xs ! (b + j)) < 0 \<Longrightarrow> P xs gt j"
  shows "\<exists>k. j' = k - 1 \<and> P xs' gt' k \<and> (i < j' \<longrightarrow> cmp (xs' ! b) (xs' ! (b + j')) > 0)"
  using assms(1,2)
proof (induction j arbitrary: xs gt)
  case 0
  then show ?case by (subst (asm) scan_down.simps) (auto simp: Let_def)
next
  case (Suc j)
  show ?case
  proof (cases "i < j \<and> cmp (xs ! b) (xs ! (b + j)) \<le> 0")
    case False
    with Suc.prems show ?thesis
      by (subst (asm) scan_down.simps) (auto simp: Let_def intro!: exI [of _ "Suc j"])
  next
    case True
    show ?thesis
    proof (cases "cmp (xs ! b) (xs ! (b + j)) = 0")
      case eq: True
      have "scan_down cmp b i (swap_at xs (b + (gt - 1)) (b + j)) (gt - 1) j = (xs', gt', j')"
        using Suc.prems(1) True eq by (subst (asm) scan_down.simps) simp
      then show ?thesis using Suc.IH assms(3) [OF Suc.prems(2) conjunct1 [OF True] eq] by simp
    next
      case False
      then have lt: "cmp (xs ! b) (xs ! (b + j)) < 0" using True by simp
      have "scan_down cmp b i xs gt j = (xs', gt', j')"
        using Suc.prems(1) True lt by (subst (asm) scan_down.simps) simp
      then show ?thesis using Suc.IH assms(4) [OF Suc.prems(2) conjunct1 [OF True] lt] by simp
    qed
  qed
qed

text \<open>The \<^verbatim>\<open>for(;;)\<close> of the partition; it returns the array and the three borders.\<close>

lemma scan_up_ge: "(xs', lt', i') = scan_up cmp b j xs lt i \<Longrightarrow> i \<le> i'"
  using scan_up_rule [of cmp b j xs lt i xs' lt' i' "\<lambda>xs lt k. i \<le> k"] by force

lemma scan_down_le: "(xs', gt', j') = scan_down cmp b i xs gt j \<Longrightarrow> j' \<le> j"
  using scan_down_rule [of cmp b i xs gt j xs' gt' j' "\<lambda>xs gt k. k \<le> j"] by force

function part_loop ::
  "'a cmp \<Rightarrow> nat \<Rightarrow> 'a list \<Rightarrow> nat \<Rightarrow> nat \<Rightarrow> nat \<Rightarrow> nat \<Rightarrow> 'a list \<times> nat \<times> nat \<times> nat" where
  "part_loop cmp b xs lt i gt j =
     (case scan_up cmp b j xs lt i of (xs, lt, i) \<Rightarrow>
      case scan_down cmp b i xs gt j of (xs, gt, j) \<Rightarrow>
        if i \<ge> j then (xs, lt, i, gt)
        else part_loop cmp b (swap_at xs (b + i) (b + j)) lt (i + 1) gt j)"
  by pat_completeness auto
termination
  by (relation "measure (\<lambda>(cmp, b, xs, lt, i, gt, j). j - i)")
    (auto dest!: scan_up_ge scan_down_le)

declare part_loop.simps [simp del]

definition rq_partition :: "'a cmp \<Rightarrow> 'a list \<Rightarrow> nat \<Rightarrow> nat \<Rightarrow> 'a list \<times> nat \<times> nat" where
  "rq_partition cmp xs b nmemb =
     (let m4 = nmemb div 4;
          m = med3 cmp xs (b + m4) (b + 2 * m4) (b + 3 * m4);
          (xs, lt, i, gt) = part_loop cmp b (swap_at xs b m) 1 1 nmemb nmemb;
          span = min lt (i - lt);
          xs = swap_block xs b (b + i - span) span;
          span2 = min (nmemb - gt) (gt - i);
          xs = swap_block xs (b + i) (b + nmemb - span2) span2
      in (xs, i - lt, nmemb - (gt - i)))"


text \<open>
  The segments that wait on the local \<^verbatim>\<open>stack[50]\<close>: start, number of elements and depth. A push
  behind the end of the array is \<open>None\<close>.
\<close>

type_synonym rq_stack = "(nat \<times> nat \<times> nat) list"

definition rq_push :: "nat \<Rightarrow> nat \<Rightarrow> nat \<Rightarrow> rq_stack \<Rightarrow> rq_stack option" where
  "rq_push b cnt depth stack = (if length stack < 50 then Some ((b, cnt, depth) # stack) else None)"

lemma part_loop_bounds:
  assumes "(xs', lt', i', gt') = part_loop cmp b xs lt i gt j" and "1 \<le> lt" "lt \<le> i" "i \<le> j" "j \<le> gt"
  shows "1 \<le> lt' \<and> lt' \<le> i' \<and> i' \<le> gt' \<and> gt' \<le> gt"
  using assms
proof (induction cmp b xs lt i gt j rule: part_loop.induct)
  case (1 cmp b xs lt i gt j)
  obtain xs1 lt1 i1 where up: "scan_up cmp b j xs lt i = (xs1, lt1, i1)" by (metis prod.exhaust)
  obtain xs2 gt1 j1 where down: "scan_down cmp b i1 xs1 gt j = (xs2, gt1, j1)" by (metis prod.exhaust)
  have u: "1 \<le> lt1 \<and> lt1 \<le> i1 \<and> i1 \<le> j"
    using scan_up_rule [OF up, of "\<lambda>xs l k. 1 \<le> l \<and> l \<le> k \<and> k \<le> j"] "1.prems" by auto
  have "\<exists>k. j1 = k - 1 \<and> (i1 \<le> k \<and> k \<le> gt1 \<and> gt1 \<le> gt) \<and> (i1 < j1 \<longrightarrow> cmp (xs2 ! b) (xs2 ! (b + j1)) > 0)"
    by (rule scan_down_rule [OF down]) (use u "1.prems" in auto)
  then obtain k where k: "j1 = k - 1" "i1 \<le> k" "k \<le> gt1" "gt1 \<le> gt" by blast
  have eq: "part_loop cmp b xs lt i gt j =
      (if i1 \<ge> j1 then (xs2, lt1, i1, gt1)
       else part_loop cmp b (swap_at xs2 (b + i1) (b + j1)) lt1 (i1 + 1) gt1 j1)"
    by (subst part_loop.simps) (simp add: up down)
  show ?case
  proof (cases "i1 \<ge> j1")
    case True
    then show ?thesis using "1.prems"(1) u k by (simp add: eq)
  next
    case False
    have "(xs', lt', i', gt') = part_loop cmp b (swap_at xs2 (b + i1) (b + j1)) lt1 (i1 + 1) gt1 j1"
      using "1.prems"(1) False by (simp add: eq)
    from "1.IH" [OF up [symmetric] refl down [symmetric] refl False this]
    have "1 \<le> lt' \<and> lt' \<le> i' \<and> i' \<le> gt' \<and> gt' \<le> gt1" using u k False by simp
    then show ?thesis using k(4) by simp
  qed
qed

lemma rq_partition_bounds:
  assumes "(xs', lt, gt) = rq_partition cmp xs b n" and "0 < n"
  shows "lt < n \<and> n - gt < n \<and> lt + (n - gt) < n \<and> gt \<le> n"
proof -
  obtain ys l i g where p: "(ys, l, i, g) =
      part_loop cmp b (swap_at xs b (med3 cmp xs (b + n div 4) (b + 2 * (n div 4)) (b + 3 * (n div 4)))) 1 1 n n"
    by (metis prod.exhaust)
  from part_loop_bounds [OF this] assms(2) have "1 \<le> l \<and> l \<le> i \<and> i \<le> g \<and> g \<le> n" by simp
  moreover from assms(1) have "lt = i - l" "gt = n - (g - i)"
    unfolding rq_partition_def Let_def p [symmetric] by auto
  ultimately show ?thesis using assms(2) by auto
qed

function rq_inner ::
  "'a cmp \<Rightarrow> 'a list \<Rightarrow> rq_stack \<Rightarrow> nat \<Rightarrow> nat \<Rightarrow> nat \<Rightarrow> ('a list \<times> rq_stack \<times> nat \<times> nat) option" where
  "rq_inner cmp xs stack b nmemb depth =
     (if nmemb > 6 then
        (if depth + 1 > 50 then Some (heapsortx cmp xs b nmemb, stack, b, 0)
         else
           (case rq_partition cmp xs b nmemb of (xs, lt, gt) \<Rightarrow>
              if lt > nmemb - gt then
                (case rq_push b lt (depth + 1) stack of
                   None \<Rightarrow> None
                 | Some stack \<Rightarrow> rq_inner cmp xs stack (b + gt) (nmemb - gt) (depth + 1))
              else
                (case rq_push (b + gt) (nmemb - gt) (depth + 1) stack of
                   None \<Rightarrow> None
                 | Some stack \<Rightarrow> rq_inner cmp xs stack b lt (depth + 1))))
      else Some (xs, stack, b, nmemb))"
  by pat_completeness auto
termination
  by (relation "measure (\<lambda>(cmp, xs, stack, b, n, depth). n)") (auto dest: rq_partition_bounds)

declare rq_inner.simps [simp del]

text \<open>The insertion sort of the small fragments.\<close>

primrec rq_insert :: "'a cmp \<Rightarrow> nat \<Rightarrow> nat \<Rightarrow> 'a list \<Rightarrow> 'a list" where
  "rq_insert cmp b 0 xs = xs"
| "rq_insert cmp b (Suc j) xs =
     (if cmp (xs ! (b + j)) (xs ! (b + Suc j)) > 0
      then rq_insert cmp b j (swap_at xs (b + Suc j) (b + j)) else xs)"

definition rq_insertion :: "'a cmp \<Rightarrow> 'a list \<Rightarrow> nat \<Rightarrow> nat \<Rightarrow> 'a list" where
  "rq_insertion cmp xs b nmemb = fold (rq_insert cmp b) [1..<nmemb] xs"

definition rq_weight :: "rq_stack \<Rightarrow> nat" where
  "rq_weight stack = sum_list (map (\<lambda>(b, cnt, depth). cnt + 1) stack)"

lemma rq_weight_simps [simp]:
  "rq_weight [] = 0" "rq_weight ((b, cnt, depth) # stack) = cnt + 1 + rq_weight stack"
  by (simp_all add: rq_weight_def)

lemma rq_inner_weight:
  "rq_inner cmp xs stack b n depth = Some (xs', stack', b', n') \<Longrightarrow>
     rq_weight stack' + n' \<le> rq_weight stack + n"
proof (induction cmp xs stack b n depth rule: rq_inner.induct)
  case (1 cmp xs stack b n depth)
  obtain ys lt gt where p: "rq_partition cmp xs b n = (ys, lt, gt)" by (metis prod.exhaust)
  show ?case
  proof (cases "n > 6 \<and> depth + 1 \<le> 50")
    case False
    then show ?thesis using "1.prems" by (subst (asm) rq_inner.simps) (auto split: if_splits)
  next
    case True
    then have "0 < n" by simp
    from rq_partition_bounds [OF p [symmetric] this] have b: "lt + (n - gt) < n" by blast
    show ?thesis
    proof (cases "lt > n - gt")
      case l: True
      obtain st where st: "rq_push b lt (depth + 1) stack = Some st"
        "rq_inner cmp ys st (b + gt) (n - gt) (depth + 1) = Some (xs', stack', b', n')"
        using "1.prems" True l p by (subst (asm) rq_inner.simps) (auto split: option.splits)
      have "rq_weight st + (n - gt) \<le> rq_weight stack + n" using st(1) b by (auto simp: rq_push_def split: if_splits)
      moreover from True have "6 < n" "\<not> 50 < depth + 1" by auto
      ultimately show ?thesis
        using "1.IH"(1) [OF _ _ p [symmetric] refl l st] by linarith
    next
      case l: False
      obtain st where st: "rq_push (b + gt) (n - gt) (depth + 1) stack = Some st"
        "rq_inner cmp ys st b lt (depth + 1) = Some (xs', stack', b', n')"
        using "1.prems" True l p by (subst (asm) rq_inner.simps) (auto split: option.splits)
      have "rq_weight st + lt \<le> rq_weight stack + n" using st(1) b by (auto simp: rq_push_def split: if_splits)
      moreover from True have "6 < n" "\<not> 50 < depth + 1" by auto
      ultimately show ?thesis
        using "1.IH"(2) [OF _ _ p [symmetric] refl l st] by linarith
    qed
  qed
qed

function rq_outer :: "'a cmp \<Rightarrow> 'a list \<Rightarrow> rq_stack \<Rightarrow> 'a list option" where
  "rq_outer cmp xs [] = Some xs"
| "rq_outer cmp xs ((b, nmemb, depth) # stack) =
     (case rq_inner cmp xs stack b nmemb depth of
        None \<Rightarrow> None
      | Some (xs, stack, b, nmemb) \<Rightarrow> rq_outer cmp (rq_insertion cmp xs b nmemb) stack)"
  by pat_completeness auto
termination
  by (relation "measure (\<lambda>(cmp, xs, stack). rq_weight stack)") (auto dest: rq_inner_weight)

definition rqsort :: "'a cmp \<Rightarrow> 'a list \<Rightarrow> 'a list option" where
  "rqsort cmp xs = (if length xs < 2 then Some xs else rq_outer cmp xs [(0, length xs, 0)])"

end
