(* ===== verification/SortProps.thy ===== *)
theory SortProps
  imports Sort
begin

text \<open>
  Correctness of the sorting routine: \<^verbatim>\<open>rqsort\<close> ends, never overruns its stack, permutes the
  array and leaves it sorted, whatever total preorder the comparison is.
\<close>

section \<open>Permutations of a segment\<close>

text \<open>Everything the routine does to a segment keeps the elements of it and the rest of the array.\<close>

definition seg_perm :: "nat \<Rightarrow> nat \<Rightarrow> 'a list \<Rightarrow> 'a list \<Rightarrow> bool" where
  "seg_perm b n xs ys \<longleftrightarrow>
     length ys = length xs \<and> mset ys = mset xs \<and> (\<forall>k. k < b \<or> b + n \<le> k \<longrightarrow> ys ! k = xs ! k)"

lemma seg_perm_refl [simp]: "seg_perm b n xs xs"
  by (simp add: seg_perm_def)

lemma seg_perm_trans: "seg_perm b n xs ys \<Longrightarrow> seg_perm b n ys zs \<Longrightarrow> seg_perm b n xs zs"
  by (auto simp: seg_perm_def)

lemma seg_perm_length: "seg_perm b n xs ys \<Longrightarrow> length ys = length xs"
  by (simp add: seg_perm_def)

lemma seg_perm_widen: "seg_perm b n xs ys \<Longrightarrow> b' \<le> b \<Longrightarrow> b + n \<le> b' + n' \<Longrightarrow> seg_perm b' n' xs ys"
  by (auto simp: seg_perm_def)

lemma length_swap_at [simp]: "length (swap_at xs i j) = length xs"
  by (simp add: swap_at_def)

lemma swap_at_nth:
  assumes "i < length xs" and "j < length xs"
  shows "swap_at xs i j ! k = (if k = j then xs ! i else if k = i then xs ! j else xs ! k)"
  using assms by (cases "k < length xs") (simp_all add: swap_at_def nth_list_update)

lemma seg_perm_swap_at:
  assumes "b \<le> i" "i < b + n" "b \<le> j" "j < b + n" "b + n \<le> length xs"
  shows "seg_perm b n xs (swap_at xs i j)"
proof -
  have "i < length xs" "j < length xs" using assms by auto
  then have "mset (swap_at xs i j) = mset xs"
    using mset_swap [of j xs i] by (simp add: swap_at_def)
  then show ?thesis using assms by (auto simp: seg_perm_def swap_at_nth)
qed

lemma seg_perm_mset:
  assumes "seg_perm b n xs ys" and "b + n \<le> length xs"
  shows "mset (take n (drop b ys)) = mset (take n (drop b xs))"
proof -
  have split: "zs = take b zs @ take n (drop b zs) @ drop (b + n) zs" for zs :: "'a list"
    by (metis append_take_drop_id drop_drop add.commute)
  have "take b ys = take b xs" "drop (b + n) ys = drop (b + n) xs"
    using assms by (auto simp: seg_perm_def intro!: nth_equalityI)
  moreover have "mset ys = mset xs" using assms(1) by (simp add: seg_perm_def)
  ultimately show ?thesis
    using arg_cong [OF split [of ys], of mset] arg_cong [OF split [of xs], of mset] by simp
qed

lemma seg_elems:
  assumes "b + n \<le> length xs"
  shows "set (take n (drop b xs)) = {xs ! k |k. b \<le> k \<and> k < b + n}"
proof -
  have "set (take n (drop b xs)) = {xs ! (b + k) |k. k < n}"
    using assms by (force simp: set_conv_nth)
  also have "\<dots> = {xs ! k |k. b \<le> k \<and> k < b + n}"
    by (auto, metis le_add_diff_inverse nat_add_left_cancel_less)
  finally show ?thesis .
qed

lemma seg_perm_all:
  assumes "seg_perm b n xs ys" and "b + n \<le> length xs"
  shows "(\<forall>k. b \<le> k \<and> k < b + n \<longrightarrow> P (ys ! k)) \<longleftrightarrow> (\<forall>k. b \<le> k \<and> k < b + n \<longrightarrow> P (xs ! k))"
proof -
  have all: "(\<forall>k. b \<le> k \<and> k < b + n \<longrightarrow> P (zs ! k)) \<longleftrightarrow> (\<forall>x \<in> set (take n (drop b zs)). P x)"
    if "b + n \<le> length zs" for zs
    unfolding seg_elems [OF that] by blast
  have "set (take n (drop b ys)) = set (take n (drop b xs))"
    using seg_perm_mset [OF assms] by (metis set_mset_mset)
  then show ?thesis using all [of xs] all [of ys] assms by (simp only: seg_perm_length)
qed

lemma swap_block_nth:
  assumes "i + n \<le> j \<or> n = 0" and "j + n \<le> length xs"
  shows "length (swap_block xs i j n) = length xs \<and>
    swap_block xs i j n ! k =
      (if i \<le> k \<and> k < i + n then xs ! (j + (k - i))
       else if j \<le> k \<and> k < j + n then xs ! (i + (k - j)) else xs ! k)"
  using assms
proof (induction n arbitrary: k)
  case 0
  then show ?case by auto
next
  case (Suc n)
  then have IH: "length (swap_block xs i j n) = length xs"
    "\<And>k. swap_block xs i j n ! k =
      (if i \<le> k \<and> k < i + n then xs ! (j + (k - i))
       else if j \<le> k \<and> k < j + n then xs ! (i + (k - j)) else xs ! k)"
    using Suc.IH by auto
  have len: "i + n < length (swap_block xs i j n)" "j + n < length (swap_block xs i j n)"
    using Suc.prems IH(1) by auto
  show ?case using Suc.prems by (auto simp: swap_at_nth [OF len] IH)
qed

lemma seg_perm_swap_block:
  assumes "i + m \<le> j \<or> m = 0" and "b \<le> i" "j + m \<le> b + n" "b + n \<le> length xs"
  shows "seg_perm b n xs (swap_block xs i j m)"
  using assms
proof (induction m)
  case 0
  then show ?case by simp
next
  case (Suc m)
  then have "seg_perm b n xs (swap_block xs i j m)" by auto
  moreover from this have "seg_perm b n (swap_block xs i j m) (swap_at (swap_block xs i j m) (i + m) (j + m))"
    using Suc.prems by (intro seg_perm_swap_at) (auto simp: seg_perm_length)
  ultimately show ?case by (auto intro: seg_perm_trans)
qed

section \<open>The laws of a comparison\<close>

definition seg_sorted :: "'a cmp \<Rightarrow> nat \<Rightarrow> nat \<Rightarrow> 'a list \<Rightarrow> bool" where
  "seg_sorted cmp b n xs \<longleftrightarrow> (\<forall>k l. k < l \<and> l < n \<longrightarrow> cmp (xs ! (b + k)) (xs ! (b + l)) \<le> 0)"

text \<open>The heap: from node \<open>lo\<close> on, no child is larger than its parent.\<close>

definition heap_on :: "'a cmp \<Rightarrow> nat \<Rightarrow> nat \<Rightarrow> nat \<Rightarrow> 'a list \<Rightarrow> bool" where
  "heap_on cmp b lo n xs \<longleftrightarrow>
     (\<forall>p c. lo \<le> p \<and> (c = 2 * p + 1 \<or> c = 2 * p + 2) \<and> c < n \<longrightarrow> cmp (xs ! (b + c)) (xs ! (b + p)) \<le> 0)"

text \<open>
  The partition in progress, \<open>v\<close> the pivot and \<open>ys\<close> the array at the start: identical elements
  at both ends, smaller ones up to \<open>i\<close>, larger ones from \<open>j\<close> on.
\<close>

definition part_inv ::
  "'a cmp \<Rightarrow> nat \<Rightarrow> nat \<Rightarrow> 'a \<Rightarrow> 'a list \<Rightarrow> 'a list \<Rightarrow> nat \<Rightarrow> nat \<Rightarrow> nat \<Rightarrow> nat \<Rightarrow> bool" where
  "part_inv cmp b n v ys xs lt i gt j \<longleftrightarrow>
     1 \<le> lt \<and> lt \<le> i \<and> i \<le> j \<and> j \<le> gt \<and> gt \<le> n \<and> seg_perm b n ys xs \<and> xs ! b = v \<and>
     (\<forall>k. k < lt \<longrightarrow> cmp v (xs ! (b + k)) = 0) \<and>
     (\<forall>k. lt \<le> k \<and> k < i \<longrightarrow> cmp v (xs ! (b + k)) > 0) \<and>
     (\<forall>k. j \<le> k \<and> k < gt \<longrightarrow> cmp v (xs ! (b + k)) < 0) \<and>
     (\<forall>k. gt \<le> k \<and> k < n \<longrightarrow> cmp v (xs ! (b + k)) = 0)"

locale comparator =
  fixes cmp :: "'a cmp"
  assumes flip: "cmp x y > 0 \<longleftrightarrow> cmp y x < 0"
    and trans: "cmp x y \<le> 0 \<Longrightarrow> cmp y z \<le> 0 \<Longrightarrow> cmp x z \<le> 0"
begin

lemma eq_zero: "cmp x y = 0 \<longleftrightarrow> cmp y x = 0"
  using flip [of x y] flip [of y x] by linarith

lemma le_flip: "cmp x y \<le> 0 \<longleftrightarrow> cmp y x \<ge> 0"
  using flip [of x y] flip [of y x] by linarith

lemma self [simp]: "cmp x x = 0"
  using flip [of x x] by linarith

lemma total: "cmp x y \<le> 0 \<or> cmp y x \<le> 0"
  using flip [of x y] by linarith


lemma rq_insert_sorted:
  assumes "j \<le> i" and "b + i < length xs"
    and "\<And>k l. k < l \<Longrightarrow> l \<le> i \<Longrightarrow> k \<noteq> j \<Longrightarrow> l \<noteq> j \<Longrightarrow> cmp (xs ! (b + k)) (xs ! (b + l)) \<le> 0"
    and "\<And>l. j < l \<Longrightarrow> l \<le> i \<Longrightarrow> cmp (xs ! (b + j)) (xs ! (b + l)) \<le> 0"
  shows "seg_sorted cmp b (Suc i) (rq_insert cmp b j xs) \<and> seg_perm b (Suc i) xs (rq_insert cmp b j xs)"
  using assms
proof (induction j arbitrary: xs)
  case 0
  have "cmp (xs ! (b + k)) (xs ! (b + l)) \<le> 0" if "k < l" "l \<le> i" for k l
    using 0(3) [of k l] 0(4) [of l] that by (cases k) auto
  then show ?case by (simp add: seg_sorted_def)
next
  case (Suc j)
  show ?case
  proof (cases "cmp (xs ! (b + j)) (xs ! (b + Suc j)) > 0")
    case True
    define ys where "ys = swap_at xs (b + Suc j) (b + j)"
    have ys: "ys ! (b + k) = (if k = j then xs ! (b + Suc j) else if k = Suc j then xs ! (b + j) else xs ! (b + k))" for k
      unfolding ys_def using Suc.prems(1,2) by (subst swap_at_nth) auto
    have lt: "cmp (xs ! (b + Suc j)) (xs ! (b + j)) \<le> 0" using True flip less_imp_le by blast
    have "seg_sorted cmp b (Suc i) (rq_insert cmp b j ys) \<and> seg_perm b (Suc i) ys (rq_insert cmp b j ys)"
    proof (rule Suc.IH)
      fix k l assume "k < l" "l \<le> i" "k \<noteq> j" "l \<noteq> j"
      then show "cmp (ys ! (b + k)) (ys ! (b + l)) \<le> 0"
        using Suc.prems(3) [of k l] Suc.prems(3) [of k j] Suc.prems(3) [of j l] Suc.prems(1) by (simp add: ys)
    next
      fix l assume "j < l" "l \<le> i"
      then show "cmp (ys ! (b + j)) (ys ! (b + l)) \<le> 0"
        using Suc.prems(4) [of l] lt by (simp add: ys)
    qed (use Suc.prems in \<open>auto simp: ys_def\<close>)
    moreover have "seg_perm b (Suc i) xs ys"
      unfolding ys_def using Suc.prems by (intro seg_perm_swap_at) auto
    ultimately show ?thesis using True by (auto simp: ys_def intro: seg_perm_trans)
  next
    case False
    have "cmp (xs ! (b + k)) (xs ! (b + l)) \<le> 0" if "k < l" "l \<le> i" for k l
    proof -
      consider "l = Suc j" "k = j" | "l = Suc j" "k < j" | "k = Suc j" | "k \<noteq> Suc j" "l \<noteq> Suc j"
        using \<open>k < l\<close> by linarith
      then show ?thesis
      proof cases
        case 1
        then show ?thesis using False by simp
      next
        case 2
        then show ?thesis
          using Suc.prems(3) [of k j] False Suc.prems(1) trans [of "xs ! (b + k)" "xs ! (b + j)"] by simp
      next
        case 3
        then show ?thesis using Suc.prems(4) that by simp
      next
        case 4
        then show ?thesis using Suc.prems(3) that by simp
      qed
    qed
    with False show ?thesis by (simp add: seg_sorted_def)
  qed
qed

lemma rq_insertion_sorted:
  assumes "b + n \<le> length xs"
  shows "seg_sorted cmp b n (rq_insertion cmp xs b n) \<and> seg_perm b n xs (rq_insertion cmp xs b n)"
proof -
  have "seg_sorted cmp b m (fold (rq_insert cmp b) [1..<m] xs) \<and> seg_perm b m xs (fold (rq_insert cmp b) [1..<m] xs)"
    if "m \<le> n" for m
    using that
  proof (induction m)
    case 0
    then show ?case by (simp add: seg_sorted_def)
  next
    case (Suc m)
    show ?case
    proof (cases "m = 0")
      case True
      then show ?thesis by (simp add: seg_sorted_def)
    next
      case False
      define ys where "ys = fold (rq_insert cmp b) [1..<m] xs"
      have ys: "seg_sorted cmp b m ys" "seg_perm b m xs ys" using Suc by (simp_all add: ys_def)
      have len: "length ys = length xs" using ys(2) by (rule seg_perm_length)
      have r: "seg_sorted cmp b (Suc m) (rq_insert cmp b m ys) \<and> seg_perm b (Suc m) ys (rq_insert cmp b m ys)"
      proof (rule rq_insert_sorted)
        show "b + m < length ys" using Suc.prems assms len by simp
        fix k l assume "k < l" "l \<le> m" "l \<noteq> m"
        then show "cmp (ys ! (b + k)) (ys ! (b + l)) \<le> 0" using ys(1) by (simp add: seg_sorted_def)
      qed auto
      have "seg_perm b (Suc m) xs ys" using ys(2) by (rule seg_perm_widen) auto
      from seg_perm_trans [OF this] r have "seg_perm b (Suc m) xs (rq_insert cmp b m ys)" by blast
      moreover have "fold (rq_insert cmp b) [1..<Suc m] xs = rq_insert cmp b m ys"
        using False by (simp add: ys_def)
      ultimately show ?thesis using r by simp
    qed
  qed
  from this [of n] show ?thesis by (simp add: rq_insertion_def)
qed


lemma heap_sift_heap:
  assumes "b + n \<le> length xs" and "lo \<le> r" and "r < n"
    and "\<And>p c. lo \<le> p \<Longrightarrow> p \<noteq> r \<Longrightarrow> c = 2 * p + 1 \<or> c = 2 * p + 2 \<Longrightarrow> c < n \<Longrightarrow>
      cmp (xs ! (b + c)) (xs ! (b + p)) \<le> 0"
    and "\<And>p c. lo \<le> p \<Longrightarrow> r = 2 * p + 1 \<or> r = 2 * p + 2 \<Longrightarrow> c = 2 * r + 1 \<or> c = 2 * r + 2 \<Longrightarrow>
      c < n \<Longrightarrow> cmp (xs ! (b + c)) (xs ! (b + p)) \<le> 0"
  shows "heap_on cmp b lo n (heap_sift cmp b n r xs) \<and> seg_perm b n xs (heap_sift cmp b n r xs)"
  using assms
proof (induction "n - r" arbitrary: r xs rule: less_induct)
  case less
  note parent = less.prems(4) and grand = less.prems(5)
  show ?case
  proof (cases "2 * r + 1 < n")
    case False
    then have "heap_sift cmp b n r xs = xs" by (subst heap_sift.simps) simp
    moreover have "cmp (xs ! (b + c)) (xs ! (b + p)) \<le> 0"
      if "lo \<le> p" "c = 2 * p + 1 \<or> c = 2 * p + 2" "c < n" for p c
      using parent [OF that(1) _ that(2,3)] that(2,3) False by (cases "p = r") auto
    ultimately show ?thesis by (simp add: heap_on_def)
  next
    case True
    define d where "d = (if 2 * r + 1 < n - 1 \<and> cmp (xs ! (b + (2 * r + 1))) (xs ! (b + (2 * r + 1) + 1)) \<le> 0
      then 2 * r + 2 else 2 * r + 1)"
    have d: "d = 2 * r + 1 \<or> d = 2 * r + 2" "d < n" "r < d"
      using True by (auto simp: d_def)
    have big: "cmp (xs ! (b + c)) (xs ! (b + d)) \<le> 0" if "c = 2 * r + 1 \<or> c = 2 * r + 2" "c < n" for c
    proof (cases "d = 2 * r + 2")
      case True
      with that show ?thesis by (auto simp: d_def split: if_splits)
    next
      case False
      then have "\<not> (2 * r + 1 < n - 1 \<and> cmp (xs ! (b + (2 * r + 1))) (xs ! (b + (2 * r + 1) + 1)) \<le> 0)"
        by (auto simp: d_def)
      with that d(1) False show ?thesis
        using total [of "xs ! (b + (2 * r + 1))" "xs ! (b + (2 * r + 1) + 1)"] by auto
    qed
    have step: "heap_sift cmp b n r xs =
        (if cmp (xs ! (b + r)) (xs ! (b + d)) > 0 then xs
         else heap_sift cmp b n d (swap_at xs (b + r) (b + d)))"
      using True by (subst heap_sift.simps) (simp add: d_def Let_def)
    show ?thesis
    proof (cases "cmp (xs ! (b + r)) (xs ! (b + d)) > 0")
      case stop: True
      have "cmp (xs ! (b + d)) (xs ! (b + r)) \<le> 0" using stop flip less_imp_le by blast
      then have "cmp (xs ! (b + c)) (xs ! (b + r)) \<le> 0" if "c = 2 * r + 1 \<or> c = 2 * r + 2" "c < n" for c
        using big [OF that] trans by blast
      then have "cmp (xs ! (b + c)) (xs ! (b + p)) \<le> 0"
        if "lo \<le> p" "c = 2 * p + 1 \<or> c = 2 * p + 2" "c < n" for p c
        using parent [OF that(1) _ that(2,3)] that(2,3) by (cases "p = r") auto
      then have "heap_on cmp b lo n xs" by (simp add: heap_on_def)
      with step stop show ?thesis by simp
    next
      case sink: False
      define ys where "ys = swap_at xs (b + r) (b + d)"
      have ys: "ys ! (b + k) = (if k = d then xs ! (b + r) else if k = r then xs ! (b + d) else xs ! (b + k))" for k
        unfolding ys_def using less.prems(1,3) d(2) by (subst swap_at_nth) auto
      have "heap_on cmp b lo n (heap_sift cmp b n d ys) \<and> seg_perm b n ys (heap_sift cmp b n d ys)"
      proof (rule less.hyps)
        fix p c assume h: "lo \<le> p" "p \<noteq> d" "c = 2 * p + 1 \<or> c = 2 * p + 2" "c < n"
        show "cmp (ys ! (b + c)) (ys ! (b + p)) \<le> 0"
        proof (cases "p = r")
          case True
          then show ?thesis using h big [OF _ h(4)] sink d(3) by (cases "c = d") (auto simp: ys)
        next
          case False
          then have "c \<noteq> d" using h(3) d(1) by presburger
          show ?thesis
          proof (cases "c = r")
            case True
            have "cmp (xs ! (b + d)) (xs ! (b + p)) \<le> 0"
              by (rule grand [OF h(1) _ d(1,2)]) (use h(3) True in blast)
            then show ?thesis using True h(2) \<open>p \<noteq> r\<close> \<open>c \<noteq> d\<close> by (simp add: ys)
          next
            case False
            then show ?thesis
              using parent [OF h(1) \<open>p \<noteq> r\<close> h(3,4)] h(2) \<open>p \<noteq> r\<close> \<open>c \<noteq> d\<close> by (simp add: ys)
          qed
        qed
      next
        fix p c assume h: "lo \<le> p" "d = 2 * p + 1 \<or> d = 2 * p + 2" "c = 2 * d + 1 \<or> c = 2 * d + 2" "c < n"
        have "p = r" using h(2) d(1) by presburger
        have "cmp (xs ! (b + c)) (xs ! (b + d)) \<le> 0"
          by (rule parent [OF _ _ h(3,4)]) (use less.prems(2) d(3) in auto)
        moreover have "c \<noteq> d" "c \<noteq> r" using h(3) d(3) by auto
        ultimately show "cmp (ys ! (b + c)) (ys ! (b + p)) \<le> 0"
          using \<open>p = r\<close> d(3) by (simp add: ys)
      qed (use less.prems d in \<open>auto simp: ys_def\<close>)
      moreover have "seg_perm b n xs ys"
        unfolding ys_def using less.prems d by (intro seg_perm_swap_at) auto
      ultimately have "heap_on cmp b lo n (heap_sift cmp b n d ys) \<and> seg_perm b n xs (heap_sift cmp b n d ys)"
        by (blast intro: seg_perm_trans)
      moreover have "heap_sift cmp b n r xs = heap_sift cmp b n d ys"
        using step sink by (simp only: ys_def if_False)
      ultimately show ?thesis by simp
    qed
  qed
qed

lemma heap_build_heap:
  assumes "b + n \<le> length xs" and "i \<le> n" and "heap_on cmp b i n xs"
  shows "heap_on cmp b 0 n (heap_build cmp b n i xs) \<and> seg_perm b n xs (heap_build cmp b n i xs)"
  using assms
proof (induction i arbitrary: xs)
  case 0
  then show ?case by simp
next
  case (Suc i)
  have s: "heap_on cmp b i n (heap_sift cmp b n i xs) \<and> seg_perm b n xs (heap_sift cmp b n i xs)"
  proof (rule heap_sift_heap)
    fix p c assume "i \<le> p" "p \<noteq> i" "c = 2 * p + 1 \<or> c = 2 * p + 2" "c < n"
    then show "cmp (xs ! (b + c)) (xs ! (b + p)) \<le> 0"
      using Suc.prems(3) by (simp add: heap_on_def)
  qed (use Suc.prems in auto)
  then have "b + n \<le> length (heap_sift cmp b n i xs)" using Suc.prems(1) by (simp add: seg_perm_def)
  from Suc.IH [OF this] s Suc.prems(2) seg_perm_trans show ?case by (metis Suc_leD heap_build.simps(2))
qed

lemma heap_max:
  assumes "heap_on cmp b 0 n xs" and "k < n"
  shows "cmp (xs ! (b + k)) (xs ! b) \<le> 0"
  using assms(2)
proof (induction k rule: less_induct)
  case (less k)
  show ?case
  proof (cases "k = 0")
    case False
    define p where "p = (k - 1) div 2"
    have "p < k" "k = 2 * p + 1 \<or> k = 2 * p + 2" using False by (auto simp: p_def)
    then have "cmp (xs ! (b + k)) (xs ! (b + p)) \<le> 0" "cmp (xs ! (b + p)) (xs ! b) \<le> 0"
      using assms(1) less by (auto simp: heap_on_def)
    then show ?thesis by (rule trans)
  qed simp
qed


lemma heap_drain_sorted:
  assumes "i < n" and "b + n \<le> length xs" and "heap_on cmp b 0 (Suc i) xs"
    and "\<And>k l. k < l \<Longrightarrow> i < l \<Longrightarrow> l < n \<Longrightarrow> cmp (xs ! (b + k)) (xs ! (b + l)) \<le> 0"
  shows "seg_sorted cmp b n (heap_drain cmp b i xs) \<and> seg_perm b n xs (heap_drain cmp b i xs)"
  using assms
proof (induction i arbitrary: xs)
  case 0
  then show ?case by (simp add: seg_sorted_def)
next
  case (Suc i)
  define ys where "ys = swap_at xs b (b + Suc i)"
  define zs where "zs = heap_sift cmp b (Suc i) 0 ys"
  have ys: "ys ! (b + k) = (if k = Suc i then xs ! b else if k = 0 then xs ! (b + Suc i) else xs ! (b + k))" for k
    unfolding ys_def using Suc.prems(1,2) by (subst swap_at_nth) auto
  have s: "heap_on cmp b 0 (Suc i) zs \<and> seg_perm b (Suc i) ys zs"
    unfolding zs_def
  proof (rule heap_sift_heap)
    fix p c assume "p \<noteq> 0" "c = 2 * p + 1 \<or> c = 2 * p + 2" "c < Suc i"
    then show "cmp (ys ! (b + c)) (ys ! (b + p)) \<le> 0"
      using Suc.prems(3) by (auto simp: ys heap_on_def)
  qed (use Suc.prems in \<open>auto simp: ys_def\<close>)
  have py: "seg_perm b (Suc (Suc i)) xs ys"
    unfolding ys_def using Suc.prems by (intro seg_perm_swap_at) auto
  moreover have "seg_perm b (Suc (Suc i)) ys zs" using conjunct2 [OF s] by (rule seg_perm_widen) auto
  ultimately have p: "seg_perm b (Suc (Suc i)) xs zs" by (rule seg_perm_trans)
  have len: "length zs = length xs" using p by (rule seg_perm_length)
  have above: "zs ! (b + l) = ys ! (b + l)" if "i < l" for l
    using s that by (auto simp: seg_perm_def)
  have low: "cmp (zs ! (b + k)) v \<le> 0"
    if k: "k < Suc (Suc i)" and all: "\<And>m. m < Suc (Suc i) \<Longrightarrow> cmp (xs ! (b + m)) v \<le> 0" for k v
  proof -
    have in_array: "b + Suc (Suc i) \<le> length xs" using Suc.prems(1,2) by simp
    have "cmp (xs ! m) v \<le> 0" if m: "b \<le> m \<and> m < b + Suc (Suc i)" for m
      using all [of "m - b"] m by (auto simp: less_diff_conv2)
    then have "\<forall>m. b \<le> m \<and> m < b + Suc (Suc i) \<longrightarrow> cmp (zs ! m) v \<le> 0"
      using seg_perm_all [OF p in_array, of "\<lambda>x. cmp x v \<le> 0"] by blast
    with k show ?thesis by simp
  qed
  have "seg_sorted cmp b n (heap_drain cmp b i zs) \<and> seg_perm b n zs (heap_drain cmp b i zs)"
  proof (rule Suc.IH)
    fix k l assume h: "k < l" "i < l" "l < n"
    show "cmp (zs ! (b + k)) (zs ! (b + l)) \<le> 0"
    proof (cases "l = Suc i")
      case True
      have "zs ! (b + l) = xs ! b" using above [of "Suc i"] ys [of "Suc i"] True by simp
      then show ?thesis using low [of k "xs ! b"] heap_max [OF Suc.prems(3)] h(1) True by simp
    next
      case False
      then have l: "zs ! (b + l) = xs ! (b + l)" using above [OF h(2)] ys [of l] h(2) False by simp
      show ?thesis
      proof (cases "k < Suc (Suc i)")
        case True
        then show ?thesis unfolding l using Suc.prems(4) [of _ l] False h by (intro low) auto
      next
        case k: False
        then have "zs ! (b + k) = xs ! (b + k)" using above [of k] ys [of k] by simp
        then show ?thesis unfolding l using Suc.prems(4) [of k l] h k by simp
      qed
    qed
  qed (use Suc.prems s len in auto)
  moreover have "seg_perm b n xs zs" using p by (rule seg_perm_widen) (use Suc.prems(1) in auto)
  ultimately have "seg_sorted cmp b n (heap_drain cmp b i zs) \<and> seg_perm b n xs (heap_drain cmp b i zs)"
    using seg_perm_trans by blast
  then show ?case by (simp add: zs_def ys_def)
qed

lemma heapsortx_sorted:
  assumes "b + n \<le> length xs"
  shows "seg_sorted cmp b n (heapsortx cmp xs b n) \<and> seg_perm b n xs (heapsortx cmp xs b n)"
proof (cases "n > 1")
  case False
  then show ?thesis by (auto simp: heapsortx_def seg_sorted_def)
next
  case True
  have "heap_on cmp b (n div 2) n xs" by (auto simp: heap_on_def)
  then have h: "heap_on cmp b 0 n (heap_build cmp b n (n div 2) xs)"
    "seg_perm b n xs (heap_build cmp b n (n div 2) xs)"
    using heap_build_heap [OF assms] by simp_all
  have len: "length (heap_build cmp b n (n div 2) xs) = length xs" using h(2) by (rule seg_perm_length)
  have "seg_sorted cmp b n (heap_drain cmp b (n - 1) (heap_build cmp b n (n div 2) xs)) \<and>
    seg_perm b n (heap_build cmp b n (n div 2) xs) (heap_drain cmp b (n - 1) (heap_build cmp b n (n div 2) xs))"
    by (rule heap_drain_sorted) (use True h assms len in auto)
  then show ?thesis using True seg_perm_trans [OF h(2)] by (simp add: heapsortx_def)
qed

end

end
