(* ===== verification/SortPart.thy ===== *)
theory SortPart
  imports SortProps
begin

text \<open>
  Correctness of the partition and of the quick sort around it. The invariant of the quick sort
  is the list of segments that are still to be sorted (the one in work and those on the stack);
  a step replaces one of them by smaller ones. The height of the stack stays below the depth
  counter, which the code bounds by 50.
\<close>

text \<open>Exchanging the ends of two adjacent blocks, as far as the shorter one reaches, swaps their order.\<close>

lemma swap_block_rotate:
  assumes "a + p + q \<le> length xs" and "\<And>k. k < p \<Longrightarrow> A (xs ! (a + k))" and "\<And>k. k < q \<Longrightarrow> B (xs ! (a + p + k))"
  defines "ys \<equiv> swap_block xs a (a + p + q - min p q) (min p q)"
  shows "seg_perm a (p + q) xs ys" and "k < q \<Longrightarrow> B (ys ! (a + k))" and "k < p \<Longrightarrow> A (ys ! (a + q + k))"
proof -
  define s where "s = min p q"
  have s: "s \<le> p" "s \<le> q" "s = p \<or> s = q" by (auto simp: s_def)
  have e: "length ys = length xs \<and> ys ! m =
      (if a \<le> m \<and> m < a + s then xs ! (a + p + q - s + (m - a))
       else if a + p + q - s \<le> m \<and> m < a + p + q - s + s then xs ! (a + (m - (a + p + q - s))) else xs ! m)" for m
    unfolding ys_def s_def [symmetric] by (rule swap_block_nth) (use s assms(1) in auto)
  show "seg_perm a (p + q) xs ys"
    unfolding ys_def s_def [symmetric] by (rule seg_perm_swap_block) (use s assms(1) in auto)
  have A: "A (xs ! m)" if "a \<le> m" "m < a + p" for m using assms(2) [of "m - a"] that by auto
  have B: "B (xs ! m)" if "a + p \<le> m" "m < a + p + q" for m using assms(3) [of "m - (a + p)"] that by auto
  show "B (ys ! (a + k))" if "k < q"
    using e [of "a + k"] s that B [of "a + p + q - s + k"] B [of "a + k"] by (auto split: if_splits)
  show "A (ys ! (a + q + k))" if "k < p"
    using e [of "a + q + k"] s that A [of "a + (q + k - (p + q - s))"] A [of "a + q + k"]
    by (auto split: if_splits)
qed

text \<open>
  The segments that still have to be sorted: they do not overlap, and two elements that are not
  in the same one are in order.
\<close>

definition rq_inv :: "'a cmp \<Rightarrow> 'a list \<Rightarrow> rq_stack \<Rightarrow> 'a list \<Rightarrow> bool" where
  "rq_inv cmp xs0 pend xs \<longleftrightarrow>
     mset xs = mset xs0 \<and> (\<forall>(b, n, d) \<in> set pend. b + n \<le> length xs) \<and>
     sorted_wrt (\<lambda>(b, n, d) (b', n', d'). b + n \<le> b' \<or> b' + n' \<le> b) pend \<and>
     (\<forall>k l. k < l \<and> l < length xs \<longrightarrow>
        cmp (xs ! k) (xs ! l) \<le> 0 \<or> (\<exists>(b, n, d) \<in> set pend. b \<le> k \<and> l < b + n))"

text \<open>An entry of the stack is deeper than the stack below it is high, so the stack fits.\<close>

primrec rq_depths :: "rq_stack \<Rightarrow> bool" where
  "rq_depths [] = True"
| "rq_depths (e # stack) = (length stack < snd (snd e) \<and> snd (snd e) \<le> 50 \<and> rq_depths stack)"

context comparator
begin

lemma part_inv_up:
  assumes "b + n \<le> length ys" and "part_inv cmp b n v ys xs lt i gt j" and "i < j"
  shows "cmp v (xs ! (b + i)) = 0 \<Longrightarrow> part_inv cmp b n v ys (swap_at xs (b + lt) (b + i)) (lt + 1) (i + 1) gt j"
    and "cmp v (xs ! (b + i)) > 0 \<Longrightarrow> part_inv cmp b n v ys xs lt (i + 1) gt j"
proof -
  have len: "length xs = length ys" and p: "seg_perm b n ys xs"
    using assms(2) by (auto simp: part_inv_def seg_perm_def)
  have b: "b + lt < length xs" "b + i < length xs" "lt \<le> i" "i < n"
    using assms by (auto simp: part_inv_def len)
  have "seg_perm b n xs (swap_at xs (b + lt) (b + i))"
    by (rule seg_perm_swap_at) (use b assms(1) len in auto)
  with p have p': "seg_perm b n ys (swap_at xs (b + lt) (b + i))" by (rule seg_perm_trans)
  have e: "swap_at xs (b + lt) (b + i) ! (b + k) =
      (if k = i then xs ! (b + lt) else if k = lt then xs ! (b + i) else xs ! (b + k))" for k
    using swap_at_nth [OF b(1,2), of "b + k"] by simp
  have h: "swap_at xs (b + lt) (b + i) ! b = xs ! b"
    using e [of 0] assms(2) by (auto simp: part_inv_def)
  show "part_inv cmp b n v ys (swap_at xs (b + lt) (b + i)) (lt + 1) (i + 1) gt j" if eq: "cmp v (xs ! (b + i)) = 0"
    using assms(2,3) eq p' h unfolding part_inv_def e by (auto simp: less_Suc_eq)
  show "part_inv cmp b n v ys xs lt (i + 1) gt j" if "cmp v (xs ! (b + i)) > 0"
    using assms(2,3) that unfolding part_inv_def by (auto simp: less_Suc_eq)
qed

lemma part_inv_down:
  assumes "b + n \<le> length ys" and "part_inv cmp b n v ys xs lt i (Suc g) (Suc j)" and "i < j"
  shows "cmp v (xs ! (b + j)) = 0 \<Longrightarrow> part_inv cmp b n v ys (swap_at xs (b + g) (b + j)) lt i g j"
    and "cmp v (xs ! (b + j)) < 0 \<Longrightarrow> part_inv cmp b n v ys xs lt i (Suc g) j"
    and "swap_at xs (b + g) (b + j) ! (b + i) = xs ! (b + i)"
proof -
  have len: "length xs = length ys" and p: "seg_perm b n ys xs"
    using assms(2) by (auto simp: part_inv_def seg_perm_def)
  have b: "b + g < length xs" "b + j < length xs" "j \<le> g" "g < n"
    using assms by (auto simp: part_inv_def len)
  have "seg_perm b n xs (swap_at xs (b + g) (b + j))"
    by (rule seg_perm_swap_at) (use b assms(1) len in auto)
  with p have p': "seg_perm b n ys (swap_at xs (b + g) (b + j))" by (rule seg_perm_trans)
  have e: "swap_at xs (b + g) (b + j) ! (b + k) =
      (if k = j then xs ! (b + g) else if k = g then xs ! (b + j) else xs ! (b + k))" for k
    using swap_at_nth [OF b(1,2), of "b + k"] by simp
  have h: "swap_at xs (b + g) (b + j) ! b = xs ! b"
    using e [of 0] b(3) assms(2,3) by (auto simp: part_inv_def)
  show "swap_at xs (b + g) (b + j) ! (b + i) = xs ! (b + i)"
    using e [of i] assms(3) b(3) by simp
  note inv = assms(2) [unfolded part_inv_def]
  have hi: "cmp v (xs ! (b + k)) < 0" if "Suc j \<le> k" "k < Suc g" for k using inv that by blast
  have tl: "cmp v (xs ! (b + k)) = 0" if "Suc g \<le> k" "k < n" for k using inv that by blast
  show "part_inv cmp b n v ys xs lt i (Suc g) j" if "cmp v (xs ! (b + j)) < 0"
  proof -
    have "cmp v (xs ! (b + k)) < 0" if "j \<le> k" "k < Suc g" for k
      using hi [of k] \<open>cmp v (xs ! (b + j)) < 0\<close> that by (cases "k = j") simp_all
    then show ?thesis unfolding part_inv_def using inv assms(3) by simp
  qed
  assume eq: "cmp v (xs ! (b + j)) = 0"
  have "cmp v (swap_at xs (b + g) (b + j) ! (b + k)) < 0" if "j \<le> k" "k < g" for k
    using hi [of k] hi [of g] that b(3) unfolding e by simp
  moreover have "cmp v (swap_at xs (b + g) (b + j) ! (b + k)) = 0" if "g \<le> k" "k < n" for k
    using tl [of k] eq that b(3) unfolding e by simp
  moreover have "\<forall>k. k < lt \<longrightarrow> cmp v (swap_at xs (b + g) (b + j) ! (b + k)) = 0"
    "\<forall>k. lt \<le> k \<and> k < i \<longrightarrow> cmp v (swap_at xs (b + g) (b + j) ! (b + k)) > 0"
    using inv assms(3) b(3) unfolding e by auto
  ultimately show "part_inv cmp b n v ys (swap_at xs (b + g) (b + j)) lt i g j"
    unfolding part_inv_def using inv assms(3) b(3) h p' by (simp del: One_nat_def)
qed

lemma part_loop_inv:
  assumes "b + n \<le> length ys" and "part_inv cmp b n v ys xs lt i gt j"
    and "part_loop cmp b xs lt i gt j = (xs', lt', i', gt')"
  shows "part_inv cmp b n v ys xs' lt' i' gt' i'"
  using assms(2,3)
proof (induction "j - i" arbitrary: xs lt i gt j rule: less_induct)
  case less
  obtain xs1 lt1 i1 where up: "scan_up cmp b j xs lt i = (xs1, lt1, i1)" by (metis prod.exhaust)
  obtain xs2 gt1 j1 where down: "scan_down cmp b i1 xs1 gt j = (xs2, gt1, j1)" by (metis prod.exhaust)
  have u: "part_inv cmp b n v ys xs1 lt1 i1 gt j \<and> (i1 < j \<longrightarrow> cmp (xs1 ! b) (xs1 ! (b + i1)) < 0)"
  proof (rule scan_up_rule [OF up])
    fix zs l m
    assume inv: "part_inv cmp b n v ys zs l m gt j" and "m < j"
    then have v: "zs ! b = v" by (simp add: part_inv_def)
    show "part_inv cmp b n v ys (swap_at zs (b + l) (b + m)) (l + 1) (m + 1) gt j"
      if "cmp (zs ! b) (zs ! (b + m)) = 0"
      using part_inv_up(1) [OF assms(1) inv \<open>m < j\<close>] that v by simp
    show "part_inv cmp b n v ys zs l (m + 1) gt j" if "cmp (zs ! b) (zs ! (b + m)) > 0"
      using part_inv_up(2) [OF assms(1) inv \<open>m < j\<close>] that v by simp
  qed (rule less.prems(1))
  let ?P = "\<lambda>zs g m. part_inv cmp b n v ys zs lt1 i1 g m \<and> (i1 < m \<longrightarrow> cmp v (zs ! (b + i1)) < 0)"
  have "\<exists>k. j1 = k - 1 \<and> ?P xs2 gt1 k \<and> (i1 < j1 \<longrightarrow> cmp (xs2 ! b) (xs2 ! (b + j1)) > 0)"
  proof (rule scan_down_rule [OF down])
    show "?P xs1 gt j" using u by (auto simp: part_inv_def)
  next
    fix zs g m
    assume inv: "?P zs g (Suc m)" and "i1 < m"
    then have v: "zs ! b = v" and g: "Suc (g - 1) = g" by (auto simp: part_inv_def)
    from inv have inv': "part_inv cmp b n v ys zs lt1 i1 (Suc (g - 1)) (Suc m)" by (simp only: g)
    note d = part_inv_down [OF assms(1) inv' \<open>i1 < m\<close>]
    show "?P (swap_at zs (b + (g - 1)) (b + m)) (g - 1) m" if "cmp (zs ! b) (zs ! (b + m)) = 0"
      using d(1,3) inv that v \<open>i1 < m\<close> by simp
    show "?P zs g m" if "cmp (zs ! b) (zs ! (b + m)) < 0"
      using d(2) [unfolded g] inv that v \<open>i1 < m\<close> by simp
  qed
  then obtain k where k: "j1 = k - 1" "part_inv cmp b n v ys xs2 lt1 i1 gt1 k"
    "i1 < k \<longrightarrow> cmp v (xs2 ! (b + i1)) < 0" "i1 < j1 \<longrightarrow> cmp (xs2 ! b) (xs2 ! (b + j1)) > 0" by blast
  have eq: "part_loop cmp b xs lt i gt j =
      (if i1 \<ge> j1 then (xs2, lt1, i1, gt1)
       else part_loop cmp b (swap_at xs2 (b + i1) (b + j1)) lt1 (i1 + 1) gt1 j1)"
    by (subst part_loop.simps) (simp add: up down)
  show ?case
  proof (cases "i1 \<ge> j1")
    case True
    have "cmp v (xs2 ! (b + m)) < 0" if "i1 \<le> m" "m < gt1" for m
    proof (cases "k \<le> m")
      case True
      then show ?thesis using k(2) that by (auto simp: part_inv_def)
    next
      case False
      then have "m = i1" "i1 < k" using that k(1) \<open>j1 \<le> i1\<close> by auto
      then show ?thesis using k(3) by simp
    qed
    then have "part_inv cmp b n v ys xs2 lt1 i1 gt1 i1" using k(2) by (auto simp: part_inv_def)
    then show ?thesis using less.prems(2) True by (simp add: eq)
  next
    case False
    have k1: "k = Suc j1" "i1 < j1" using False k(1) by auto
    note inv = k(2) [unfolded part_inv_def k1]
    have len: "length xs2 = length ys" and p: "seg_perm b n ys xs2"
      using inv by (auto simp: seg_perm_def)
    have b: "b + i1 < length xs2" "b + j1 < length xs2"
      using inv assms(1) k1 by (auto simp: len)
    define zs where "zs = swap_at xs2 (b + i1) (b + j1)"
    have e: "zs ! (b + m) = (if m = j1 then xs2 ! (b + i1) else if m = i1 then xs2 ! (b + j1) else xs2 ! (b + m))" for m
      unfolding zs_def using swap_at_nth [OF b, of "b + m"] by simp
    have "seg_perm b n xs2 zs"
      unfolding zs_def by (rule seg_perm_swap_at) (use inv assms(1) len k1 in auto)
    with p have p': "seg_perm b n ys zs" by (rule seg_perm_trans)
    have v: "zs ! b = v" "xs2 ! b = v" using e [of 0] inv k1(2) by auto
    have hi: "cmp v (zs ! (b + m)) < 0" if "j1 \<le> m" "m < gt1" for m
      using inv that k(3) k1 by (cases "m = j1") (simp_all add: e)
    have lo: "cmp v (zs ! (b + m)) > 0" if "lt1 \<le> m" "m < i1 + 1" for m
      using inv that k(4) k1 v(2) by (cases "m = i1") (simp_all add: e)
    have "part_inv cmp b n v ys zs lt1 (i1 + 1) gt1 j1"
      unfolding part_inv_def using inv hi lo p' v(1) k1(2) by (simp add: e)
    moreover have "j1 - (i1 + 1) < j - i"
      using scan_up_ge [OF up [symmetric]] scan_down_le [OF down [symmetric]] k1(2) by simp
    ultimately show ?thesis
      using less.hyps [of j1 "i1 + 1" zs lt1 gt1] less.prems(2) False by (simp add: eq zs_def)
  qed
qed

lemma rq_partition_spec:
  assumes "b + n \<le> length xs" and "n > 6" and "rq_partition cmp xs b n = (ys, lt, gt)"
  shows "seg_perm b n xs ys \<and> lt < gt \<and> gt \<le> n \<and>
    (\<exists>v. (\<forall>k. k < lt \<longrightarrow> cmp v (ys ! (b + k)) > 0) \<and>
         (\<forall>k. lt \<le> k \<and> k < gt \<longrightarrow> cmp v (ys ! (b + k)) = 0) \<and>
         (\<forall>k. gt \<le> k \<and> k < n \<longrightarrow> cmp v (ys ! (b + k)) < 0))"
proof -
  define m where "m = med3 cmp xs (b + n div 4) (b + 2 * (n div 4)) (b + 3 * (n div 4))"
  define ws where "ws = swap_at xs b m"
  obtain zs l i g where loop: "part_loop cmp b ws 1 1 n n = (zs, l, i, g)" by (metis prod.exhaust)
  have m: "b \<le> m" "m < b + n" using assms(2) by (auto simp: m_def med3_def)
  have pw: "seg_perm b n xs ws" unfolding ws_def using m assms by (intro seg_perm_swap_at) auto
  have lw: "length ws = length xs" using pw by (rule seg_perm_length)
  define v where "v = ws ! b"
  have "part_inv cmp b n v ws ws 1 1 n n" using assms(2) by (simp add: part_inv_def v_def)
  from part_loop_inv [OF _ this loop] assms(1) lw have inv: "part_inv cmp b n v ws zs l i g i" by simp
  note I = inv [unfolded part_inv_def]
  have lz: "length zs = length xs" using I lw by (simp add: seg_perm_def)
  define us where "us = swap_block zs b (b + i - min l (i - l)) (min l (i - l))"
  define vs where "vs = swap_block us (b + i) (b + n - min (n - g) (g - i)) (min (n - g) (g - i))"
  have ys: "ys = vs" "lt = i - l" "gt = n - (g - i)"
    using assms(3) unfolding rq_partition_def Let_def m_def [symmetric] ws_def [symmetric] loop
    by (auto simp: us_def vs_def)
  have len: "b + l + (i - l) \<le> length zs" "b + i + (g - i) + (n - g) \<le> length zs"
    using I assms(1) lz by auto
  have us: "us = swap_block zs b (b + l + (i - l) - min l (i - l)) (min l (i - l))"
    using I by (simp add: us_def)
  have bounds: "1 \<le> l" "l \<le> i" "i \<le> g" "g \<le> n" using I by auto
  have r1: "seg_perm b (l + (i - l)) zs us"
    "\<And>k. k < i - l \<Longrightarrow> cmp v (us ! (b + k)) > 0" "\<And>k. k < l \<Longrightarrow> cmp v (us ! (b + (i - l) + k)) = 0"
  proof -
    have A: "cmp v (zs ! (b + k)) = 0" if "k < l" for k using I that by simp
    have B: "cmp v (zs ! (b + l + k)) > 0" if "k < i - l" for k
    proof -
      have "l \<le> l + k" "l + k < i" using that by auto
      then have "cmp v (zs ! (b + (l + k))) > 0" using I by blast
      then show ?thesis by (simp add: add.assoc)
    qed
    note r = swap_block_rotate [OF len(1), where A = "\<lambda>x. cmp v x = 0" and B = "\<lambda>x. cmp v x > 0", folded us]
    show "seg_perm b (l + (i - l)) zs us" by (rule r(1)) (simp_all add: A B)
    show "cmp v (us ! (b + k)) > 0" if "k < i - l" for k by (rule r(2)) (simp_all add: A B that)
    show "cmp v (us ! (b + (i - l) + k)) = 0" if "k < l" for k by (rule r(3)) (simp_all add: A B that)
  qed
  have lu: "length us = length zs" using r1(1) by (rule seg_perm_length)
  have keep: "us ! (b + k) = zs ! (b + k)" if "i \<le> k" for k
    using r1(1) that bounds by (simp add: seg_perm_def)
  have vs: "vs = swap_block us (b + i) (b + i + (g - i) + (n - g) - min (g - i) (n - g)) (min (g - i) (n - g))"
    using bounds by (simp add: vs_def min.commute)
  have r2: "seg_perm (b + i) (g - i + (n - g)) us vs"
    "\<And>k. k < n - g \<Longrightarrow> cmp v (vs ! (b + i + k)) = 0"
    "\<And>k. k < g - i \<Longrightarrow> cmp v (vs ! (b + i + (n - g) + k)) < 0"
  proof -
    have A: "cmp v (us ! (b + i + k)) < 0" if "k < g - i" for k
    proof -
      have "i \<le> i + k" "i + k < g" using that by auto
      then have "cmp v (zs ! (b + (i + k))) < 0" using I by blast
      then show ?thesis using keep [of "i + k"] by (simp add: add.assoc)
    qed
    have B: "cmp v (us ! (b + i + (g - i) + k)) = 0" if "k < n - g" for k
    proof -
      have "g \<le> g + k" "g + k < n" using that by auto
      then have "cmp v (zs ! (b + (g + k))) = 0" using I by blast
      then show ?thesis using keep [of "g + k"] bounds by (simp add: add.assoc)
    qed
    note r = swap_block_rotate [OF len(2) [folded lu], where A = "\<lambda>x. cmp v x < 0" and B = "\<lambda>x. cmp v x = 0", folded vs]
    show "seg_perm (b + i) (g - i + (n - g)) us vs" by (rule r(1)) (simp_all add: A B)
    show "cmp v (vs ! (b + i + k)) = 0" if "k < n - g" for k by (rule r(2)) (simp_all add: A B that)
    show "cmp v (vs ! (b + i + (n - g) + k)) < 0" if "k < g - i" for k by (rule r(3)) (simp_all add: A B that)
  qed
  have pz: "seg_perm b n ws zs" using I by simp
  have "seg_perm b n zs us" using r1(1) by (rule seg_perm_widen) (use bounds in auto)
  moreover have "seg_perm b n us vs" using r2(1) by (rule seg_perm_widen) (use bounds in auto)
  ultimately have "seg_perm b n xs vs" using pw pz seg_perm_trans by metis
  moreover have "cmp v (vs ! (b + k)) > 0" if "k < i - l" for k
    using r1(2) [OF that] r2(1) that by (simp add: seg_perm_def)
  moreover have "cmp v (vs ! (b + k)) = 0" if "i - l \<le> k" "k < n - (g - i)" for k
  proof (cases "k < i")
    case True
    then have "vs ! (b + k) = us ! (b + k)" using r2(1) by (simp add: seg_perm_def)
    then show ?thesis using r1(3) [of "k - (i - l)"] that True bounds by auto
  next
    case False
    then show ?thesis using r2(2) [of "k - i"] that bounds by auto
  qed
  moreover have "cmp v (vs ! (b + k)) < 0" if "n - (g - i) \<le> k" "k < n" for k
    using r2(3) [of "k - (n - (g - i))"] that bounds by (auto simp: add.assoc)
  moreover have "i - l < n - (g - i)" using bounds by auto
  ultimately show ?thesis unfolding ys by auto
qed


lemma rq_inv_step:
  assumes inv: "rq_inv cmp xs0 ((b, n, d) # stack) xs" and perm: "seg_perm b n xs ys"
    and inside: "\<And>b' n' d'. (b', n', d') \<in> set new \<Longrightarrow> b \<le> b' \<and> b' + n' \<le> b + n"
    and disj: "sorted_wrt (\<lambda>(b, n, d) (b', n', d'). b + n \<le> b' \<or> b' + n' \<le> b) new"
    and order: "\<And>k l. b \<le> k \<Longrightarrow> k < l \<Longrightarrow> l < b + n \<Longrightarrow>
      cmp (ys ! k) (ys ! l) \<le> 0 \<or> (\<exists>(b, n, d) \<in> set new. b \<le> k \<and> l < b + n)"
  shows "rq_inv cmp xs0 (new @ stack) ys"
proof -
  have len: "length ys = length xs" using perm by (rule seg_perm_length)
  have bn: "b + n \<le> length xs" using inv by (simp add: rq_inv_def)
  have away: "b + n \<le> b' \<or> b' + n' \<le> b" if "(b', n', d') \<in> set stack" for b' n' d'
    using inv that by (auto simp: rq_inv_def)
  have old: "cmp (xs ! k) (xs ! l) \<le> 0 \<or> b \<le> k \<and> l < b + n \<or>
      (\<exists>(b, n, d) \<in> set stack. b \<le> k \<and> l < b + n)" if "k < l" "l < length xs" for k l
    using inv that unfolding rq_inv_def by auto
  have out: "ys ! k = xs ! k" if "k < b \<or> b + n \<le> k" for k using perm that unfolding seg_perm_def by blast
  have new_order: "cmp (ys ! k) (ys ! l) \<le> 0 \<or> (\<exists>(b, n, d) \<in> set (new @ stack). b \<le> k \<and> l < b + n)"
    if kl: "k < l" "l < length ys" for k l
  proof -
    consider "b \<le> k" "l < b + n" | "b \<le> k" "k < b + n" "b + n \<le> l" | "k < b" "b \<le> l" "l < b + n"
      | "k < b \<or> b + n \<le> k" "l < b \<or> b + n \<le> l" using kl(1) by linarith
    then show ?thesis
    proof cases
      case 1
      then show ?thesis using order [OF 1(1) kl(1) 1(2)] by auto
    next
      case 2
      have "cmp (xs ! m) (xs ! l) \<le> 0" if "b \<le> m \<and> m < b + n" for m
        using old [of m l] away that 2 kl(2) len by fastforce
      then have "cmp (ys ! k) (xs ! l) \<le> 0"
        using seg_perm_all [OF perm bn, of "\<lambda>x. cmp x (xs ! l) \<le> 0"] 2 by blast
      then show ?thesis using out [of l] 2 by simp
    next
      case 3
      have "cmp (xs ! k) (xs ! m) \<le> 0" if "b \<le> m \<and> m < b + n" for m
        using old [of k m] away that 3 bn by fastforce
      then have "cmp (xs ! k) (ys ! l) \<le> 0"
        using seg_perm_all [OF perm bn, of "\<lambda>x. cmp (xs ! k) x \<le> 0"] 3 by blast
      then show ?thesis using out [of k] 3 by simp
    next
      case 4
      then have "ys ! k = xs ! k" "ys ! l = xs ! l" using out by auto
      then show ?thesis using old [OF kl(1)] kl 4 len by auto
    qed
  qed
  have "sorted_wrt (\<lambda>(b, n, d) (b', n', d'). b + n \<le> b' \<or> b' + n' \<le> b) (new @ stack)"
    using inv disj inside away by (fastforce simp: rq_inv_def sorted_wrt_append)
  moreover have "\<forall>(b, n, d) \<in> set (new @ stack). b + n \<le> length ys"
    using inv inside bn len by (fastforce simp: rq_inv_def)
  moreover have "mset ys = mset xs0" using inv perm by (simp add: rq_inv_def seg_perm_def)
  ultimately show ?thesis unfolding rq_inv_def using new_order by blast
qed


lemma rq_inner_correct:
  assumes "rq_inv cmp xs0 ((b, n, d) # stack) xs" and "length stack \<le> depth" and "depth \<le> 50"
    and "rq_depths stack"
  shows "\<exists>xs' stack' b' n'. rq_inner cmp xs stack b n depth = Some (xs', stack', b', n') \<and>
    rq_depths stack' \<and> rq_inv cmp xs0 ((b', n', 0) # stack') xs'"
  using assms
proof (induction n arbitrary: xs b d stack depth rule: less_induct)
  case (less n)
  note inv = less.prems(1)
  have bn: "b + n \<le> length xs" using inv by (simp add: rq_inv_def)
  show ?case
  proof (cases "n > 6")
    case False
    have "rq_inv cmp xs0 ((b, n, 0) # stack) xs" using inv by (auto simp: rq_inv_def)
    with False less.prems(4) show ?thesis by (subst rq_inner.simps) simp
  next
    case n: True
    show ?thesis
    proof (cases "depth + 1 > 50")
      case True
      note hs = heapsortx_sorted [OF bn]
      have "rq_inv cmp xs0 ([(b, 0, 0)] @ stack) (heapsortx cmp xs b n)"
      proof (rule rq_inv_step [OF inv])
        fix k l assume h: "b \<le> k" "k < l" "l < b + n"
        then have "k - b < l - b \<and> l - b < n" by auto
        then have "cmp (heapsortx cmp xs b n ! (b + (k - b))) (heapsortx cmp xs b n ! (b + (l - b))) \<le> 0"
          using hs unfolding seg_sorted_def by blast
        then show "cmp (heapsortx cmp xs b n ! k) (heapsortx cmp xs b n ! l) \<le> 0 \<or>
            (\<exists>(b, n, d) \<in> set [(b, 0, 0)]. b \<le> k \<and> l < b + n)" using h by simp
      qed (use hs in auto)
      with n True less.prems(4) show ?thesis by (subst rq_inner.simps) simp
    next
      case depth: False
      obtain ys lt gt where p: "rq_partition cmp xs b n = (ys, lt, gt)" by (metis prod.exhaust)
      from rq_partition_spec [OF bn n p] obtain v where
        v: "seg_perm b n xs ys" "lt < gt" "gt \<le> n" "\<And>k. k < lt \<Longrightarrow> cmp v (ys ! (b + k)) > 0"
          "\<And>k. lt \<le> k \<Longrightarrow> k < gt \<Longrightarrow> cmp v (ys ! (b + k)) = 0"
          "\<And>k. gt \<le> k \<Longrightarrow> k < n \<Longrightarrow> cmp v (ys ! (b + k)) < 0" by blast
      have split: "rq_inv cmp xs0 (new @ stack) ys"
        if new: "new = [(b, lt, d1), (b + gt, n - gt, d2)] \<or> new = [(b + gt, n - gt, d1), (b, lt, d2)]" for new d1 d2
      proof (rule rq_inv_step [OF inv v(1)])
        fix k l assume h: "b \<le> k" "k < l" "l < b + n"
        define k' l' where "k' = k - b" and "l' = l - b"
        have kl: "k = b + k'" "l = b + l'" "k' < l'" "l' < n" using h by (auto simp: k'_def l'_def)
        consider "l' < lt" | "gt \<le> k'" | "lt \<le> l'" "k' < gt" by linarith
        then show "cmp (ys ! k) (ys ! l) \<le> 0 \<or> (\<exists>(b, n, d) \<in> set new. b \<le> k \<and> l < b + n)"
        proof cases
          case 3
          have "cmp v (ys ! (b + k')) \<ge> 0" using v(4,5) [of k'] 3 by (cases "k' < lt") auto
          moreover have "cmp v (ys ! (b + l')) \<le> 0" using v(5,6) [of l'] 3 kl(4) by (cases "l' < gt") auto
          ultimately have "cmp (ys ! (b + k')) (ys ! (b + l')) \<le> 0" using le_flip trans by blast
          then show ?thesis using kl by simp
        qed (use new kl v in auto)
      qed (use new v in auto)
      show ?thesis
      proof (cases "lt > n - gt")
        case True
        define st where "st = (b, lt, depth + 1) # stack"
        have push: "rq_push b lt (depth + 1) stack = Some st"
          using less.prems(2) depth by (simp add: rq_push_def st_def)
        have step: "rq_inner cmp xs stack b n depth = rq_inner cmp ys st (b + gt) (n - gt) (depth + 1)"
          using n depth p True push by (subst rq_inner.simps) simp
        have "rq_inv cmp xs0 ((b + gt, n - gt, 0) # st) ys" using split [of "[(b + gt, n - gt, 0), (b, lt, depth + 1)]" 0 "depth + 1"] by (simp add: st_def)
        then show ?thesis unfolding step
          by (rule less.IH [rotated]) (use v n depth less.prems in \<open>auto simp: st_def\<close>)
      next
        case False
        define st where "st = (b + gt, n - gt, depth + 1) # stack"
        have push: "rq_push (b + gt) (n - gt) (depth + 1) stack = Some st"
          using less.prems(2) depth by (simp add: rq_push_def st_def)
        have step: "rq_inner cmp xs stack b n depth = rq_inner cmp ys st b lt (depth + 1)"
          using n depth p False push by (subst rq_inner.simps) simp
        have "rq_inv cmp xs0 ((b, lt, 0) # st) ys" using split [of "[(b, lt, 0), (b + gt, n - gt, depth + 1)]" 0 "depth + 1"] by (simp add: st_def)
        then show ?thesis unfolding step
          by (rule less.IH [rotated]) (use v n depth less.prems in \<open>auto simp: st_def\<close>)
      qed
    qed
  qed
qed

lemma rq_outer_correct:
  assumes "rq_inv cmp xs0 stack xs" and "rq_depths stack \<or> (\<exists>b n. stack = [(b, n, 0)])"
  shows "\<exists>ys. rq_outer cmp xs stack = Some ys \<and> rq_inv cmp xs0 [] ys"
  using assms
proof (induction "rq_weight stack" arbitrary: xs stack rule: less_induct)
  case less
  show ?case
  proof (cases stack)
    case Nil
    with less.prems show ?thesis by simp
  next
    case (Cons e rest)
    obtain b n d where e: "e = (b, n, d)" by (metis prod.exhaust)
    have "length rest \<le> d" "d \<le> 50" "rq_depths rest" using less.prems(2) Cons e by auto
    from rq_inner_correct [OF less.prems(1) [unfolded Cons e] this] obtain ys st b' n' where
      i: "rq_inner cmp xs rest b n d = Some (ys, st, b', n')" "rq_depths st" "rq_inv cmp xs0 ((b', n', 0) # st) ys"
      by blast
    have bn: "b' + n' \<le> length ys" using i(3) by (simp add: rq_inv_def)
    note s = rq_insertion_sorted [OF bn]
    have "rq_inv cmp xs0 ([] @ st) (rq_insertion cmp ys b' n')"
    proof (rule rq_inv_step [OF i(3)])
      fix k l assume h: "b' \<le> k" "k < l" "l < b' + n'"
      then have "k - b' < l - b' \<and> l - b' < n'" by auto
      then have "cmp (rq_insertion cmp ys b' n' ! (b' + (k - b'))) (rq_insertion cmp ys b' n' ! (b' + (l - b'))) \<le> 0"
        using s unfolding seg_sorted_def by blast
      then show "cmp (rq_insertion cmp ys b' n' ! k) (rq_insertion cmp ys b' n' ! l) \<le> 0 \<or>
          (\<exists>(b, n, d) \<in> set []. b \<le> k \<and> l < b + n)" using h by simp
    qed (use s in auto)
    moreover have "rq_weight st < rq_weight stack" using rq_inner_weight [OF i(1)] Cons e by simp
    ultimately show ?thesis using less.hyps [of st "rq_insertion cmp ys b' n'"] i Cons e by simp
  qed
qed

theorem rqsort_sorts:
  "\<exists>ys. rqsort cmp xs = Some ys \<and> mset ys = mset xs \<and> sorted_wrt (\<lambda>x y. cmp x y \<le> 0) ys"
proof (cases "length xs < 2")
  case True
  then show ?thesis by (cases xs) (auto simp: rqsort_def)
next
  case False
  have "rq_inv cmp xs [(0, length xs, 0)] xs" by (simp add: rq_inv_def)
  from rq_outer_correct [OF this] obtain ys where ys: "rq_outer cmp xs [(0, length xs, 0)] = Some ys"
    "rq_inv cmp xs [] ys" by blast
  then show ?thesis using False by (auto simp: rqsort_def rq_inv_def sorted_wrt_iff_nth_less)
qed

end

text \<open>
  C15. The sorting routine is correct for every total preorder: it ends, its stack of 50 segments
  never overflows, the result is a permutation of the array and it is sorted.
\<close>

theorem rqsort_correct:
  assumes "\<And>x y. cmp x y > 0 \<longleftrightarrow> cmp y x < 0"
    and "\<And>x y z. cmp x y \<le> 0 \<Longrightarrow> cmp y z \<le> 0 \<Longrightarrow> cmp x z \<le> 0"
  shows "\<exists>ys. rqsort cmp xs = Some ys \<and> mset ys = mset xs \<and> sorted_wrt (\<lambda>x y. cmp x y \<le> 0) ys"
  by (rule comparator.rqsort_sorts [OF comparator.intro]) (use assms in blast)+

theorem rqsort_correct_witness:
  "\<exists>ys. rqsort (\<lambda>x y. x - y) [5, 3, 9, 1, 7, 3, 8, 2, 6 :: int] = Some ys \<and>
     mset ys = mset [5, 3, 9, 1, 7, 3, 8, 2, 6] \<and> sorted_wrt (\<lambda>x y. x - y \<le> 0) ys"
  by (rule rqsort_correct) simp_all

end
