(* ===== verification/SortExchange.thy ===== *)
theory SortExchange
  imports SortPart Cutils
begin

text \<open>
  \<^verbatim>\<open>exchange_func\<close> picks the widest unit in which the elements can be exchanged from the
  alignment of the array and the size of the element; the memory is a block of bytes.
\<close>

datatype exchange_f =
  exchange_bytes | exchange_one_byte | exchange_int16s | exchange_one_int16 | exchange_int32s |
  exchange_one_int32 | exchange_int64s | exchange_one_int64 | exchange_int128s | exchange_one_int128

fun exchange_unit :: "exchange_f \<Rightarrow> nat" where
  "exchange_unit exchange_bytes = 1"
| "exchange_unit exchange_one_byte = 1"
| "exchange_unit exchange_int16s = 2"
| "exchange_unit exchange_one_int16 = 2"
| "exchange_unit exchange_int32s = 4"
| "exchange_unit exchange_one_int32 = 4"
| "exchange_unit exchange_int64s = 8"
| "exchange_unit exchange_one_int64 = 8"
| "exchange_unit exchange_int128s = 16"
| "exchange_unit exchange_one_int128 = 16"

fun exchange_single :: "exchange_f \<Rightarrow> bool" where
  "exchange_single exchange_one_byte = True"
| "exchange_single exchange_one_int16 = True"
| "exchange_single exchange_one_int32 = True"
| "exchange_single exchange_one_int64 = True"
| "exchange_single exchange_one_int128 = True"
| "exchange_single _ = False"

definition exchange_one :: "nat \<Rightarrow> u8 list \<Rightarrow> nat \<Rightarrow> nat \<Rightarrow> u8 list" where
  "exchange_one u mem a b =
     (let t = take u (drop a mem)
      in mem_write (mem_write mem a (take u (drop b mem))) b t)"

primrec exchange_loop :: "nat \<Rightarrow> nat \<Rightarrow> u8 list \<Rightarrow> nat \<Rightarrow> nat \<Rightarrow> u8 list" where
  "exchange_loop u 0 mem a b = mem"
| "exchange_loop u (Suc n) mem a b = exchange_loop u n (exchange_one u mem a b) (a + u) (b + u)"

definition exchange :: "exchange_f \<Rightarrow> u8 list \<Rightarrow> nat \<Rightarrow> nat \<Rightarrow> nat \<Rightarrow> u8 list" where
  "exchange f mem a b sz =
     (if exchange_single f then exchange_one (exchange_unit f) mem a b
      else exchange_loop (exchange_unit f) (sz div exchange_unit f) mem a b)"

definition exchange_switch :: "nat \<Rightarrow> nat \<Rightarrow> exchange_f" where
  "exchange_switch m sz =
     (if m = 0 then (if sz = 16 then exchange_one_int128 else exchange_int128s)
      else if m = 8 then (if sz = 8 then exchange_one_int64 else exchange_int64s)
      else if m = 4 \<or> m = 12 then (if sz = 4 then exchange_one_int32 else exchange_int32s)
      else if m = 2 \<or> m = 6 \<or> m = 10 \<or> m = 14 then
        (if sz = 2 then exchange_one_int16 else exchange_int16s)
      else (if sz = 1 then exchange_one_byte else exchange_bytes))"

definition exchange_func :: "nat \<Rightarrow> nat \<Rightarrow> exchange_f" where
  "exchange_func base sz = exchange_switch ((base OR sz) AND 15) sz"

definition blocks_apart :: "nat \<Rightarrow> nat \<Rightarrow> nat \<Rightarrow> bool" where
  "blocks_apart a b m \<longleftrightarrow> a + m \<le> b \<or> b + m \<le> a \<or> a = b"

text \<open>Where the byte at \<open>k\<close> comes from when two runs of \<open>m\<close> bytes change places.\<close>

definition exchange_pos :: "nat \<Rightarrow> nat \<Rightarrow> nat \<Rightarrow> nat \<Rightarrow> nat" where
  "exchange_pos a b m k =
     (if a \<le> k \<and> k < a + m then b + (k - a) else if b \<le> k \<and> k < b + m then a + (k - b) else k)"

lemma exchange_pos_split:
  assumes "blocks_apart a b (u + w)"
  shows "exchange_pos a b u (exchange_pos (a + u) (b + u) w k) = exchange_pos a b (u + w) k"
proof -
  define t where "t = exchange_pos (a + u) (b + u) w k"
  consider "a + u \<le> k" "k < a + u + w" "t + a = b + k" | "b + u \<le> k" "k < b + u + w" "t + b = a + k"
    | "\<not> (a + u \<le> k \<and> k < a + u + w)" "\<not> (b + u \<le> k \<and> k < b + u + w)" "t = k"
  proof -
    show thesis if h: "\<lbrakk>a + u \<le> k; k < a + u + w; t + a = b + k\<rbrakk> \<Longrightarrow> thesis"
      "\<lbrakk>b + u \<le> k; k < b + u + w; t + b = a + k\<rbrakk> \<Longrightarrow> thesis"
      "\<lbrakk>\<not> (a + u \<le> k \<and> k < a + u + w); \<not> (b + u \<le> k \<and> k < b + u + w); t = k\<rbrakk> \<Longrightarrow> thesis"
    proof (cases "a + u \<le> k \<and> k < a + u + w")
      case True
      then show ?thesis by (intro h(1)) (simp_all add: t_def exchange_pos_def)
    next
      case na: False
      show ?thesis
      proof (cases "b + u \<le> k \<and> k < b + u + w")
        case True
        then have "t = a + u + (k - (b + u))" using na by (auto simp: t_def exchange_pos_def)
        then show ?thesis using True by (intro h(2)) simp_all
      next
        case False
        then have "t = k" using na by (auto simp: t_def exchange_pos_def)
        then show ?thesis using na False by (intro h(3))
      qed
    qed
  qed
  then have "exchange_pos a b u t = exchange_pos a b (u + w) k"
  proof cases
    case 1
    then have "exchange_pos a b u t = t"
      using assms by (auto simp: blocks_apart_def exchange_pos_def)
    with 1 show ?thesis by (auto simp: exchange_pos_def)
  next
    case 2
    then have "exchange_pos a b u t = t"
      using assms by (auto simp: blocks_apart_def exchange_pos_def)
    with 2 assms show ?thesis by (auto simp: blocks_apart_def exchange_pos_def)
  next
    case 3
    with assms show ?thesis by (auto simp: blocks_apart_def exchange_pos_def)
  qed
  then show ?thesis by (simp add: t_def)
qed

lemma exchange_one_nth:
  assumes "blocks_apart a b u" and "a + u \<le> length mem" and "b + u \<le> length mem"
  shows "length (exchange_one u mem a b) = length mem \<and>
    exchange_one u mem a b ! k = mem ! exchange_pos a b u k"
proof -
  define m1 where "m1 = mem_write mem a (take u (drop b mem))"
  have l1: "length m1 = length mem" using assms(2,3) by (simp add: m1_def length_mem_write)
  have e: "exchange_one u mem a b = mem_write m1 b (take u (drop a mem))"
    by (simp add: exchange_one_def m1_def)
  have len: "length (exchange_one u mem a b) = length mem"
    using assms(2,3) by (simp add: e l1 length_mem_write)
  have n1: "m1 ! k = (if a \<le> k \<and> k < a + u then mem ! (b + (k - a)) else mem ! k)" for k
    using assms(2,3) by (auto simp: m1_def mem_write_def nth_append)
  have n2: "exchange_one u mem a b ! k = (if b \<le> k \<and> k < b + u then mem ! (a + (k - b)) else m1 ! k)" for k
    using assms(2,3) by (auto simp: e l1 mem_write_def nth_append)
  show ?thesis using len assms(1) by (auto simp: n1 n2 blocks_apart_def exchange_pos_def)
qed

lemma exchange_loop_nth:
  assumes "blocks_apart a b (u * n)" and "a + u * n \<le> length mem" and "b + u * n \<le> length mem"
  shows "length (exchange_loop u n mem a b) = length mem \<and>
    exchange_loop u n mem a b ! k = mem ! exchange_pos a b (u * n) k"
  using assms
proof (induction n arbitrary: mem a b k)
  case 0
  then show ?case by (auto simp: exchange_pos_def)
next
  case (Suc n)
  have one: "length (exchange_one u mem a b) = length mem \<and>
    exchange_one u mem a b ! j = mem ! exchange_pos a b u j" for j
    by (rule exchange_one_nth) (use Suc.prems in \<open>auto simp: blocks_apart_def\<close>)
  have "blocks_apart (a + u) (b + u) (u * n)" using Suc.prems(1) by (auto simp: blocks_apart_def)
  note IH = Suc.IH [OF this, of "exchange_one u mem a b"]
  have "length (exchange_loop u (Suc n) mem a b) = length mem"
    using IH one Suc.prems by simp
  moreover have "exchange_loop u (Suc n) mem a b ! k =
      mem ! exchange_pos a b u (exchange_pos (a + u) (b + u) (u * n) k)"
    using IH one Suc.prems by simp
  ultimately show ?case using exchange_pos_split [of a b u "u * n" k] Suc.prems(1) by simp
qed

lemma exchange_func_unit: "exchange_unit (exchange_func base sz) dvd sz"
proof -
  have or: "take_bit n sz = 0" if "take_bit n (base OR sz) = 0" for n
    using that by (simp add: or_eq_0_iff)
  define m where "m = (base OR sz) AND 15"
  have m: "m = take_bit 4 (base OR sz)"
    by (simp add: m_def take_bit_eq_mask mask_eq_exp_minus_1)
  have func: "exchange_func base sz = exchange_switch m sz" by (simp add: exchange_func_def m_def)
  have low: "take_bit n (base OR sz) = take_bit n m" if "n \<le> 4" for n
    using that by (simp add: m min_absorb1)
  consider "m = 0" | "m = 8" | "m \<in> {4, 12}" | "m \<in> {2, 6, 10, 14}" | "m \<notin> {0, 8, 4, 12, 2, 6, 10, 14}"
    by blast
  then show ?thesis
  proof cases
    case 1
    then have "take_bit 4 sz = 0" using or [of 4] low [of 4] by simp
    then have "16 dvd sz" by (simp add: take_bit_eq_mod mod_eq_0_iff_dvd)
    then show ?thesis using 1 by (simp add: func exchange_switch_def)
  next
    case 2
    then have "take_bit 3 m = 0" by (simp add: take_bit_eq_mod)
    then have "take_bit 3 sz = 0" using or [of 3] low [of 3] by simp
    then have "8 dvd sz" by (simp add: take_bit_eq_mod mod_eq_0_iff_dvd)
    then show ?thesis using 2 by (simp add: func exchange_switch_def)
  next
    case 3
    then have "take_bit 2 m = 0" by (auto simp: take_bit_eq_mod)
    then have "take_bit 2 sz = 0" using or [of 2] low [of 2] by simp
    then have "4 dvd sz" by (simp add: take_bit_eq_mod mod_eq_0_iff_dvd)
    then show ?thesis using 3 by (auto simp: func exchange_switch_def)
  next
    case 4
    then have "take_bit 1 m = 0" by (auto simp: take_bit_eq_mod)
    then have "take_bit 1 sz = 0" using or [of 1] low [of 1] by simp
    then have "2 dvd sz" by (simp add: take_bit_eq_mod mod_eq_0_iff_dvd)
    then show ?thesis using 4 by (auto simp: func exchange_switch_def)
  next
    case 5
    then show ?thesis by (simp add: func exchange_switch_def)
  qed
qed

lemma exchange_unit_power: "\<exists>i \<le> 4. exchange_unit f = 2 ^ i"
proof (cases f)
  case exchange_int128s
  then show ?thesis by (intro exI [of _ 4]) simp
next
  case exchange_one_int128
  then show ?thesis by (intro exI [of _ 4]) simp
qed (auto intro: exI [of _ "0 :: nat"] exI [of _ "1 :: nat"] exI [of _ "2 :: nat"] exI [of _ "3 :: nat"])

lemma exchange_func_block_unit: "exchange_unit (exchange_func base (sz OR 128)) dvd sz"
proof -
  obtain i where i: "i \<le> 4" "exchange_unit (exchange_func base (sz OR 128)) = 2 ^ i"
    using exchange_unit_power by blast
  have "2 ^ i dvd (sz OR 128)" using exchange_func_unit [of base "sz OR 128"] i(2) by simp
  then have "take_bit i (sz OR 128) = 0" by (simp only: take_bit_eq_0_iff)
  then have "take_bit i sz = 0" by (simp only: take_bit_or or_eq_0_iff)
  then show ?thesis using i(2) by (simp only: take_bit_eq_0_iff)
qed

lemma exchange_single_unit:
  assumes "exchange_single (exchange_func base sz)"
  shows "exchange_unit (exchange_func base sz) = sz \<and> sz \<in> {1, 2, 4, 8, 16}"
proof -
  have "exchange_unit (exchange_switch m sz) = sz \<and> sz \<in> {1, 2, 4, 8, 16}"
    if "exchange_single (exchange_switch m sz)" for m
    using that unfolding exchange_switch_def
    by (cases "sz = 1"; cases "sz = 2"; cases "sz = 4"; cases "sz = 8"; cases "sz = 16") (auto split: if_splits)
  then show ?thesis using assms by (simp only: exchange_func_def)
qed

lemma exchange_block_not_single: "\<not> exchange_single (exchange_func base (sz OR 128))"
proof
  assume "exchange_single (exchange_func base (sz OR 128))"
  then have "sz OR 128 \<in> {1, 2, 4, 8, 16}" by (rule exchange_single_unit [THEN conjunct2])
  moreover have "bit (128 :: nat) 7" by (simp add: bit_iff_odd)
  then have "bit (sz OR 128) 7" by (simp only: bit_or_iff simp_thms)
  moreover have "\<not> bit n 7" if "n \<in> {1, 2, 4, 8, 16 :: nat}" for n
    using that by (auto simp: bit_iff_odd)
  ultimately show False by blast
qed

lemma exchange_eq_loop:
  assumes "f = exchange_func base sz \<and> m = sz \<and> 0 < sz \<or> f = exchange_func base (sz OR 128) \<and> sz dvd m"
  shows "exchange f mem a b m = exchange_loop (exchange_unit f) (m div exchange_unit f) mem a b \<and>
    exchange_unit f dvd m"
proof (cases "exchange_single f")
  case True
  then have f: "f = exchange_func base sz \<and> m = sz \<and> 0 < sz"
    using assms exchange_block_not_single by blast
  then have "exchange_unit f = m \<and> m \<noteq> 0"
    using exchange_single_unit [of base sz] True by simp
  then show ?thesis using True by (simp add: exchange_def)
next
  case False
  moreover have "exchange_unit f dvd m"
    using assms exchange_func_unit [of base sz] dvd_trans [OF exchange_func_block_unit [of base sz], of m]
    by (elim disjE conjE) simp_all
  ultimately show ?thesis by (simp add: exchange_def)
qed

lemma exchange_nth:
  assumes "f = exchange_func base sz \<and> m = sz \<and> 0 < sz \<or> f = exchange_func base (sz OR 128) \<and> sz dvd m"
    and "blocks_apart a b m" and "a + m \<le> length mem" and "b + m \<le> length mem"
  shows "length (exchange f mem a b m) = length mem \<and>
    exchange f mem a b m ! k = mem ! exchange_pos a b m k"
proof -
  have "exchange_unit f * (m div exchange_unit f) = m"
    using exchange_eq_loop [OF assms(1)] by simp
  then show ?thesis
    using exchange_loop_nth [of a b "exchange_unit f" "m div exchange_unit f" mem k] assms(2-)
      exchange_eq_loop [OF assms(1), of mem a b] by simp
qed

text \<open>On an array of elements of equal size the exchange of bytes is the exchange of elements.\<close>

lemma length_rows: "\<forall>r \<in> set rows. length r = s \<Longrightarrow> length (concat rows) = length rows * s"
  by (induction rows) auto

lemma nth_rows:
  assumes "\<forall>r \<in> set rows. length r = s" and "q < length rows" and "r < s"
  shows "concat rows ! (q * s + r) = rows ! q ! r"
  using assms
proof (induction rows arbitrary: q)
  case Nil
  then show ?case by simp
next
  case (Cons x rows)
  then show ?case by (cases q) (auto simp: nth_append add.assoc)
qed

lemma exchange_pos_rows:
  assumes "r < s"
  shows "exchange_pos (i * s) (j * s) (n * s) (q * s + r) = exchange_pos i j n q * s + r"
proof -
  have le: "x * s \<le> q * s + r \<longleftrightarrow> x \<le> q" for x
  proof -
    have "q * s + r < x * s" if "q < x"
      using mult_le_mono1 [of "Suc q" x s] that assms by simp
    moreover have "x * s \<le> q * s + r" if "x \<le> q"
      by (rule le_trans [OF mult_le_mono1 [OF that] le_add1])
    ultimately show ?thesis by (meson not_le)
  qed
  have lt: "q * s + r < x * s + n * s \<longleftrightarrow> q < x + n" for x
    using le [of "x + n"] by (simp add: add_mult_distrib not_le [symmetric] del: not_le)
  have shift: "y * s + (q * s + r - x * s) = (y + (q - x)) * s + r" if "x \<le> q" for x y
    using that by (auto simp: le_iff_add add_mult_distrib)
  show ?thesis unfolding exchange_pos_def le lt
    by (simp add: shift)
qed

lemma exchange_pos_bound: "i + n \<le> l \<Longrightarrow> j + n \<le> l \<Longrightarrow> q < l \<Longrightarrow> exchange_pos i j n q < l"
  by (auto simp: exchange_pos_def)

lemma exchange_rows:
  assumes rows: "\<forall>r \<in> set rows. length r = sz" and "0 < sz"
    and f: "f = exchange_func base sz \<and> n = 1 \<or> f = exchange_func base (sz OR 128)"
    and ij: "blocks_apart i j n" "i + n \<le> length rows" "j + n \<le> length rows"
    and new: "length new = length rows" "\<And>q. q < length rows \<Longrightarrow> new ! q = rows ! exchange_pos i j n q"
  shows "exchange f (concat rows) (i * sz) (j * sz) (n * sz) = concat new"
proof -
  have apart: "blocks_apart (i * sz) (j * sz) (n * sz)"
    using ij(1) mult_le_mono1 [of "i + n" j sz] mult_le_mono1 [of "j + n" i sz]
    by (auto simp: blocks_apart_def add_mult_distrib)
  have len: "i * sz + n * sz \<le> length (concat rows)" "j * sz + n * sz \<le> length (concat rows)"
    using ij(2,3) mult_le_mono1 [of "i + n" "length rows" sz] mult_le_mono1 [of "j + n" "length rows" sz]
    by (auto simp: length_rows [OF rows] add_mult_distrib)
  have f': "f = exchange_func base sz \<and> n * sz = sz \<and> 0 < sz \<or> f = exchange_func base (sz OR 128) \<and> sz dvd n * sz"
    using f assms(2) by auto
  note e = exchange_nth [OF f' apart len]
  have rows': "\<forall>r \<in> set new. length r = sz"
    using rows new exchange_pos_bound [OF ij(2,3)] by (metis in_set_conv_nth nth_mem)
  show ?thesis
  proof (rule nth_equalityI)
    show l: "length (exchange f (concat rows) (i * sz) (j * sz) (n * sz)) = length (concat new)"
      using e new(1) by (simp add: length_rows [OF rows] length_rows [OF rows'])
    fix k assume "k < length (exchange f (concat rows) (i * sz) (j * sz) (n * sz))"
    then have k: "k < length rows * sz" using e by (simp add: length_rows [OF rows])
    define q r where "q = k div sz" and "r = k mod sz"
    have qr: "k = q * sz + r" "r < sz" "q < length rows"
      using assms(2) k by (auto simp: q_def r_def less_mult_imp_div_less)
    have "exchange f (concat rows) (i * sz) (j * sz) (n * sz) ! k = concat rows ! (exchange_pos i j n q * sz + r)"
      using e [of k] by (simp add: qr(1) exchange_pos_rows [OF qr(2)])
    also have "\<dots> = new ! q ! r"
      using nth_rows [OF rows exchange_pos_bound [OF ij(2,3) qr(3)] qr(2)] new(2) [OF qr(3)] by simp
    also have "\<dots> = concat new ! k" using nth_rows [OF rows' _ qr(2)] new(1) qr by simp
    finally show "exchange f (concat rows) (i * sz) (j * sz) (n * sz) ! k = concat new ! k" .
  qed
qed

lemma exchange_swap_at:
  assumes "\<forall>r \<in> set rows. length r = sz" and "0 < sz" and "i < length rows" and "j < length rows"
  shows "exchange (exchange_func base sz) (concat rows) (i * sz) (j * sz) sz = concat (swap_at rows i j)"
proof -
  have "exchange (exchange_func base sz) (concat rows) (i * sz) (j * sz) (1 * sz) = concat (swap_at rows i j)"
  proof (rule exchange_rows [OF assms(1,2)])
    show "swap_at rows i j ! q = rows ! exchange_pos i j 1 q" for q
      using swap_at_nth [OF assms(3,4), of q] by (auto simp: exchange_pos_def)
  qed (use assms in \<open>auto simp: blocks_apart_def\<close>)
  then show ?thesis by simp
qed

lemma exchange_swap_block:
  assumes "\<forall>r \<in> set rows. length r = sz" and "0 < sz" and "i + n \<le> j" and "j + n \<le> length rows"
  shows "exchange (exchange_func base (sz OR 128)) (concat rows) (i * sz) (j * sz) (n * sz) =
    concat (swap_block rows i j n)"
proof (rule exchange_rows [OF assms(1,2)])
  show "swap_block rows i j n ! q = rows ! exchange_pos i j n q" for q
    using swap_block_nth [of i n j rows q] assms(3,4) by (auto simp: exchange_pos_def)
  show "length (swap_block rows i j n) = length rows"
    using swap_block_nth [of i n j rows] assms(3,4) by auto
qed (use assms in \<open>auto simp: blocks_apart_def\<close>)


text \<open>
  C21. The exchange functions refine the exchange of elements: whatever the alignment of the array
  and the size of its elements, the function that \<^verbatim>\<open>rqsort\<close> picks for one element swaps two
  elements, and the one it picks for runs swaps two runs that do not overlap, byte for byte.
\<close>

theorem exchange_refines_swap:
  assumes "\<forall>r \<in> set rows. length r = sz" and "0 < sz" and "i < length rows" and "j < length rows"
  shows "exchange (exchange_func base sz) (concat rows) (i * sz) (j * sz) sz = concat (swap_at rows i j) \<and>
    (i + n \<le> j \<and> j + n \<le> length rows \<longrightarrow>
      exchange (exchange_func base (sz OR 128)) (concat rows) (i * sz) (j * sz) (n * sz) =
        concat (swap_block rows i j n))"
  using exchange_swap_at [OF assms] exchange_swap_block [OF assms(1,2)] by blast

theorem exchange_refines_swap_witness:
  "exchange (exchange_func 4096 2) [1, 2, 3, 4, 5, 6] 0 4 2 = [5, 6, 3, 4, 1, 2 :: u8]"
  using exchange_refines_swap [of "[[1, 2], [3, 4], [5, 6 :: u8]]" 2 0 2 4096 1]
  by (simp add: swap_at_def)

end
