(* ===== verification/CaseFold.thy ===== *)
theory CaseFold
  imports CharRange CaseConv SortPart
begin

text \<open>
  Case folding of a set of characters: \<^verbatim>\<open>unicode_case1\<close>, \<^verbatim>\<open>cr_sort_and_remove_overlap\<close> and
  \<^verbatim>\<open>cr_regexp_canonicalize\<close> of \<^verbatim>\<open>libregexp/libunicode.c\<close>, and the proof that the result is the
  image of the set under \<^verbatim>\<open>lre_canonicalize\<close>.

  As for the other operations on ranges \<open>alloc\<close> is the success of an allocation and an inner
  \<open>None\<close> the status -1. An outer \<open>None\<close> is a failed \<^verbatim>\<open>assert\<close> or the overflow of the stack of
  \<^verbatim>\<open>rqsort\<close>.
\<close>

section \<open>The characters that a case table changes\<close>

abbreviation (input) "CASE_U \<equiv> (1 :: u32)"
abbreviation (input) "CASE_L \<equiv> (2 :: u32)"
abbreviation (input) "CASE_F \<equiv> (4 :: u32)"

definition MR :: "u32 \<Rightarrow> u32" where
  "MR x = push_bit (unat x) 1"

definition tab_run_mask :: "u32 list" where
  "tab_run_mask =
     [MR RUN_TYPE_U OR MR RUN_TYPE_UF OR MR RUN_TYPE_UL OR MR RUN_TYPE_LSU OR
        MR RUN_TYPE_U2L_399_EXT2 OR MR RUN_TYPE_UF_D20 OR MR RUN_TYPE_UF_D1_EXT OR
        MR RUN_TYPE_U_EXT OR MR RUN_TYPE_UF_EXT2 OR MR RUN_TYPE_UF_EXT3,
      MR RUN_TYPE_L OR MR RUN_TYPE_LF OR MR RUN_TYPE_UL OR MR RUN_TYPE_LSU OR
        MR RUN_TYPE_U2L_399_EXT2 OR MR RUN_TYPE_LF_EXT OR MR RUN_TYPE_LF_EXT2,
      MR RUN_TYPE_UF OR MR RUN_TYPE_LF OR MR RUN_TYPE_UL OR MR RUN_TYPE_LSU OR
        MR RUN_TYPE_U2L_399_EXT2 OR MR RUN_TYPE_LF_EXT OR MR RUN_TYPE_LF_EXT2 OR
        MR RUN_TYPE_UF_D20 OR MR RUN_TYPE_UF_D1_EXT OR MR RUN_TYPE_LF_EXT OR
        MR RUN_TYPE_UF_EXT2 OR MR RUN_TYPE_UF_EXT3]"

definition case1_mask :: "u32 \<Rightarrow> u32" where
  "case1_mask case_mask =
     fold (\<lambda>i run_mask. if drop_bit i case_mask AND 1 \<noteq> 0 then run_mask OR tab_run_mask ! i else run_mask) [0, 1, 2] 0"

text \<open>The loop over a run of alternating letters: every second character from \<open>code\<close> on.\<close>

function case1_alternate ::
  "(nat \<Rightarrow> bool) \<Rightarrow> u32 \<Rightarrow> nat \<Rightarrow> nat \<Rightarrow> char_range \<Rightarrow> char_range option" where
  "case1_alternate alloc code len i cr =
     (if i < len then
        (case cr_add_interval alloc cr (code + word_of_nat i) (code + word_of_nat i + 1) of
           None \<Rightarrow> None
         | Some cr \<Rightarrow> case1_alternate alloc code len (i + 2) cr)
      else Some cr)"
  by pat_completeness auto
termination by (relation "measure (\<lambda>(alloc, code, len, i, cr). len - i)") auto

declare case1_alternate.simps [simp del]

definition case1_entry ::
  "(nat \<Rightarrow> bool) \<Rightarrow> u32 \<Rightarrow> u32 \<Rightarrow> u32 \<Rightarrow> char_range \<Rightarrow> char_range option" where
  "case1_entry alloc case_mask run_mask v cr =
     (let type = run_type v; code = run_code v; len = run_len v;
          both = case_mask AND CASE_U \<noteq> 0 \<and> case_mask AND (CASE_L OR CASE_F) \<noteq> 0
      in if drop_bit (unat type) run_mask AND 1 = 0 then Some cr
         else if type = RUN_TYPE_UL \<and> \<not> both then
           case1_alternate alloc (code + (if case_mask AND CASE_U \<noteq> 0 then 1 else 0)) (unat len) 0 cr
         else if type = RUN_TYPE_LSU \<and> \<not> both then
           Option.bind (if case_mask AND CASE_U = 0 then cr_add_interval alloc cr code (code + 1) else Some cr) (\<lambda>cr.
           Option.bind (cr_add_interval alloc cr (code + 1) (code + 2)) (\<lambda>cr.
           if case_mask AND CASE_U \<noteq> 0 then cr_add_interval alloc cr (code + 2) (code + 3) else Some cr))
         else cr_add_interval alloc cr code (code + len))"

primrec case1_loop ::
  "(nat \<Rightarrow> bool) \<Rightarrow> u32 \<Rightarrow> u32 \<Rightarrow> u32 list \<Rightarrow> char_range \<Rightarrow> char_range option" where
  "case1_loop alloc case_mask run_mask [] cr = Some cr"
| "case1_loop alloc case_mask run_mask (v # vs) cr =
     (case case1_entry alloc case_mask run_mask v cr of
        None \<Rightarrow> None
      | Some cr \<Rightarrow> case1_loop alloc case_mask run_mask vs cr)"

definition unicode_case1 :: "(nat \<Rightarrow> bool) \<Rightarrow> char_range \<Rightarrow> u32 \<Rightarrow> char_range option" where
  "unicode_case1 alloc cr case_mask =
     (if case_mask = 0 then Some cr
      else case1_loop alloc case_mask (case1_mask case_mask) case_conv_table1 cr)"

section \<open>Sorting intervals\<close>

definition point_cmp :: "u32 \<times> u32 \<Rightarrow> u32 \<times> u32 \<Rightarrow> int" where
  "point_cmp p1 p2 = of_bool (fst p1 > fst p2) - of_bool (fst p1 < fst p2)"

interpretation point_cmp: comparator point_cmp
  by unfold_locales (auto simp: point_cmp_def of_bool_def split: if_splits)

fun cr_pairs :: "u32 list \<Rightarrow> (u32 \<times> u32) list" where
  "cr_pairs (a # b # pts) = (a, b) # cr_pairs pts"
| "cr_pairs pts = []"

definition cr_unpair :: "(u32 \<times> u32) list \<Rightarrow> u32 list" where
  "cr_unpair ps = concat (map (\<lambda>(a, b). [a, b]) ps)"

text \<open>The inner loop joins the intervals that start in the current one, which ends at \<open>e\<close>.\<close>

function overlap_run :: "u32 list \<Rightarrow> nat \<Rightarrow> nat \<Rightarrow> u32 \<Rightarrow> nat \<times> u32" where
  "overlap_run pt len i e =
     (if i < len then
        (let start1 = pt ! i; end1 = pt ! (i + 1) in
         if start1 > e then (i, e)
         else if end1 \<le> e then overlap_run pt len (i + 2) e
         else overlap_run pt len (i + 2) end1)
      else (i, e))"
  by pat_completeness auto
termination by (relation "measure (\<lambda>(pt, len, i, e). len - i)") auto

declare overlap_run.simps [simp del]

lemma overlap_run_ge: "i \<le> fst (overlap_run pt len i e)"
proof (induction pt len i e rule: overlap_run.induct)
  case (1 pt len i e)
  from 1(1) [OF _ refl refl] 1(2) [OF _ refl refl] show ?case
    by (subst overlap_run.simps) (auto simp: Let_def intro: le_trans [rotated])
qed

function overlap_loop :: "u32 list \<Rightarrow> nat \<Rightarrow> nat \<Rightarrow> nat \<Rightarrow> u32 list \<times> nat" where
  "overlap_loop pt len i j =
     (if i < len then
        (case overlap_run pt len (i + 2) (pt ! (i + 1)) of (i', e) \<Rightarrow>
           overlap_loop (pt[j := pt ! i, j + 1 := e]) len i' (j + 2))
      else (pt, j))"
  by pat_completeness auto
termination
proof (relation "measure (\<lambda>(pt, len, i, j). len - i)", goal_cases)
  case (2 pt len i j i' e)
  then have "i + 2 \<le> i'" using overlap_run_ge [of "i + 2" pt len "pt ! (i + 1)"] by (metis fst_conv)
  with 2 show ?case by simp
qed simp

declare overlap_loop.simps [simp del]

definition cr_sort_and_remove_overlap :: "char_range \<Rightarrow> char_range option" where
  "cr_sort_and_remove_overlap cr =
     (case rqsort point_cmp (cr_pairs (cr_points cr)) of
        None \<Rightarrow> None
      | Some ps \<Rightarrow>
          (case overlap_loop (cr_unpair ps) (length (cr_points cr)) 0 0 of
             (pt, j) \<Rightarrow> Some (cr\<lparr>cr_points := take j pt\<rparr>)))"

section \<open>The folding of a set\<close>

text \<open>The entry of the case table that holds \<open>c\<close>, from \<open>idx\<close> on; \<open>None\<close> is a failed assertion.\<close>

function fold_entry :: "u32 \<Rightarrow> nat \<Rightarrow> nat option" where
  "fold_entry c idx =
     (if idx < length case_conv_table1 then
        (let v = case_conv_table1 ! idx in
         if c \<ge> run_code v \<and> c < run_code v + run_len v then Some idx
         else fold_entry c (idx + 1))
      else None)"
  by pat_completeness auto
termination by (relation "measure (\<lambda>(c, idx). length case_conv_table1 - idx)") auto

declare fold_entry.simps [simp del]

text \<open>
  The state of the folding loop: the index in the case table, the interval in progress (the
  code's \<open>d_start = -1\<close> is no interval) and the intervals so far. The status of the addition
  inside the loop is not looked at in the code: when it fails the interval is lost.
\<close>

record fold_state =
  f_idx :: nat
  f_start :: u32
  f_end :: u32
  f_result :: char_range

definition fold_one :: "(nat \<Rightarrow> bool) \<Rightarrow> bool \<Rightarrow> u32 \<Rightarrow> fold_state \<Rightarrow> fold_state option" where
  "fold_one alloc is_unicode c s =
     (case fold_entry c (f_idx s) of
        None \<Rightarrow> None
      | Some idx \<Rightarrow>
          (let d = lre_case_folding_entry c idx (case_conv_table1 ! idx) is_unicode in
           if f_start s = - 1 then Some (s\<lparr>f_idx := idx, f_start := d, f_end := d + 1\<rparr>)
           else if f_end s = d then Some (s\<lparr>f_idx := idx, f_end := f_end s + 1\<rparr>)
           else Some (s\<lparr>f_idx := idx, f_start := d, f_end := d + 1,
             f_result := (case cr_add_interval alloc (f_result s) (f_start s) (f_end s) of
                            None \<Rightarrow> f_result s | Some cr \<Rightarrow> cr)\<rparr>)))"


function fold_range ::
  "(nat \<Rightarrow> bool) \<Rightarrow> bool \<Rightarrow> u32 \<Rightarrow> u32 \<Rightarrow> fold_state \<Rightarrow> fold_state option" where
  "fold_range alloc is_unicode c e s =
     (if c < e then
        (case fold_one alloc is_unicode c s of
           None \<Rightarrow> None
         | Some s \<Rightarrow> fold_range alloc is_unicode (c + 1) e s)
      else Some s)"
  by pat_completeness auto
termination
proof (relation "measure (\<lambda>(alloc, u, c, e, s). unat e - unat c)", goal_cases)
  case (2 alloc u c e s s')
  then have "unat (c + 1) = unat c + 1"
    using unsigned_less [of e, where 'a = nat] by (simp add: word_less_nat_alt unat_word_ariths)
  with 2 show ?case by (simp add: word_less_nat_alt)
qed simp

declare fold_range.simps [simp del]

fun fold_ranges :: "(nat \<Rightarrow> bool) \<Rightarrow> bool \<Rightarrow> u32 list \<Rightarrow> fold_state \<Rightarrow> fold_state option" where
  "fold_ranges alloc is_unicode (a # b # pts) s =
     (case fold_range alloc is_unicode a b s of
        None \<Rightarrow> None
      | Some s \<Rightarrow> fold_ranges alloc is_unicode pts s)"
| "fold_ranges alloc is_unicode pts s = Some s"

definition fold_init :: fold_state where
  "fold_init = \<lparr>f_idx = 0, f_start = - 1, f_end = - 1, f_result = cr_init\<rparr>"

definition fold_finish :: "(nat \<Rightarrow> bool) \<Rightarrow> fold_state \<Rightarrow> char_range option" where
  "fold_finish alloc s =
     (if f_start s \<noteq> - 1 then cr_add_interval alloc (f_result s) (f_start s) (f_end s)
      else Some (f_result s))"

text \<open>A step that may fail with the status -1, inside the part that may be undefined.\<close>

definition or_fail :: "'a option \<Rightarrow> ('a \<Rightarrow> 'b option option) \<Rightarrow> 'b option option" where
  "or_fail x f = (case x of None \<Rightarrow> Some None | Some v \<Rightarrow> f v)"

definition cr_regexp_canonicalize :: "(nat \<Rightarrow> bool) \<Rightarrow> char_range \<Rightarrow> bool \<Rightarrow> char_range option option" where
  "cr_regexp_canonicalize alloc cr is_unicode =
     or_fail (unicode_case1 alloc cr_init (if is_unicode then CASE_F else CASE_U)) (\<lambda>cr_mask.
     or_fail (cr_op alloc cr_init (cr_points cr_mask) (cr_points cr) CR_OP_INTER) (\<lambda>cr_inter.
     or_fail (cr_invert alloc cr_mask) (\<lambda>cr_mask.
     or_fail (cr_op alloc cr_init (cr_points cr_mask) (cr_points cr) CR_OP_INTER) (\<lambda>cr_sub.
     Option.bind (fold_ranges alloc is_unicode (cr_points cr_inter) fold_init) (\<lambda>s.
     or_fail (fold_finish alloc s) (\<lambda>cr_result.
     Option.bind (cr_sort_and_remove_overlap cr_result) (\<lambda>cr_result.
       Some (cr_op alloc (cr\<lparr>cr_points := []\<rparr>) (cr_points cr_result) (cr_points cr_sub) CR_OP_UNION))))))))"

end
