(* ===== verification/FoldIntervals.thy ===== *)
theory FoldIntervals
  imports CaseFold
begin

text \<open>
  Correctness of \<^verbatim>\<open>cr_sort_and_remove_overlap\<close>: intervals in any order and overlapping in any way
  become a canonical list of bounds of their union.
\<close>

section \<open>Joining overlapping intervals\<close>

text \<open>What the loop computes, on the list of bounds: the first interval absorbs those it touches.\<close>

fun absorb :: "u32 \<Rightarrow> u32 list \<Rightarrow> u32 \<times> u32 list" where
  "absorb e (s1 # e1 # pts) =
     (if s1 > e then (e, s1 # e1 # pts) else if e1 \<le> e then absorb e pts else absorb e1 pts)"
| "absorb e pts = (e, pts)"

lemma absorb_length: "length (snd (absorb e pts)) \<le> length pts"
  by (induction e pts rule: absorb.induct) auto

lemma absorb_even: "even (length (snd (absorb e pts))) \<longleftrightarrow> even (length pts)"
  by (induction e pts rule: absorb.induct) auto

function joined :: "u32 list \<Rightarrow> u32 list" where
  "joined (s # e # pts) = s # fst (absorb e pts) # joined (snd (absorb e pts))"
| "joined [] = []"
| "joined [v] = []"
  by pat_completeness auto
termination
  by (relation "measure length") (auto simp: le_imp_less_Suc absorb_length le_SucI)

lemma overlap_run_absorb:
  assumes "even (length pt)" and "even i" and "i \<le> length pt"
    and "overlap_run pt (length pt) i e = (i', e')"
  shows "absorb e (drop i pt) = (e', drop i' pt) \<and> i \<le> i' \<and> i' \<le> length pt \<and> even i'"
  using assms(2-)
proof (induction "length pt - i" arbitrary: i e rule: less_induct)
  case less
  show ?case
  proof (cases "i < length pt")
    case False
    then show ?thesis using less.prems by (subst (asm) overlap_run.simps) simp
  next
    case True
    then have i: "i + 1 < length pt" "i + 2 \<le> length pt" using less.prems(1) assms(1) by presburger+
    then have d: "drop i pt = pt ! i # pt ! (i + 1) # drop (i + 2) pt"
      by (metis Cons_nth_drop_Suc Suc_eq_plus1 True add_2_eq_Suc')
    have r: "overlap_run pt (length pt) i e =
      (if pt ! i > e then (i, e) else if pt ! (i + 1) \<le> e then overlap_run pt (length pt) (i + 2) e
       else overlap_run pt (length pt) (i + 2) (pt ! (i + 1)))"
      using True by (subst overlap_run.simps) (simp add: Let_def)
    have IH: "overlap_run pt (length pt) (i + 2) e0 = (i', e') \<Longrightarrow>
        absorb e0 (drop (i + 2) pt) = (e', drop i' pt) \<and> i + 2 \<le> i' \<and> i' \<le> length pt \<and> even i'" for e0
      by (rule less.hyps) (use less.prems i in auto)
    show ?thesis
    proof (cases "pt ! i > e")
      case True
      then have "i' = i" "e' = e" using less.prems(3) by (simp_all add: r)
      then show ?thesis using True less.prems(1,2) by (simp only: d absorb.simps if_True) simp
    next
      case False
      then show ?thesis
        using less.prems(3) IH [of e] IH [of "pt ! (i + 1)"] unfolding r d by (auto split: if_splits)
    qed
  qed
qed

lemma overlap_loop_joined:
  assumes "even (length pt)" and "even i" and "i \<le> length pt" and "j \<le> i"
    and "overlap_loop pt (length pt) i j = (pt', k)"
  shows "take k pt' = take j pt @ joined (drop i pt)"
  using assms
proof (induction "length pt - i" arbitrary: pt i j rule: less_induct)
  case less
  show ?case
  proof (cases "i < length pt")
    case False
    then show ?thesis using less.prems by (subst (asm) overlap_loop.simps) simp
  next
    case True
    then have i: "i + 1 < length pt" "i + 2 \<le> length pt" using less.prems(1,2) by presburger+
    then have d: "drop i pt = pt ! i # pt ! (i + 1) # drop (i + 2) pt"
      by (metis Cons_nth_drop_Suc Suc_eq_plus1 True add_2_eq_Suc')
    obtain i' e where r: "overlap_run pt (length pt) (i + 2) (pt ! (i + 1)) = (i', e)" by fastforce
    have a: "absorb (pt ! (i + 1)) (drop (i + 2) pt) = (e, drop i' pt)"
      and i': "i + 2 \<le> i'" "i' \<le> length pt" "even i'"
      using overlap_run_absorb [OF less.prems(1) _ i(2) r] less.prems(2) by auto
    define qt where "qt = pt[j := pt ! i, j + 1 := e]"
    have l: "length qt = length pt" by (simp add: qt_def)
    have "overlap_loop qt (length qt) i' (j + 2) = (pt', k)"
      using less.prems(5) True r by (subst (asm) overlap_loop.simps) (simp add: qt_def)
    then have "take k pt' = take (j + 2) qt @ joined (drop i' qt)"
      by (intro less.hyps) (use less.prems i' i l in auto)
    moreover have "take (j + 2) qt = take j pt @ [pt ! i, e]"
      using less.prems(4) i(1) by (simp add: qt_def take_Suc_conv_app_nth nth_list_update)
    moreover have "drop i' qt = drop i' pt" using less.prems(4) i' by (simp add: qt_def)
    ultimately show ?thesis unfolding d joined.simps a by simp
  qed
qed

text \<open>Intervals in increasing order of their start, none empty.\<close>

fun starts_sorted :: "u32 list \<Rightarrow> bool" where
  "starts_sorted (a # b # pts) =
     (a < b \<and> (case pts of s # _ \<Rightarrow> a \<le> s | [] \<Rightarrow> True) \<and> starts_sorted pts)"
| "starts_sorted [] = True"
| "starts_sorted [v] = False"

lemma absorb_set:
  assumes "starts_sorted pts" and "case pts of s1 # _ \<Rightarrow> s \<le> s1 | [] \<Rightarrow> True"
  shows "{s..<fst (absorb e pts)} \<union> cr_set (snd (absorb e pts)) = {s..<e} \<union> cr_set pts \<and>
    e \<le> fst (absorb e pts) \<and> starts_sorted (snd (absorb e pts)) \<and>
    (case snd (absorb e pts) of s1 # _ \<Rightarrow> fst (absorb e pts) < s1 | [] \<Rightarrow> True)"
  using assms
proof (induction e pts rule: absorb.induct)
  case (1 e s1 e1 pts)
  have next_ok: "case pts of s1 # _ \<Rightarrow> s \<le> s1 | [] \<Rightarrow> True" and sp: "starts_sorted pts"
    using 1(3,4) by (auto split: list.splits)
  show ?case
  proof (cases "s1 > e")
    case True
    then show ?thesis using 1(3) by simp
  next
    case False
    have s: "s \<le> s1" "s1 < e1" using 1(3,4) by auto
    show ?thesis
    proof (cases "e1 \<le> e")
      case True
      have "{s..<e} \<union> {s1..<e1} = {s..<e}" using s True by auto
      moreover have "absorb e (s1 # e1 # pts) = absorb e pts" using False True by simp
      ultimately show ?thesis using 1(1) [OF False True sp next_ok]
        by (simp only: cr_set.simps Un_assoc [symmetric])
    next
      case e: False
      have "{s..<e} \<union> {s1..<e1} = {s..<e1}" using s e False by auto
      moreover have "absorb e (s1 # e1 # pts) = absorb e1 pts" using False e by simp
      ultimately show ?thesis using 1(2) [OF False e sp next_ok] order_trans [OF less_imp_le, of e e1] e
        by (simp only: cr_set.simps Un_assoc [symmetric] not_le)
    qed
  qed
qed auto

lemma joined_correct:
  "starts_sorted pts \<Longrightarrow>
     cr_wf (joined pts) \<and> cr_set (joined pts) = cr_set pts \<and>
     (joined pts = [] \<longleftrightarrow> pts = []) \<and> (pts \<noteq> [] \<longrightarrow> hd (joined pts) = hd pts)"
proof (induction pts rule: joined.induct)
  case (1 s e pts)
  have sp: "starts_sorted pts" "case pts of s1 # _ \<Rightarrow> s \<le> s1 | [] \<Rightarrow> True" "s < e"
    using 1(2) by auto
  obtain e' pts' where a: "absorb e pts = (e', pts')" by fastforce
  note A = absorb_set [OF sp(1,2), of e, unfolded a, simplified]
  have IH: "cr_wf (joined pts')" "cr_set (joined pts') = cr_set pts'" "joined pts' = [] \<longleftrightarrow> pts' = []"
    "pts' \<noteq> [] \<Longrightarrow> hd (joined pts') = hd pts'"
    using 1(1) A a by auto
  have "cr_wf (s # e' # joined pts')"
    using IH A sp(3) by (cases "joined pts'"; cases pts') (auto simp: cr_wf_def)
  then show ?case using A a IH by (simp add: joined.simps(1) del: cr_wf_pair)
qed (auto simp: cr_wf_def)


section \<open>Sorting\<close>

lemma length_cr_unpair: "length (cr_unpair ps) = 2 * length ps"
  by (induction ps) (auto simp: cr_unpair_def)

lemma cr_unpair_pairs: "even (length pts) \<Longrightarrow> cr_unpair (cr_pairs pts) = pts"
  by (induction pts rule: cr_pairs.induct) (auto simp: cr_unpair_def)

lemma length_cr_pairs: "even (length pts) \<Longrightarrow> 2 * length (cr_pairs pts) = length pts"
  by (induction pts rule: cr_pairs.induct) auto

lemma cr_set_unpair: "cr_set (cr_unpair ps) = (\<Union>(a, b) \<in> set ps. {a..<b})"
  by (induction ps) (auto simp: cr_unpair_def)

lemma starts_sorted_unpair:
  "starts_sorted (cr_unpair ps) \<longleftrightarrow> sorted_wrt (\<lambda>p q. fst p \<le> fst q) ps \<and> (\<forall>(a, b) \<in> set ps. a < b)"
proof (induction ps)
  case Nil
  then show ?case by (simp add: cr_unpair_def)
next
  case (Cons p ps)
  obtain a b where p: "p = (a, b)" by fastforce
  have u: "cr_unpair ((a, b) # ps) = a # b # cr_unpair ps" by (simp add: cr_unpair_def)
  have "(case cr_unpair ps of s # _ \<Rightarrow> a \<le> s | [] \<Rightarrow> True) \<longleftrightarrow> (case ps of q # _ \<Rightarrow> a \<le> fst q | [] \<Rightarrow> True)"
    by (cases ps) (auto simp: cr_unpair_def)
  moreover have "(\<forall>q \<in> set ps. a \<le> fst q) \<longleftrightarrow> (case ps of q # _ \<Rightarrow> a \<le> fst q | [] \<Rightarrow> True)"
    if "sorted_wrt (\<lambda>p q. fst p \<le> fst q) ps"
    using that by (cases ps) (auto intro: order_trans)
  ultimately show ?case using Cons.IH unfolding p by (auto simp: u)
qed

lemma cr_sort_and_remove_overlap_correct:
  assumes "even (length (cr_points cr))" and "\<forall>(a, b) \<in> set (cr_pairs (cr_points cr)). a < b"
  shows "\<exists>cr'. cr_sort_and_remove_overlap cr = Some cr' \<and> cr_wf (cr_points cr') \<and>
    cr_set (cr_points cr') = cr_set (cr_points cr)"
proof -
  let ?ps = "cr_pairs (cr_points cr)"
  obtain qs where q: "rqsort point_cmp ?ps = Some qs" "mset qs = mset ?ps"
    "sorted_wrt (\<lambda>x y. point_cmp x y \<le> 0) qs"
    using point_cmp.rqsort_sorts by blast
  have s: "set qs = set ?ps" using q(2) by (metis set_mset_mset)
  have l: "length (cr_points cr) = length (cr_unpair qs)"
    using length_cr_pairs [OF assms(1)] q(2) by (simp add: length_cr_unpair) (metis size_mset)
  have "sorted_wrt (\<lambda>p q. fst p \<le> fst q) qs"
    using q(3) by (rule sorted_wrt_mono_rel [rotated]) (auto simp: point_cmp_def split: if_splits)
  then have ss: "starts_sorted (cr_unpair qs)" using assms(2) s by (simp add: starts_sorted_unpair)
  obtain pt k where loop: "overlap_loop (cr_unpair qs) (length (cr_unpair qs)) 0 0 = (pt, k)" by fastforce
  have j: "take k pt = joined (cr_unpair qs)"
    using overlap_loop_joined [OF _ _ _ _ loop] by (simp add: length_cr_unpair)
  have "cr_set (cr_unpair qs) = cr_set (cr_points cr)"
    using cr_set_unpair [of qs] cr_set_unpair [of ?ps] cr_unpair_pairs [OF assms(1)] s by simp
  then show ?thesis
    using joined_correct [OF ss] by (simp add: cr_sort_and_remove_overlap_def q(1) l loop j)
qed

end
