(* ===== verification/FoldMask.thy ===== *)
theory FoldMask
  imports FoldIntervals
begin

text \<open>
  The set that \<^verbatim>\<open>unicode_case1\<close> builds from the case table: the characters of each run that an
  entry changes.
\<close>

section \<open>The set of characters that folding changes\<close>

lemma cr_set_append: "even (length xs) \<Longrightarrow> cr_set (xs @ ys) = cr_set xs \<union> cr_set ys"
  by (induction xs rule: cr_set.induct) auto

lemma cr_add_interval_ok:
  "\<exists>cr'. cr_add_interval (\<lambda>_. True) cr a b = Some cr' \<and> cr_points cr' = cr_points cr @ [a, b]"
  by (auto simp: cr_add_interval_def cr_realloc_def Let_def)

text \<open>The bounds that one entry of the table contributes, with the two masks that are used.\<close>

definition fold_mask :: "bool \<Rightarrow> u32" where
  "fold_mask u = (if u then CASE_F else CASE_U)"

fun alternate_points :: "u32 \<Rightarrow> nat \<Rightarrow> u32 list" where
  "alternate_points code (Suc (Suc n)) = code # (code + 1) # alternate_points (code + 2) n"
| "alternate_points code (Suc 0) = [code, code + 1]"
| "alternate_points code 0 = []"

definition entry_points :: "bool \<Rightarrow> u32 \<Rightarrow> u32 list" where
  "entry_points u v =
     (let type = run_type v; code = run_code v; len = run_len v in
      if drop_bit (unat type) (case1_mask (fold_mask u)) AND 1 = 0 then []
      else if type = RUN_TYPE_UL then alternate_points (code + (if u then 0 else 1)) (unat len)
      else if type = RUN_TYPE_LSU then
        (if u then [code, code + 1, code + 1, code + 2] else [code + 1, code + 2, code + 2, code + 3])
      else [code, code + len])"

lemma case1_alternate_points:
  "\<exists>cr'. case1_alternate (\<lambda>_. True) code len i cr = Some cr' \<and>
     cr_points cr' = cr_points cr @ alternate_points (code + word_of_nat i) (len - i)"
proof (induction "len - i" arbitrary: i cr rule: less_induct)
  case less
  show ?case
  proof (cases "i < len")
    case False
    then show ?thesis by (subst case1_alternate.simps) simp
  next
    case True
    obtain cr1 where c: "cr_add_interval (\<lambda>_. True) cr (code + word_of_nat i) (code + word_of_nat i + 1) = Some cr1"
      "cr_points cr1 = cr_points cr @ [code + word_of_nat i, code + word_of_nat i + 1]"
      using cr_add_interval_ok by blast
    obtain cr2 where i: "case1_alternate (\<lambda>_. True) code len (i + 2) cr1 = Some cr2"
      "cr_points cr2 = cr_points cr1 @ alternate_points (code + word_of_nat (i + 2)) (len - (i + 2))"
    proof -
      have "len - (i + 2) < len - i" using True by simp
      from less.hyps [OF this, of cr1] show thesis using that by blast
    qed
    have a: "alternate_points (code + word_of_nat i) (len - i) =
        [code + word_of_nat i, code + word_of_nat i + 1] @ alternate_points (code + word_of_nat (i + 2)) (len - (i + 2))"
    proof (cases "len - i = 1")
      case True
      then show ?thesis by simp
    next
      case False
      then obtain n where "len - i = Suc (Suc n)" "len - (i + 2) = n"
        using \<open>i < len\<close> by (metis Suc_diff_Suc Suc_lessI add_2_eq_Suc' diff_Suc_Suc diff_diff_left One_nat_def diff_is_0_eq' le_less_linear)
      then show ?thesis by (simp add: ac_simps)
    qed
    show ?thesis using True c i a by (subst case1_alternate.simps) simp
  qed
qed

lemma case1_entry_points:
  "\<exists>cr'. case1_entry (\<lambda>_. True) (fold_mask u) (case1_mask (fold_mask u)) v cr = Some cr' \<and>
     cr_points cr' = cr_points cr @ entry_points u v"
proof -
  have bits: "fold_mask True AND 1 = 0" "fold_mask True AND 6 \<noteq> 0" "fold_mask False AND 1 \<noteq> 0"
    "fold_mask False AND 6 = 0" by (simp_all add: fold_mask_def)
  obtain cr1 where c1: "case1_alternate (\<lambda>_. True) (run_code v + (if u then 0 else 1)) (unat (run_len v)) 0 cr = Some cr1"
    "cr_points cr1 = cr_points cr @ alternate_points (run_code v + (if u then 0 else 1)) (unat (run_len v))"
    using case1_alternate_points [of _ _ 0] by fastforce
  obtain crA where A: "cr_add_interval (\<lambda>_. True) cr (run_code v) (run_code v + 1) = Some crA"
    "cr_points crA = cr_points cr @ [run_code v, run_code v + 1]" using cr_add_interval_ok by blast
  obtain crB where B: "cr_add_interval (\<lambda>_. True) crA (run_code v + 1) (run_code v + 2) = Some crB"
    "cr_points crB = cr_points crA @ [run_code v + 1, run_code v + 2]" using cr_add_interval_ok by blast
  obtain crC where C: "cr_add_interval (\<lambda>_. True) cr (run_code v + 1) (run_code v + 2) = Some crC"
    "cr_points crC = cr_points cr @ [run_code v + 1, run_code v + 2]" using cr_add_interval_ok by blast
  obtain crD where D: "cr_add_interval (\<lambda>_. True) crC (run_code v + 2) (run_code v + 3) = Some crD"
    "cr_points crD = cr_points crC @ [run_code v + 2, run_code v + 3]" using cr_add_interval_ok by blast
  obtain crE where E: "cr_add_interval (\<lambda>_. True) cr (run_code v) (run_code v + run_len v) = Some crE"
    "cr_points crE = cr_points cr @ [run_code v, run_code v + run_len v]" using cr_add_interval_ok by blast
  show ?thesis
    using c1 A B C D E by (cases u) (simp_all add: case1_entry_def entry_points_def Let_def bits)
qed

lemma case1_loop_points:
  "\<exists>cr'. case1_loop (\<lambda>_. True) (fold_mask u) (case1_mask (fold_mask u)) vs cr = Some cr' \<and>
     cr_points cr' = cr_points cr @ concat (map (entry_points u) vs)"
proof (induction vs arbitrary: cr)
  case Nil
  then show ?case by simp
next
  case (Cons v vs)
  obtain cr1 where 1: "case1_entry (\<lambda>_. True) (fold_mask u) (case1_mask (fold_mask u)) v cr = Some cr1"
    "cr_points cr1 = cr_points cr @ entry_points u v" using case1_entry_points by blast
  from Cons.IH [of cr1] 1 show ?case by auto
qed

lemma unicode_case1_points:
  "\<exists>cr. unicode_case1 (\<lambda>_. True) cr_init (fold_mask u) = Some cr \<and>
     cr_points cr = concat (map (entry_points u) case_conv_table1)"
proof -
  have "fold_mask u \<noteq> 0" by (simp add: fold_mask_def)
  then show ?thesis
    using case1_loop_points [of u case_conv_table1 cr_init] by (simp add: unicode_case1_def cr_init_def)
qed


lemma unat_add_small: "unat x + n < 2 ^ 32 \<Longrightarrow> unat (x + word_of_nat n :: u32) = unat x + n"
  by (simp add: unat_word_ariths unat_of_nat)

lemma alternate_points_correct:
  assumes "unat code + n < 2 ^ 32"
  shows "even (length (alternate_points code n)) \<and>
    cr_set (alternate_points code n) = {c. \<exists>k < n. even k \<and> unat c = unat code + k} \<and>
    (even n \<longrightarrow> sorted (alternate_points code n) \<and>
      (\<forall>p \<in> set (alternate_points code n). unat code \<le> unat p \<and> unat p < unat code + n))"
  using assms
proof (induction code n rule: alternate_points.induct)
  case (1 code n)
  have u: "unat (code + 1) = unat code + 1" "unat (code + 2) = unat code + 2"
    using unat_add_small [of code 1] unat_add_small [of code 2] 1(2) by auto
  have IH: "even (length (alternate_points (code + 2) n))"
    "cr_set (alternate_points (code + 2) n) = {c. \<exists>k < n. even k \<and> unat c = unat code + 2 + k}"
    "even n \<Longrightarrow> sorted (alternate_points (code + 2) n)"
    "\<And>p. even n \<Longrightarrow> p \<in> set (alternate_points (code + 2) n) \<Longrightarrow> unat code + 2 \<le> unat p \<and> unat p < unat code + 2 + n"
    using 1 u by auto
  have "{code..<code + 1} = {c. unat c = unat code}"
    by (auto simp: word_le_nat_alt word_less_nat_alt u)
  moreover have "(\<exists>k < Suc (Suc n). even k \<and> unat c = unat code + k) \<longleftrightarrow>
      unat c = unat code \<or> (\<exists>k < n. even k \<and> unat c = unat code + 2 + k)" for c :: u32
  proof
    assume "\<exists>k < Suc (Suc n). even k \<and> unat c = unat code + k"
    then obtain k where k: "k < Suc (Suc n)" "even k" "unat c = unat code + k" by blast
    show "unat c = unat code \<or> (\<exists>k < n. even k \<and> unat c = unat code + 2 + k)"
    proof (cases "k = 0")
      case False
      then have "2 \<le> k" using k(2) by presburger
      then have "k - 2 < n \<and> even (k - 2) \<and> unat c = unat code + 2 + (k - 2)" using k by auto
      then show ?thesis by blast
    qed (use k in simp)
  next
    assume "unat c = unat code \<or> (\<exists>k < n. even k \<and> unat c = unat code + 2 + k)"
    then show "\<exists>k < Suc (Suc n). even k \<and> unat c = unat code + k"
    proof
      assume "\<exists>k < n. even k \<and> unat c = unat code + 2 + k"
      then obtain k where "k < n" "even k" "unat c = unat code + 2 + k" by blast
      then show ?thesis by (intro exI [of _ "k + 2"]) auto
    qed auto
  qed
  moreover have "sorted (alternate_points code (Suc (Suc n)))" if ev: "even n"
  proof -
    have "code \<le> p" "code + 1 \<le> p" if "p \<in> set (alternate_points (code + 2) n)" for p
      using IH(4) [OF ev that] by (simp_all add: word_le_nat_alt u)
    moreover have "code \<le> code + 1" by (simp add: word_le_nat_alt u)
    ultimately show ?thesis using IH(3) [OF ev] by simp
  qed
  moreover have "unat code \<le> unat p \<and> unat p < unat code + Suc (Suc n)"
    if "even n" "p \<in> set (alternate_points code (Suc (Suc n)))" for p
    using IH(4) [OF that(1), of p] that(2) u by auto
  ultimately show ?case using IH(1,2) by (simp add: Collect_disj_eq)
next
  case (2 code)
  have u: "unat (code + 1) = unat code + 1"
    using unat_add_small [of code 1] 2 by auto
  have "{code..<code + 1} = {c. unat c = unat code}"
    by (auto simp: word_le_nat_alt word_less_nat_alt u)
  then show ?case by (auto simp: less_Suc_eq)
qed auto


text \<open>The shape of the entries that the code of \<^verbatim>\<open>unicode_case1\<close> relies on.\<close>

definition entry_ok :: "u32 \<Rightarrow> bool" where
  "entry_ok v \<longleftrightarrow>
     (run_type v = RUN_TYPE_UL \<longrightarrow> even (unat (run_len v))) \<and>
     (run_type v = RUN_TYPE_LSU \<longrightarrow> run_len v = 3) \<and> run_len v \<noteq> 0 \<and> run_type v < 14"

lemma case_conv_table1_ok: "list_all entry_ok case_conv_table1"
  unfolding case_conv_table1_def by (simp add: entry_ok_def run_code_def run_len_def run_type_def)

text \<open>The characters that an entry changes, by their place in the run.\<close>

definition changes :: "bool \<Rightarrow> u32 \<Rightarrow> nat \<Rightarrow> bool" where
  "changes u v a \<longleftrightarrow>
     drop_bit (unat (run_type v)) (case1_mask (fold_mask u)) AND 1 \<noteq> 0 \<and>
     (run_type v = RUN_TYPE_UL \<longrightarrow> (even a \<longleftrightarrow> u)) \<and>
     (run_type v = RUN_TYPE_LSU \<longrightarrow> (if u then a < 2 else 0 < a))"

lemma cr_sorted_interval: "a \<le> b \<Longrightarrow> cr_sorted [a, b]"
  by (simp add: cr_sorted_def)

lemma unit_interval: "unat x + 1 < 2 ^ 32 \<Longrightarrow> {x..<x + 1} = {c :: u32. unat c = unat x}"
  using unat_add_small [of x 1] by (auto simp: word_le_nat_alt word_less_nat_alt)

lemma entry_points_correct:
  assumes "entry_ok v"
  shows "cr_sorted (entry_points u v) \<and>
    (\<forall>p \<in> set (entry_points u v). unat (run_code v) \<le> unat p \<and> unat p \<le> unat (run_code v) + unat (run_len v)) \<and>
    cr_set (entry_points u v) = {c. in_run c v \<and> changes u v (unat c - unat (run_code v))}"
proof -
  have small: "unat (run_code v) + unat (run_len v) + 4 < 2 ^ 32"
    using run_code_bound [of v] run_len_bound [of v] by simp
  have run: "in_run c v \<longleftrightarrow> unat (run_code v) \<le> unat c \<and> unat c < unat (run_code v) + unat (run_len v)" for c
    by (simp add: in_run_def word_le_nat_alt word_less_nat_alt unat_run_end)
  have add: "unat (run_code v + 1) = unat (run_code v) + 1" "unat (run_code v + 2) = unat (run_code v) + 2"
    "unat (run_code v + 3) = unat (run_code v) + 3"
    using unat_add_small [of "run_code v" 1] unat_add_small [of "run_code v" 2]
      unat_add_small [of "run_code v" 3] small by auto
  consider "drop_bit (unat (run_type v)) (case1_mask (fold_mask u)) AND 1 = 0"
    | "drop_bit (unat (run_type v)) (case1_mask (fold_mask u)) AND 1 \<noteq> 0" "run_type v = RUN_TYPE_UL"
    | "drop_bit (unat (run_type v)) (case1_mask (fold_mask u)) AND 1 \<noteq> 0" "run_type v = RUN_TYPE_LSU"
    | "drop_bit (unat (run_type v)) (case1_mask (fold_mask u)) AND 1 \<noteq> 0" "run_type v \<noteq> RUN_TYPE_UL"
        "run_type v \<noteq> RUN_TYPE_LSU"
    by blast
  then show ?thesis
  proof cases
    case 1
    then show ?thesis by (simp add: entry_points_def Let_def changes_def cr_sorted_def)
  next
    case 2
    have ev: "even (unat (run_len v))" using assms 2(2) by (simp add: entry_ok_def)
    define code where "code = run_code v + (if u then 0 else 1)"
    have code: "unat code = unat (run_code v) + (if u then 0 else 1)" by (simp add: code_def add)
    have pts: "entry_points u v = alternate_points code (unat (run_len v))"
      using 2 by (simp add: entry_points_def Let_def code_def)
    have A: "even (length (alternate_points code (unat (run_len v)))) \<and>
      cr_set (alternate_points code (unat (run_len v))) = {c. \<exists>k < unat (run_len v). even k \<and> unat c = unat code + k} \<and>
      (even (unat (run_len v)) \<longrightarrow> sorted (alternate_points code (unat (run_len v))) \<and>
        (\<forall>p \<in> set (alternate_points code (unat (run_len v))). unat code \<le> unat p \<and> unat p < unat code + unat (run_len v)))"
      by (rule alternate_points_correct) (use small code in auto)
    have "(\<exists>k < unat (run_len v). even k \<and> unat c = unat code + k) \<longleftrightarrow>
        in_run c v \<and> changes u v (unat c - unat (run_code v))" for c
    proof
      assume "\<exists>k < unat (run_len v). even k \<and> unat c = unat code + k"
      then obtain k where k: "k < unat (run_len v)" "even k" "unat c = unat code + k" by blast
      have "k + 1 < unat (run_len v)" using k(1,2) ev by presburger
      then show "in_run c v \<and> changes u v (unat c - unat (run_code v))"
        using k 2 by (auto simp: run changes_def code)
    next
      assume r: "in_run c v \<and> changes u v (unat c - unat (run_code v))"
      define a where "a = unat c - unat (run_code v)"
      have a: "unat c = unat (run_code v) + a" "a < unat (run_len v)" "even a \<longleftrightarrow> u"
        using r 2 by (auto simp: run changes_def a_def)
      show "\<exists>k < unat (run_len v). even k \<and> unat c = unat code + k"
      proof (cases u)
        case True
        then show ?thesis using a code by (intro exI [of _ a]) simp
      next
        case False
        then have "odd a" using a(3) by simp
        then obtain k where "a = Suc k" "even k" by (cases a) auto
        then show ?thesis using a code False by (intro exI [of _ k]) simp
      qed
    qed
    then show ?thesis using A ev small unfolding pts cr_sorted_def
      by (auto simp: code split: if_splits)
  next
    case 3
    have len: "unat (run_len v) = 3" using assms 3(2) by (simp add: entry_ok_def)
    have i: "{run_code v..<run_code v + 1} = {c. unat c = unat (run_code v)}"
      "{run_code v + 1..<run_code v + 2} = {c. unat c = unat (run_code v) + 1}"
      "{run_code v + 2..<run_code v + 3} = {c. unat c = unat (run_code v) + 2}"
      by (auto simp: word_le_nat_alt word_less_nat_alt add)
    show ?thesis
      using 3 by (cases u)
        (auto simp: entry_points_def Let_def changes_def cr_sorted_def i run len add word_le_nat_alt)
  next
    case 4
    then show ?thesis
      by (auto simp: entry_points_def Let_def changes_def cr_sorted_def in_run_def word_le_nat_alt unat_run_end)
  qed
qed

end
