(* ===== verification/FoldChars.thy ===== *)
theory FoldChars
  imports FoldMask
begin

text \<open>
  The folding of a single character: characters outside the mask fold to themselves, the entry of
  a character gives what \<^verbatim>\<open>lre_canonicalize\<close> gives, and the result is small.
\<close>

lemma concat_entry_points:
  assumes "runs_disjoint vs" and "list_all entry_ok vs"
  shows "cr_sorted (concat (map (entry_points u) vs)) \<and>
    (\<forall>p \<in> set (concat (map (entry_points u) vs)). \<exists>v \<in> set vs. unat (run_code v) \<le> unat p) \<and>
    cr_set (concat (map (entry_points u) vs)) =
      {c. \<exists>v \<in> set vs. in_run c v \<and> changes u v (unat c - unat (run_code v))}"
  using assms
proof (induction vs)
  case Nil
  then show ?case by (simp add: cr_sorted_def)
next
  case (Cons v vs)
  have IH: "cr_sorted (concat (map (entry_points u) vs))"
    "\<And>p. p \<in> set (concat (map (entry_points u) vs)) \<Longrightarrow> \<exists>v \<in> set vs. unat (run_code v) \<le> unat p"
    "cr_set (concat (map (entry_points u) vs)) =
      {c. \<exists>v \<in> set vs. in_run c v \<and> changes u v (unat c - unat (run_code v))}"
    using Cons by (auto simp: runs_disjoint_def)
  have E: "cr_sorted (entry_points u v)"
    "\<And>p. p \<in> set (entry_points u v) \<Longrightarrow> unat (run_code v) \<le> unat p \<and> unat p \<le> unat (run_code v) + unat (run_len v)"
    "cr_set (entry_points u v) = {c. in_run c v \<and> changes u v (unat c - unat (run_code v))}"
    using entry_points_correct [of v u] Cons.prems(2) by auto
  have "p \<le> q" if pq: "p \<in> set (entry_points u v)" "q \<in> set (concat (map (entry_points u) vs))" for p q
  proof -
    obtain w where w: "w \<in> set vs" "unat (run_code w) \<le> unat q" using IH(2) [OF pq(2)] by blast
    have "unat (run_code v) + unat (run_len v) \<le> unat (run_code w)"
      using Cons.prems(1) w(1) by (simp add: runs_disjoint_def)
    then show ?thesis using E(2) [OF pq(1)] w(2) by (simp add: word_le_nat_alt)
  qed
  then have "cr_sorted (entry_points u v @ concat (map (entry_points u) vs))"
    using IH(1) E(1) unfolding cr_sorted_def sorted_append by simp
  moreover have "\<exists>w \<in> set (v # vs). unat (run_code w) \<le> unat p"
    if "p \<in> set (concat (map (entry_points u) (v # vs)))" for p
    using that E(2) IH(2) by fastforce
  moreover have "cr_set (entry_points u v @ concat (map (entry_points u) vs)) =
      {c. \<exists>w \<in> set (v # vs). in_run c w \<and> changes u w (unat c - unat (run_code w))}"
    using E(1,3) IH(3) by (simp add: cr_set_append cr_sorted_def Collect_disj_eq)
  ultimately show ?case by simp
qed

section \<open>What the other characters fold to\<close>

lemma case1_mask_values: "case1_mask (fold_mask True) = 0x3dfc" "case1_mask (fold_mask False) = 0x2bf5"
  by (simp_all add: case1_mask_def fold_mask_def tab_run_mask_def MR_def)

lemma small_type_cases:
  fixes t :: u32
  assumes "t < 14"
  shows "t \<in> {0, 1, 2, 3, 4, 5, 6, 7, 8, 9, 10, 11, 12, 13}"
proof -
  have "unat t < 14" using assms by (simp add: word_less_nat_alt)
  then have "unat t \<in> {0, 1, 2, 3, 4, 5, 6, 7, 8, 9, 10, 11, 12, 13}" by (simp, presburger)
  then show ?thesis by (simp add: word_unat_eq_iff)
qed

lemma changes_mask:
  fixes t :: u32
  assumes "t < 14"
  shows "drop_bit (unat t) (case1_mask (fold_mask u)) AND 1 \<noteq> 0 \<longleftrightarrow>
    t \<in> (if u then {2, 3, 4, 5, 6, 7, 8, 10, 11, 12, 13} else {0, 2, 4, 5, 6, 7, 8, 9, 11, 13})"
  using small_type_cases [OF assms] by (cases u) (auto simp: case1_mask_values)

lemma minus_one_bit: "(a :: u32) AND 1 = (if odd (unat a) then 1 else 0)"
  using bit_word_unat [of a 0] by (simp add: bit_0 and_one_eq mod2_eq_if)

lemma unat_run_offset: "in_run c v \<Longrightarrow> unat (c - run_code v) = unat c - unat (run_code v)"
  by (simp add: in_run_def unat_sub)

text \<open>A character of a run that the mask leaves out folds to itself.\<close>

lemma entry_unchanged:
  assumes "entry_ok v" and "in_run c v" and "\<not> changes u v (unat c - unat (run_code v))"
  shows "lre_case_conv_entry f c (if u then 2 else 0) idx v = [c]"
proof -
  define a where "a = c - run_code v"
  have a: "unat a = unat c - unat (run_code v)" using assms(2) by (simp add: a_def unat_run_offset)
  have t: "run_type v < 14" using assms(1) by (simp add: entry_ok_def)
  have len: "run_type v = RUN_TYPE_LSU \<Longrightarrow> unat a < 3"
    using assms(1,2) a unat_run_end [of v]
    by (auto simp: entry_ok_def in_run_def word_le_nat_alt word_less_nat_alt)
  have ch: "\<not> (run_type v \<in> (if u then {2, 3, 4, 5, 6, 7, 8, 10, 11, 12, 13} else {0, 2, 4, 5, 6, 7, 8, 9, 11, 13}) \<and>
     (run_type v = RUN_TYPE_UL \<longrightarrow> (even (unat a) \<longleftrightarrow> u)) \<and>
     (run_type v = RUN_TYPE_LSU \<longrightarrow> (if u then unat a < 2 else 0 < unat a)))"
    using assms(3) by (simp only: changes_def changes_mask [OF t] a simp_thms)
  have lsu: "run_type v = RUN_TYPE_LSU \<Longrightarrow> (if u then a = 2 else a = 0)"
    using ch len by (cases u) (auto simp: word_unat_eq_iff)
  have ty: "run_type v = 0 \<or> run_type v = 1 \<or> run_type v = 2 \<or> run_type v = 3 \<or> run_type v = 4 \<or>
      run_type v = 5 \<or> run_type v = 6 \<or> run_type v = 7 \<or> run_type v = 8 \<or> run_type v = 9 \<or>
      run_type v = 10 \<or> run_type v = 11 \<or> run_type v = 12 \<or> run_type v = 13"
    using small_type_cases [OF t] by simp
  note e = lre_case_conv_entry_def [where lower = f and c = c and v = v, unfolded Let_def, folded a_def]
  have "\<not> (2 :: u32) \<le> 1" by (simp add: word_le_nat_alt)
  note e = e this
  show ?thesis
  proof (cases u)
    case True
    show ?thesis using ty by (elim disjE) (use ch lsu True in \<open>simp_all add: e minus_one_bit\<close>)
  next
    case False
    show ?thesis using ty by (elim disjE) (use ch lsu False in \<open>simp_all add: e minus_one_bit\<close>)
  qed
qed


section \<open>The folding of one character\<close>

lemma in_run_unique:
  assumes "i < length case_conv_table1" and "j < length case_conv_table1"
    and "in_run c (case_conv_table1 ! i)" and "in_run c (case_conv_table1 ! j)"
  shows "i = j"
proof (rule ccontr)
  assume "i \<noteq> j"
  then have "i < j \<or> j < i" by auto
  then show False
    using runs_disjointD [OF case_conv_table1_disjoint, of i j] runs_disjointD [OF case_conv_table1_disjoint, of j i] assms
    by (auto simp: in_run_def word_less_nat_alt word_le_nat_alt unat_run_end)
qed

lemma case_conv_search_in_run:
  assumes "i < length case_conv_table1" and "in_run c (case_conv_table1 ! i)"
  shows "case_conv_search c = Some (i, case_conv_table1 ! i)"
  using table_search_complete [OF case_conv_table1_disjoint assms, of 0 "int (length case_conv_table1) - 1"] assms(1)
  by (simp add: case_conv_search_def)

lemma case_conv_search_no_run:
  assumes "\<And>i. i < length case_conv_table1 \<Longrightarrow> \<not> in_run c (case_conv_table1 ! i)"
  shows "case_conv_search c = None"
proof (cases "case_conv_search c")
  case (Some p)
  obtain i v where "p = (i, v)" by fastforce
  with Some have "i < length case_conv_table1 \<and> v = case_conv_table1 ! i \<and> in_run c v"
    using table_search_sound by (simp add: case_conv_search_def)
  then show ?thesis using assms by blast
qed

lemma ascii_table:
  "case_conv_table1 ! 0 = 0x209a30" "case_conv_table1 ! Suc 0 = 0x309a00" "case_conv_table1 ! 2 = 0x5a8173"
  "length case_conv_table1 = 378" "case_conv_table2 ! 0 = 1"
  by (simp_all add: case_conv_table1_def case_conv_table2_def)

lemma ascii_in_run:
  "in_run c (case_conv_table1 ! 0) \<longleftrightarrow> 0x41 \<le> c \<and> c \<le> 0x5a"
  "in_run c (case_conv_table1 ! Suc 0) \<longleftrightarrow> 0x61 \<le> c \<and> c \<le> 0x7a"
proof -
  have "c < 0x5b \<longleftrightarrow> c \<le> 0x5a" "c < 0x7b \<longleftrightarrow> c \<le> 0x7a"
    by (auto simp: word_less_nat_alt word_le_nat_alt)
  then show "in_run c (case_conv_table1 ! 0) \<longleftrightarrow> 0x41 \<le> c \<and> c \<le> 0x5a"
    "in_run c (case_conv_table1 ! Suc 0) \<longleftrightarrow> 0x61 \<le> c \<and> c \<le> 0x7a"
    by (simp_all add: ascii_table in_run_def run_code_def run_len_def)
qed

lemma ascii_run_index:
  assumes "i < length case_conv_table1" and "in_run c (case_conv_table1 ! i)" and "c < 128"
  shows "i = 0 \<or> i = Suc 0"
proof (rule ccontr)
  assume "\<not> (i = 0 \<or> i = Suc 0)"
  then consider "i = 2" | "2 < i" by linarith
  moreover have "unat (run_code (case_conv_table1 ! 2)) = 0xb5"
    by (simp add: ascii_table run_code_def)
  ultimately have "0xb5 \<le> unat (run_code (case_conv_table1 ! i))"
    using runs_disjointD [OF case_conv_table1_disjoint, of 2 i] assms(1) by cases auto
  then show False using assms(2,3) by (simp add: in_run_def word_le_nat_alt word_less_nat_alt)
qed

lemma lre_canonicalize_in_run:
  assumes "i < length case_conv_table1" and "in_run c (case_conv_table1 ! i)"
  shows "lre_canonicalize c u = lre_case_folding_entry c i (case_conv_table1 ! i) u"
proof (cases "c < 128")
  case False
  then show ?thesis using case_conv_search_in_run [OF assms] by (simp add: lre_canonicalize_def)
next
  case True
  show ?thesis
  proof (cases u)
    case False
    then show ?thesis using True by (simp add: lre_canonicalize_def lre_case_folding_entry_def)
  next
    case u: True
    from ascii_run_index [OF assms True] show ?thesis
    proof
      assume i: "i = 0"
      have "lre_case_conv_entry lre_case_conv1_lower c 2 0 (case_conv_table1 ! 0) = [c - 0x41 + 0x61]"
        by (simp add: lre_case_conv_entry_def Let_def run_type_def run_code_def ascii_table)
      then show ?thesis
        using i assms(2) True u by (simp add: ascii_in_run lre_canonicalize_def lre_case_folding_entry_def)
    next
      assume i: "i = Suc 0"
      have "lre_case_conv_entry lre_case_conv1_lower c 2 (Suc 0) (case_conv_table1 ! Suc 0) = [c]"
        by (simp add: lre_case_conv_entry_def Let_def run_type_def run_code_def ascii_table)
      moreover have "\<not> c \<le> 0x5a" using assms(2) i by (auto simp: ascii_in_run word_le_nat_alt)
      ultimately show ?thesis
        using i True u by (simp add: lre_canonicalize_def lre_case_folding_entry_def)
    qed
  qed
qed

lemma lre_canonicalize_no_run:
  assumes "\<And>i. i < length case_conv_table1 \<Longrightarrow> \<not> in_run c (case_conv_table1 ! i)"
  shows "lre_canonicalize c u = c"
  using assms [of 0] assms [of "Suc 0"] case_conv_search_no_run [OF assms] ascii_table(4)
  by (auto simp: lre_canonicalize_def ascii_in_run)

lemma lre_canonicalize_unchanged:
  assumes "\<not> (\<exists>v \<in> set case_conv_table1. in_run c v \<and> changes u v (unat c - unat (run_code v)))"
  shows "lre_canonicalize c u = c"
proof (cases "\<exists>i < length case_conv_table1. in_run c (case_conv_table1 ! i)")
  case False
  then show ?thesis using lre_canonicalize_no_run by blast
next
  case True
  then obtain i where i: "i < length case_conv_table1" "in_run c (case_conv_table1 ! i)" by blast
  let ?v = "case_conv_table1 ! i"
  have v: "entry_ok ?v" "?v \<in> set case_conv_table1"
    using case_conv_table1_ok i(1) by (auto simp: list_all_length)
  then have ch: "\<not> changes u ?v (unat c - unat (run_code ?v))" using assms i(2) by blast
  note e = entry_unchanged [OF v(1) i(2) ch, of lre_case_conv1_lower i]
  show ?thesis
  proof (cases "u \<or> c \<ge> 128")
    case True
    then show ?thesis
      using e unfolding lre_canonicalize_in_run [OF i] lre_case_folding_entry_def by (cases u) auto
  next
    case False
    then have "c < 128" "\<not> u" by auto
    from ascii_run_index [OF i this(1)] show ?thesis
    proof
      assume "i = 0"
      then have "\<not> 0x61 \<le> c" using i(2) by (auto simp: ascii_in_run word_le_nat_alt)
      then show ?thesis using \<open>c < 128\<close> \<open>\<not> u\<close> by (simp add: lre_canonicalize_def)
    next
      assume "i = Suc 0"
      then have "changes u ?v (unat c - unat (run_code ?v))"
        using \<open>\<not> u\<close> by (simp add: changes_def case1_mask_values ascii_table run_type_def)
      with ch show ?thesis by blast
    qed
  qed
qed

section \<open>The folding loop\<close>

text \<open>Folded characters stay below \<open>2 ^ 19\<close>, so \<open>-1\<close> is free to mean no interval.\<close>

lemma unat_add_le: "unat (a + b :: u32) \<le> unat a + unat b"
  by (simp add: unat_word_ariths)

lemma run_code_lt: "unat (drop_bit 15 (x :: u32)) < 2 ^ 17"
  using run_code_bound [of x] by (simp add: run_code_def)

lemma case_conv_ext_at_lt: "unat (case_conv_ext_at x) < 2 ^ 16"
proof -
  have lt: "unat (case_conv_ext ! unat x) < 2 ^ 16"
    using unsigned_less [of "case_conv_ext ! unat x", where 'a = nat] by simp
  then have "take_bit 32 (unat (case_conv_ext ! unat x)) = unat (case_conv_ext ! unat x)"
    by (intro take_bit_nat_eq_self) simp
  then show ?thesis using lt by (simp add: case_conv_ext_at_def unsigned_ucast_eq)
qed

lemma unat_xor_one_lt: "unat (a :: u32) < 2 ^ 7 \<Longrightarrow> unat (a XOR 1) < 2 ^ 7"
proof -
  assume "unat a < 2 ^ 7"
  then have "take_bit 7 (unat a XOR 1) = unat a XOR 1"
    by (simp only: take_bit_xor) (simp add: take_bit_nat_eq_self)
  then have "unat a XOR 1 < 2 ^ 7" by (simp only: take_bit_nat_eq_self_iff)
  then show ?thesis by (simp add: unsigned_xor_eq)
qed

lemma entry_data_lt: "unat (push_bit 8 (v AND 0xf) OR ucast (w :: u8) :: u32) < 2 ^ 12"
proof -
  define x :: u32 where "x = push_bit 8 (take_bit 4 v) OR ucast w"
  have "x = take_bit 12 x"
    unfolding x_def by (rule bit_word_eqI) (auto simp: bit_simps dest: bit_imp_le_length)
  from arg_cong [OF this, of unat] have "unat x = take_bit 12 (unat x)"
    by (simp only: unsigned_take_bit_eq)
  then have "unat x < 2 ^ 12" using take_bit_nat_less_exp [of 12 "unat x"] by simp
  then show ?thesis by (simp only: x_def and_low_mask)
qed

lemma conv_entry_bound:
  assumes "entry_ok v" and "in_run c v" and "ct = 0 \<or> ct = 2"
    and "length (lre_case_conv_entry f c ct idx v) = 1"
  shows "unat (lre_case_conv_entry f c ct idx v ! 0) < 2 ^ 18"
proof -
  define a where "a = c - run_code v"
  define data where "data = push_bit 8 (v AND 0xf) OR (ucast (case_conv_table2 ! idx) :: u32)"
  have a: "unat a < 2 ^ 7"
    using assms(2) run_len_bound [of v]
    by (simp add: a_def unat_run_offset) (auto simp: in_run_def word_less_nat_alt word_le_nat_alt unat_run_end)
  have ca: "c = run_code v + a" by (simp add: a_def)
  have code: "unat (run_code v) < 2 ^ 17" by (rule run_code_bound)
  have data: "unat data < 2 ^ 12" unfolding data_def by (rule entry_data_lt)
  have b1: "unat (a + drop_bit 15 x) < 2 ^ 18" for x
    using unat_add_le [of a "drop_bit 15 x"] a run_code_lt [of x] by simp
  have b2: "unat (run_code v + a) < 2 ^ 18" using unat_add_le [of "run_code v" a] a code by simp
  have b3: "unat ((a XOR 1) + run_code v) < 2 ^ 18"
    using unat_add_le [of "a XOR 1" "run_code v"] unat_xor_one_lt [OF a] code by simp
  have b4: "unat (run_code v + a + n) < 2 ^ 18" if "unat n < 4" for n
    using unat_add_le [of "run_code v + a" n] unat_add_le [of "run_code v" a] a code that by simp
  have b5: "unat (a + case_conv_ext_at x) < 2 ^ 18" for x
    using unat_add_le [of a "case_conv_ext_at x"] a case_conv_ext_at_lt [of x] by simp
  have b6: "unat (data + n) < 2 ^ 18" if "unat n < 64" for n
    using unat_add_le [of data n] data that by simp
  have b7: "unat (case_conv_ext_at x + n) < 2 ^ 18" if "unat n < 4" for x n
    using unat_add_le [of "case_conv_ext_at x" n] case_conv_ext_at_lt [of x] that by simp
  have b8: "unat (case_conv_ext_at x) < 2 ^ 18" for x using case_conv_ext_at_lt [of x] by simp
  have t: "run_type v < 14" using assms(1) by (simp add: entry_ok_def)
  have ty: "run_type v = 0 \<or> run_type v = 1 \<or> run_type v = 2 \<or> run_type v = 3 \<or> run_type v = 4 \<or>
      run_type v = 5 \<or> run_type v = 6 \<or> run_type v = 7 \<or> run_type v = 8 \<or> run_type v = 9 \<or>
      run_type v = 10 \<or> run_type v = 11 \<or> run_type v = 12 \<or> run_type v = 13"
    using small_type_cases [OF t] by simp
  have nle: "\<not> (2 :: u32) \<le> 1" by (simp add: word_le_nat_alt)
  note e = lre_case_conv_entry_def [where lower = f and c = c and v = v, unfolded Let_def, folded a_def data_def]
  have bc: "unat c < 2 ^ 18" using b2 ca by simp
  have bn: "unat (c + n) < 2 ^ 18" if "unat n < 4" for n using b4 [OF that] ca by simp
  have bk: "a = 1 \<Longrightarrow> unat (c - 1) < 2 ^ 18" "a = 2 \<Longrightarrow> unat (c - 2) < 2 ^ 18"
    using code by (simp_all add: ca)
  have bd: "unat data < 2 ^ 18" using data by simp
  note bounds = bd [unfolded data_def] b6 [unfolded data_def] b1 b3 b5 b7 b8 bc bn bk
  note bounds' = bounds [simplified]
  from assms(3) show ?thesis
  proof
    assume ct: "ct = 0"
    show ?thesis using ty
      by (elim disjE) (use assms(4) in \<open>simp_all add: e ct nle bounds' split: if_splits\<close>)
  next
    assume ct: "ct = 2"
    show ?thesis using ty
      by (elim disjE) (use assms(4) in \<open>simp_all add: e ct nle bounds' split: if_splits\<close>)
  qed
qed

lemma fold_bound:
  assumes "entry_ok v" and "in_run c v"
  shows "unat (lre_case_folding_entry c idx v u) < 2 ^ 18"
proof -
  have "unat c < 2 ^ 18"
    using assms(2) run_len_bound [of v] run_code_bound [of v]
    by (auto simp: in_run_def word_less_nat_alt unat_run_end)
  moreover have "unat (c - 0x61 + 0x41) < 2 ^ 18" if "0x61 \<le> c"
  proof -
    have "unat (c - 0x61) \<le> unat c" using that by (simp add: unat_sub)
    then show ?thesis
      using unat_add_le [of "c - 0x61" "0x41"] assms(2) run_len_bound [of v] run_code_bound [of v]
      by (auto simp: in_run_def word_less_nat_alt unat_run_end)
  qed
  ultimately show ?thesis
    using conv_entry_bound [OF assms, of 0 lre_case_conv1_lower idx]
      conv_entry_bound [OF assms, of 2 lre_case_conv1_lower idx]
    by (simp add: lre_case_folding_entry_def Let_def)
qed

end
