(* ===== verification/FoldSet.thy ===== *)
theory FoldSet
  imports FoldChars
begin

text \<open>
  The folding loop of \<^verbatim>\<open>cr_regexp_canonicalize\<close> and the correctness of the whole routine.
\<close>

definition held :: "u32 \<Rightarrow> bool" where
  "held c \<longleftrightarrow> (\<exists>i < length case_conv_table1. in_run c (case_conv_table1 ! i))"

definition fold_covered :: "fold_state \<Rightarrow> u32 set" where
  "fold_covered s = cr_set (cr_points (f_result s)) \<union> (if f_start s = - 1 then {} else {f_start s..<f_end s})"

text \<open>
  The invariant of the folding loop after the characters that fold to \<open>D\<close>, when the next one is
  not below \<open>lo\<close>: the entries before \<open>f_idx\<close> are finished.
\<close>

definition fold_inv :: "nat \<Rightarrow> u32 set \<Rightarrow> fold_state \<Rightarrow> bool" where
  "fold_inv lo D s \<longleftrightarrow>
     (\<forall>i < f_idx s. unat (run_code (case_conv_table1 ! i)) + unat (run_len (case_conv_table1 ! i)) \<le> lo) \<and>
     fold_covered s = D \<and> even (length (cr_points (f_result s))) \<and>
     (\<forall>(a, b) \<in> set (cr_pairs (cr_points (f_result s))). a < b) \<and>
     (f_start s \<noteq> - 1 \<longrightarrow> f_start s < f_end s \<and> unat (f_end s) \<le> 2 ^ 18)"

lemma fold_entry_finds:
  assumes "i \<le> idx" and "idx < length case_conv_table1" and "in_run c (case_conv_table1 ! idx)"
  shows "fold_entry c i = Some idx"
  using assms(1)
proof (induction "idx - i" arbitrary: i)
  case 0
  then show ?case using assms(2,3) by (subst fold_entry.simps) (simp add: in_run_def Let_def)
next
  case (Suc n)
  then have i: "i < idx" by simp
  then have "\<not> in_run c (case_conv_table1 ! i)"
    using in_run_unique [of i idx c] assms(2,3) by auto
  then have "fold_entry c i = fold_entry c (i + 1)"
    using i assms(2) by (subst fold_entry.simps) (auto simp: in_run_def Let_def)
  then show ?case using Suc.hyps(1) [of "i + 1"] Suc.hyps(2) i by simp
qed

lemma cr_pairs_append:
  "even (length xs) \<Longrightarrow> cr_pairs (xs @ ys) = cr_pairs xs @ cr_pairs ys"
  by (induction xs rule: cr_pairs.induct) auto

lemma interval_step: "unat (d :: u32) < 2 ^ 18 \<Longrightarrow>
    d < d + 1 \<and> unat (d + 1) = unat d + 1 \<and> {d..<d + 1} = {d} \<and> d \<noteq> - 1"
proof -
  assume d: "unat d < 2 ^ 18"
  then have u: "unat (d + 1) = unat d + 1" using unat_add_small [of d 1] by simp
  moreover have "{d..<d + 1} = {d}" using unit_interval [of d] d by (auto simp: word_unat_eq_iff)
  moreover have "unat (- 1 :: u32) = 2 ^ 32 - 1" by (simp add: unsigned_minus_1_eq_mask mask_eq_exp_minus_1)
  ultimately show ?thesis using d by (auto simp: word_less_nat_alt)
qed

lemma fold_one_inv:
  assumes "fold_inv lo D s" and "lo \<le> unat c" and "held c"
  shows "\<exists>s'. fold_one (\<lambda>_. True) u c s = Some s' \<and>
    fold_inv (unat c) (insert (lre_canonicalize c u) D) s'"
proof -
  obtain idx where idx: "idx < length case_conv_table1" "in_run c (case_conv_table1 ! idx)"
    using assms(3) by (auto simp: held_def)
  have end_le: "unat (run_code (case_conv_table1 ! i)) + unat (run_len (case_conv_table1 ! i)) \<le> lo"
    if "i < f_idx s" for i
    using assms(1) that by (simp add: fold_inv_def)
  have "f_idx s \<le> idx"
  proof (rule ccontr)
    assume "\<not> f_idx s \<le> idx"
    with end_le [of idx] assms(2) idx(2) show False
      by (auto simp: in_run_def word_less_nat_alt unat_run_end)
  qed
  from fold_entry_finds [OF this idx] have entry: "fold_entry c (f_idx s) = Some idx" .
  define d where "d = lre_case_folding_entry c idx (case_conv_table1 ! idx) u"
  have canon: "lre_canonicalize c u = d" unfolding d_def by (rule lre_canonicalize_in_run [OF idx])
  have "entry_ok (case_conv_table1 ! idx)" using case_conv_table1_ok idx(1) by (simp add: list_all_length)
  then have "unat d < 2 ^ 18" unfolding d_def by (rule fold_bound [OF _ idx(2)])
  note d = interval_step [OF this] this
  have past: "unat (run_code (case_conv_table1 ! i)) + unat (run_len (case_conv_table1 ! i)) \<le> unat c"
    if "i < idx" for i
    using runs_disjointD [OF case_conv_table1_disjoint that idx(1)] idx(2)
    by (auto simp: in_run_def word_le_nat_alt)
  obtain cr where cr: "cr_add_interval (\<lambda>_. True) (f_result s) (f_start s) (f_end s) = Some cr"
    "cr_points cr = cr_points (f_result s) @ [f_start s, f_end s]" using cr_add_interval_ok by blast
  note inv = assms(1) [unfolded fold_inv_def fold_covered_def]
  consider "f_start s = - 1" | "f_start s \<noteq> - 1" "f_end s = d" | "f_start s \<noteq> - 1" "f_end s \<noteq> d" by blast
  then show ?thesis
  proof cases
    case 1
    then show ?thesis using d inv past
      by (simp add: fold_one_def entry Let_def d_def [symmetric] fold_inv_def fold_covered_def canon)
  next
    case 2
    have "{f_start s..<d + 1} = insert d {f_start s..<d}"
      using inv 2 d by (auto simp: word_less_nat_alt word_le_nat_alt word_unat_eq_iff)
    then show ?thesis using d inv past 2
      by (auto simp: fold_one_def entry Let_def d_def [symmetric] fold_inv_def fold_covered_def canon)
  next
    case 3
    then show ?thesis using d inv past
      by (auto simp: fold_one_def entry Let_def d_def [symmetric] fold_inv_def fold_covered_def canon cr
          cr_set_append cr_pairs_append)
  qed
qed


lemma interval_head: "c < e \<Longrightarrow> {c..<e :: u32} = insert c {c + 1..<e} \<and> unat (c + 1) = unat c + 1"
proof -
  assume "c < e"
  then have u: "unat (c + 1) = unat c + 1"
    using unat_add_small [of c 1] unsigned_less [of e, where 'a = nat] by (simp add: word_less_nat_alt)
  then show ?thesis using \<open>c < e\<close>
    by (auto simp: word_less_nat_alt word_le_nat_alt word_unat_eq_iff)
qed

lemma fold_range_inv:
  assumes "fold_inv lo D s" and "lo \<le> unat c" and "\<forall>x \<in> {c..<e}. held x"
  shows "\<exists>s'. fold_range (\<lambda>_. True) u c e s = Some s' \<and>
    fold_inv (max lo (unat e)) (D \<union> (\<lambda>c. lre_canonicalize c u) ` {c..<e}) s'"
  using assms
proof (induction "unat e - unat c" arbitrary: c lo D s)
  case 0
  then have ce: "\<not> c < e" "{c..<e} = {}" by (auto simp: word_less_nat_alt)
  have "fold_inv (max lo (unat e)) D s" using 0(2) by (auto simp: fold_inv_def intro: le_trans)
  then show ?case using ce by (subst fold_range.simps) simp
next
  case (Suc n)
  then have ce: "c < e" by (simp add: word_less_nat_alt)
  note h = interval_head [OF ce]
  have "held c" using Suc.prems(3) ce by simp
  from fold_one_inv [OF Suc.prems(1,2) this, of u] obtain s1 where s1:
    "fold_one (\<lambda>_. True) u c s = Some s1" "fold_inv (unat c) (insert (lre_canonicalize c u) D) s1" by blast
  have "n = unat e - unat (c + 1)" using Suc.hyps(2) h by simp
  from Suc.hyps(1) [OF this s1(2)] h Suc.prems(3) obtain s2 where s2:
    "fold_range (\<lambda>_. True) u (c + 1) e s1 = Some s2"
    "fold_inv (max (unat c) (unat e)) (insert (lre_canonicalize c u) D \<union> (\<lambda>c. lre_canonicalize c u) ` {c + 1..<e}) s2"
    by auto
  have "fold_inv (max lo (unat e)) (insert (lre_canonicalize c u) D \<union> (\<lambda>c. lre_canonicalize c u) ` {c + 1..<e}) s2"
    using s2(2) Suc.prems(2) ce by (auto simp: fold_inv_def word_less_nat_alt intro: le_trans)
  moreover have "insert (lre_canonicalize c u) D \<union> (\<lambda>c. lre_canonicalize c u) ` {c + 1..<e} =
      D \<union> (\<lambda>c. lre_canonicalize c u) ` {c..<e}" using h by auto
  ultimately show ?case using s1(1) s2(1) ce by (subst fold_range.simps) simp
qed

lemma fold_ranges_inv:
  assumes "cr_wf pts" and "fold_inv lo D s" and "\<forall>p \<in> set pts. lo \<le> unat p" and "\<forall>x \<in> cr_set pts. held x"
  shows "\<exists>s'. fold_ranges (\<lambda>_. True) u pts s = Some s' \<and>
    (\<exists>lo. fold_inv lo (D \<union> (\<lambda>c. lre_canonicalize c u) ` cr_set pts) s')"
  using assms
proof (induction pts arbitrary: lo D s rule: cr_pairs.induct)
  case (1 a b pts)
  have "lo \<le> unat a" "lo \<le> unat b" using "1.prems"(3) by auto
  moreover have "\<forall>x \<in> {a..<b}. held x" using "1.prems"(4) by simp
  ultimately obtain s1 where s1: "fold_range (\<lambda>_. True) u a b s = Some s1"
    "fold_inv (unat b) (D \<union> (\<lambda>c. lre_canonicalize c u) ` {a..<b}) s1"
    using fold_range_inv [OF "1.prems"(2), of a b u] by (auto simp: max_absorb2)
  have "cr_wf pts" "\<forall>p \<in> set pts. unat b \<le> unat p"
    using "1.prems"(1) by (auto simp: cr_wf_def word_less_nat_alt)
  from "1.IH" [OF this(1) s1(2) this(2)] "1.prems"(4) obtain s2 lo' where
    "fold_ranges (\<lambda>_. True) u pts s1 = Some s2"
    "fold_inv lo' (D \<union> (\<lambda>c. lre_canonicalize c u) ` {a..<b} \<union> (\<lambda>c. lre_canonicalize c u) ` cr_set pts) s2"
    by auto
  then show ?case using s1(1) by (auto simp: image_Un Un_assoc)
qed auto

lemma fold_finish_ok:
  assumes "fold_inv lo D s"
  shows "\<exists>cr. fold_finish (\<lambda>_. True) s = Some cr \<and> cr_set (cr_points cr) = D \<and>
    even (length (cr_points cr)) \<and> (\<forall>(a, b) \<in> set (cr_pairs (cr_points cr)). a < b)"
proof -
  obtain cr where cr: "cr_add_interval (\<lambda>_. True) (f_result s) (f_start s) (f_end s) = Some cr"
    "cr_points cr = cr_points (f_result s) @ [f_start s, f_end s]" using cr_add_interval_ok by blast
  show ?thesis using assms cr
    by (auto simp: fold_finish_def fold_inv_def fold_covered_def cr_set_append cr_pairs_append)
qed

lemma mask_points:
  "cr_sorted (concat (map (entry_points u) case_conv_table1)) \<and>
   cr_set (concat (map (entry_points u) case_conv_table1)) =
     {c. \<exists>v \<in> set case_conv_table1. in_run c v \<and> changes u v (unat c - unat (run_code v))}"
  using concat_entry_points [OF case_conv_table1_disjoint case_conv_table1_ok] by blast

lemma cr_regexp_canonicalize_image:
  assumes "cr_sorted (cr_points cr)"
  shows "\<exists>cr'. cr_regexp_canonicalize (\<lambda>_. True) cr u = Some (Some cr') \<and> cr_wf (cr_points cr') \<and>
    cr_set (cr_points cr') = (\<lambda>c. lre_canonicalize c u) ` cr_set (cr_points cr)"
proof -
  let ?changed = "{c. \<exists>v \<in> set case_conv_table1. in_run c v \<and> changes u v (unat c - unat (run_code v))}"
  let ?f = "\<lambda>c. lre_canonicalize c u"
  have init: "cr_points cr_init = []" by (simp add: cr_init_def)
  obtain mask where mask: "unicode_case1 (\<lambda>_. True) cr_init (if u then CASE_F else CASE_U) = Some mask"
    "cr_sorted (cr_points mask)" "cr_set (cr_points mask) = ?changed"
    using unicode_case1_points [of u] mask_points [of u] by (auto simp: fold_mask_def)
  obtain inter where inter: "cr_op (\<lambda>_. True) cr_init (cr_points mask) (cr_points cr) CR_OP_INTER = Some inter"
    using cr_op_ok by blast
  have i: "cr_wf (cr_points inter)" "cr_set (cr_points inter) = ?changed \<inter> cr_set (cr_points cr)"
    using cr_op_wf [OF init mask(2) assms inter] mask(3) by auto
  obtain inv where inv: "cr_invert (\<lambda>_. True) mask = Some inv" using cr_invert_ok by blast
  note v = cr_invert_wf [OF mask(2) inv]
  obtain sub where sub: "cr_op (\<lambda>_. True) cr_init (cr_points inv) (cr_points cr) CR_OP_INTER = Some sub"
    using cr_op_ok by blast
  have s: "cr_wf (cr_points sub)"
    "cr_set (cr_points sub) = ({..<UINT32_MAX} - ?changed) \<inter> cr_set (cr_points cr)"
    using cr_op_wf [OF init cr_wf_sorted [OF v(1)] assms sub] v(2) mask(3) by auto
  have "\<forall>x \<in> cr_set (cr_points inter). held x"
    using i(2) by (auto simp: held_def in_set_conv_nth)
  moreover have "fold_inv 0 {} fold_init"
    by (simp add: fold_inv_def fold_init_def fold_covered_def cr_init_def)
  ultimately obtain st lo where st: "fold_ranges (\<lambda>_. True) u (cr_points inter) fold_init = Some st"
    "fold_inv lo (?f ` cr_set (cr_points inter)) st"
    using fold_ranges_inv [OF i(1), of 0 "{}" fold_init u] by auto
  obtain fin where fin: "fold_finish (\<lambda>_. True) st = Some fin" "cr_set (cr_points fin) = ?f ` cr_set (cr_points inter)"
    "even (length (cr_points fin))" "\<forall>(a, b) \<in> set (cr_pairs (cr_points fin)). a < b"
    using fold_finish_ok [OF st(2)] by blast
  obtain res where res: "cr_sort_and_remove_overlap fin = Some res" "cr_wf (cr_points res)"
    "cr_set (cr_points res) = ?f ` cr_set (cr_points inter)"
    using cr_sort_and_remove_overlap_correct [OF fin(3,4)] fin(2) by auto
  obtain cr' where cr': "cr_op (\<lambda>_. True) (cr\<lparr>cr_points := []\<rparr>) (cr_points res) (cr_points sub) CR_OP_UNION = Some cr'"
    using cr_op_ok by blast
  have w: "cr_wf (cr_points cr')" "cr_set (cr_points cr') = cr_set (cr_points res) \<union> cr_set (cr_points sub)"
    using cr_op_wf [OF _ cr_wf_sorted [OF res(2)] cr_wf_sorted [OF s(1)] cr'] by auto
  have "?f ` cr_set (cr_points cr) =
      ?f ` (?changed \<inter> cr_set (cr_points cr)) \<union> ?f ` (cr_set (cr_points cr) - ?changed)"
    by (subst image_Un [symmetric]) (rule arg_cong [where f = "(`) ?f"], blast)
  moreover have "?f ` (cr_set (cr_points cr) - ?changed) = cr_set (cr_points cr) - ?changed"
  proof -
    have "?f c = c" if "c \<in> cr_set (cr_points cr) - ?changed" for c
      by (rule lre_canonicalize_unchanged) (use that in blast)
    then have "?f ` (cr_set (cr_points cr) - ?changed) = id ` (cr_set (cr_points cr) - ?changed)"
      by (intro image_cong) simp_all
    then show ?thesis by simp
  qed
  moreover have "cr_set (cr_points sub) = cr_set (cr_points cr) - ?changed"
    using s(2) cr_set_max [of "cr_points cr"] by blast
  ultimately have "cr_set (cr_points cr') = ?f ` cr_set (cr_points cr)"
    using w(2) res(3) i(2) by simp
  then show ?thesis
    using mask(1) inter inv sub st(1) fin(1) res(1) cr' w(1) by (simp add: cr_regexp_canonicalize_def or_fail_def)
qed


text \<open>
  C12. Case folding of a set of characters is exact, with the Unicode rules and with the legacy
  ones: from any sorted list of bounds the routine gives the canonical list of bounds of the image
  of the set under \<^verbatim>\<open>lre_canonicalize\<close>, and no assertion of it fails.
\<close>

theorem cr_regexp_canonicalize_correct:
  assumes "cr_sorted (cr_points cr)"
  shows "\<exists>cr'. cr_regexp_canonicalize (\<lambda>_. True) cr is_unicode = Some (Some cr') \<and> cr_wf (cr_points cr') \<and>
    cr_set (cr_points cr') = (\<lambda>c. lre_canonicalize c is_unicode) ` cr_set (cr_points cr)"
  using assms by (rule cr_regexp_canonicalize_image)

theorem cr_regexp_canonicalize_correct_witness:
  "\<exists>cr'. cr_regexp_canonicalize (\<lambda>_. True) \<lparr>cr_points = [0x41, 0x5b, 0xe0, 0xe8], cr_size = 4\<rparr> True = Some (Some cr') \<and>
    cr_set (cr_points cr') = (\<lambda>c. lre_canonicalize c True) ` cr_set [0x41, 0x5b, 0xe0, 0xe8]"
  using cr_regexp_canonicalize_correct [of "\<lparr>cr_points = [0x41, 0x5b, 0xe0, 0xe8], cr_size = 4\<rparr>" True]
  by (auto simp: cr_sorted_def)

end
