(* ===== verification/UniTables.thy ===== *)
theory UniTables
  imports Prelude
begin

text \<open>
  The compressed tables of Unicode properties of \<^verbatim>\<open>libregexp/libunicode-table.h\<close> that the
  property tests search directly, each with the index into it.
\<close>

definition unicode_prop_Cased1_table :: "u8 list" where
  "unicode_prop_Cased1_table = [
     0x40, 0xa9, 0x80, 0x8e, 0x80, 0xfc, 0x80, 0xd3, 0x80, 0x9b, 0x81, 0x8d,
     0x2, 0x80, 0xe1, 0x80, 0x91, 0x85, 0x9a, 0x1, 0x0, 0x1, 0x11, 0x3,
     0x4, 0x8, 0x1, 0x8, 0x30, 0x8, 0x1, 0x15, 0x20, 0x1, 0x31, 0x99,
     0x31, 0x9d, 0x84, 0x40, 0x94, 0x80, 0xd6, 0x82, 0xa6, 0x80, 0x41, 0x62,
     0x80, 0xa6, 0x80, 0x4b, 0x72, 0x80, 0x4c, 0x2, 0xf8, 0x2, 0x80, 0x8f,
     0x80, 0xb0, 0x40, 0xdb, 0x8, 0x80, 0x41, 0xd0, 0x80, 0x8c, 0x80, 0x8f,
     0x8c, 0xe4, 0x3, 0x1, 0x89, 0x0, 0x14, 0x28, 0x10, 0x11, 0x2, 0x1,
     0x18, 0xb, 0x24, 0x4b, 0x26, 0x1, 0x1, 0x86, 0xe5, 0x80, 0x60, 0x79,
     0xb6, 0x81, 0x40, 0x91, 0x81, 0xbd, 0x88, 0x94, 0x5, 0x80, 0x98, 0x80,
     0xc0, 0x1a, 0x82, 0x43, 0x34, 0xa2, 0x6, 0x80, 0x8d, 0x60, 0x5c, 0x15,
     0x1, 0x10, 0xa9, 0x80, 0x88, 0x60, 0xcc, 0x44, 0xd4, 0x80, 0xc6, 0x1,
     0x8, 0x9, 0xb, 0x80, 0x8b, 0x0, 0x6, 0x80, 0xc0, 0x3, 0xf, 0x6,
     0x80, 0x9b, 0x3, 0x4, 0x0, 0x16, 0x80, 0x41, 0x53, 0x81, 0x98, 0x80,
     0x98, 0x80, 0x9e, 0x80, 0x98, 0x80, 0x9e, 0x80, 0x98, 0x80, 0x9e, 0x80,
     0x98, 0x80, 0x9e, 0x80, 0x98, 0x7, 0x47, 0x33, 0x89, 0x80, 0x93, 0x2d,
     0x41, 0x4, 0xbd, 0x50, 0xc1, 0x99, 0x85, 0x99, 0x85, 0x99]"

definition unicode_prop_Cased1_index :: "u8 list" where
  "unicode_prop_Cased1_index = [
     0xb9, 0x2, 0x80, 0xa0, 0x1e, 0x40, 0x9e, 0xa6, 0x40, 0x55, 0xd4, 0x21,
     0x15, 0xd7, 0x21, 0x8a, 0xf1, 0x1]"

definition unicode_prop_Case_Ignorable_table :: "u8 list" where
  "unicode_prop_Case_Ignorable_table = [
     0xa6, 0x5, 0x80, 0x8a, 0x80, 0xa2, 0x0, 0x80, 0xc6, 0x3, 0x0, 0x3,
     0x1, 0x81, 0x41, 0xf6, 0x40, 0xbf, 0x19, 0x18, 0x88, 0x8, 0x80, 0x40,
     0xfa, 0x86, 0x40, 0xce, 0x4, 0x80, 0xb0, 0xac, 0x0, 0x1, 0x1, 0x0,
     0xab, 0x80, 0x8a, 0x85, 0x89, 0x8a, 0x0, 0xa2, 0x80, 0x89, 0x94, 0x8f,
     0x80, 0xe4, 0x38, 0x89, 0x3, 0xa0, 0x0, 0x80, 0x9d, 0x9a, 0xda, 0x8a,
     0xb9, 0x8a, 0x18, 0x8, 0x97, 0x97, 0xaa, 0x82, 0xab, 0x6, 0xc, 0x88,
     0xa8, 0xb9, 0xb6, 0x0, 0x3, 0x3b, 0x2, 0x86, 0x89, 0x81, 0x8c, 0x80,
     0x8e, 0x80, 0xb9, 0x3, 0x1f, 0x80, 0x93, 0x81, 0x99, 0x1, 0x81, 0xb8,
     0x3, 0xb, 0x9, 0x12, 0x80, 0x9d, 0xa, 0x80, 0x8a, 0x81, 0xb8, 0x3,
     0x20, 0xb, 0x80, 0x93, 0x81, 0x95, 0x28, 0x80, 0xb9, 0x1, 0x0, 0x1f,
     0x6, 0x81, 0x8a, 0x81, 0x9d, 0x80, 0xbc, 0x80, 0x8b, 0x80, 0xb1, 0x2,
     0x80, 0xb6, 0x0, 0x14, 0x10, 0x1e, 0x81, 0x8a, 0x81, 0x9c, 0x80, 0xb9,
     0x1, 0x5, 0x4, 0x81, 0x93, 0x81, 0x9b, 0x81, 0xb8, 0xb, 0x1f, 0x80,
     0x93, 0x81, 0x9c, 0x80, 0xc7, 0x6, 0x10, 0x80, 0xd9, 0x1, 0x86, 0x8a,
     0x88, 0xe1, 0x1, 0x88, 0x88, 0x0, 0x86, 0xc8, 0x81, 0x9a, 0x0, 0x0,
     0x80, 0xb6, 0x8d, 0x4, 0x1, 0x84, 0x8a, 0x80, 0xa3, 0x88, 0x80, 0xe5,
     0x18, 0x28, 0x9, 0x81, 0x98, 0xb, 0x82, 0x8f, 0x83, 0x8c, 0x1, 0xd,
     0x80, 0x8e, 0x80, 0xdd, 0x80, 0x42, 0x5f, 0x82, 0x43, 0xb1, 0x82, 0x9c,
     0x81, 0x9d, 0x81, 0x9d, 0x81, 0xbf, 0x8, 0x37, 0x1, 0x8a, 0x10, 0x20,
     0xac, 0x84, 0xb2, 0x80, 0xc0, 0x81, 0xa1, 0x80, 0xf5, 0x13, 0x81, 0x88,
     0x5, 0x82, 0x40, 0xda, 0x9, 0x80, 0xb9, 0x0, 0x30, 0x0, 0x1, 0x3d,
     0x89, 0x8, 0xa6, 0x7, 0xad, 0x81, 0x8b, 0x93, 0x83, 0xaf, 0x0, 0x20,
     0x4, 0x80, 0xa7, 0x88, 0x8b, 0x81, 0x9f, 0x19, 0x8, 0x82, 0xb7, 0x0,
     0xa, 0x0, 0x82, 0xb9, 0x39, 0x81, 0xbf, 0x85, 0xd1, 0x10, 0x8c, 0x6,
     0x18, 0x28, 0x11, 0xb1, 0xbe, 0x8c, 0x80, 0xa1, 0xe4, 0x41, 0xbc, 0x0,
     0x82, 0x8a, 0x82, 0x8c, 0x82, 0x8c, 0x82, 0x8c, 0x81, 0x8b, 0x27, 0x81,
     0x89, 0x1, 0x1, 0x84, 0xb0, 0x20, 0x89, 0x0, 0x8c, 0x80, 0x8f, 0x8c,
     0xb2, 0xa0, 0x4b, 0x8a, 0x81, 0xf0, 0x82, 0xfc, 0x80, 0x8e, 0x80, 0xdf,
     0x9f, 0xae, 0x80, 0x41, 0xd4, 0x80, 0xa3, 0x1a, 0x24, 0x80, 0xdc, 0x85,
     0xdc, 0x82, 0x60, 0x6f, 0x15, 0x80, 0x44, 0xe1, 0x85, 0x41, 0xd, 0x80,
     0xe1, 0x18, 0x89, 0x0, 0x9b, 0x83, 0xcf, 0x81, 0x8d, 0xa1, 0xcd, 0x80,
     0x96, 0x82, 0xe5, 0x1a, 0xf, 0x2, 0x3, 0x80, 0x98, 0xc, 0x80, 0x40,
     0x96, 0x81, 0x99, 0x91, 0x8c, 0x80, 0xa5, 0x87, 0x98, 0x8a, 0xad, 0x82,
     0xaf, 0x1, 0x19, 0x81, 0x90, 0x80, 0x94, 0x81, 0xc1, 0x29, 0x9, 0x81,
     0x8b, 0x7, 0x80, 0xa2, 0x80, 0x8a, 0x80, 0xb2, 0x0, 0x11, 0xc, 0x8,
     0x80, 0x9a, 0x80, 0x8d, 0xc, 0x8, 0x80, 0xe3, 0x84, 0x88, 0x82, 0xf8,
     0x1, 0x3, 0x80, 0x60, 0x4f, 0x2f, 0x80, 0x40, 0x92, 0x90, 0x42, 0x3c,
     0x8f, 0x10, 0x8b, 0x8f, 0xa1, 0x1, 0x80, 0x40, 0xa8, 0x6, 0x5, 0x80,
     0x8a, 0x80, 0xa2, 0x0, 0x80, 0xae, 0x80, 0xac, 0x81, 0xc2, 0x80, 0x94,
     0x82, 0x42, 0x0, 0x80, 0x40, 0xe1, 0x80, 0x40, 0x94, 0x84, 0x44, 0x4,
     0x28, 0xa9, 0x80, 0x88, 0x42, 0x45, 0x10, 0xc, 0x83, 0xa7, 0x13, 0x80,
     0x40, 0xa4, 0x81, 0x42, 0x3c, 0x83, 0xa5, 0x80, 0x99, 0x20, 0x80, 0x41,
     0x3a, 0x81, 0x97, 0x80, 0xb3, 0x85, 0xc5, 0x8a, 0xb0, 0x83, 0xfa, 0x80,
     0xb5, 0x8e, 0xa8, 0x1, 0x81, 0x89, 0x82, 0xb0, 0x19, 0x9, 0x3, 0x80,
     0x89, 0x80, 0xb1, 0x82, 0xa3, 0x20, 0x87, 0xbd, 0x80, 0x8b, 0x81, 0xb3,
     0x88, 0x89, 0x19, 0x80, 0xde, 0x11, 0x0, 0xd, 0x1, 0x80, 0x40, 0x9c,
     0x2, 0x87, 0x94, 0x81, 0xb8, 0xa, 0x80, 0xa4, 0x32, 0x84, 0xc5, 0x85,
     0x8c, 0x0, 0x0, 0x80, 0x8d, 0x81, 0xd4, 0x39, 0x10, 0x80, 0x96, 0x80,
     0xd3, 0x28, 0x3, 0x8, 0x81, 0x40, 0xed, 0x1d, 0x8, 0x81, 0x9a, 0x81,
     0xd4, 0x39, 0x0, 0x81, 0xe9, 0x0, 0x1, 0x28, 0x80, 0xe4, 0x0, 0x1,
     0x18, 0x84, 0x41, 0x2, 0x88, 0x1, 0x40, 0xff, 0x8, 0x3, 0x80, 0x40,
     0x8f, 0x19, 0xb, 0x80, 0x9f, 0x89, 0xa7, 0x29, 0x1f, 0x80, 0x88, 0x29,
     0x82, 0xad, 0x8c, 0x1, 0x40, 0xc5, 0x0, 0x10, 0x80, 0x40, 0xc8, 0x30,
     0x28, 0x80, 0xd1, 0x95, 0xe, 0x1, 0x1, 0xf9, 0x2a, 0x0, 0x8, 0x30,
     0x80, 0xc7, 0xa, 0x0, 0x80, 0xc0, 0x80, 0x41, 0x18, 0x81, 0x8a, 0x81,
     0xb3, 0x24, 0x0, 0x80, 0x96, 0x80, 0x54, 0xd4, 0x90, 0x85, 0x8e, 0x60,
     0x2c, 0xc7, 0x8b, 0x12, 0x49, 0xbf, 0x84, 0xba, 0x86, 0x88, 0x83, 0x41,
     0xfb, 0x82, 0xa7, 0x81, 0x41, 0xe1, 0x80, 0xbe, 0x90, 0xbf, 0x8, 0x81,
     0x8c, 0x81, 0x60, 0x3f, 0xfb, 0x18, 0x30, 0x81, 0x4c, 0x9d, 0x8, 0x83,
     0x52, 0x5b, 0xad, 0x81, 0x96, 0x42, 0x1f, 0x82, 0x88, 0x8f, 0xe, 0x9d,
     0x83, 0x40, 0x93, 0x82, 0x47, 0xba, 0xb6, 0x83, 0xb1, 0x38, 0x8d, 0x80,
     0x95, 0x20, 0x8e, 0x45, 0x4f, 0x30, 0x90, 0xe, 0x1, 0x4, 0x84, 0xbd,
     0xa0, 0x80, 0x40, 0x9f, 0x8d, 0x41, 0x6f, 0x80, 0xbc, 0x83, 0x41, 0xfa,
     0x84, 0x40, 0xfd, 0x81, 0x40, 0xf2, 0x1, 0x6, 0xc, 0x80, 0x88, 0x80,
     0x41, 0xcf, 0x86, 0xec, 0x87, 0x4a, 0xae, 0x84, 0x6c, 0xc, 0x0, 0x80,
     0x9d, 0xdf, 0xff, 0x40, 0xef]"

definition unicode_prop_Case_Ignorable_index :: "u8 list" where
  "unicode_prop_Case_Ignorable_index = [
     0xbe, 0x5, 0x0, 0xfe, 0x7, 0x0, 0x52, 0xa, 0xa0, 0xc1, 0xb, 0x0,
     0x82, 0xd, 0x0, 0x3f, 0x10, 0x80, 0xd4, 0x17, 0x40, 0xde, 0x1a, 0x20,
     0xe9, 0x1c, 0x0, 0x72, 0x20, 0x0, 0x16, 0xa0, 0x40, 0xc6, 0xa8, 0x40,
     0xc2, 0xaa, 0xa0, 0x30, 0xfe, 0x0, 0xb1, 0x7, 0x41, 0x51, 0xf, 0x1,
     0xd0, 0x11, 0x1, 0x5f, 0x14, 0x1, 0x44, 0x19, 0x61, 0xa8, 0x1c, 0x1,
     0x2a, 0x61, 0x61, 0xff, 0xaf, 0x1, 0x19, 0xe0, 0x61, 0x0, 0xe7, 0x1,
     0xf0, 0x1, 0xe]"

definition unicode_prop_ID_Start_table :: "u8 list" where
  "unicode_prop_ID_Start_table = [
     0xc0, 0x99, 0x85, 0x99, 0xae, 0x80, 0x89, 0x3, 0x4, 0x96, 0x80, 0x9e,
     0x80, 0x41, 0xc9, 0x83, 0x8b, 0x8d, 0x26, 0x0, 0x80, 0x40, 0x80, 0x20,
     0x9, 0x18, 0x5, 0x0, 0x10, 0x0, 0x93, 0x80, 0xd2, 0x80, 0x40, 0x8a,
     0x87, 0x40, 0xa5, 0x80, 0xa5, 0x8, 0x85, 0xa8, 0xc6, 0x9a, 0x1b, 0xac,
     0xaa, 0xa2, 0x8, 0xe2, 0x0, 0x8e, 0xe, 0x81, 0x89, 0x11, 0x80, 0x8f,
     0x0, 0x9d, 0x9c, 0xd8, 0x8a, 0x80, 0x97, 0xa0, 0x88, 0xb, 0x4, 0x95,
     0x18, 0x88, 0x2, 0x80, 0x96, 0x98, 0x86, 0x8a, 0x84, 0x97, 0x6, 0x8f,
     0xa9, 0xb9, 0xb5, 0x10, 0x91, 0x6, 0x89, 0x8e, 0x8f, 0x1f, 0x9, 0x81,
     0x95, 0x6, 0x0, 0x13, 0x10, 0x8f, 0x80, 0x8c, 0x8, 0x82, 0x8d, 0x81,
     0x89, 0x7, 0x2b, 0x9, 0x95, 0x6, 0x1, 0x1, 0x1, 0x9e, 0x18, 0x80,
     0x92, 0x82, 0x8f, 0x88, 0x2, 0x80, 0x95, 0x6, 0x1, 0x4, 0x10, 0x91,
     0x80, 0x8e, 0x81, 0x96, 0x80, 0x8a, 0x39, 0x9, 0x95, 0x6, 0x1, 0x4,
     0x10, 0x9d, 0x8, 0x82, 0x8e, 0x80, 0x90, 0x0, 0x2a, 0x10, 0x1a, 0x8,
     0x0, 0xa, 0xa, 0x12, 0x8b, 0x95, 0x80, 0xb3, 0x38, 0x10, 0x96, 0x80,
     0x8f, 0x10, 0x99, 0x10, 0x9, 0x81, 0x9d, 0x3, 0x38, 0x10, 0x96, 0x80,
     0x89, 0x4, 0x10, 0x9d, 0x10, 0x81, 0x8e, 0x81, 0x90, 0x88, 0x2, 0x80,
     0xa8, 0x8, 0x8f, 0x4, 0x17, 0x82, 0x97, 0x2c, 0x91, 0x82, 0x97, 0x80,
     0x88, 0x0, 0xe, 0xb9, 0xaf, 0x1, 0x8b, 0x86, 0xb9, 0x8, 0x0, 0x20,
     0x97, 0x0, 0x80, 0x89, 0x1, 0x88, 0x1, 0x20, 0x80, 0x94, 0x83, 0x9f,
     0x80, 0xbe, 0x38, 0xa3, 0x9a, 0x84, 0xf2, 0xaa, 0x93, 0x80, 0x8f, 0x2b,
     0x1a, 0x2, 0xe, 0x13, 0x8c, 0x8b, 0x80, 0x90, 0xa5, 0x0, 0x20, 0x81,
     0xaa, 0x80, 0x41, 0x4c, 0x3, 0xe, 0x0, 0x3, 0x81, 0xa8, 0x3, 0x81,
     0xa0, 0x3, 0xe, 0x0, 0x3, 0x81, 0x8e, 0x80, 0xb8, 0x3, 0x81, 0xc2,
     0xa4, 0x8f, 0x8f, 0xd5, 0xd, 0x82, 0x42, 0x6b, 0x81, 0x90, 0x80, 0x99,
     0x84, 0xca, 0x82, 0x8a, 0x86, 0x91, 0x8c, 0x92, 0x8d, 0x91, 0x8d, 0x8c,
     0x2, 0x8e, 0xb3, 0xa2, 0x3, 0x80, 0xc2, 0xd8, 0x86, 0xa8, 0x0, 0x84,
     0xc5, 0x89, 0x9e, 0xb0, 0x9d, 0xc, 0x8a, 0xab, 0x83, 0x99, 0xb5, 0x96,
     0x88, 0xb4, 0xd1, 0x80, 0xdc, 0xae, 0x90, 0x87, 0xb5, 0x9d, 0x8c, 0x81,
     0x89, 0xab, 0x99, 0xa3, 0xa8, 0x82, 0x89, 0xa3, 0x81, 0x8a, 0x84, 0xaa,
     0xa, 0xa8, 0x18, 0x28, 0xa, 0x4, 0x40, 0xbf, 0xbf, 0x41, 0x15, 0xd,
     0x81, 0xa5, 0xd, 0xf, 0x0, 0x0, 0x0, 0x80, 0x9e, 0x81, 0xb4, 0x6,
     0x0, 0x12, 0x6, 0x13, 0xd, 0x83, 0x8c, 0x22, 0x6, 0xf3, 0x80, 0x8c,
     0x80, 0x8f, 0x8c, 0xe4, 0x3, 0x1, 0x89, 0x0, 0xd, 0x28, 0x0, 0x0,
     0x80, 0x8f, 0xb, 0x24, 0x18, 0x90, 0xa8, 0x4a, 0x76, 0x40, 0xe4, 0x2b,
     0x11, 0x8b, 0xa5, 0x0, 0x20, 0x81, 0xb7, 0x30, 0x8f, 0x96, 0x88, 0x30,
     0x30, 0x30, 0x30, 0x30, 0x30, 0x30, 0x86, 0x42, 0x25, 0x82, 0x98, 0x88,
     0x34, 0xc, 0x83, 0xd5, 0x1c, 0x80, 0xd9, 0x3, 0x84, 0xaa, 0x80, 0xdd,
     0x90, 0x9f, 0xaf, 0x8f, 0x41, 0xff, 0x59, 0xbf, 0xbf, 0x60, 0x56, 0x8c,
     0xc2, 0xad, 0x81, 0x41, 0xc, 0x82, 0x8f, 0x89, 0x81, 0x93, 0xae, 0x8f,
     0x9e, 0x81, 0xcf, 0xa6, 0x88, 0x81, 0xe6, 0x81, 0xd1, 0x93, 0x90, 0x2,
     0x3, 0x80, 0x96, 0x9c, 0xb3, 0x8d, 0xb1, 0xbd, 0x2a, 0x0, 0x81, 0x8a,
     0x9b, 0x89, 0x96, 0x98, 0x9c, 0x86, 0xae, 0x9b, 0x80, 0x8f, 0x20, 0x89,
     0x89, 0x20, 0xa8, 0x96, 0x10, 0x87, 0x93, 0x96, 0x10, 0x82, 0xb1, 0x0,
     0x11, 0xc, 0x8, 0x0, 0x97, 0x11, 0x8a, 0x32, 0x8b, 0x29, 0x29, 0x85,
     0x88, 0x30, 0x30, 0xaa, 0x80, 0x8d, 0x85, 0xf2, 0x9c, 0x60, 0x2b, 0xa3,
     0x8b, 0x96, 0x83, 0xb0, 0x60, 0x21, 0x3, 0x41, 0x6d, 0x81, 0xe9, 0xa5,
     0x86, 0x8b, 0x24, 0x0, 0x89, 0x80, 0x8c, 0x4, 0x0, 0x1, 0x1, 0x80,
     0xeb, 0xa0, 0x41, 0x6a, 0x91, 0xbf, 0x81, 0xb5, 0xa7, 0x8b, 0xf3, 0x20,
     0x40, 0x86, 0xa3, 0x99, 0x85, 0x99, 0x8a, 0xd8, 0x15, 0xd, 0xd, 0xa,
     0xa2, 0x8b, 0x80, 0x99, 0x80, 0x92, 0x1, 0x80, 0x8e, 0x81, 0x8d, 0xa1,
     0xfa, 0xc4, 0xb4, 0x41, 0xa, 0x9c, 0x82, 0xb0, 0xae, 0x9f, 0x8c, 0x9d,
     0x84, 0xa5, 0x89, 0x9d, 0x81, 0xa3, 0x1f, 0x4, 0xa9, 0x40, 0x9d, 0x91,
     0xa3, 0x83, 0xa3, 0x83, 0xa7, 0x87, 0xb3, 0x8b, 0x8a, 0x80, 0x8e, 0x6,
     0x1, 0x80, 0x8a, 0x80, 0x8e, 0x6, 0x1, 0x82, 0xb3, 0x8b, 0x41, 0x36,
     0x88, 0x95, 0x89, 0x87, 0x97, 0x28, 0xa9, 0x80, 0x88, 0xc4, 0x29, 0x0,
     0xab, 0x1, 0x10, 0x81, 0x96, 0x89, 0x96, 0x88, 0x9e, 0xc0, 0x92, 0x1,
     0x89, 0x95, 0x89, 0x99, 0x85, 0x99, 0xa5, 0xb7, 0x29, 0xbf, 0x80, 0x8e,
     0x18, 0x10, 0x9c, 0xa9, 0x9c, 0x82, 0x9c, 0xa2, 0x38, 0x9b, 0x9a, 0xb5,
     0x89, 0x95, 0x89, 0x92, 0x8c, 0x91, 0xed, 0xc8, 0xb6, 0xb2, 0x8c, 0xb2,
     0x8c, 0xa3, 0xa5, 0x9b, 0x88, 0x96, 0x40, 0xf9, 0xa9, 0x29, 0x8f, 0x85,
     0xb7, 0x9c, 0x89, 0x7, 0x95, 0xa9, 0x91, 0xad, 0x94, 0x9a, 0x96, 0x8b,
     0xb4, 0xb8, 0x9, 0x80, 0x8c, 0xac, 0x9f, 0x98, 0x99, 0xa3, 0x9c, 0x1,
     0x7, 0xa2, 0x10, 0x8b, 0xaf, 0x8d, 0x83, 0x94, 0x0, 0x80, 0xa2, 0x91,
     0x80, 0x98, 0x92, 0x81, 0xbe, 0x30, 0x0, 0x18, 0x8e, 0x80, 0x89, 0x86,
     0xae, 0xa5, 0x39, 0x9, 0x95, 0x6, 0x1, 0x4, 0x10, 0x91, 0x80, 0x8b,
     0x84, 0x9d, 0x89, 0x0, 0x8, 0x80, 0xa5, 0x0, 0x98, 0x0, 0x80, 0xab,
     0xb4, 0x91, 0x83, 0x93, 0x82, 0x9d, 0xaf, 0x93, 0x8, 0x80, 0x40, 0xb7,
     0xae, 0xa8, 0x83, 0xa3, 0xaf, 0x93, 0x80, 0xba, 0xaa, 0x8c, 0x80, 0xc6,
     0x9a, 0xa4, 0x86, 0x40, 0xb8, 0xab, 0xf3, 0xbf, 0x9e, 0x39, 0x1, 0x38,
     0x8, 0x97, 0x8e, 0x0, 0x80, 0xdd, 0x39, 0xa6, 0x8f, 0x0, 0x80, 0x9b,
     0x80, 0x89, 0xa7, 0x30, 0x94, 0x80, 0x8a, 0xad, 0x92, 0x80, 0x91, 0xc8,
     0x40, 0xc6, 0xa0, 0x9e, 0x88, 0x80, 0xa4, 0x90, 0x80, 0xb0, 0x9d, 0xef,
     0x30, 0x8, 0xa5, 0x94, 0x80, 0x98, 0x28, 0x8, 0x9f, 0x8d, 0x80, 0x96,
     0xab, 0x41, 0x3, 0x92, 0x8e, 0x0, 0x8c, 0x80, 0xa1, 0xfb, 0x80, 0xce,
     0x43, 0x99, 0xe5, 0xee, 0x90, 0x40, 0xc3, 0x4a, 0x4b, 0xe0, 0x8e, 0x44,
     0x2f, 0x90, 0x85, 0x98, 0x4f, 0x9a, 0x84, 0x42, 0x46, 0x5a, 0xb8, 0x9d,
     0x46, 0xe1, 0x42, 0x38, 0x86, 0x9e, 0x90, 0xce, 0x90, 0x9d, 0x91, 0xaf,
     0x8f, 0x83, 0x9e, 0x94, 0x84, 0x92, 0x41, 0xaf, 0xac, 0x40, 0xd2, 0xbf,
     0x9f, 0x98, 0x81, 0x98, 0xab, 0xca, 0x20, 0xc1, 0x8c, 0xbf, 0x8, 0x80,
     0x8d, 0x84, 0x88, 0x5c, 0xd5, 0xa8, 0x9f, 0xe0, 0xf2, 0x60, 0x21, 0xfc,
     0x18, 0x30, 0x8, 0x41, 0x22, 0x8e, 0x80, 0x9c, 0x11, 0x80, 0x8d, 0x1f,
     0x41, 0x8b, 0x49, 0x3, 0xea, 0x84, 0x8c, 0x82, 0x88, 0x86, 0x89, 0x57,
     0x65, 0xd4, 0x80, 0xc6, 0x1, 0x8, 0x9, 0xb, 0x80, 0x8b, 0x0, 0x6,
     0x80, 0xc0, 0x3, 0xf, 0x6, 0x80, 0x9b, 0x3, 0x4, 0x0, 0x16, 0x80,
     0x41, 0x53, 0x81, 0x98, 0x80, 0x98, 0x80, 0x9e, 0x80, 0x98, 0x80, 0x9e,
     0x80, 0x98, 0x80, 0x9e, 0x80, 0x98, 0x80, 0x9e, 0x80, 0x98, 0x7, 0x47,
     0x33, 0x9e, 0x2d, 0x41, 0x4, 0xbd, 0x40, 0x91, 0xac, 0x89, 0x86, 0x8f,
     0x80, 0x41, 0x40, 0x9d, 0x91, 0xab, 0x41, 0xe3, 0x9b, 0x40, 0xe3, 0x9d,
     0x8, 0x40, 0xce, 0x9e, 0x2, 0x1, 0x6, 0xc, 0x88, 0x81, 0x40, 0xdf,
     0x30, 0x18, 0x8, 0x8e, 0x80, 0x40, 0xc4, 0xba, 0xc3, 0x30, 0x44, 0xb3,
     0x18, 0x9a, 0x1, 0x0, 0x8, 0x80, 0x89, 0x3, 0x0, 0x0, 0x28, 0x18,
     0x0, 0x0, 0x2, 0x1, 0x0, 0x8, 0x0, 0x0, 0x0, 0x0, 0x1, 0x0,
     0xb, 0x6, 0x3, 0x3, 0x0, 0x80, 0x89, 0x80, 0x90, 0x22, 0x4, 0x80,
     0x90, 0x51, 0x43, 0x60, 0xa6, 0xdf, 0x9f, 0x51, 0x1d, 0x81, 0x56, 0x8d,
     0x81, 0x5d, 0x30, 0x8e, 0x42, 0x6d, 0x49, 0xa1, 0x42, 0x1d, 0x45, 0xe1,
     0x53, 0x4a, 0x84, 0x60, 0x21, 0x29]"

definition unicode_prop_ID_Start_index :: "u8 list" where
  "unicode_prop_ID_Start_index = [
     0xf6, 0x3, 0x20, 0xa6, 0x7, 0x0, 0xa9, 0x9, 0x20, 0xb1, 0xa, 0x0,
     0xba, 0xb, 0x20, 0x3b, 0xd, 0x20, 0xc7, 0xe, 0x20, 0x49, 0x12, 0x0,
     0x9b, 0x16, 0x0, 0xac, 0x19, 0x0, 0xc0, 0x1d, 0x80, 0x80, 0x20, 0x20,
     0x70, 0x2d, 0x0, 0x0, 0x32, 0x0, 0x6, 0xa8, 0x0, 0x77, 0xaa, 0x0,
     0xfc, 0xd7, 0x0, 0xfd, 0xfe, 0x40, 0xd1, 0x2, 0x1, 0xb2, 0x5, 0x21,
     0xf6, 0x8, 0x1, 0x49, 0xc, 0x1, 0x76, 0x10, 0x1, 0xdf, 0x12, 0x21,
     0xc8, 0x14, 0x41, 0x42, 0x19, 0x21, 0x31, 0x1d, 0x61, 0xf1, 0x2f, 0x41,
     0x78, 0x6b, 0x1, 0x23, 0xb1, 0xa1, 0xad, 0xd4, 0x1, 0x6f, 0xd7, 0x1,
     0xee, 0xe5, 0x1, 0x38, 0xee, 0x1, 0xe0, 0xa6, 0x42, 0x7a, 0x34, 0x3]"

definition unicode_prop_ID_Continue1_table :: "u8 list" where
  "unicode_prop_ID_Continue1_table = [
     0xaf, 0x89, 0xa4, 0x80, 0xd6, 0x80, 0x42, 0x47, 0xef, 0x96, 0x80, 0x40,
     0xfa, 0x84, 0x41, 0x8, 0xac, 0x0, 0x1, 0x1, 0x0, 0xc7, 0x8a, 0xaf,
     0x9e, 0x28, 0xe4, 0x31, 0x29, 0x8, 0x19, 0x89, 0x96, 0x80, 0x9d, 0x9a,
     0xda, 0x8a, 0x8e, 0x89, 0xa0, 0x88, 0x88, 0x80, 0x97, 0x18, 0x88, 0x2,
     0x4, 0xaa, 0x82, 0xba, 0x88, 0xa9, 0x97, 0x80, 0xa0, 0xb5, 0x10, 0x91,
     0x6, 0x89, 0x9, 0x89, 0x90, 0x82, 0xb7, 0x0, 0x31, 0x9, 0x82, 0x88,
     0x80, 0x89, 0x9, 0x89, 0x8d, 0x1, 0x82, 0xb7, 0x0, 0x23, 0x9, 0x12,
     0x80, 0x93, 0x8b, 0x10, 0x8a, 0x82, 0xb7, 0x0, 0x38, 0x10, 0x82, 0x93,
     0x9, 0x89, 0x89, 0x28, 0x82, 0xb7, 0x0, 0x31, 0x9, 0x16, 0x82, 0x89,
     0x9, 0x89, 0x91, 0x80, 0xba, 0x22, 0x10, 0x83, 0x88, 0x80, 0x8d, 0x89,
     0x8f, 0x84, 0xb6, 0x0, 0x30, 0x10, 0x1e, 0x81, 0x8a, 0x9, 0x89, 0x90,
     0x82, 0xb7, 0x0, 0x30, 0x10, 0x1e, 0x81, 0x8a, 0x9, 0x89, 0x10, 0x8b,
     0x83, 0xb6, 0x8, 0x30, 0x10, 0x83, 0x88, 0x80, 0x89, 0x9, 0x89, 0x90,
     0x82, 0xc5, 0x3, 0x28, 0x0, 0x3d, 0x89, 0x9, 0xbc, 0x1, 0x86, 0x8b,
     0x38, 0x89, 0xd6, 0x1, 0x88, 0x8a, 0x30, 0x89, 0xbd, 0xd, 0x89, 0x8a,
     0x0, 0x0, 0x3, 0x81, 0xb0, 0x93, 0x1, 0x84, 0x8a, 0x80, 0xa3, 0x88,
     0x80, 0xe3, 0x93, 0x80, 0x89, 0x8b, 0x1b, 0x10, 0x11, 0x32, 0x83, 0x8c,
     0x8b, 0x80, 0x8e, 0x42, 0xbe, 0x82, 0x88, 0x88, 0x43, 0x9f, 0x83, 0x9b,
     0x82, 0x9c, 0x81, 0x9d, 0x81, 0xbf, 0x9f, 0x88, 0x1, 0x89, 0xa0, 0x10,
     0x8a, 0x40, 0x8e, 0x80, 0xf5, 0x8b, 0x83, 0x8b, 0x89, 0x89, 0xff, 0x8a,
     0xbb, 0x84, 0xb8, 0x89, 0x80, 0x9c, 0x81, 0x8a, 0x85, 0x89, 0x95, 0x8d,
     0x80, 0x9e, 0x81, 0x8b, 0x93, 0x84, 0xae, 0x90, 0x8a, 0x89, 0x90, 0x88,
     0x8b, 0x82, 0x9d, 0x8c, 0x81, 0x89, 0xab, 0x8d, 0xaf, 0x93, 0x87, 0x89,
     0x85, 0x89, 0xf5, 0x10, 0x94, 0x18, 0x28, 0xa, 0x40, 0xc5, 0xbf, 0x42,
     0xb, 0x81, 0xb0, 0x81, 0x92, 0x80, 0xfa, 0x8c, 0x18, 0x82, 0x8b, 0x4b,
     0xfd, 0x82, 0x40, 0x8c, 0x80, 0xdf, 0x9f, 0x42, 0x29, 0x85, 0xe8, 0x81,
     0xdf, 0x80, 0x60, 0x75, 0x23, 0x89, 0xc4, 0x3, 0x89, 0x9f, 0x81, 0xcf,
     0x81, 0x41, 0xf, 0x2, 0x3, 0x80, 0x96, 0x23, 0x80, 0xd2, 0x81, 0xb1,
     0x91, 0x89, 0x89, 0x85, 0x91, 0x8c, 0x8a, 0x9b, 0x87, 0x98, 0x8c, 0xab,
     0x83, 0xae, 0x8d, 0x8e, 0x89, 0x8a, 0x80, 0x89, 0x89, 0xae, 0x8d, 0x8b,
     0x7, 0x9, 0x89, 0xa0, 0x82, 0xb1, 0x0, 0x11, 0xc, 0x8, 0x80, 0xa8,
     0x24, 0x81, 0x40, 0xeb, 0x38, 0x9, 0x89, 0x60, 0x4f, 0x23, 0x80, 0x42,
     0xe0, 0x8f, 0x8f, 0x8f, 0x11, 0x97, 0x82, 0x40, 0xbf, 0x89, 0xa4, 0x80,
     0xa4, 0x80, 0x42, 0x96, 0x80, 0x40, 0xe1, 0x80, 0x40, 0x94, 0x84, 0x41,
     0x24, 0x89, 0x45, 0x56, 0x10, 0xc, 0x83, 0xa7, 0x13, 0x80, 0x40, 0xa4,
     0x81, 0x42, 0x3c, 0x1f, 0x89, 0x85, 0x89, 0x9e, 0x84, 0x41, 0x3c, 0x81,
     0xcc, 0x85, 0xc5, 0x8a, 0xb0, 0x83, 0xf9, 0x82, 0xb4, 0x8e, 0x9e, 0x8a,
     0x9, 0x89, 0x83, 0xac, 0x8a, 0x30, 0xac, 0x89, 0x2a, 0xa3, 0x8d, 0x80,
     0x89, 0x21, 0xab, 0x80, 0x8b, 0x82, 0xaf, 0x8d, 0x3b, 0x80, 0x8b, 0xd1,
     0x8b, 0x28, 0x8, 0x40, 0x9c, 0x8b, 0x84, 0x89, 0x2b, 0xb6, 0x8, 0x31,
     0x9, 0x82, 0x88, 0x80, 0x89, 0x9, 0x32, 0x84, 0xc2, 0x88, 0x0, 0x8,
     0x3, 0x4, 0x0, 0x8d, 0x81, 0xd1, 0x91, 0x88, 0x89, 0x18, 0xd0, 0x93,
     0x8b, 0x89, 0x40, 0xd4, 0x31, 0x88, 0x9a, 0x81, 0xd1, 0x90, 0x8e, 0x89,
     0xd0, 0x8c, 0x87, 0x89, 0x85, 0x93, 0xb8, 0x8e, 0x83, 0x89, 0x40, 0xf1,
     0x8e, 0x40, 0xa4, 0x89, 0xc5, 0x28, 0x9, 0x18, 0x0, 0x81, 0x8b, 0x89,
     0xf6, 0x31, 0x32, 0x80, 0x9b, 0x89, 0xa7, 0x30, 0x1f, 0x80, 0x88, 0x8a,
     0xad, 0x8f, 0x40, 0xc5, 0x87, 0x40, 0x87, 0x89, 0xb4, 0x38, 0x87, 0x8f,
     0x89, 0xb7, 0x95, 0x80, 0x8d, 0xf9, 0x2a, 0x0, 0x8, 0x30, 0x7, 0x89,
     0xaf, 0x20, 0x8, 0x27, 0x89, 0xb5, 0x89, 0x41, 0x8, 0x83, 0x88, 0x8,
     0x80, 0xaf, 0x32, 0x84, 0x8c, 0x8a, 0x54, 0xe4, 0x5, 0x8e, 0x60, 0x2c,
     0xc7, 0x9b, 0x49, 0x25, 0x89, 0xd5, 0x89, 0xa5, 0x84, 0xba, 0x86, 0x98,
     0x89, 0x42, 0x15, 0x89, 0x41, 0xd4, 0x0, 0xb6, 0x33, 0xd0, 0x80, 0x8a,
     0x81, 0x60, 0x4c, 0xaa, 0x81, 0x50, 0x50, 0x89, 0x42, 0x5, 0xad, 0x81,
     0x96, 0x42, 0x1d, 0x22, 0x2f, 0x39, 0x86, 0x9d, 0x83, 0x40, 0x93, 0x82,
     0x45, 0x88, 0xb1, 0x41, 0xff, 0xb6, 0x83, 0xb1, 0x38, 0x8d, 0x80, 0x95,
     0x20, 0x8e, 0x45, 0x4f, 0x30, 0x90, 0xe, 0x1, 0x4, 0xe3, 0x80, 0x40,
     0x9f, 0x86, 0x88, 0x89, 0x41, 0x63, 0x80, 0xbc, 0x8d, 0x41, 0xf1, 0x8d,
     0x40, 0xf3, 0x8, 0x89, 0x40, 0xe7, 0x1, 0x6, 0xc, 0x80, 0x41, 0xd9,
     0x86, 0xec, 0x34, 0x89, 0x52, 0x95, 0x89, 0x6c, 0x5, 0x5, 0x40, 0xef]"

definition unicode_prop_ID_Continue1_index :: "u8 list" where
  "unicode_prop_ID_Continue1_index = [
     0xfa, 0x6, 0x0, 0x70, 0x9, 0x0, 0xf0, 0xa, 0x40, 0x57, 0xc, 0x0,
     0xf0, 0xd, 0x60, 0xc7, 0xf, 0x20, 0xea, 0x17, 0x40, 0xec, 0x1a, 0x0,
     0xe, 0x20, 0x40, 0x7e, 0xa6, 0x20, 0xda, 0xa9, 0x20, 0x10, 0xfe, 0x40,
     0x40, 0xa, 0x41, 0xbb, 0x10, 0x21, 0x4e, 0x13, 0x41, 0xde, 0x15, 0x1,
     0xe5, 0x19, 0x1, 0x5a, 0x1d, 0x1, 0xf5, 0x6a, 0x21, 0x8c, 0xd1, 0x61,
     0x37, 0xe1, 0x41, 0xf0, 0x1, 0xe]"

end
