(* ===== verification/UniTable.thy ===== *)
theory UniTable
  imports CaseConv UniTables
begin

text \<open>
  The search of the compressed property tables in \<^verbatim>\<open>libregexp/libunicode.c\<close>: the index gives a
  place to start from, then run lengths are added up until the run of the character is found.

  A pointer into a table is the rest of the table behind it, and reading at the end of the
  table is \<open>None\<close>.
\<close>

section \<open>Run lengths\<close>

text \<open>
  The runs that one byte of the table, with its extra bytes, stands for: two packed lengths,
  five bits with one or two extra bytes, or seven bits.
\<close>

fun run_read :: "u8 list \<Rightarrow> (u32 list \<times> u8 list) option" where
  "run_read [] = None"
| "run_read (b # p) =
     (if b < 64 then Some ([ucast (drop_bit 3 b) + 1, ucast (b AND 7) + 1], p)
      else if b \<ge> 0x80 then Some ([ucast b - 0x80 + 1], p)
      else if b < 0x60 then
        (case p of
           p0 # p \<Rightarrow> Some ([(push_bit 8 (ucast b - 0x40) OR ucast p0) + 1], p)
         | _ \<Rightarrow> None)
      else
        (case p of
           p0 # p1 # p \<Rightarrow>
             Some ([(push_bit 16 (ucast b - 0x60) OR push_bit 8 (ucast p0) OR ucast p1) + 1], p)
         | _ \<Rightarrow> None))"

lemma run_read_shorter: "run_read p = Some (ls, p') \<Longrightarrow> length p' < length p"
  by (cases p) (auto split: if_splits list.splits)

text \<open>One turn of the loop: the value of \<open>flag\<close> for \<open>c\<close>, or the next code point and flag.\<close>

primrec run_walk :: "u32 \<Rightarrow> u32 list \<Rightarrow> u32 \<Rightarrow> bool \<Rightarrow> u32 \<times> bool + bool" where
  "run_walk c [] code flag = Inl (code, flag)"
| "run_walk c (l # ls) code flag =
     (let code = code + l in if c < code then Inr flag else run_walk c ls code (\<not> flag))"

function run_scan :: "u32 \<Rightarrow> u8 list \<Rightarrow> u32 \<Rightarrow> bool \<Rightarrow> bool option" where
  "run_scan c p code flag =
     (case run_read p of
        None \<Rightarrow> None
      | Some (ls, p) \<Rightarrow>
          (case run_walk c ls code flag of
             Inl (code, flag) \<Rightarrow> run_scan c p code flag
           | Inr flag \<Rightarrow> Some flag))"
  by pat_completeness auto
termination
  by (relation "measure (\<lambda>(c, p, code, flag). length p)") (auto dest: run_read_shorter)

declare run_scan.simps [simp del]

section \<open>The index\<close>

definition get_le24 :: "u8 list \<Rightarrow> nat \<Rightarrow> u32 option" where
  "get_le24 p i =
     (case (rd p i, rd p (i + 1), rd p (i + 2)) of
        (Some b0, Some b1, Some b2) \<Rightarrow>
          Some (ucast b0 OR push_bit 8 (ucast b1) OR push_bit 16 (ucast b2))
      | _ \<Rightarrow> None)"

abbreviation (input) "UNICODE_INDEX_BLOCK_LEN \<equiv> (32 :: nat)"

definition index_code :: "u32 \<Rightarrow> u32" where
  "index_code v = v AND (push_bit 21 1 - 1)"

function index_search :: "u8 list \<Rightarrow> u32 \<Rightarrow> nat \<Rightarrow> nat \<Rightarrow> nat option" where
  "index_search index_table c idx_min idx_max =
     (if idx_max - idx_min > 1 then
        (let idx = (idx_max + idx_min) div 2 in
         case get_le24 index_table (idx * 3) of
           None \<Rightarrow> None
         | Some v \<Rightarrow>
             if c < index_code v then index_search index_table c idx_min idx
             else index_search index_table c idx idx_max)
      else Some idx_min)"
  by pat_completeness auto
termination
  by (relation "measure (\<lambda>(t, c, lo, hi). hi - lo)") auto

declare index_search.simps [simp del]

text \<open>\<open>Some None\<close> is the code's -1, a character behind the table.\<close>

definition get_index_pos :: "u32 \<Rightarrow> u8 list \<Rightarrow> nat \<Rightarrow> (u32 \<times> nat) option option" where
  "get_index_pos c index_table index_table_len =
     Option.bind (get_le24 index_table 0) (\<lambda>v.
     if c < index_code v then Some (Some (0, 0))
     else
       Option.bind (get_le24 index_table ((index_table_len - 1) * 3)) (\<lambda>code.
       if c \<ge> code then Some None
       else
         Option.bind (index_search index_table c 0 (index_table_len - 1)) (\<lambda>idx_min.
         Option.bind (get_le24 index_table (idx_min * 3)) (\<lambda>v.
         Some (Some (index_code v, (idx_min + 1) * UNICODE_INDEX_BLOCK_LEN + unat (drop_bit 21 v)))))))"

definition lre_is_in_table :: "u32 \<Rightarrow> u8 list \<Rightarrow> u8 list \<Rightarrow> nat \<Rightarrow> bool option" where
  "lre_is_in_table c table index_table index_table_len =
     Option.bind (get_index_pos c index_table index_table_len) (\<lambda>r.
     case r of
       None \<Rightarrow> Some False
     | Some (code, pos) \<Rightarrow> run_scan c (drop pos table) code False)"

definition lre_is_cased :: "u32 \<Rightarrow> bool option" where
  "lre_is_cased c =
     (if case_conv_search c \<noteq> None then Some True
      else lre_is_in_table c unicode_prop_Cased1_table unicode_prop_Cased1_index
             (length unicode_prop_Cased1_index div 3))"

definition lre_is_case_ignorable :: "u32 \<Rightarrow> bool option" where
  "lre_is_case_ignorable c =
     lre_is_in_table c unicode_prop_Case_Ignorable_table unicode_prop_Case_Ignorable_index
       (length unicode_prop_Case_Ignorable_index div 3)"

definition lre_is_id_start :: "u32 \<Rightarrow> bool option" where
  "lre_is_id_start c =
     lre_is_in_table c unicode_prop_ID_Start_table unicode_prop_ID_Start_index
       (length unicode_prop_ID_Start_index div 3)"

definition lre_is_id_continue :: "u32 \<Rightarrow> bool option" where
  "lre_is_id_continue c =
     Option.bind (lre_is_id_start c) (\<lambda>r.
     if r then Some True
     else lre_is_in_table c unicode_prop_ID_Continue1_table unicode_prop_ID_Continue1_index
            (length unicode_prop_ID_Continue1_index div 3))"

definition lre_js_is_ident_first :: "u32 \<Rightarrow> bool option" where
  "lre_js_is_ident_first c =
     (if c < 128 then Some (lre_is_id_start_byte (ucast c)) else lre_is_id_start c)"

definition lre_js_is_ident_next :: "u32 \<Rightarrow> bool option" where
  "lre_js_is_ident_next c =
     (if c < 128 then Some (lre_is_id_continue_byte (ucast c))
      else if c \<ge> 0x200C \<and> c \<le> 0x200D then Some True
      else lre_is_id_continue c)"

section \<open>What a table stands for\<close>

text \<open>
  The table without its index: all run lengths from the start, and the parity of the run that
  holds a code point.
\<close>

function run_decode :: "u8 list \<Rightarrow> u32 list" where
  "run_decode p =
     (case run_read p of None \<Rightarrow> [] | Some (ls, p) \<Rightarrow> ls @ run_decode p)"
  by pat_completeness auto
termination by (relation "measure length") (auto dest: run_read_shorter)

declare run_decode.simps [simp del]

fun run_member :: "u32 list \<Rightarrow> bool \<Rightarrow> nat \<Rightarrow> bool" where
  "run_member [] flag c = False"
| "run_member (l # ls) flag c = (if c < unat l then flag else run_member ls (\<not> flag) (c - unat l))"

definition run_total :: "u32 list \<Rightarrow> nat" where
  "run_total ls = sum_list (map unat ls)"

lemma run_total_simps [simp]:
  "run_total [] = 0" "run_total (l # ls) = unat l + run_total ls"
  "run_total (ls @ ls') = run_total ls + run_total ls'"
  by (simp_all add: run_total_def)

definition in_table :: "u8 list \<Rightarrow> u32 \<Rightarrow> bool" where
  "in_table table c \<longleftrightarrow> run_member (run_decode table) False (unat c)"

lemma run_member_outside: "run_total ls \<le> c \<Longrightarrow> \<not> run_member ls flag c"
  by (induction ls arbitrary: flag c) auto

text \<open>The walk over the lengths of one byte follows the list of all lengths.\<close>

lemma run_walk_member:
  assumes "unat code \<le> unat c" and "unat code + run_total (ls @ ls') < 2 ^ 32"
  shows "case run_walk c ls code flag of
      Inr v \<Rightarrow> v = run_member (ls @ ls') flag (unat c - unat code)
    | Inl (code', flag') \<Rightarrow> unat code' \<le> unat c \<and> unat code' = unat code + run_total ls \<and>
        run_member (ls @ ls') flag (unat c - unat code) = run_member ls' flag' (unat c - unat code')"
  using assms
proof (induction ls arbitrary: code flag)
  case Nil
  then show ?case by simp
next
  case (Cons l ls)
  have e: "unat (code + l) = unat code + unat l"
    using Cons.prems(2) by (simp add: unat_word_ariths)
  show ?case
  proof (cases "c < code + l")
    case True
    with e Cons.prems(1) have "unat c - unat code < unat l" by (simp add: word_less_nat_alt)
    with True show ?thesis by simp
  next
    case False
    with e have "unat (code + l) \<le> unat c" by (simp add: word_less_nat_alt)
    moreover from this e have "\<not> unat c - unat code < unat l" "unat c - unat code - unat l = unat c - unat (code + l)"
      by simp_all
    ultimately show ?thesis
      using Cons.IH [of "code + l" "\<not> flag"] Cons.prems(2) False e by (auto split: sum.splits)
  qed
qed

lemma run_scan_member:
  assumes "unat code \<le> unat c" and "unat c < unat code + run_total (run_decode p)"
    and "unat code + run_total (run_decode p) < 2 ^ 32"
  shows "run_scan c p code flag = Some (run_member (run_decode p) flag (unat c - unat code))"
  using assms
proof (induction c p code flag rule: run_scan.induct)
  case (1 c p code flag)
  show ?case
  proof (cases "run_read p")
    case None
    with "1.prems" show ?thesis by (simp add: run_decode.simps [of p])
  next
    case (Some r)
    obtain ls q where r: "r = (ls, q)" by (cases r)
    have d: "run_decode p = ls @ run_decode q" using Some r by (subst run_decode.simps) simp
    have step: "run_scan c p code flag =
        (case run_walk c ls code flag of Inl (code, flag) \<Rightarrow> run_scan c q code flag | Inr flag \<Rightarrow> Some flag)"
      using Some r by (subst run_scan.simps) simp
    note w = run_walk_member [of code c ls "run_decode q" flag]
    show ?thesis
    proof (cases "run_walk c ls code flag")
      case (Inr v)
      with w "1.prems" show ?thesis unfolding step d by simp
    next
      case (Inl s)
      obtain code' flag' where s: "s = (code', flag')" by (cases s)
      have w': "unat code' \<le> unat c" "unat code' = unat code + run_total ls"
        "run_member (ls @ run_decode q) flag (unat c - unat code) = run_member (run_decode q) flag' (unat c - unat code')"
        using w Inl s "1.prems" d by auto
      have "run_scan c q code' flag' = Some (run_member (run_decode q) flag' (unat c - unat code'))"
        by (rule "1.IH" [OF Some [unfolded r] refl Inl [unfolded s] refl]) (use w' "1.prems" d in auto)
      then show ?thesis unfolding step d by (simp add: Inl s w'(3))
    qed
  qed
qed


section \<open>An index that fits its table\<close>

text \<open>The places of a table where a byte starts a run: the rest of the table, the code point, the flag.\<close>

function run_points :: "u8 list \<Rightarrow> nat \<Rightarrow> bool \<Rightarrow> (u8 list \<times> nat \<times> bool) list" where
  "run_points p code flag = (p, code, flag) #
     (case run_read p of
        None \<Rightarrow> []
      | Some (ls, p) \<Rightarrow> run_points p (code + run_total ls) (if odd (length ls) then \<not> flag else flag))"
  by pat_completeness auto
termination by (relation "measure (\<lambda>(p, code, flag). length p)") (auto dest: run_read_shorter)

declare run_points.simps [simp del]

lemma run_member_append:
  "run_total ls \<le> c \<Longrightarrow> run_member (ls @ ls') flag c =
     run_member ls' (if odd (length ls) then \<not> flag else flag) (c - run_total ls)"
  by (induction ls arbitrary: flag c) auto

lemma run_points_member:
  assumes "(q, code', flag') \<in> set (run_points p code flag)"
  shows "code \<le> code' \<and> code' + run_total (run_decode q) = code + run_total (run_decode p) \<and>
    (\<forall>c \<ge> code'. run_member (run_decode q) flag' (c - code') = run_member (run_decode p) flag (c - code))"
  using assms
proof (induction p code flag rule: run_points.induct)
  case (1 p code flag)
  show ?case
  proof (cases "(q, code', flag') = (p, code, flag)")
    case False
    have mem: "(q, code', flag') \<in> set (case run_read p of None \<Rightarrow> []
        | Some (ls, p) \<Rightarrow> run_points p (code + run_total ls) (if odd (length ls) then \<not> flag else flag))"
      using "1.prems" False unfolding run_points.simps [of p] set_simps by blast
    obtain ls p' where r: "run_read p = Some (ls, p')"
      "(q, code', flag') \<in> set (run_points p' (code + run_total ls) (if odd (length ls) then \<not> flag else flag))"
    proof (cases "run_read p")
      case None
      with mem show ?thesis by simp
    next
      case (Some r)
      obtain ls p' where "r = (ls, p')" by (cases r)
      with Some mem that show ?thesis by simp
    qed
    have d: "run_decode p = ls @ run_decode p'" using r by (subst run_decode.simps) simp
    note ih = "1.IH" [OF r(1) refl r(2)]
    have "run_member (run_decode q) flag' (c - code') = run_member (run_decode p) flag (c - code)"
      if "c \<ge> code'" for c
    proof -
      have "run_total ls \<le> c - code" using conjunct1 [OF ih] that by linarith
      then show ?thesis using ih that by (simp add: d run_member_append del: if_split)
    qed
    with ih show ?thesis by (simp add: d)
  qed auto
qed

text \<open>
  The check of an index: every entry but the last names a place of the table where a run of
  characters outside the set starts, and the last is the end of the runs.
\<close>

definition index_entry :: "u8 list \<Rightarrow> nat \<Rightarrow> nat \<times> nat" where
  "index_entry index i =
     (case get_le24 index (i * 3) of
        None \<Rightarrow> (0, 0)
      | Some v \<Rightarrow> ((i + 1) * UNICODE_INDEX_BLOCK_LEN + unat (drop_bit 21 v), unat (index_code v)))"

definition index_ok :: "u8 list \<Rightarrow> u8 list \<Rightarrow> nat \<Rightarrow> bool" where
  "index_ok table index n \<longleftrightarrow>
     2 \<le> n \<and> 3 * n \<le> length index \<and> run_total (run_decode table) < 2 ^ 32 \<and>
     (case get_le24 index ((n - 1) * 3) of
        None \<Rightarrow> False | Some v \<Rightarrow> unat v = run_total (run_decode table)) \<and>
     (\<forall>i < n - 1. case index_entry index i of
        (pos, code) \<Rightarrow> (drop pos table, code, False) \<in> set (run_points table 0 False))"

lemma get_le24_Some: "i + 3 \<le> length p \<Longrightarrow> \<exists>v. get_le24 p i = Some v"
  by (simp add: get_le24_def rd_def)

lemma index_search_finds:
  assumes "3 * n \<le> length index" and "hi < n" and "lo < hi"
    and "\<exists>v. get_le24 index (lo * 3) = Some v \<and> index_code v \<le> c"
  shows "\<exists>i v. index_search index c lo hi = Some i \<and> lo \<le> i \<and> i < hi \<and>
    get_le24 index (i * 3) = Some v \<and> index_code v \<le> c"
  using assms
proof (induction index c lo hi rule: index_search.induct)
  case (1 index c lo hi)
  show ?case
  proof (cases "hi - lo > 1")
    case False
    then show ?thesis using "1.prems" by (subst index_search.simps) auto
  next
    case True
    define m where "m = (hi + lo) div 2"
    have m: "lo < m" "m < hi" using True by (auto simp: m_def)
    from get_le24_Some [of "m * 3" index] m "1.prems"(1,2)
    obtain v where v: "get_le24 index (m * 3) = Some v" by auto
    have step: "index_search index c lo hi =
        (if c < index_code v then index_search index c lo m else index_search index c m hi)"
      using True v by (subst index_search.simps) (simp add: m_def)
    show ?thesis
    proof (cases "c < index_code v")
      case l: True
      from "1.IH"(1) [OF True m_def v l] "1.prems" m
      show ?thesis unfolding step by (auto simp: l)
    next
      case l: False
      from "1.IH"(2) [OF True m_def v l] "1.prems" m v l
      show ?thesis unfolding step by fastforce
    qed
  qed
qed

text \<open>With such an index the search is the lookup in the decoded table.\<close>

lemma lre_is_in_table_decoded:
  assumes "index_ok table index n"
  shows "lre_is_in_table c table index n = Some (in_table table c)"
proof -
  note ok = assms [unfolded index_ok_def]
  from ok get_le24_Some [of 0 index] obtain v0 where v0: "get_le24 index 0 = Some v0" by auto
  from ok obtain e where e: "get_le24 index ((n - 1) * 3) = Some e" "unat e = run_total (run_decode table)"
    by (auto split: option.splits)
  have scan: "run_scan c (drop pos table) (word_of_nat code) False = Some (in_table table c)"
    if "(drop pos table, code, False) \<in> set (run_points table 0 False)" "code \<le> unat c" "c < e" for pos code
  proof -
    note m = run_points_member [OF that(1)]
    have "code < 2 ^ 32" using that(2) unsigned_less [of c, where 'a = nat] by simp
    then have u: "unat (word_of_nat code :: u32) = code"
      by (simp add: unsigned_of_nat take_bit_nat_eq_self)
    have "run_scan c (drop pos table) (word_of_nat code) False =
        Some (run_member (run_decode (drop pos table)) False (unat c - code))"
      using run_scan_member [of "word_of_nat code" c "drop pos table" False] m that(2,3) e(2) ok
      unfolding u by (simp add: word_less_nat_alt)
    then show ?thesis using m that(2) by (simp add: in_table_def)
  qed
  have start: "(drop 0 table, 0, False) \<in> set (run_points table 0 False)"
    by (subst run_points.simps) simp
  show ?thesis
  proof (cases "c < index_code v0")
    case True
    have "unat (index_code v0) = snd (index_entry index 0)" using v0 by (simp add: index_entry_def)
    then have "c < e"
    proof -
      obtain pos code where p: "index_entry index 0 = (pos, code)" by (cases "index_entry index 0")
      with ok have "(drop pos table, code, False) \<in> set (run_points table 0 False)"
        by (metis (no_types, lifting) diff_is_0_eq not_less case_prod_conv Suc_1 not_less_eq_eq One_nat_def neq0_conv)
      from run_points_member [OF this] have "code \<le> unat e" unfolding e(2) by simp
      with True p v0 show ?thesis by (simp add: index_entry_def word_less_nat_alt)
    qed
    from scan [OF start _ this] show ?thesis
      by (simp add: lre_is_in_table_def get_index_pos_def v0 True)
  next
    case l: False
    show ?thesis
    proof (cases "c \<ge> e")
      case True
      then have "\<not> in_table table c"
        using run_member_outside e(2) by (simp add: in_table_def word_le_nat_alt)
      with True show ?thesis
        using e(1) [unfolded One_nat_def]
        by (simp add: lre_is_in_table_def get_index_pos_def v0 l)
    next
      case False
      have "\<exists>v. get_le24 index (0 * 3) = Some v \<and> index_code v \<le> c" using v0 l by simp
      from index_search_finds [OF _ _ _ this, of n "n - 1"] ok obtain i v where
        i: "index_search index c 0 (n - 1) = Some i" "i < n - 1" "get_le24 index (i * 3) = Some v" "index_code v \<le> c"
        by auto
      have "(drop ((i + 1) * 32 + unat (drop_bit 21 v)) table, unat (index_code v), False)
          \<in> set (run_points table 0 False)"
        using ok i(2,3) by (auto simp: index_entry_def dest!: spec [of _ i])
      from scan [OF this] i(4) False show ?thesis
        using e(1) [unfolded One_nat_def] i(1) [unfolded One_nat_def]
        by (simp add: lre_is_in_table_def get_index_pos_def v0 l [unfolded word_less_nat_alt] i(3) word_le_nat_alt word_less_nat_alt)
    qed
  qed
qed


section \<open>The four tables\<close>

text \<open>
  The check as one pass over the table: \<open>es\<close> are the entries that are still to be met, as
  offset in the table and code point; the end of the pass gives the number of code points.
\<close>

definition run_width :: "u8 \<Rightarrow> int" where
  "run_width b = (if b < 64 \<or> b \<ge> 0x80 then 1 else if b < 0x60 then 2 else 3)"

function index_pass :: "u8 list \<Rightarrow> int \<Rightarrow> int \<Rightarrow> bool \<Rightarrow> (int \<times> int) list \<Rightarrow> bool" where
  "index_pass p pos code flag [] = True"
| "index_pass p pos code flag ((q, k) # es) =
     (if pos = q then code = k \<and> \<not> flag \<and> index_pass p pos code flag es
      else
        (case run_read p of
           None \<Rightarrow> False
         | Some (ls, p') \<Rightarrow>
             index_pass p' (pos + run_width (hd p)) (code + sum_list (map uint ls))
               (if tl ls = [] then \<not> flag else flag) ((q, k) # es)))"
  by pat_completeness auto
termination
  by (relation "measures [\<lambda>(p, pos, code, flag, es). length p, \<lambda>(p, pos, code, flag, es). length es]")
    (auto dest: run_read_shorter)

lemma run_read_drop: "run_read p = Some (ls, p') \<Longrightarrow> p' = drop (nat (run_width (hd p))) p"
  by (cases p) (auto simp: run_width_def split: if_splits list.splits)

lemma run_read_lengths: "run_read p = Some (ls, p') \<Longrightarrow> odd (length ls) \<longleftrightarrow> tl ls = []"
  by (cases p) (auto split: if_splits list.splits)

lemma int_run_total: "int (run_total ls) = sum_list (map uint ls)"
  by (induction ls) simp_all

lemma run_width_pos: "0 < run_width b"
  by (simp add: run_width_def)

lemma index_pass_points:
  assumes "index_pass p pos code flag es" and "p = drop (nat pos) table" and "0 \<le> pos" "0 \<le> code"
    and "\<forall>(q, k) \<in> set es. 0 \<le> q \<and> 0 \<le> k"
  shows "\<forall>(q, k) \<in> set es. (drop (nat q) table, nat k, False) \<in> set (run_points p (nat code) flag)"
  using assms
proof (induction p pos code flag es rule: index_pass.induct)
  case 1
  then show ?case by simp
next
  case (2 p pos code flag q k es)
  show ?case
  proof (cases "pos = q")
    case True
    then have "code = k" "\<not> flag" "index_pass p pos code flag es" using "2.prems"(1) by auto
    moreover from this have "(drop (nat q) table, nat k, False) \<in> set (run_points p (nat code) flag)"
      using True "2.prems"(2) by (subst run_points.simps) simp
    ultimately show ?thesis using "2.IH"(1) [OF True] "2.prems"(2-) by auto
  next
    case False
    then obtain ls p' where r: "run_read p = Some (ls, p')" using "2.prems"(1) by (auto split: option.splits)
    define w where "w = run_width (hd p)"
    have w: "0 < w" by (simp add: w_def run_width_pos)
    define t where "t = sum_list (map uint ls)"
    have t: "int (run_total ls) = t" by (simp add: t_def int_run_total)
    define fl where "fl = (if tl ls = [] then \<not> flag else flag)"
    have pass: "index_pass p' (pos + w) (code + t) fl ((q, k) # es)"
      using "2.prems"(1) False r by (simp add: w_def t_def fl_def)
    have "p' = drop (nat (pos + w)) table"
      using run_read_drop [OF r] "2.prems"(2,3) w unfolding w_def [symmetric] by (simp add: nat_add_distrib add.commute)
    from "2.IH"(2) [OF False r refl] pass this "2.prems"(3-) w t
    have "\<forall>(q, k) \<in> set ((q, k) # es). (drop (nat q) table, nat k, False) \<in>
        set (run_points p' (nat (code + t)) fl)"
      unfolding w_def t_def fl_def by auto
    moreover have "set (run_points p' (nat (code + t)) fl) \<subseteq> set (run_points p (nat code) flag)"
      using r run_read_lengths [OF r] "2.prems"(4) t
      by (subst run_points.simps [of p]) (auto simp: fl_def nat_add_distrib)
    ultimately show ?thesis by blast
  qed
qed

text \<open>One byte at a time, as rules for the evaluation of a pass.\<close>

lemma index_pass_hit:
  "index_pass p pos code False ((pos, code) # es) = index_pass p pos code False es"
  by simp

lemma uint_join:
  fixes h l :: u32
  assumes "uint l < 2 ^ n" and "uint h * 2 ^ n < 2 ^ 32"
  shows "uint (push_bit n h OR l) = uint h * 2 ^ n + uint l"
proof -
  have "uint (push_bit n h) = take_bit 32 (push_bit n (uint h))"
    by (simp only: unsigned_push_bit_eq) simp
  also have "\<dots> = push_bit n (uint h)" using assms(2) by (simp add: take_bit_int_eq_self push_bit_eq_mult)
  finally have h: "uint (push_bit n h) = push_bit n (uint h)" .
  have l: "uint l = take_bit n (uint l)" using assms(1) by (simp add: take_bit_int_eq_self)
  have "uint (push_bit n h OR l) = push_bit n (uint h) OR take_bit n (uint l)"
    using h l by (simp add: unsigned_or_eq)
  also have "\<dots> = push_bit n (uint h) + take_bit n (uint l)"
    by (rule disjunctive_add_eq_or [symmetric]) (rule bit_eqI, simp add: bit_simps)
  finally show ?thesis using l by (simp add: push_bit_eq_mult)
qed

lemma run_read_uint:
  fixes b :: u8
  shows "b < 64 \<Longrightarrow> uint (ucast (drop_bit 3 b) + 1 :: u32) = uint (drop_bit 3 b) + 1"
    and "uint (ucast (b AND 7) + 1 :: u32) = uint (b AND 7) + 1"
    and "0x80 \<le> b \<Longrightarrow> uint (ucast b - 127 :: u32) = uint b - 127"
    and "0x40 \<le> b \<Longrightarrow> b < 0x60 \<Longrightarrow>
      uint ((push_bit 8 (ucast b - 0x40) OR ucast p0) + 1 :: u32) = (uint b - 64) * 256 + uint (p0 :: u8) + 1"
    and "0x60 \<le> b \<Longrightarrow> b < 0x80 \<Longrightarrow>
      uint ((push_bit 16 (ucast b - 0x60) OR push_bit 8 (ucast p0) OR ucast p1) + 1 :: u32) =
        (uint b - 96) * 65536 + uint p0 * 256 + uint (p1 :: u8) + 1"
proof -
  have inc: "uint (x + 1) = uint x + 1" if "uint x < 2 ^ 31" for x :: u32
    using that by (simp add: uint_word_ariths)
  have B: "uint x < 256" for x :: u8 using uint_lt2p [of x] by simp
  have u: "uint (ucast x :: u32) = uint x" for x :: u8
    using B [of x] by (simp add: unsigned_ucast_eq take_bit_int_eq_self)
  have less: "uint (ucast x :: u32) < 2 ^ 31" for x :: u8 using B [of x] by (simp add: u)
  show "uint (ucast (drop_bit 3 b) + 1 :: u32) = uint (drop_bit 3 b) + 1" using inc [OF less] by (simp only: u)
  show "uint (ucast (b AND 7) + 1 :: u32) = uint (b AND 7) + 1" using inc [OF less] by (simp only: u)
  have sub: "uint (ucast b - k :: u32) = uint b - uint k" if "k \<le> ucast b" for k
    using that by (simp add: uint_sub_if' u word_le_def)
  show "0x80 \<le> b \<Longrightarrow> uint (ucast b - 127 :: u32) = uint b - 127"
    using sub [of 127] by (simp add: word_le_def u)
  show "0x40 \<le> b \<Longrightarrow> b < 0x60 \<Longrightarrow>
      uint ((push_bit 8 (ucast b - 0x40) OR ucast p0) + 1 :: u32) = (uint b - 64) * 256 + uint p0 + 1"
  proof -
    assume a: "0x40 \<le> b" "b < 0x60"
    then have s: "uint (ucast b - 0x40 :: u32) = uint b - 64" using sub [of "0x40"] by (simp add: word_le_def u)
    have h: "uint b < 96" using a by (simp add: word_less_def)
    have "uint (push_bit 8 (ucast b - 0x40 :: u32) OR ucast p0) = (uint b - 64) * 2 ^ 8 + uint p0"
      using uint_join [of "ucast p0" 8 "ucast b - 0x40"] B [of p0] s h by (simp add: u)
    then show ?thesis using inc [of "push_bit 8 (ucast b - 0x40) OR ucast p0"] B [of p0] h by simp
  qed
  show "0x60 \<le> b \<Longrightarrow> b < 0x80 \<Longrightarrow>
      uint ((push_bit 16 (ucast b - 0x60) OR push_bit 8 (ucast p0) OR ucast p1) + 1 :: u32) =
        (uint b - 96) * 65536 + uint p0 * 256 + uint p1 + 1"
  proof -
    assume a: "0x60 \<le> b" "b < 0x80"
    then have s: "uint (ucast b - 0x60 :: u32) = uint b - 96" using sub [of "0x60"] by (simp add: word_le_def u)
    have h: "uint b < 128" using a by (simp add: word_less_def)
    have l: "uint (push_bit 8 (ucast p0 :: u32) OR ucast p1) = uint p0 * 2 ^ 8 + uint p1"
      using uint_join [of "ucast p1" 8 "ucast p0"] B [of p1] B [of p0] by (simp add: u)
    have "uint (push_bit 16 (ucast b - 0x60 :: u32) OR (push_bit 8 (ucast p0) OR ucast p1)) =
        (uint b - 96) * 2 ^ 16 + (uint p0 * 2 ^ 8 + uint p1)"
      using uint_join [of "push_bit 8 (ucast p0) OR ucast p1" 16 "ucast b - 0x60"] B [of p0] B [of p1] s h
      by (simp add: l)
    then show ?thesis
      using inc [of "push_bit 16 (ucast b - 0x60) OR push_bit 8 (ucast p0) OR ucast p1"] B [of p0] B [of p1] h
      by (simp add: or.assoc)
  qed
qed

lemma index_pass_byte:
  assumes "pos \<noteq> q"
  shows "b < 64 \<Longrightarrow> index_pass (b # p) pos code flag ((q, k) # es) =
      index_pass p (pos + 1) (code + (uint (drop_bit 3 b) + uint (b AND 7) + 2)) flag ((q, k) # es)"
    and "0x80 \<le> b \<Longrightarrow> index_pass (b # p) pos code flag ((q, k) # es) =
      index_pass p (pos + 1) (code + (uint b - 127)) (\<not> flag) ((q, k) # es)"
    and "0x40 \<le> b \<Longrightarrow> b < 0x60 \<Longrightarrow> index_pass (b # p0 # p) pos code flag ((q, k) # es) =
      index_pass p (pos + 2) (code + ((uint b - 64) * 256 + uint p0 + 1)) (\<not> flag) ((q, k) # es)"
    and "0x60 \<le> b \<Longrightarrow> b < 0x80 \<Longrightarrow> index_pass (b # p0 # p1 # p) pos code flag ((q, k) # es) =
      index_pass p (pos + 3) (code + ((uint b - 96) * 65536 + uint p0 * 256 + uint p1 + 1)) (\<not> flag) ((q, k) # es)"
proof -
  note unfold = index_pass.simps(2) [of _ pos code flag q k es]
  have n: "64 \<le> b \<Longrightarrow> \<not> b < 64" "b < 0x60 \<Longrightarrow> \<not> 0x80 \<le> b" "0x60 \<le> b \<Longrightarrow> \<not> b < 64" "0x60 \<le> b \<Longrightarrow> \<not> b < 0x60"
    "b < 0x80 \<Longrightarrow> \<not> 0x80 \<le> b" "0x80 \<le> b \<Longrightarrow> \<not> b < 64"
    by (simp_all add: word_less_nat_alt word_le_nat_alt)
  show "b < 64 \<Longrightarrow> index_pass (b # p) pos code flag ((q, k) # es) =
      index_pass p (pos + 1) (code + (uint (drop_bit 3 b) + uint (b AND 7) + 2)) flag ((q, k) # es)"
    unfolding unfold
    by (simp add: assms run_width_def run_read_uint del: index_pass.simps(2))
      (simp add: ac_simps del: index_pass.simps(2))
  show "0x80 \<le> b \<Longrightarrow> index_pass (b # p) pos code flag ((q, k) # es) =
      index_pass p (pos + 1) (code + (uint b - 127)) (\<not> flag) ((q, k) # es)"
    unfolding unfold by (simp add: assms run_width_def run_read_uint n del: index_pass.simps(2))
  show "0x40 \<le> b \<Longrightarrow> b < 0x60 \<Longrightarrow> index_pass (b # p0 # p) pos code flag ((q, k) # es) =
      index_pass p (pos + 2) (code + ((uint b - 64) * 256 + uint p0 + 1)) (\<not> flag) ((q, k) # es)"
    unfolding unfold by (simp add: assms run_width_def run_read_uint n del: index_pass.simps(2))
  show "0x60 \<le> b \<Longrightarrow> b < 0x80 \<Longrightarrow> index_pass (b # p0 # p1 # p) pos code flag ((q, k) # es) =
      index_pass p (pos + 3) (code + ((uint b - 96) * 65536 + uint p0 * 256 + uint p1 + 1)) (\<not> flag) ((q, k) # es)"
    unfolding unfold by (simp add: assms run_width_def run_read_uint n del: index_pass.simps(2))
qed
lemma index_okI:
  assumes "2 \<le> n" "3 * n \<le> length index" "t < 2 ^ 32"
    and "map (index_entry index) [0..<n - 1] = es"
    and "get_le24 index ((n - 1) * 3) = Some (word_of_nat t)"
    and "index_pass table 0 0 False (map (map_prod int int) (es @ [(length table, t)]))"
  shows "index_ok table index n"
proof -
  have "\<forall>(q, k) \<in> set (map (map_prod int int) (es @ [(length table, t)])).
      (drop (nat q) table, nat k, False) \<in> set (run_points table 0 False)"
    using index_pass_points [OF assms(6), of table] by (auto simp: split_beta)
  then have P: "\<forall>(q, k) \<in> set (es @ [(length table, t)]). (drop q table, k, False) \<in> set (run_points table 0 False)"
    by (auto simp: split_beta)
  then have "([], t, False) \<in> set (run_points table 0 False)" by simp
  from run_points_member [OF this] have T: "t = run_total (run_decode table)"
    by (simp add: run_decode.simps)
  have "unat (word_of_nat t :: u32) = t" using assms(3) by (simp add: unsigned_of_nat take_bit_nat_eq_self)
  moreover from P have "\<forall>(q, k) \<in> set es. (drop q table, k, False) \<in> set (run_points table 0 False)" by auto
  then have "\<forall>i < n - 1. case index_entry index i of (q, k) \<Rightarrow>
      (drop q table, k, False) \<in> set (run_points table 0 False)"
    unfolding assms(4) [symmetric] by auto
  ultimately show ?thesis using assms(1-3,5) T by (simp add: index_ok_def)
qed

lemma index_ok_Cased1: "index_ok unicode_prop_Cased1_table unicode_prop_Cased1_index 6"
proof (rule index_okI)
  show "map (index_entry unicode_prop_Cased1_index) [0..<6 - 1] = [
    (36, 0x2b9), (66, 0x1ea0), (98, 0xa69e), (129, 0x1d455), (161, 0x1d715)]"
    by (simp add: unicode_prop_Cased1_index_def index_entry_def get_le24_def rd_def index_code_def upt_rec)
  show "get_le24 unicode_prop_Cased1_index ((6 - 1) * 3) = Some (word_of_nat 0x1f18a)"
    by (simp add: unicode_prop_Cased1_index_def get_le24_def rd_def)
  have len: "length unicode_prop_Cased1_table = 190" by (simp add: unicode_prop_Cased1_table_def)
  show "index_pass unicode_prop_Cased1_table 0 0 False (map (map_prod int int) ([
    (36, 0x2b9), (66, 0x1ea0), (98, 0xa69e), (129, 0x1d455), (161, 0x1d715)] @
    [(length unicode_prop_Cased1_table, 0x1f18a)]))"
    unfolding len unfolding unicode_prop_Cased1_table_def by (simp add: index_pass_hit index_pass_byte del: index_pass.simps(2))
qed (simp_all add: unicode_prop_Cased1_index_def)

lemma index_ok_Case_Ignorable: "index_ok unicode_prop_Case_Ignorable_table unicode_prop_Case_Ignorable_index 25"
proof (rule index_okI)
  show "map (index_entry unicode_prop_Case_Ignorable_index) [0..<25 - 1] = [
    (32, 0x5be), (64, 0x7fe), (101, 0xa52), (128, 0xbc1), (160, 0xd82), (196, 0x103f),
    (226, 0x17d4), (257, 0x1ade), (288, 0x1ce9), (320, 0x2072), (354, 0xa016), (386, 0xa8c6),
    (421, 0xaac2), (448, 0xfe30), (482, 0x107b1), (512, 0x10f51), (544, 0x111d0), (576, 0x1145f),
    (611, 0x11944), (640, 0x11ca8), (675, 0x1612a), (704, 0x1afff), (739, 0x1e019), (768, 0x1e700)]"
    by (simp add: unicode_prop_Case_Ignorable_index_def index_entry_def get_le24_def rd_def index_code_def upt_rec)
  show "get_le24 unicode_prop_Case_Ignorable_index ((25 - 1) * 3) = Some (word_of_nat 0xe01f0)"
    by (simp add: unicode_prop_Case_Ignorable_index_def get_le24_def rd_def)
  have len: "length unicode_prop_Case_Ignorable_table = 785" by (simp add: unicode_prop_Case_Ignorable_table_def)
  show "index_pass unicode_prop_Case_Ignorable_table 0 0 False (map (map_prod int int) ([
    (32, 0x5be), (64, 0x7fe), (101, 0xa52), (128, 0xbc1), (160, 0xd82), (196, 0x103f),
    (226, 0x17d4), (257, 0x1ade), (288, 0x1ce9), (320, 0x2072), (354, 0xa016), (386, 0xa8c6),
    (421, 0xaac2), (448, 0xfe30), (482, 0x107b1), (512, 0x10f51), (544, 0x111d0), (576, 0x1145f),
    (611, 0x11944), (640, 0x11ca8), (675, 0x1612a), (704, 0x1afff), (739, 0x1e019), (768, 0x1e700)] @
    [(length unicode_prop_Case_Ignorable_table, 0xe01f0)]))"
    unfolding len unfolding unicode_prop_Case_Ignorable_table_def by (simp add: index_pass_hit index_pass_byte del: index_pass.simps(2))
qed (simp_all add: unicode_prop_Case_Ignorable_index_def)

lemma index_ok_ID_Start: "index_ok unicode_prop_ID_Start_table unicode_prop_ID_Start_index 36"
proof (rule index_okI)
  show "map (index_entry unicode_prop_ID_Start_index) [0..<36 - 1] = [
    (33, 0x3f6), (64, 0x7a6), (97, 0x9a9), (128, 0xab1), (161, 0xbba), (193, 0xd3b),
    (225, 0xec7), (256, 0x1249), (288, 0x169b), (320, 0x19ac), (356, 0x1dc0), (385, 0x2080),
    (416, 0x2d70), (448, 0x3200), (480, 0xa806), (512, 0xaa77), (544, 0xd7fc), (578, 0xfefd),
    (608, 0x102d1), (641, 0x105b2), (672, 0x108f6), (704, 0x10c49), (736, 0x11076), (769, 0x112df),
    (802, 0x114c8), (833, 0x11942), (867, 0x11d31), (898, 0x12ff1), (928, 0x16b78), (965, 0x1b123),
    (992, 0x1d4ad), (1024, 0x1d76f), (1056, 0x1e5ee), (1088, 0x1ee38), (1122, 0x2a6e0)]"
    by (simp add: unicode_prop_ID_Start_index_def index_entry_def get_le24_def rd_def index_code_def upt_rec)
  show "get_le24 unicode_prop_ID_Start_index ((36 - 1) * 3) = Some (word_of_nat 0x3347a)"
    by (simp add: unicode_prop_ID_Start_index_def get_le24_def rd_def)
  have len: "length unicode_prop_ID_Start_table = 1146" by (simp add: unicode_prop_ID_Start_table_def)
  show "index_pass unicode_prop_ID_Start_table 0 0 False (map (map_prod int int) ([
    (33, 0x3f6), (64, 0x7a6), (97, 0x9a9), (128, 0xab1), (161, 0xbba), (193, 0xd3b),
    (225, 0xec7), (256, 0x1249), (288, 0x169b), (320, 0x19ac), (356, 0x1dc0), (385, 0x2080),
    (416, 0x2d70), (448, 0x3200), (480, 0xa806), (512, 0xaa77), (544, 0xd7fc), (578, 0xfefd),
    (608, 0x102d1), (641, 0x105b2), (672, 0x108f6), (704, 0x10c49), (736, 0x11076), (769, 0x112df),
    (802, 0x114c8), (833, 0x11942), (867, 0x11d31), (898, 0x12ff1), (928, 0x16b78), (965, 0x1b123),
    (992, 0x1d4ad), (1024, 0x1d76f), (1056, 0x1e5ee), (1088, 0x1ee38), (1122, 0x2a6e0)] @
    [(length unicode_prop_ID_Start_table, 0x3347a)]))"
    unfolding len unfolding unicode_prop_ID_Start_table_def by (simp add: index_pass_hit index_pass_byte del: index_pass.simps(2))
qed (simp_all add: unicode_prop_ID_Start_index_def)

lemma index_ok_ID_Continue1: "index_ok unicode_prop_ID_Continue1_table unicode_prop_ID_Continue1_index 22"
proof (rule index_okI)
  show "map (index_entry unicode_prop_ID_Continue1_index) [0..<22 - 1] = [
    (32, 0x6fa), (64, 0x970), (98, 0xaf0), (128, 0xc57), (163, 0xdf0), (193, 0xfc7),
    (226, 0x17ea), (256, 0x1aec), (290, 0x200e), (321, 0xa67e), (353, 0xa9da), (386, 0xfe10),
    (418, 0x10a40), (449, 0x110bb), (482, 0x1134e), (512, 0x115de), (544, 0x119e5), (576, 0x11d5a),
    (609, 0x16af5), (643, 0x1d18c), (674, 0x1e137)]"
    by (simp add: unicode_prop_ID_Continue1_index_def index_entry_def get_le24_def rd_def index_code_def upt_rec)
  show "get_le24 unicode_prop_ID_Continue1_index ((22 - 1) * 3) = Some (word_of_nat 0xe01f0)"
    by (simp add: unicode_prop_ID_Continue1_index_def get_le24_def rd_def)
  have len: "length unicode_prop_ID_Continue1_table = 708" by (simp add: unicode_prop_ID_Continue1_table_def)
  show "index_pass unicode_prop_ID_Continue1_table 0 0 False (map (map_prod int int) ([
    (32, 0x6fa), (64, 0x970), (98, 0xaf0), (128, 0xc57), (163, 0xdf0), (193, 0xfc7),
    (226, 0x17ea), (256, 0x1aec), (290, 0x200e), (321, 0xa67e), (353, 0xa9da), (386, 0xfe10),
    (418, 0x10a40), (449, 0x110bb), (482, 0x1134e), (512, 0x115de), (544, 0x119e5), (576, 0x11d5a),
    (609, 0x16af5), (643, 0x1d18c), (674, 0x1e137)] @
    [(length unicode_prop_ID_Continue1_table, 0xe01f0)]))"
    unfolding len unfolding unicode_prop_ID_Continue1_table_def by (simp add: index_pass_hit index_pass_byte del: index_pass.simps(2))
qed (simp_all add: unicode_prop_ID_Continue1_index_def)

section \<open>The tests\<close>

lemma length_index_tables [simp]:
  "length unicode_prop_Cased1_index = 18" "length unicode_prop_Case_Ignorable_index = 75"
  "length unicode_prop_ID_Start_index = 108" "length unicode_prop_ID_Continue1_index = 66"
  by (simp_all add: unicode_prop_Cased1_index_def unicode_prop_Case_Ignorable_index_def
      unicode_prop_ID_Start_index_def unicode_prop_ID_Continue1_index_def)

lemmas table_lookups =
  lre_is_in_table_decoded [OF index_ok_Cased1] lre_is_in_table_decoded [OF index_ok_Case_Ignorable]
  lre_is_in_table_decoded [OF index_ok_ID_Start] lre_is_in_table_decoded [OF index_ok_ID_Continue1]

lemma unicode_tests:
  "lre_is_cased c = Some (case_conv_search c \<noteq> None \<or> in_table unicode_prop_Cased1_table c)"
  "lre_is_case_ignorable c = Some (in_table unicode_prop_Case_Ignorable_table c)"
  "lre_is_id_start c = Some (in_table unicode_prop_ID_Start_table c)"
  "lre_is_id_continue c =
     Some (in_table unicode_prop_ID_Start_table c \<or> in_table unicode_prop_ID_Continue1_table c)"
  by (simp_all add: lre_is_cased_def lre_is_case_ignorable_def lre_is_id_start_def lre_is_id_continue_def
      table_lookups)

lemma ident_tests:
  "\<exists>r. lre_js_is_ident_first c = Some r" "\<exists>r. lre_js_is_ident_next c = Some r"
proof -
  show "\<exists>r. lre_js_is_ident_first c = Some r"
    by (cases "c < 128") (simp_all add: lre_js_is_ident_first_def unicode_tests)
  show "\<exists>r. lre_js_is_ident_next c = Some r"
    by (cases "c < 128"; cases "c \<ge> 0x200C \<and> c \<le> 0x200D")
      (simp_all only: lre_js_is_ident_next_def unicode_tests if_True if_False option.inject ex_simps simp_thms, auto)
qed

text \<open>
  C20. The indexed search of the compressed property tables is exact for the four tables that are
  searched: for every code point it finds, without a read outside the tables, what the run lengths
  decoded from the start say.
\<close>

theorem unicode_tables_exact:
  "lre_is_cased c = Some ((\<exists>r. case_conv_search c = Some r) \<or> in_table unicode_prop_Cased1_table c) \<and>
   lre_is_case_ignorable c = Some (in_table unicode_prop_Case_Ignorable_table c) \<and>
   lre_is_id_start c = Some (in_table unicode_prop_ID_Start_table c) \<and>
   lre_is_id_continue c =
     Some (in_table unicode_prop_ID_Start_table c \<or> in_table unicode_prop_ID_Continue1_table c)"
  by (simp add: unicode_tests)

end
