(* ===== verification/RStrings.thy ===== *)
theory RStrings
  imports FoldSet
begin

text \<open>
  The operands of a character class in \<^verbatim>\<open>libregexp/libregexp.c\<close>: a set of strings, kept as a
  character range for the strings of length one and as a hash table of chains for the others,
  and the predefined ranges of the escapes \<^verbatim>\<open>\d\<close>, \<^verbatim>\<open>\s\<close> and \<^verbatim>\<open>\w\<close>.

  A chain is a list, its head the element that was put in last; an element is the stored hash
  with the characters. \<open>None\<close> is the status -1 of the code, after which the caller frees the list.
\<close>

section \<open>The hash table\<close>

type_synonym re_string = "u32 \<times> u32 list"

record re_string_list =
  rs_cr :: char_range
  n_strings :: nat
  hash_size :: nat
  hash_bits :: nat
  hash_table :: "re_string list list"

definition re_string_hash :: "u32 list \<Rightarrow> u32" where
  "re_string_hash buf = fold (\<lambda>x h. h * 263 + x) buf 1 * 0x61C88647"

definition re_string_list_init :: re_string_list where
  "re_string_list_init = \<lparr>rs_cr = cr_init, n_strings = 0, hash_size = 0, hash_bits = 0, hash_table = []\<rparr>"

definition hash_slot :: "u32 \<Rightarrow> nat \<Rightarrow> nat" where
  "hash_slot h0 bits = unat (drop_bit (32 - bits) h0)"

definition chain_find :: "re_string list \<Rightarrow> u32 list \<Rightarrow> u32 \<Rightarrow> bool" where
  "chain_find chain buf h0 \<longleftrightarrow>
     list_ex (\<lambda>(h, cs). h = h0 \<and> length cs = length buf \<and> cs = buf) chain"

text \<open>Growing the table moves every element to the head of its new chain.\<close>

definition rehash :: "nat \<Rightarrow> re_string list list \<Rightarrow> re_string list list" where
  "rehash bits table =
     fold (\<lambda>p t. t[hash_slot (fst p) bits := p # t ! hash_slot (fst p) bits]) (concat table)
       (replicate (2 ^ bits) [])"

definition re_string_grow :: "(nat \<Rightarrow> bool) \<Rightarrow> re_string_list \<Rightarrow> re_string_list option" where
  "re_string_grow alloc s =
     (let bits = max (hash_bits s + 1) 4 in
      if alloc (8 * 2 ^ bits) then
        Some (s\<lparr>hash_bits := bits, hash_size := 2 ^ bits, hash_table := rehash bits (hash_table s)\<rparr>)
      else None)"

definition re_string_find2 ::
  "(nat \<Rightarrow> bool) \<Rightarrow> re_string_list \<Rightarrow> u32 list \<Rightarrow> u32 \<Rightarrow> bool \<Rightarrow> (bool \<times> re_string_list) option" where
  "re_string_find2 alloc s buf h0 add_flag =
     (let h = (if n_strings s \<noteq> 0 then hash_slot h0 (hash_bits s) else 0) in
      if n_strings s \<noteq> 0 \<and> chain_find (hash_table s ! h) buf h0 then Some (True, s)
      else if \<not> add_flag then Some (False, s)
      else
        (case (if n_strings s + 1 > hash_size s
               then map_option (\<lambda>s. (s, hash_slot h0 (hash_bits s))) (re_string_grow alloc s)
               else Some (s, h)) of
           None \<Rightarrow> None
         | Some (s, h) \<Rightarrow>
             if alloc (16 + length buf * 4) then
               Some (True, s\<lparr>hash_table := (hash_table s)[h := (h0, buf) # hash_table s ! h],
                             n_strings := n_strings s + 1\<rparr>)
             else None))"

definition re_string_find ::
  "(nat \<Rightarrow> bool) \<Rightarrow> re_string_list \<Rightarrow> u32 list \<Rightarrow> bool \<Rightarrow> (bool \<times> re_string_list) option" where
  "re_string_find alloc s buf add_flag = re_string_find2 alloc s buf (re_string_hash buf) add_flag"

definition re_string_add :: "(nat \<Rightarrow> bool) \<Rightarrow> re_string_list \<Rightarrow> u32 list \<Rightarrow> re_string_list option" where
  "re_string_add alloc s buf =
     (if length buf = 1 then
        map_option (\<lambda>cr. s\<lparr>rs_cr := cr\<rparr>) (cr_union_interval alloc (rs_cr s) (hd buf) (hd buf))
      else map_option snd (re_string_find alloc s buf True))"

text \<open>The loop of the union over all the elements of \<open>b\<close>.\<close>

primrec re_string_add_all ::
  "(nat \<Rightarrow> bool) \<Rightarrow> re_string list \<Rightarrow> re_string_list \<Rightarrow> re_string_list option" where
  "re_string_add_all alloc [] a = Some a"
| "re_string_add_all alloc (p # ps) a =
     (case re_string_find2 alloc a (snd p) (fst p) True of
        None \<Rightarrow> None
      | Some (_, a) \<Rightarrow> re_string_add_all alloc ps a)"

text \<open>
  The loop of the intersection and the difference: an element of a chain stays or is unlinked;
  \<open>found\<close> is the search in \<open>b\<close>, which adds nothing.
\<close>

definition string_found :: "re_string_list \<Rightarrow> re_string \<Rightarrow> bool" where
  "string_found b p \<longleftrightarrow>
     (case re_string_find2 (\<lambda>_. False) b (snd p) (fst p) False of
        None \<Rightarrow> False | Some (r, _) \<Rightarrow> r)"

definition re_string_filter :: "(re_string \<Rightarrow> bool) \<Rightarrow> re_string_list \<Rightarrow> re_string_list" where
  "re_string_filter keep a =
     a\<lparr>hash_table := map (filter keep) (hash_table a),
       n_strings := n_strings a - length (filter (\<lambda>p. \<not> keep p) (concat (hash_table a)))\<rparr>"

text \<open>\<open>a = a op b\<close>; an operation that the switch does not list aborts the program.\<close>

definition re_string_list_op ::
  "(nat \<Rightarrow> bool) \<Rightarrow> re_string_list \<Rightarrow> re_string_list \<Rightarrow> cr_op_enum \<Rightarrow> re_string_list option" where
  "re_string_list_op alloc a b op =
     (case cr_op1 alloc (rs_cr a) (cr_points (rs_cr b)) op of
        None \<Rightarrow> None
      | Some cr \<Rightarrow>
          (let a = a\<lparr>rs_cr := cr\<rparr> in
           case op of
             CR_OP_UNION \<Rightarrow> if n_strings b \<noteq> 0 then re_string_add_all alloc (concat (hash_table b)) a else Some a
           | CR_OP_INTER \<Rightarrow> Some (re_string_filter (string_found b) a)
           | CR_OP_SUB \<Rightarrow> Some (re_string_filter (\<lambda>p. \<not> string_found b p) a)
           | CR_OP_XOR \<Rightarrow> None))"

text \<open>Folding the strings puts the folded ones into a new table.\<close>

primrec re_string_add_folded ::
  "(nat \<Rightarrow> bool) \<Rightarrow> bool \<Rightarrow> re_string list \<Rightarrow> re_string_list \<Rightarrow> re_string_list option" where
  "re_string_add_folded alloc is_unicode [] s = Some s"
| "re_string_add_folded alloc is_unicode (p # ps) s =
     (case re_string_add alloc s (map (\<lambda>c. lre_canonicalize c is_unicode) (snd p)) of
        None \<Rightarrow> None
      | Some s \<Rightarrow> re_string_add_folded alloc is_unicode ps s)"

text \<open>
  As \<open>cr_regexp_canonicalize\<close> the outer option is a failed assertion, the inner one the status.
\<close>

definition re_string_list_canonicalize ::
  "(nat \<Rightarrow> bool) \<Rightarrow> re_string_list \<Rightarrow> bool \<Rightarrow> re_string_list option option" where
  "re_string_list_canonicalize alloc s is_unicode =
     (case cr_regexp_canonicalize alloc (rs_cr s) is_unicode of
        None \<Rightarrow> None
      | Some None \<Rightarrow> Some None
      | Some (Some cr) \<Rightarrow>
          Some (if n_strings s \<noteq> 0 then
                  re_string_add_folded alloc is_unicode (concat (hash_table s))
                    (s\<lparr>rs_cr := cr, n_strings := 0, hash_size := 0, hash_bits := 0, hash_table := []\<rparr>)
                else Some (s\<lparr>rs_cr := cr\<rparr>)))"

section \<open>Predefined ranges\<close>

definition char_range_d :: "u16 list" where
  "char_range_d = [1, 0x30, 0x3a]"

definition re_char_range_s :: "u16 list" where
  "re_char_range_s = [10,
     0x0009, 0x000D + 1, 0x0020, 0x0020 + 1, 0x00A0, 0x00A0 + 1, 0x1680, 0x1680 + 1,
     0x2000, 0x200A + 1, 0x2028, 0x2029 + 1, 0x202F, 0x202F + 1, 0x205F, 0x205F + 1,
     0x3000, 0x3000 + 1, 0xFEFF, 0xFEFF + 1]"

definition char_range_w :: "u16 list" where
  "char_range_w = [4, 0x30, 0x3a, 0x41, 0x5b, 0x5f, 0x60, 0x61, 0x7b]"

abbreviation (input) "CLASS_RANGE_BASE \<equiv> (0x40000000 :: u32)"
abbreviation (input) "CHAR_RANGE_d \<equiv> (0 :: u32)"
abbreviation (input) "CHAR_RANGE_D \<equiv> (1 :: u32)"
abbreviation (input) "CHAR_RANGE_s \<equiv> (2 :: u32)"
abbreviation (input) "CHAR_RANGE_S \<equiv> (3 :: u32)"
abbreviation (input) "CHAR_RANGE_w \<equiv> (4 :: u32)"
abbreviation (input) "CHAR_RANGE_W \<equiv> (5 :: u32)"

definition char_range_table :: "u16 list list" where
  "char_range_table = [char_range_d, re_char_range_s, char_range_w]"

primrec cr_add_points :: "(nat \<Rightarrow> bool) \<Rightarrow> u16 list \<Rightarrow> char_range \<Rightarrow> char_range option" where
  "cr_add_points alloc [] cr = Some cr"
| "cr_add_points alloc (v # vs) cr =
     (case cr_add_point alloc cr (ucast v) of
        None \<Rightarrow> None
      | Some cr \<Rightarrow> cr_add_points alloc vs cr)"

definition cr_init_char_range :: "(nat \<Rightarrow> bool) \<Rightarrow> u32 \<Rightarrow> re_string_list option" where
  "cr_init_char_range alloc c =
     (let invert = c AND 1 \<noteq> 0; c_pt = char_range_table ! unat (drop_bit 1 c) in
      case cr_add_points alloc (take (unat (hd c_pt) * 2) (tl c_pt)) cr_init of
        None \<Rightarrow> None
      | Some cr \<Rightarrow>
          map_option (\<lambda>cr. re_string_list_init\<lparr>rs_cr := cr\<rparr>)
            (if invert then cr_invert alloc cr else Some cr))"

end
