(* ===== verification/RStringSet.thy ===== *)
theory RStringSet
  imports RStrings
begin

text \<open>
  What a string list stands for: the set of strings made of the one-character strings of its range
  and the strings of its hash table. The operations of the code are the operations on these sets.
\<close>

section \<open>The table\<close>

definition table_ok :: "nat \<Rightarrow> re_string list list \<Rightarrow> bool" where
  "table_ok bits t \<longleftrightarrow> length t = 2 ^ bits \<and> (\<forall>i < 2 ^ bits. \<forall>p \<in> set (t ! i). hash_slot (fst p) bits = i)"

lemma hash_slot_bound: "hash_slot h bits < 2 ^ bits"
proof (cases "bits \<le> 32")
  case True
  have "unat h < 2 ^ (32 - bits) * 2 ^ bits" using True unsigned_less [of h, where 'a = nat]
    by (simp flip: power_add)
  then have "unat h div 2 ^ (32 - bits) < 2 ^ bits" by (metis less_mult_imp_div_less mult.commute)
  moreover have "hash_slot h bits = unat h div 2 ^ (32 - bits)"
    unfolding hash_slot_def unat_drop_bit_eq by (simp add: drop_bit_eq_div)
  ultimately show ?thesis by simp
next
  case False
  have "(2 :: nat) ^ 32 \<le> 2 ^ bits" using False by (intro power_increasing) auto
  moreover have "unat h < 2 ^ 32" using unsigned_less [of h, where 'a = nat] by simp
  ultimately show ?thesis using False by (simp add: hash_slot_def)
qed

lemma set_concat_update:
  assumes "h < length t"
  shows "set (concat (t[h := p # t ! h])) = insert p (set (concat t))"
    and "length (concat (t[h := p # t ! h])) = Suc (length (concat t))"
  using assms
proof (induction t arbitrary: h)
  case (Cons c t)
  { case 1 then show ?case using Cons by (cases h) auto }
  { case 2 then show ?case using Cons by (cases h) auto }
qed simp_all

lemma table_ok_insert:
  assumes "table_ok bits t"
  shows "table_ok bits (t[hash_slot (fst p) bits := p # t ! hash_slot (fst p) bits])"
  using assms hash_slot_bound [of "fst p" bits] by (auto simp: table_ok_def nth_list_update)

lemma rehash_ok:
  "table_ok bits (rehash bits table) \<and> set (concat (rehash bits table)) = set (concat table) \<and>
   length (concat (rehash bits table)) = length (concat table)"
proof -
  let ?ins = "\<lambda>p t. t[hash_slot (fst p) bits := p # t ! hash_slot (fst p) bits]"
  have "table_ok bits (fold ?ins ps t) \<and> set (concat (fold ?ins ps t)) = set ps \<union> set (concat t) \<and>
      length (concat (fold ?ins ps t)) = length ps + length (concat t)" if "table_ok bits t" for ps t
    using that
  proof (induction ps arbitrary: t)
    case (Cons p ps)
    have "hash_slot (fst p) bits < length t" using Cons.prems hash_slot_bound by (simp add: table_ok_def)
    from Cons.IH [OF table_ok_insert [OF Cons.prems, of p]] set_concat_update [OF this, of p]
    show ?case by simp
  qed simp
  moreover have "table_ok bits (replicate (2 ^ bits) [])" by (simp add: table_ok_def)
  ultimately show ?thesis unfolding rehash_def by fastforce
qed

section \<open>The set of strings\<close>

definition rs_strings :: "re_string_list \<Rightarrow> u32 list set" where
  "rs_strings s = snd ` set (concat (hash_table s))"

definition rs_set :: "re_string_list \<Rightarrow> u32 list set" where
  "rs_set s = (\<lambda>c. [c]) ` cr_set (cr_points (rs_cr s)) \<union> rs_strings s"

definition rs_table_wf :: "re_string_list \<Rightarrow> bool" where
  "rs_table_wf s \<longleftrightarrow>
     (if hash_size s = 0 then hash_table s = []
      else hash_size s = 2 ^ hash_bits s \<and> table_ok (hash_bits s) (hash_table s)) \<and>
     n_strings s = length (concat (hash_table s)) \<and>
     (\<forall>p \<in> set (concat (hash_table s)). fst p = re_string_hash (snd p) \<and> length (snd p) \<noteq> 1)"

definition rs_wf :: "re_string_list \<Rightarrow> bool" where
  "rs_wf s \<longleftrightarrow> cr_wf (cr_points (rs_cr s)) \<and> rs_table_wf s"

text \<open>
  A list that takes a new string must not be one whose strings were all removed: the slot of the
  string is then not computed, and it is put into the first chain.
\<close>

definition rs_ready :: "re_string_list \<Rightarrow> bool" where
  "rs_ready s \<longleftrightarrow> (n_strings s = 0 \<longrightarrow> hash_size s = 0)"

lemma rs_init [simp]: "rs_wf re_string_list_init" "rs_ready re_string_list_init" "rs_set re_string_list_init = {}"
  by (simp_all add: rs_wf_def rs_table_wf_def rs_ready_def re_string_list_init_def rs_set_def rs_strings_def
      cr_init_def cr_wf_def)

lemma rs_table_update_cr [simp]:
  "rs_table_wf (s\<lparr>rs_cr := cr\<rparr>) = rs_table_wf s" "rs_ready (s\<lparr>rs_cr := cr\<rparr>) = rs_ready s"
  "rs_strings (s\<lparr>rs_cr := cr\<rparr>) = rs_strings s"
  by (simp_all add: rs_table_wf_def rs_ready_def rs_strings_def)

lemma chain_find_iff: "chain_find chain buf h0 \<longleftrightarrow> (h0, buf) \<in> set chain"
  by (force simp: chain_find_def list_ex_iff split_beta)

lemma in_chain_iff:
  assumes "table_ok bits t"
  shows "p \<in> set (t ! hash_slot (fst p) bits) \<longleftrightarrow> p \<in> set (concat t)"
proof
  have "hash_slot (fst p) bits < length t" using assms hash_slot_bound by (simp add: table_ok_def)
  then have "t ! hash_slot (fst p) bits \<in> set t" by (rule nth_mem)
  then show "p \<in> set (t ! hash_slot (fst p) bits) \<Longrightarrow> p \<in> set (concat t)"
    unfolding set_concat by blast
next
  assume "p \<in> set (concat t)"
  then obtain xs where "xs \<in> set t" "p \<in> set xs" unfolding set_concat by blast
  then obtain i where i: "i < length t" "p \<in> set (t ! i)" by (metis in_set_conv_nth)
  with assms have "hash_slot (fst p) bits = i" unfolding table_ok_def by metis
  with i show "p \<in> set (t ! hash_slot (fst p) bits)" by simp
qed

text \<open>The search is membership.\<close>

lemma rs_found:
  assumes "rs_table_wf s"
  shows "n_strings s \<noteq> 0 \<and> chain_find (hash_table s ! hash_slot (re_string_hash buf) (hash_bits s)) buf (re_string_hash buf)
    \<longleftrightarrow> buf \<in> rs_strings s"
proof (cases "n_strings s = 0")
  case True
  with assms show ?thesis by (auto simp: rs_table_wf_def rs_strings_def)
next
  case False
  with assms have t: "table_ok (hash_bits s) (hash_table s)"
    by (auto simp: rs_table_wf_def split: if_splits)
  have "(re_string_hash buf, buf) \<in> set (concat (hash_table s)) \<longleftrightarrow> buf \<in> rs_strings s"
    using assms unfolding rs_table_wf_def rs_strings_def by (metis (no_types, lifting) image_iff prod.collapse snd_conv)
  then show ?thesis using False in_chain_iff [OF t, of "(re_string_hash buf, buf)"] by (simp add: chain_find_iff)
qed

lemma string_found_iff:
  assumes "rs_table_wf b" and "fst p = re_string_hash (snd p)"
  shows "string_found b p \<longleftrightarrow> snd p \<in> rs_strings b"
  using rs_found [OF assms(1), of "snd p"] assms(2)
  by (auto simp: string_found_def re_string_find2_def Let_def split: if_splits)

lemma re_string_grow_ok:
  assumes "rs_table_wf s" and "re_string_grow alloc s = Some s'"
  shows "rs_table_wf s' \<and> rs_strings s' = rs_strings s \<and> rs_cr s' = rs_cr s \<and> hash_size s' = 2 ^ hash_bits s' \<and>
    n_strings s' = n_strings s"
proof -
  define bits where "bits = max (hash_bits s + 1) 4"
  have s': "s' = s\<lparr>hash_bits := bits, hash_size := 2 ^ bits, hash_table := rehash bits (hash_table s)\<rparr>"
    using assms(2) unfolding re_string_grow_def Let_def bits_def by (simp split: if_splits)
  show ?thesis
    using assms(1) rehash_ok [of bits "hash_table s"] unfolding s'
    by (simp add: rs_table_wf_def rs_strings_def del: set_concat)
qed

lemma re_string_find2_add:
  assumes "rs_table_wf s" "rs_ready s" "length buf \<noteq> 1"
    and "re_string_find2 alloc s buf (re_string_hash buf) True = Some (r, s')"
  shows "rs_table_wf s' \<and> rs_ready s' \<and> rs_strings s' = insert buf (rs_strings s) \<and> rs_cr s' = rs_cr s"
proof (cases "buf \<in> rs_strings s")
  case True
  with rs_found [OF assms(1), of buf] assms show ?thesis by (auto simp: re_string_find2_def)
next
  case False
  let ?h0 = "re_string_hash buf"
  let ?put = "\<lambda>s h. s\<lparr>hash_table := (hash_table s)[h := (?h0, buf) # hash_table s ! h], n_strings := n_strings s + 1\<rparr>"
  have put: "rs_table_wf (?put s h) \<and> rs_ready (?put s h) \<and> rs_strings (?put s h) = insert buf (rs_strings s) \<and>
      rs_cr (?put s h) = rs_cr s"
    if s: "rs_table_wf s" "hash_size s \<noteq> 0" "h = hash_slot ?h0 (hash_bits s)" for s h
  proof -
    have t: "table_ok (hash_bits s) (hash_table s)" using s by (simp add: rs_table_wf_def)
    then have "h < length (hash_table s)" using hash_slot_bound s(3) by (simp add: table_ok_def)
    note u = set_concat_update [OF this, of "(?h0, buf)"]
    show ?thesis
      using s u table_ok_insert [OF t, of "(?h0, buf)"] assms(3)
      by (auto simp: rs_table_wf_def rs_ready_def rs_strings_def simp del: set_concat)
  qed
  show ?thesis
  proof (cases "n_strings s + 1 > hash_size s")
    case True
    then obtain g where g: "re_string_grow alloc s = Some g"
      and s': "s' = ?put g (hash_slot ?h0 (hash_bits g))"
      using assms(4) False rs_found [OF assms(1), of buf]
      by (auto simp: re_string_find2_def Let_def split: if_splits option.splits)
    note g = re_string_grow_ok [OF assms(1) g]
    have "hash_size g \<noteq> 0" using g by simp
    from put [OF _ this refl] g show ?thesis unfolding s' by simp
  next
    case size: False
    then have "n_strings s \<noteq> 0" "hash_size s \<noteq> 0" using assms(2) by (auto simp: rs_ready_def)
    with size assms(4) False rs_found [OF assms(1), of buf]
    have "s' = ?put s (hash_slot ?h0 (hash_bits s))"
      by (auto simp: re_string_find2_def Let_def split: if_splits option.splits)
    with put [OF assms(1) \<open>hash_size s \<noteq> 0\<close> refl] show ?thesis by simp
  qed
qed

lemma re_string_find2_total: "re_string_find2 (\<lambda>_. True) s buf h0 f \<noteq> None"
  by (auto simp: re_string_find2_def Let_def re_string_grow_def)

section \<open>Collecting\<close>

text \<open>
  The contract of a routine that adds one element to a collection and may fail, and what a loop
  over it collects.
\<close>

locale collector =
  fixes wf :: "'s \<Rightarrow> bool"
    and elems :: "'s \<Rightarrow> 'x set"
    and ok :: "'y \<Rightarrow> bool"
    and val :: "'y \<Rightarrow> 'x set"
    and add :: "'s \<Rightarrow> 'y \<Rightarrow> 's option"
  assumes add_elems: "wf s \<Longrightarrow> ok y \<Longrightarrow> add s y = Some s' \<Longrightarrow> wf s' \<and> elems s' = val y \<union> elems s"
begin

primrec add_list :: "'y list \<Rightarrow> 's \<Rightarrow> 's option" where
  "add_list [] s = Some s"
| "add_list (y # ys) s = (case add s y of None \<Rightarrow> None | Some s \<Rightarrow> add_list ys s)"

lemma add_list_elems:
  "wf s \<Longrightarrow> \<forall>y \<in> set ys. ok y \<Longrightarrow> add_list ys s = Some s' \<Longrightarrow>
     wf s' \<and> elems s' = (\<Union>y \<in> set ys. val y) \<union> elems s"
proof (induction ys arbitrary: s)
  case (Cons y ys)
  then obtain s1 where s1: "add s y = Some s1" "add_list ys s1 = Some s'" by (auto split: option.splits)
  from add_elems [OF Cons.prems(1) _ s1(1)] Cons.prems(2)
  have s1': "wf s1" "elems s1 = val y \<union> elems s" by auto
  from Cons.IH [OF s1'(1) _ s1(2)] Cons.prems(2) s1'(2) show ?case by auto
qed simp

lemma add_list_total: "(\<And>s y. add s y \<noteq> None) \<Longrightarrow> add_list ys s \<noteq> None"
proof (induction ys arbitrary: s)
  case (Cons y ys)
  from Cons.prems [of s y] Cons.IH [OF Cons.prems] show ?case by (auto split: option.splits)
qed simp

end

text \<open>Intervals of code points go into a range, strings into a string list.\<close>

interpretation ranges: collector "\<lambda>cr. cr_wf (cr_points cr)" "\<lambda>cr. cr_set (cr_points cr)"
  "\<lambda>(a, b). a \<le> b \<and> b < UINT32_MAX" "\<lambda>(a, b). {a..b}" "\<lambda>cr (a, b). cr_union_interval alloc cr a b" for alloc
proof (unfold_locales, clarsimp)
  fix cr cr' a b
  assume "cr_wf (cr_points cr)" "cr_union_interval alloc cr a b = Some cr'" "a \<le> b" "b < UINT32_MAX"
  from cr_union_interval_set [OF cr_wf_sorted [OF this(1)] this(3,4,2)]
  show "cr_wf (cr_points cr') \<and> cr_set (cr_points cr') = {a..b} \<union> cr_set (cr_points cr)" by auto
qed

definition rs_inv :: "re_string_list \<Rightarrow> bool" where
  "rs_inv s \<longleftrightarrow> rs_wf s \<and> rs_ready s"

lemma re_string_add_correct:
  assumes "rs_inv s" and "length buf = 1 \<Longrightarrow> hd buf < UINT32_MAX" and "re_string_add alloc s buf = Some s'"
  shows "rs_inv s' \<and> rs_set s' = {buf} \<union> rs_set s"
proof (cases "length buf = 1")
  case True
  then obtain c where c: "buf = [c]" by (auto simp: length_Suc_conv)
  with assms obtain cr where cr: "cr_union_interval alloc (rs_cr s) c c = Some cr" "s' = s\<lparr>rs_cr := cr\<rparr>"
    by (auto simp: re_string_add_def)
  have "cr_wf (cr_points cr) \<and> cr_set (cr_points cr) = cr_set (cr_points (rs_cr s)) \<union> {c..c}"
    using assms(1,2) c by (intro cr_union_interval_set [OF _ _ _ cr(1)]) (auto simp: rs_inv_def rs_wf_def intro: cr_wf_sorted)
  with assms(1) show ?thesis by (auto simp: cr(2) c rs_inv_def rs_wf_def rs_set_def)
next
  case False
  with assms(3) obtain r where "re_string_find2 alloc s buf (re_string_hash buf) True = Some (r, s')"
    by (auto simp: re_string_add_def re_string_find_def)
  from re_string_find2_add [OF _ _ False this] assms(1)
  show ?thesis by (auto simp: rs_inv_def rs_wf_def rs_set_def)
qed

interpretation strings: collector rs_inv rs_set "\<lambda>buf. length buf = 1 \<longrightarrow> hd buf < UINT32_MAX" "\<lambda>buf. {buf}"
  "re_string_add alloc" for alloc
  by unfold_locales (use re_string_add_correct in blast)

text \<open>The union adds strings with the hash that is stored beside them.\<close>

interpretation hashed: collector rs_inv rs_set "\<lambda>p. fst p = re_string_hash (snd p) \<and> length (snd p) \<noteq> 1" "\<lambda>p. {snd p}"
  "\<lambda>s p. map_option snd (re_string_find2 alloc s (snd p) (fst p) True)" for alloc
proof (unfold_locales, clarsimp)
  fix s s' buf r
  assume "rs_inv s" "length buf \<noteq> Suc 0" "re_string_find2 alloc s buf (re_string_hash buf) True = Some (r, s')"
  then show "rs_inv s' \<and> rs_set s' = insert buf (rs_set s)"
    using re_string_find2_add [of s buf alloc r s'] by (auto simp: rs_inv_def rs_wf_def rs_set_def)
qed

lemma re_string_add_all_list: "re_string_add_all alloc ps a = hashed.add_list alloc ps a"
  by (induction ps arbitrary: a) (auto split: option.splits)

lemma re_string_add_folded_list:
  "re_string_add_folded alloc u ps s = strings.add_list alloc (map (\<lambda>p. map (\<lambda>c. lre_canonicalize c u) (snd p)) ps) s"
  by (induction ps arbitrary: s) (auto split: option.splits)


section \<open>The operations\<close>

lemma length_filter_compl': "length (filter P xs) = length xs - length (filter (\<lambda>x. \<not> P x) xs)"
  by (metis add_diff_cancel_right' sum_length_filter_compl)

lemma re_string_filter_wf:
  assumes "rs_table_wf a" and "\<And>p. fst p = re_string_hash (snd p) \<Longrightarrow> keep p \<longleftrightarrow> snd p \<in> K"
  shows "rs_table_wf (re_string_filter keep a)" and "rs_strings (re_string_filter keep a) = rs_strings a \<inter> K"
    and "rs_cr (re_string_filter keep a) = rs_cr a"
proof -
  have c: "concat (map (filter keep) t) = filter keep (concat t)" for t :: "re_string list list"
    by (simp add: filter_concat)
  have h: "\<forall>p \<in> set (concat (hash_table a)). fst p = re_string_hash (snd p) \<and> length (snd p) \<noteq> 1"
    using assms(1) unfolding rs_table_wf_def by blast
  have t: "table_ok (hash_bits a) (hash_table a) \<Longrightarrow> table_ok (hash_bits a) (map (filter keep) (hash_table a))"
    by (simp add: table_ok_def)
  show "rs_table_wf (re_string_filter keep a)"
    using assms(1) h t length_filter_compl' [of keep "concat (hash_table a)"]
    by (simp add: rs_table_wf_def re_string_filter_def c del: set_concat)
  show "rs_strings (re_string_filter keep a) = rs_strings a \<inter> K"
    using h assms(2) by (auto simp: rs_strings_def re_string_filter_def c simp del: set_concat)
  show "rs_cr (re_string_filter keep a) = rs_cr a" by (simp add: re_string_filter_def)
qed

definition string_op :: "cr_op_enum \<Rightarrow> 'a set \<Rightarrow> 'a set \<Rightarrow> 'a set" where
  "string_op op A B = {x. cr_is_in op (x \<in> A) (x \<in> B)}"

lemma cr_op1_wf:
  assumes "cr_wf (cr_points a)" "cr_wf pts" "cr_op1 alloc a pts op = Some cr"
  shows "cr_wf (cr_points cr) \<and> cr_set (cr_points cr) = string_op op (cr_set (cr_points a)) (cr_set pts)"
  using cr_op_wf [of cr_init "cr_points a" pts alloc op cr] assms
  by (simp add: cr_op1_def cr_init_def cr_wf_sorted string_op_def)

lemma rs_strings_len: "rs_table_wf s \<Longrightarrow> x \<in> rs_strings s \<Longrightarrow> length x \<noteq> 1"
  unfolding rs_table_wf_def rs_strings_def by blast

lemma re_string_list_op_set:
  assumes "rs_inv a" "rs_wf b" "op \<noteq> CR_OP_XOR" and "re_string_list_op alloc a b op = Some a'"
  shows "rs_wf a' \<and> rs_set a' = string_op op (rs_set a) (rs_set b)"
proof -
  obtain cr where cr: "cr_op1 alloc (rs_cr a) (cr_points (rs_cr b)) op = Some cr"
    using assms(4) by (auto simp: re_string_list_op_def split: option.splits)
  have wf: "cr_wf (cr_points cr)" "cr_set (cr_points cr) = string_op op (cr_set (cr_points (rs_cr a))) (cr_set (cr_points (rs_cr b)))"
    using cr_op1_wf [OF _ _ cr] assms(1,2) by (auto simp: rs_inv_def rs_wf_def)
  let ?a = "a\<lparr>rs_cr := cr\<rparr>"
  have tw: "rs_table_wf a" "rs_table_wf b" using assms(1,2) by (auto simp: rs_inv_def rs_wf_def)
  have long: "[c] \<notin> rs_strings a" "[c] \<notin> rs_strings b" for c
    using rs_strings_len [OF tw(1), of "[c]"] rs_strings_len [OF tw(2), of "[c]"] by auto
  show ?thesis
  proof (cases op)
    case CR_OP_UNION
    have inv: "rs_inv ?a" using assms(1) wf(1) by (simp add: rs_inv_def rs_wf_def)
    have U: "rs_set ?a = (\<lambda>c. [c]) ` (cr_set (cr_points (rs_cr a)) \<union> cr_set (cr_points (rs_cr b))) \<union> rs_strings a"
      by (simp add: rs_set_def wf(2) string_op_def CR_OP_UNION Un_def)
    show ?thesis
    proof (cases "n_strings b = 0")
      case True
      then have "rs_strings b = {}" using tw(2) by (auto simp: rs_table_wf_def rs_strings_def)
      moreover have "a' = ?a" using assms(4) True by (simp add: re_string_list_op_def cr [unfolded CR_OP_UNION] CR_OP_UNION Let_def)
      ultimately show ?thesis
        using inv U by (auto simp: rs_inv_def rs_set_def string_op_def CR_OP_UNION)
    next
      case False
      then have "hashed.add_list alloc (concat (hash_table b)) ?a = Some a'"
        using assms(4) by (simp add: re_string_list_op_def cr [unfolded CR_OP_UNION] CR_OP_UNION re_string_add_all_list Let_def)
      moreover have "\<forall>p \<in> set (concat (hash_table b)). fst p = re_string_hash (snd p) \<and> length (snd p) \<noteq> 1"
        using tw(2) unfolding rs_table_wf_def by blast
      ultimately have "rs_inv a' \<and> rs_set a' = (\<Union>p \<in> set (concat (hash_table b)). {snd p}) \<union> rs_set ?a"
        by (intro hashed.add_list_elems [OF inv]) blast+
      moreover have "(\<Union>p \<in> set (concat (hash_table b)). {snd p}) = rs_strings b"
        unfolding rs_strings_def by blast
      ultimately show ?thesis
        using U by (auto simp: rs_inv_def rs_set_def string_op_def CR_OP_UNION)
    qed
  next
    case CR_OP_INTER
    have a': "a' = re_string_filter (string_found b) ?a"
      using assms(4) by (simp add: re_string_list_op_def cr [unfolded CR_OP_INTER] CR_OP_INTER Let_def)
    have "rs_table_wf ?a" using tw by simp
    note f = re_string_filter_wf [where keep = "string_found b" and K = "rs_strings b", OF this string_found_iff [OF tw(2)]]
    show ?thesis
      using wf f long
      by (auto simp: a' rs_wf_def rs_set_def string_op_def CR_OP_INTER)
  next
    case CR_OP_SUB
    have a': "a' = re_string_filter (\<lambda>p. \<not> string_found b p) ?a"
      using assms(4) by (simp add: re_string_list_op_def cr [unfolded CR_OP_SUB] CR_OP_SUB Let_def)
    have "rs_table_wf ?a" using tw by simp
    note f = re_string_filter_wf [where keep = "\<lambda>p. \<not> string_found b p" and K = "- rs_strings b", OF this]
    show ?thesis
      using wf f string_found_iff [OF tw(2)] long
      by (auto simp: a' rs_wf_def rs_set_def string_op_def CR_OP_SUB)
  qed (use assms(3) in simp)
qed

lemma re_string_list_op_total:
  assumes "op \<noteq> CR_OP_XOR"
  shows "\<exists>a'. re_string_list_op (\<lambda>_. True) a b op = Some a'"
proof -
  obtain cr where "cr_op1 (\<lambda>_. True) (rs_cr a) (cr_points (rs_cr b)) op = Some cr"
    using cr_op_ok unfolding cr_op1_def by blast
  moreover have "\<exists>a'. hashed.add_list (\<lambda>_. True) ps s = Some a'" for ps s
    using hashed.add_list_total [of "\<lambda>_. True"] re_string_find2_total by auto
  ultimately show ?thesis using assms
    by (cases op) (auto simp: re_string_list_op_def re_string_add_all_list Let_def)
qed

lemma re_string_list_canonicalize_set:
  assumes "rs_wf s"
  shows "\<exists>s'. re_string_list_canonicalize (\<lambda>_. True) s u = Some (Some s') \<and> rs_wf s' \<and>
    rs_set s' = map (\<lambda>c. lre_canonicalize c u) ` rs_set s"
proof -
  let ?f = "\<lambda>c. lre_canonicalize c u"
  have tw: "rs_table_wf s" and "cr_wf (cr_points (rs_cr s))" using assms by (auto simp: rs_wf_def)
  from cr_regexp_canonicalize_image [OF cr_wf_sorted [OF this(2)], of u] obtain cr where
    cr: "cr_regexp_canonicalize (\<lambda>_. True) (rs_cr s) u = Some (Some cr)" "cr_wf (cr_points cr)"
      "cr_set (cr_points cr) = ?f ` cr_set (cr_points (rs_cr s))" by blast
  show ?thesis
  proof (cases "n_strings s = 0")
    case True
    then have "rs_strings s = {}" using tw by (auto simp: rs_table_wf_def rs_strings_def)
    with True cr tw show ?thesis
      by (auto simp: re_string_list_canonicalize_def rs_wf_def rs_set_def image_image)
  next
    case False
    define s0 where "s0 = s\<lparr>rs_cr := cr, n_strings := 0, hash_size := 0, hash_bits := 0, hash_table := []\<rparr>"
    let ?xs = "map (\<lambda>p. map ?f (snd p)) (concat (hash_table s))"
    have s0: "rs_inv s0" "rs_set s0 = (\<lambda>c. [c]) ` ?f ` cr_set (cr_points (rs_cr s))"
      using cr by (auto simp: s0_def rs_inv_def rs_wf_def rs_table_wf_def rs_ready_def rs_set_def rs_strings_def)
    have ok: "\<forall>x \<in> set ?xs. length x = 1 \<longrightarrow> hd x < UINT32_MAX"
      using tw unfolding rs_table_wf_def by auto
    have tot: "re_string_add (\<lambda>_. True) s y \<noteq> None" for s y
      using re_string_find2_total [of s y "re_string_hash y" True] cr_op_ok [of cr_init "cr_points (rs_cr s)" "[hd y, hd y + 1]" CR_OP_UNION]
      by (auto simp: re_string_add_def re_string_find_def cr_union_interval_def cr_op1_def)
    obtain s' where s': "strings.add_list (\<lambda>_. True) ?xs s0 = Some s'"
      using strings.add_list_total [OF tot] by blast
    from strings.add_list_elems [OF s0(1) ok s'] have r: "rs_inv s'" "rs_set s' = set ?xs \<union> rs_set s0" by auto
    have xs: "set ?xs = map ?f ` rs_strings s" unfolding rs_strings_def by (simp add: image_image)
    have "rs_set s' = map ?f ` rs_set s"
      unfolding r(2) s0(2) xs unfolding rs_set_def image_Un image_image by auto
    moreover have "re_string_list_canonicalize (\<lambda>_. True) s u = Some (Some s')"
      using s' False by (simp add: re_string_list_canonicalize_def cr re_string_add_folded_list s0_def)
    ultimately show ?thesis using r(1) by (auto simp: rs_inv_def)
  qed
qed

text \<open>
  C13. The operands of a character class are sets of strings: union, intersection and difference of
  the hash tables with their ranges are the operations on the sets, whatever the hashes are, and
  they succeed when memory does. A union needs a first operand that was not emptied before.
\<close>

theorem re_string_list_op_correct:
  assumes "rs_wf a" "rs_ready a" "rs_wf b" "op \<in> {CR_OP_UNION, CR_OP_INTER, CR_OP_SUB}"
  shows "\<exists>a'. re_string_list_op (\<lambda>_. True) a b op = Some a' \<and> rs_wf a' \<and>
    rs_set a' = {x. cr_is_in op (x \<in> rs_set a) (x \<in> rs_set b)}"
proof -
  have op: "op \<noteq> CR_OP_XOR" using assms(4) by auto
  from re_string_list_op_total [OF this] obtain a' where a': "re_string_list_op (\<lambda>_. True) a b op = Some a'"
    by blast
  from re_string_list_op_set [OF _ assms(3) op this] assms(1,2) a' show ?thesis
    by (auto simp: rs_inv_def string_op_def)
qed

theorem re_string_list_op_correct_witness:
  "\<exists>a b c. re_string_add (\<lambda>_. True) re_string_list_init [0x61, 0x62] = Some a \<and>
     re_string_add (\<lambda>_. True) re_string_list_init [0x63] = Some b \<and>
     re_string_list_op (\<lambda>_. True) a b CR_OP_UNION = Some c \<and> rs_set c = {[0x61, 0x62], [0x63]}"
proof -
  have tot: "\<exists>s'. re_string_add (\<lambda>_. True) s y = Some s'" for s y
    using re_string_find2_total [of s y "re_string_hash y" True] cr_op_ok [of cr_init "cr_points (rs_cr s)" "[hd y, hd y + 1]" CR_OP_UNION]
    by (auto simp: re_string_add_def re_string_find_def cr_union_interval_def cr_op1_def)
  obtain a b where a: "re_string_add (\<lambda>_. True) re_string_list_init [0x61, 0x62] = Some a"
    and b: "re_string_add (\<lambda>_. True) re_string_list_init [0x63] = Some b" using tot by blast
  have i: "rs_inv re_string_list_init" by (simp add: rs_inv_def)
  have A: "rs_inv a \<and> rs_set a = {[0x61, 0x62]}" using re_string_add_correct [OF i _ a] by simp
  have B: "rs_inv b \<and> rs_set b = {[0x63]}" using re_string_add_correct [OF i _ b] by (simp add: UINT32_MAX_def)
  from re_string_list_op_correct [of a b CR_OP_UNION] A B obtain c where
    "re_string_list_op (\<lambda>_. True) a b CR_OP_UNION = Some c" "rs_set c = {[0x61, 0x62], [0x63]}"
    by (auto simp: rs_inv_def)
  with a b show ?thesis by blast
qed

text \<open>
  C14. Folding a string list is exact: the result stands for the folded strings.
\<close>

theorem re_string_list_canonicalize_correct:
  assumes "rs_wf s"
  shows "\<exists>s'. re_string_list_canonicalize (\<lambda>_. True) s is_unicode = Some (Some s') \<and> rs_wf s' \<and>
    rs_set s' = map (\<lambda>c. lre_canonicalize c is_unicode) ` rs_set s"
  using assms by (rule re_string_list_canonicalize_set)

theorem re_string_list_canonicalize_correct_witness:
  "\<exists>a s'. re_string_add (\<lambda>_. True) re_string_list_init [0x41, 0x62] = Some a \<and>
     re_string_list_canonicalize (\<lambda>_. True) a True = Some (Some s') \<and> rs_set s' = {[0x61, 0x62]}"
proof -
  define a where "a = (case re_string_add (\<lambda>_. True) re_string_list_init [0x41, 0x62] of Some a \<Rightarrow> a)"
  have a: "re_string_add (\<lambda>_. True) re_string_list_init [0x41, 0x62] = Some a"
    unfolding a_def by code_simp
  have "rs_wf a" "rs_set a = {[0x41, 0x62]}"
    using re_string_add_correct [OF _ _ a] by (simp_all add: rs_inv_def)
  moreover have "lre_canonicalize 0x41 True = 0x61" "lre_canonicalize 0x62 True = 0x62" by code_simp+
  ultimately show ?thesis using re_string_list_canonicalize_correct [of a True] a by auto
qed

text \<open>
  C36. What happens without the restriction on the first operand: in a list that has a table but
  whose strings were all removed, the chain of an added string is not computed. The string goes into
  the first chain, and a later search finds it exactly when that is its chain; otherwise it is lost
  for the search, and a second addition would store it again.
\<close>

theorem re_string_add_after_removal:
  assumes "rs_wf s" and "n_strings s = 0" and "hash_size s \<noteq> 0" and "length x \<noteq> 1"
  shows "\<exists>s'. re_string_add (\<lambda>_. True) s x = Some s' \<and> n_strings s' = 1 \<and>
    hash_table s' ! 0 = [(re_string_hash x, x)] \<and>
    re_string_find alloc s' x False = Some (hash_slot (re_string_hash x) (hash_bits s) = 0, s')"
proof -
  have table: "hash_size s = 2 ^ hash_bits s" "length (hash_table s) = 2 ^ hash_bits s" "concat (hash_table s) = []"
    using assms(1-3) by (auto simp: rs_wf_def rs_table_wf_def table_ok_def)
  then have chains: "hash_table s ! i = []" if "i < 2 ^ hash_bits s" for i
    using that by (metis concat_eq_Nil_conv nth_mem)
  let ?s = "s\<lparr>hash_table := (hash_table s)[0 := [(re_string_hash x, x)]], n_strings := 1\<rparr>"
  have "re_string_add (\<lambda>_. True) s x = Some ?s"
    using assms(2-4) table(1) chains [of 0, simplified]
    by (simp add: re_string_add_def re_string_find_def re_string_find2_def Let_def)
  moreover have "re_string_find alloc ?s x False = Some (hash_slot (re_string_hash x) (hash_bits s) = 0, ?s)"
    using table(2) chains [OF hash_slot_bound [of "re_string_hash x" "hash_bits s"]]
    by (auto simp: re_string_find_def re_string_find2_def Let_def chain_find_iff nth_list_update split: if_splits)
  ultimately show ?thesis using table by auto
qed

theorem re_string_add_after_removal_witness:
  "\<exists>a s s'. re_string_add (\<lambda>_. True) re_string_list_init [0x63, 0x64] = Some a \<and>
     re_string_list_op (\<lambda>_. True) a a CR_OP_SUB = Some s \<and> re_string_add (\<lambda>_. True) s [0x61, 0x62] = Some s' \<and>
     re_string_find (\<lambda>_. True) s' [0x61, 0x62] False = Some (False, s')"
proof -
  define a where "a = (case re_string_add (\<lambda>_. True) re_string_list_init [0x63, 0x64] of Some a \<Rightarrow> a)"
  define s where "s = (case re_string_list_op (\<lambda>_. True) a a CR_OP_SUB of Some s \<Rightarrow> s)"
  have a: "re_string_add (\<lambda>_. True) re_string_list_init [0x63, 0x64] = Some a"
    and s: "re_string_list_op (\<lambda>_. True) a a CR_OP_SUB = Some s"
    and fields: "n_strings s = 0" "hash_size s = 16" "hash_bits s = 4" "hash_slot (re_string_hash [0x61, 0x62]) 4 \<noteq> 0"
    unfolding s_def a_def by code_simp+
  have inv: "rs_wf a \<and> rs_ready a"
    using re_string_add_correct [OF _ _ a] by (simp add: rs_inv_def)
  have "rs_wf s"
    using re_string_list_op_set [OF _ _ _ s] inv by (simp add: rs_inv_def)
  from re_string_add_after_removal [OF this, of "[0x61, 0x62]" "\<lambda>_. True"] fields a s show ?thesis by auto
qed

end
