(* ===== verification/Verifier.thy ===== *)
theory Verifier
  imports MatchBounds
begin

text \<open>
  A bytecode verifier for the matcher. A typing assigns to places of the byte code the kinds of
  the loop registers that are in use there, and the lookaheads that enclose the place. When every
  typed place is well typed the matcher never does anything undefined: no operand is read outside
  the code, no register as the wrong kind, no capture outside the array, no character outside the
  subject, and each end of a lookahead finds the lookahead it belongs to.
\<close>

section \<open>Typings\<close>

datatype reg_kind = RNum | RPtr

text \<open>An enclosing lookahead: whether it is negative, where it continues, and the registers there.\<close>

type_synonym look = "bool \<times> int \<times> reg_kind list"
type_synonym place = "int \<times> reg_kind list \<times> look list"

text \<open>The operations by the shape of what they need.\<close>

definition unit_ops :: "reopcode set" where
  "unit_ops =
     {REOP_dot, REOP_any, REOP_space, REOP_not_space, REOP_line_start, REOP_line_start_m, REOP_line_end,
      REOP_line_end_m, REOP_word_boundary, REOP_word_boundary_i, REOP_not_word_boundary,
      REOP_not_word_boundary_i, REOP_prev}"

definition char_ops :: "reopcode set" where "char_ops = {REOP_char, REOP_char_i}"
definition char32_ops :: "reopcode set" where "char32_ops = {REOP_char32, REOP_char32_i}"
definition range_ops :: "reopcode set" where "range_ops = {REOP_range, REOP_range_i}"
definition range32_ops :: "reopcode set" where "range32_ops = {REOP_range32, REOP_range32_i}"
definition save_ops :: "reopcode set" where "save_ops = {REOP_save_start, REOP_save_end}"
definition split_ops :: "reopcode set" where "split_ops = {REOP_split_goto_first, REOP_split_next_first}"
definition look_ops :: "reopcode set" where "look_ops = {REOP_lookahead, REOP_negative_lookahead}"
definition loop_split_ops :: "reopcode set" where
  "loop_split_ops = {REOP_loop_split_goto_first, REOP_loop_split_next_first}"
definition loop_adv_ops :: "reopcode set" where
  "loop_adv_ops = {REOP_loop_check_adv_split_goto_first, REOP_loop_check_adv_split_next_first}"
definition ref_ops :: "reopcode set" where
  "ref_ops =
     {REOP_back_reference, REOP_back_reference_i, REOP_backward_back_reference, REOP_backward_back_reference_i}"

lemmas op_sets = unit_ops_def char_ops_def char32_ops_def range_ops_def range32_ops_def save_ops_def
  split_ops_def look_ops_def loop_split_ops_def loop_adv_ops_def ref_ops_def

text \<open>
  What the operation \<open>op\<close> with its operands at \<open>p\<close> asks for: \<open>n\<close> is the number of captures, \<open>r\<close>
  the number of registers, \<open>S\<close> the typed places.
\<close>

definition jumps :: "u8 list \<Rightarrow> place set \<Rightarrow> int \<Rightarrow> reg_kind list \<Rightarrow> look list \<Rightarrow> bool" where
  "jumps bc S p K L \<longleftrightarrow> (\<exists>v. fetch32 bc p = Some v \<and> (p + 4 + sint v, K, L) \<in> S)"

definition reads8 :: "u8 list \<Rightarrow> int \<Rightarrow> nat \<Rightarrow> bool" where
  "reads8 bc p m \<longleftrightarrow> (\<exists>v. fetch8 bc p = Some v \<and> unat v = m)"

definition table_fits :: "u8 list \<Rightarrow> int \<Rightarrow> nat \<Rightarrow> bool" where
  "table_fits bc p m \<longleftrightarrow> 0 \<le> p \<and> nat p + m \<le> length bc"

inductive wt_op ::
  "nat \<Rightarrow> nat \<Rightarrow> u8 list \<Rightarrow> place set \<Rightarrow> reopcode \<Rightarrow> int \<Rightarrow> reg_kind list \<Rightarrow> look list \<Rightarrow> bool"
  for n r bc S where
  wt_unit: "op \<in> unit_ops \<Longrightarrow> (p, K, L) \<in> S \<Longrightarrow> wt_op n r bc S op p K L"
| wt_char: "op \<in> char_ops \<Longrightarrow> fetch16 bc p = Some v \<Longrightarrow> (p + 2, K, L) \<in> S \<Longrightarrow> wt_op n r bc S op p K L"
| wt_char32: "op \<in> char32_ops \<Longrightarrow> fetch32 bc p = Some v \<Longrightarrow> (p + 4, K, L) \<in> S \<Longrightarrow> wt_op n r bc S op p K L"
| wt_range:
    "op \<in> range_ops \<Longrightarrow> fetch16 bc p = Some k \<Longrightarrow> k \<noteq> 0 \<Longrightarrow> table_fits bc p (2 + 4 * unat k) \<Longrightarrow>
     (p + 2 + 4 * int (unat k), K, L) \<in> S \<Longrightarrow> wt_op n r bc S op p K L"
| wt_range32:
    "op \<in> range32_ops \<Longrightarrow> fetch16 bc p = Some k \<Longrightarrow> k \<noteq> 0 \<Longrightarrow> table_fits bc p (2 + 8 * unat k) \<Longrightarrow>
     (p + 2 + 8 * int (unat k), K, L) \<in> S \<Longrightarrow> wt_op n r bc S op p K L"
| wt_ref:
    "op \<in> ref_ops \<Longrightarrow> fetch8 bc p = Some k \<Longrightarrow> table_fits bc p (1 + unat k) \<Longrightarrow>
     (p + 1 + int (unat k), K, L) \<in> S \<Longrightarrow> wt_op n r bc S op p K L"
| wt_save: "op \<in> save_ops \<Longrightarrow> reads8 bc p m \<Longrightarrow> m < n \<Longrightarrow> (p + 1, K, L) \<in> S \<Longrightarrow> wt_op n r bc S op p K L"
| wt_save_reset:
    "fetch8 bc p = Some v \<Longrightarrow> reads8 bc (p + 1) m \<Longrightarrow> m < n \<Longrightarrow> (p + 2, K, L) \<in> S \<Longrightarrow>
     wt_op n r bc S REOP_save_reset p K L"
| wt_goto: "jumps bc S p K L \<Longrightarrow> wt_op n r bc S REOP_goto p K L"
| wt_split: "op \<in> split_ops \<Longrightarrow> jumps bc S p K L \<Longrightarrow> (p + 4, K, L) \<in> S \<Longrightarrow> wt_op n r bc S op p K L"
| wt_look:
    "op \<in> look_ops \<Longrightarrow> fetch32 bc p = Some v \<Longrightarrow> (p + 4 + sint v, K, L) \<in> S \<Longrightarrow>
     (p + 4, K, (op = REOP_negative_lookahead, p + 4 + sint v, K) # L) \<in> S \<Longrightarrow> wt_op n r bc S op p K L"
| wt_match: "wt_op n r bc S REOP_match p K []"
| wt_look_match: "(tgt, K1, L) \<in> S \<Longrightarrow> wt_op n r bc S REOP_lookahead_match p (K1 @ K2) ((False, tgt, K1) # L)"
| wt_neg_match: "wt_op n r bc S REOP_negative_lookahead_match p K ((True, tgt, K1) # L)"
| wt_set_i32:
    "reads8 bc p (length K) \<Longrightarrow> fetch32 bc (p + 1) = Some v \<Longrightarrow> length K < r \<Longrightarrow> (p + 5, K @ [RNum], L) \<in> S \<Longrightarrow>
     wt_op n r bc S REOP_set_i32 p K L"
| wt_set_char_pos:
    "reads8 bc p (length K) \<Longrightarrow> length K < r \<Longrightarrow> (p + 1, K @ [RPtr], L) \<in> S \<Longrightarrow>
     wt_op n r bc S REOP_set_char_pos p K L"
| wt_check_advance:
    "reads8 bc p (length K) \<Longrightarrow> (p + 1, K, L) \<in> S \<Longrightarrow> wt_op n r bc S REOP_check_advance p (K @ [RPtr]) L"
| wt_loop:
    "reads8 bc p (length K) \<Longrightarrow> (p + 5, K, L) \<in> S \<Longrightarrow> jumps bc S (p + 1) (K @ [RNum]) L \<Longrightarrow>
     wt_op n r bc S REOP_loop p (K @ [RNum]) L"
| wt_loop_split:
    "op \<in> loop_split_ops \<Longrightarrow> reads8 bc p (length K) \<Longrightarrow> fetch32 bc (p + 1) = Some v \<Longrightarrow> (p + 9, K, L) \<in> S \<Longrightarrow>
     jumps bc S (p + 5) (K @ [RNum]) L \<Longrightarrow> wt_op n r bc S op p (K @ [RNum]) L"
| wt_loop_adv:
    "op \<in> loop_adv_ops \<Longrightarrow> reads8 bc p (length K) \<Longrightarrow> fetch32 bc (p + 1) = Some v \<Longrightarrow> (p + 9, K, L) \<in> S \<Longrightarrow>
     jumps bc S (p + 5) (K @ [RNum]) L \<Longrightarrow> wt_op n r bc S op p (K @ [RNum, RPtr]) L"

lemma jumps_mono: "S \<subseteq> T \<Longrightarrow> jumps bc S p K L \<Longrightarrow> jumps bc T p K L"
  by (auto simp: jumps_def)

lemma wt_op_mono: "wt_op n r bc S op p K L \<Longrightarrow> S \<subseteq> T \<Longrightarrow> wt_op n r bc T op p K L"
  by (induction rule: wt_op.induct) (blast intro: wt_op.intros jumps_mono)+

definition wt_place :: "nat \<Rightarrow> nat \<Rightarrow> u8 list \<Rightarrow> place set \<Rightarrow> place \<Rightarrow> bool" where
  "wt_place n r bc S = (\<lambda>(q, K, L).
     \<exists>op. fetch8 bc q = Some (ucast (reop_byte op)) \<and> wt_op n r bc S op (q + 1) K L)"

definition wt_code :: "nat \<Rightarrow> nat \<Rightarrow> u8 list \<Rightarrow> place set \<Rightarrow> bool" where
  "wt_code n r bc S \<longleftrightarrow> (\<forall>x \<in> S. wt_place n r bc S x)"

lemma wt_place_mono: "wt_place n r bc S x \<Longrightarrow> S \<subseteq> T \<Longrightarrow> wt_place n r bc T x"
  by (cases x) (auto simp: wt_place_def intro: wt_op_mono)

end
