(* ===== verification/VerifierSound.thy ===== *)
theory VerifierSound
  imports Verifier
begin

text \<open>
  Soundness of the verifier: on well-typed code each step of the specification machine keeps the
  state typed and never ends in \<open>Fault\<close>; through the refinement the same holds of
  \<^verbatim>\<open>lre_exec\<close>.
\<close>

section \<open>Typed states\<close>

fun kind_ok :: "reg_kind \<Rightarrow> slot \<Rightarrow> bool" where
  "kind_ok RNum (SNum v) \<longleftrightarrow> True"
| "kind_ok RPtr (SPtr p) \<longleftrightarrow> True"
| "kind_ok k v \<longleftrightarrow> False"

fun group_slot :: "slot \<Rightarrow> bool" where
  "group_slot SNull \<longleftrightarrow> True"
| "group_slot (SPtr p) \<longleftrightarrow> True"
| "group_slot v \<longleftrightarrow> False"

definition caps_ok :: "nat \<Rightarrow> nat \<Rightarrow> reg_kind list \<Rightarrow> slot list \<Rightarrow> bool" where
  "caps_ok n r K caps \<longleftrightarrow>
     2 * n + r \<le> length caps \<and> length K \<le> r \<and> (\<forall>i < 2 * n. group_slot (caps ! i)) \<and>
     (\<forall>i < length K. kind_ok (K ! i) (caps ! (2 * n + i)))"

text \<open>The lookaheads among the choice points are the ones that enclose the place.\<close>

primrec choices_ok :: "place set \<Rightarrow> nat \<Rightarrow> nat \<Rightarrow> choice list \<Rightarrow> look list \<Rightarrow> bool" where
  "choices_ok S n r [] L \<longleftrightarrow> L = []"
| "choices_ok S n r (c # cs) L \<longleftrightarrow>
     (case kind c of
        RE_EXEC_STATE_SPLIT \<Rightarrow>
          (\<exists>K. (c_pc c, K, L) \<in> S \<and> caps_ok n r K (c_captures c)) \<and> choices_ok S n r cs L
      | RE_EXEC_STATE_LOOKAHEAD \<Rightarrow> (\<exists>K L'. L = (False, c_pc c, K) # L' \<and> choices_ok S n r cs L')
      | RE_EXEC_STATE_NEGATIVE_LOOKAHEAD \<Rightarrow>
          (\<exists>K L'. L = (True, c_pc c, K) # L' \<and> (c_pc c, K, L') \<in> S \<and> caps_ok n r K (c_captures c) \<and>
             choices_ok S n r cs L'))"

definition typed :: "place set \<Rightarrow> nat \<Rightarrow> nat \<Rightarrow> spec_state \<Rightarrow> bool" where
  "typed S n r t \<longleftrightarrow>
     (\<exists>K L. (s_pc t, K, L) \<in> S \<and> caps_ok n r K (s_captures t) \<and> choices_ok S n r (s_choices t) L)"

definition good :: "place set \<Rightarrow> nat \<Rightarrow> nat \<Rightarrow> spec_result \<Rightarrow> bool" where
  "good S n r u \<longleftrightarrow> (case u of Inl t \<Rightarrow> typed S n r t | Inr e \<Rightarrow> e \<noteq> Fault)"

lemma good_simps [simp]: "good S n r (Inl t) \<longleftrightarrow> typed S n r t" "good S n r (Inr e) \<longleftrightarrow> e \<noteq> Fault"
  by (simp_all add: good_def)

lemma spec_fail_good: "choices_ok S n r cs L \<Longrightarrow> good S n r (spec_fail caps cs)"
  by (induction cs arbitrary: caps L) (auto simp: typed_def split: re_exec_state.splits)

lemma spec_lookahead_good:
  "choices_ok S n r cs ((False, tgt, K) # L) \<Longrightarrow> (tgt, K, L) \<in> S \<Longrightarrow> caps_ok n r K caps \<Longrightarrow>
   good S n r (spec_lookahead caps cs)"
  by (induction cs) (auto simp: typed_def split: re_exec_state.splits)

lemma spec_negative_good: "choices_ok S n r cs ((True, tgt, K) # L) \<Longrightarrow> good S n r (spec_negative cs)"
  by (induction cs) (auto simp: spec_fail_good split: re_exec_state.splits)

section \<open>Captures and registers\<close>

lemma caps_ok_prefix: "caps_ok n r (K1 @ K2) caps \<Longrightarrow> caps_ok n r K1 caps"
proof -
  assume ok: "caps_ok n r (K1 @ K2) caps"
  have "kind_ok (K1 ! i) (caps ! (2 * n + i))" if "i < length K1" for i
  proof -
    have "i < length (K1 @ K2)" using that by simp
    with ok have "kind_ok ((K1 @ K2) ! i) (caps ! (2 * n + i))" unfolding caps_ok_def by blast
    with that show ?thesis by (simp add: nth_append)
  qed
  with ok show ?thesis by (simp add: caps_ok_def)
qed

lemma caps_ok_group: "caps_ok n r K caps \<Longrightarrow> i < 2 * n \<Longrightarrow> group_slot v \<Longrightarrow> caps_ok n r K (caps[i := v])"
  by (auto simp: caps_ok_def nth_list_update)

lemma caps_ok_push:
  "caps_ok n r K caps \<Longrightarrow> length K < r \<Longrightarrow> kind_ok k v \<Longrightarrow> caps_ok n r (K @ [k]) (caps[2 * n + length K := v])"
  by (auto simp: caps_ok_def nth_list_update nth_append less_Suc_eq)

lemma caps_ok_num: "caps_ok n r (K @ RNum # K') caps \<Longrightarrow> \<exists>v. slot_num caps (2 * n + length K) = Some v"
  unfolding caps_ok_def slot_num_def rd_def
  by (auto simp: nth_append dest!: spec [of _ "length K"] elim!: kind_ok.elims)

lemma caps_ok_ptr: "caps_ok n r (K @ [RPtr]) caps \<Longrightarrow> \<exists>b. slot_is_ptr caps (2 * n + length K) q = Some b"
  unfolding caps_ok_def slot_is_ptr_def rd_def
  by (auto simp: nth_append dest!: spec [of _ "length K"] elim!: kind_ok.elims)

lemma caps_ok_keep_num:
  "caps_ok n r (K @ RNum # K') caps \<Longrightarrow> caps_ok n r (K @ RNum # K') (caps[2 * n + length K := SNum v])"
  by (auto simp: caps_ok_def nth_list_update nth_append)

lemma caps_ok_length: "caps_ok n r K caps \<Longrightarrow> 2 * n + length K \<le> length caps \<and> 2 * n + r \<le> length caps"
  by (simp add: caps_ok_def)

section \<open>The ends of an instruction\<close>

fun ctrl_ok :: "place set \<Rightarrow> reg_kind list \<Rightarrow> look list \<Rightarrow> ctrl \<Rightarrow> bool" where
  "ctrl_ok S K L (Go p q) \<longleftrightarrow> (p, K, L) \<in> S"
| "ctrl_ok S K L (Poll p q) \<longleftrightarrow> (p, K, L) \<in> S"
| "ctrl_ok S K L No_match \<longleftrightarrow> True"
| "ctrl_ok S K L Matched \<longleftrightarrow> True"
| "ctrl_ok S K L Lookahead_matched \<longleftrightarrow>
     (\<exists>tgt K1 K2 L'. L = (False, tgt, K1) # L' \<and> (tgt, K1, L') \<in> S \<and> K = K1 @ K2)"
| "ctrl_ok S K L Negative_lookahead_matched \<longleftrightarrow> (\<exists>tgt K1 L'. L = (True, tgt, K1) # L')"
| "ctrl_ok S K L Undefined \<longleftrightarrow> False"

lemma spec_ctrl_good:
  "caps_ok n r K (s_captures t) \<Longrightarrow> choices_ok S n r (s_choices t) L \<Longrightarrow> ctrl_ok S K L c \<Longrightarrow> good S n r (spec_ctrl c t)"
  by (cases c) (auto simp: typed_def intro: spec_fail_good spec_lookahead_good spec_negative_good caps_ok_prefix)

text \<open>An instruction is sound when its effects lead to a state that its control accepts.\<close>

definition sound :: "place set \<Rightarrow> nat \<Rightarrow> nat \<Rightarrow> spec_state \<Rightarrow> micro list \<times> ctrl \<Rightarrow> bool" where
  "sound S n r t = (\<lambda>(ms, c).
     \<exists>t' K' L'. spec_micros ms t = Inl t' \<and> caps_ok n r K' (s_captures t') \<and>
       choices_ok S n r (s_choices t') L' \<and> ctrl_ok S K' L' c)"

lemma soundI:
  "spec_micros ms t = Inl t' \<Longrightarrow> caps_ok n r K' (s_captures t') \<Longrightarrow>
   choices_ok S n r (s_choices t') L' \<Longrightarrow> ctrl_ok S K' L' c \<Longrightarrow> sound S n r t (ms, c)"
  by (auto simp: sound_def)

lemma sound_good:
  "sound S n r t (ms, c) \<Longrightarrow>
   good S n r (case spec_micros ms t of Inl t' \<Rightarrow> spec_ctrl c t' | Inr e \<Rightarrow> Inr e)"
  by (auto simp: sound_def intro: spec_ctrl_good)

section \<open>Reads of the subject\<close>

definition subject_ok :: "re_exec_context \<Rightarrow> bool" where
  "subject_ok ctx \<longleftrightarrow> cbuf_end ctx \<le> length (cbuf ctx)"

lemma next_char_defined: "subject_ok ctx \<Longrightarrow> q < cbuf_end ctx \<Longrightarrow> \<exists>c q'. next_char ctx q = Some (c, q')"
  by (simp add: next_char_def subject_ok_def get_char_defined)

lemma peek_char_defined: "subject_ok ctx \<Longrightarrow> q < cbuf_end ctx \<Longrightarrow> \<exists>c. peek_char (cbuf ctx) (cbuf_end ctx) t q = Some c"
  by (metis fst_conv get_char_defined option.simps(9) peek_char_get subject_ok_def)

lemma peek_prev_char_defined:
  "subject_ok ctx \<Longrightarrow> q \<le> cbuf_end ctx \<Longrightarrow> q \<noteq> 0 \<Longrightarrow> \<exists>c. peek_prev_char (cbuf ctx) 0 t q = Some c"
  using get_prev_char_defined [of q "cbuf ctx" 0 t] by (auto simp: subject_ok_def peek_prev_char_get)

lemma prev_char_defined:
  "subject_ok ctx \<Longrightarrow> q \<le> cbuf_end ctx \<Longrightarrow> q \<noteq> 0 \<Longrightarrow> \<exists>q'. prev_char (cbuf ctx) 0 t q = Some q'"
  using get_prev_char_defined [of q "cbuf ctx" 0 t] by (auto simp: subject_ok_def prev_char_get)

text \<open>A test of the subject fails or goes on at \<open>p\<close>.\<close>

definition goes_on :: "int \<Rightarrow> ctrl \<Rightarrow> bool" where
  "goes_on p c \<longleftrightarrow> c = No_match \<or> (\<exists>q. c = Go p q)"

lemma goes_simps [simp]: "goes_on p No_match" "goes_on p (Go p q)" "\<not> goes_on p Undefined"
  by (simp_all add: goes_on_def)

lemma goes_ctrl_ok: "goes_on p c \<Longrightarrow> (p, K, L) \<in> S \<Longrightarrow> ctrl_ok S K L c"
  by (auto simp: goes_on_def)

text \<open>A position inside the subject.\<close>

locale inside_subject =
  fixes ctx :: re_exec_context and q :: nat
  assumes subject: "subject_ok ctx" and inside: "q \<le> cbuf_end ctx"
begin

lemma exec_char_goes:
  "op \<in> char_ops \<Longrightarrow> fetch16 bc p = Some v \<Longrightarrow> goes_on (p + 2) (exec_char ctx bc op p q)"
  "op \<in> char32_ops \<Longrightarrow> fetch32 bc p = Some v \<Longrightarrow> goes_on (p + 4) (exec_char ctx bc op p q)"
  using next_char_defined [OF subject, of q]
  by (auto simp: exec_char_def char_ops_def char32_ops_def Let_def)

lemma exec_class_goes:
  "goes_on p (exec_dot ctx p q)" "goes_on p (exec_any ctx p q)"
  "goes_on p (exec_space ctx p q)" "goes_on p (exec_not_space ctx p q)"
  using next_char_defined [OF subject, of q] inside by (auto simp: exec_class_defs)

lemma exec_line_start_goes: "goes_on p (exec_line_start ctx op p q)"
  using peek_prev_char_defined [OF subject inside, of "cbuf_type ctx"] by (auto simp: exec_line_start_def)

lemma exec_line_end_goes: "goes_on p (exec_line_end ctx op p q)"
  using peek_char_defined [OF subject, of q "cbuf_type ctx"] inside by (auto simp: exec_line_end_def)

lemma exec_word_boundary_goes: "goes_on p (exec_word_boundary ctx op p q)"
proof -
  obtain c1 where c1: "q \<noteq> 0 \<Longrightarrow> peek_prev_char (cbuf ctx) 0 (cbuf_type ctx) q = Some c1"
    using peek_prev_char_defined [OF subject inside] by metis
  obtain c2 where c2: "\<not> at_end ctx q \<Longrightarrow> peek_char (cbuf ctx) (cbuf_end ctx) (cbuf_type ctx) q = Some c2"
    using peek_char_defined [OF subject, of q "cbuf_type ctx"] by (metis not_le)
  show ?thesis
    using c1 c2 by (cases "q = 0"; cases "at_end ctx q") (simp_all add: exec_word_boundary_def Let_def)
qed

lemma exec_prev_goes: "goes_on p (exec_prev ctx p q)"
  using prev_char_defined [OF subject inside, of "cbuf_type ctx"] by (auto simp: exec_prev_def)

lemma unit_op_goes:
  "op \<in> unit_ops \<Longrightarrow> fst (instr ctx bc op p q caps) = [] \<and> goes_on p (snd (instr ctx bc op p q caps))"
  unfolding unit_ops_def
  by (elim insertE emptyE; hypsubst; simp add: instr_def exec_class_goes exec_line_start_goes
      exec_line_end_goes exec_word_boundary_goes exec_prev_goes)

end

section \<open>Back references\<close>

lemma back_ref_forward_goes:
  assumes "subject_ok ctx" and "e1 \<le> cbuf_end ctx" and "q \<le> cbuf_end ctx"
  shows "goes_on p (back_ref_forward ctx icase p q1 e1 q)"
  using assms
proof (induction ctx icase p q1 e1 q rule: back_ref_forward.induct)
  case (1 ctx icase p q1 e1 q)
  show ?case
  proof (cases "q1 < e1 \<and> q < cbuf_end ctx")
    case True
    then obtain c1 r1 where c1: "get_char (cbuf ctx) e1 (cbuf_type ctx) q1 = Some (c1, r1)"
      using get_char_defined [of q1 e1 "cbuf ctx" "cbuf_type ctx"] 1(2,3) by (auto simp: subject_ok_def)
    obtain c2 r2 where c2: "next_char ctx q = Some (c2, r2)"
      using next_char_defined [OF 1(2)] True by blast
    have "r2 \<le> cbuf_end ctx" using next_char_in [OF c2] True by simp
    with 1(1) [OF _ _ c1 _ c2] 1(2,3) True c1 c2 show ?thesis
      by (subst back_ref_forward.simps) (auto simp: c1)
  next
    case False
    then show ?thesis by (subst back_ref_forward.simps) auto
  qed
qed

lemma back_ref_backward_goes:
  assumes "subject_ok ctx" and "q1 \<le> cbuf_end ctx" and "q \<le> cbuf_end ctx"
  shows "goes_on p (back_ref_backward ctx icase p q1 s1 q)"
  using assms
proof (induction ctx icase p q1 s1 q rule: back_ref_backward.induct)
  case (1 ctx icase p q1 s1 q)
  show ?case
  proof (cases "s1 < q1 \<and> q \<noteq> 0")
    case True
    obtain c1 r1 where c1: "get_prev_char (cbuf ctx) s1 (cbuf_type ctx) q1 = Some (c1, r1)"
      using get_prev_char_defined [of q1 "cbuf ctx" s1 "cbuf_type ctx"] 1(2,3) True by (auto simp: subject_ok_def)
    obtain c2 r2 where c2: "get_prev_char (cbuf ctx) 0 (cbuf_type ctx) q = Some (c2, r2)"
      using get_prev_char_defined [of q "cbuf ctx" 0 "cbuf_type ctx"] 1(2,4) True by (auto simp: subject_ok_def)
    have "r1 \<le> cbuf_end ctx" "r2 \<le> cbuf_end ctx"
      using prev_char_in [OF c1] prev_char_in [OF c2] 1(3,4) by auto
    with 1(1) [OF _ _ c1 _ c2] 1(2) True c1 c2 show ?thesis
      by (subst back_ref_backward.simps) (auto simp: c1)
  next
    case False
    then show ?thesis by (subst back_ref_backward.simps) auto
  qed
qed

lemma rd_group:
  assumes "caps_ok n r K caps" and "slots_in m caps" and "i < 2 * n"
  shows "rd caps i = Some SNull \<or> (\<exists>p. rd caps i = Some (SPtr p) \<and> p \<le> m)"
proof -
  have "i < length caps" using assms(1,3) by (simp add: caps_ok_def)
  moreover have "group_slot (caps ! i)" using assms(1,3) by (simp add: caps_ok_def)
  moreover have "slot_in m (caps ! i)" using assms(2) calculation(1) by (simp add: slots_in_def)
  ultimately show ?thesis by (cases "caps ! i") (auto simp: rd_def)
qed

lemma fetch8_defined: "0 \<le> p \<Longrightarrow> nat p < length bc \<Longrightarrow> \<exists>v. fetch8 bc p = Some v"
  by (simp add: fetch8_def get_u8_def rd_def)

lemma back_ref_groups_goes:
  assumes "subject_ok ctx" and "q \<le> cbuf_end ctx" and "capture_count ctx = n"
    and "caps_ok n r K caps" and "slots_in (cbuf_end ctx) caps"
    and "0 \<le> p1" and "nat p1 + k \<le> length bc"
  shows "goes_on p (back_ref_groups ctx bc op p1 k p q caps)"
  using assms(6,7)
proof (induction k arbitrary: p1)
  case 0
  then show ?case by simp
next
  case (Suc k)
  obtain v where v: "fetch8 bc p1 = Some v" using fetch8_defined [of p1 bc] Suc.prems by auto
  have IH: "goes_on p (back_ref_groups ctx bc op (p1 + 1) k p q caps)"
    using Suc.prems by (intro Suc.IH) auto
  show ?case
  proof (cases "unat v < n")
    case True
    then have "2 * unat v < 2 * n" "2 * unat v + 1 < 2 * n" by auto
    from rd_group [OF assms(4,5) this(1)] rd_group [OF assms(4,5) this(2)] True IH
    show ?thesis
      using back_ref_forward_goes [OF assms(1) _ assms(2)] back_ref_backward_goes [OF assms(1) _ assms(2)]
      by (auto simp: v assms(3))
  qed (simp add: v assms(3))
qed

section \<open>Tables of ranges\<close>

lemma range_search_defined:
  assumes "\<And>i. unat i < m \<Longrightarrow> entry i \<noteq> None" and "m \<le> 0xffff"
    and "\<And>l h. entry 0 = Some (l, h) \<Longrightarrow> l \<le> c" and "unat hi < m" and "unat lo \<le> unat hi + 1"
  shows "range_search entry c lo hi = Some Hit \<or> range_search entry c lo hi = Some Miss"
  using assms(4,5)
proof (induction "unat hi + 1 - unat lo" arbitrary: lo hi rule: less_induct)
  case less
  show ?case
  proof (cases "lo \<le> hi")
    case False
    then show ?thesis by (simp add: range_search.simps)
  next
    case True
    define idx where "idx = (lo + hi) div 2"
    have le: "unat lo \<le> unat hi" using True by (simp add: word_le_nat_alt)
    have "unat (lo + hi) = unat lo + unat hi"
      using le less.prems(1) assms(2) by (intro unat_add_lem [THEN iffD1]) simp
    then have idx: "unat idx = (unat lo + unat hi) div 2" by (simp add: idx_def unat_div)
    then have b: "unat lo \<le> unat idx" "unat idx \<le> unat hi" using le by auto
    then have im: "unat idx < m" using less.prems(1) by simp
    then obtain l h where lh: "entry idx = Some (l, h)" using assms(1) [of idx] by auto
    have unfold: "range_search entry c lo hi =
        (if c < l then range_search entry c lo (idx - 1)
         else if c > h then range_search entry c (idx + 1) hi else Some Hit)"
      using True lh by (subst range_search.simps) (simp add: idx_def)
    have pos: "idx \<noteq> 0" if "c < l"
      using that assms(3) lh by (metis not_less)
    have down: "unat (idx - 1) = unat idx - 1" if "c < l"
      using pos [OF that] by (simp add: unat_minus_one)
    have up: "unat (idx + 1) = unat idx + 1"
      using im assms(2) by (intro unat_add_lem [THEN iffD1, THEN trans]) simp_all
    have nz: "unat idx \<noteq> 0" if "c < l" using pos [OF that] by (simp add: unat_eq_zero)
    show ?thesis
      unfolding unfold
      using less.hyps [of "idx - 1" lo] less.hyps [of hi "idx + 1"] b im down up nz less.prems
      by auto
  qed
qed

lemma fetch16_defined: "m + 2 \<le> length bc \<Longrightarrow> \<exists>v. fetch16 bc (int m) = Some v"
  by (simp add: fetch16_def get_u16_def)

lemma fetch32_defined: "m + 4 \<le> length bc \<Longrightarrow> \<exists>v. fetch32 bc (int m) = Some v"
  by (simp add: fetch32_def get_u32_def)

lemma fetch16_less: "fetch16 bc p = Some k \<Longrightarrow> unat k < 0x10000"
proof -
  assume "fetch16 bc p = Some k"
  then obtain a b :: u8 where k: "k = ucast a OR push_bit 8 (ucast b)"
    by (auto simp: fetch16_def get_u16_def split: if_splits)
  have "k = take_bit 16 k"
    unfolding k by (rule bit_word_eqI) (auto simp: bit_simps dest: bit_imp_le_length)
  then have "unat k = take_bit 16 (unat k)" by (metis unsigned_take_bit_eq)
  moreover have "take_bit 16 (unat k) < 2 ^ 16" by (rule take_bit_nat_less_exp)
  ultimately show ?thesis by simp
qed

text \<open>The last index of a table, and the reads of an entry.\<close>

lemma table_index:
  assumes "unat (k :: u32) < 0x10000" and "unat (i :: u32) < unat k"
  shows "uint (i * 4) = 4 * uint i" and "uint (i * 8) = 8 * uint i"
proof -
  have "unat (i * 4) = unat i * 4" "unat (i * 8) = unat i * 8"
    using assms by (simp_all add: unat_word_ariths)
  from this [THEN arg_cong [where f = int]] show "uint (i * 4) = 4 * uint i" "uint (i * 8) = 8 * uint i"
    by simp_all
qed

lemma range_entry_defined:
  assumes k: "fetch16 bc p = Some k" "k \<noteq> 0" and i: "unat (i :: u32) < unat k"
  shows "table_fits bc p (2 + 4 * unat k) \<Longrightarrow> range16_entry bc (p + 2) i \<noteq> None"
    and "table_fits bc p (2 + 8 * unat k) \<Longrightarrow> range32_entry bc (p + 2) i \<noteq> None"
proof -
  note u = table_index [OF fetch16_less [OF k(1)] i]
  have ui: "uint i = int (unat i)" by simp
  show "range16_entry bc (p + 2) i \<noteq> None" if fits: "table_fits bc p (2 + 4 * unat k)"
  proof -
    obtain m where m: "p = int m" using fits nonneg_int_cases by (auto simp: table_fits_def)
    have bound: "m + 2 + 4 * unat i + 2 \<le> length bc" "m + 2 + 4 * unat i + 2 + 2 \<le> length bc"
      using fits i m by (auto simp: table_fits_def)
    obtain v v' where v: "fetch16 bc (int (m + 2 + 4 * unat i)) = Some v"
        "fetch16 bc (int (m + 2 + 4 * unat i + 2)) = Some v'"
      using bound [THEN fetch16_defined] by blast
    have e: "int m + 2 + 4 * int (unat i) = int (m + 2 + 4 * unat i)"
      "int (m + 2 + 4 * unat i) + 2 = int (m + 2 + 4 * unat i + 2)" by simp_all
    show ?thesis unfolding range16_entry_def u m ui e v by simp
  qed
  show "range32_entry bc (p + 2) i \<noteq> None" if fits: "table_fits bc p (2 + 8 * unat k)"
  proof -
    obtain m where m: "p = int m" using fits nonneg_int_cases by (auto simp: table_fits_def)
    have bound: "m + 2 + 8 * unat i + 4 \<le> length bc" "m + 2 + 8 * unat i + 4 + 4 \<le> length bc"
      using fits i m by (auto simp: table_fits_def)
    obtain v v' where v: "fetch32 bc (int (m + 2 + 8 * unat i)) = Some v"
        "fetch32 bc (int (m + 2 + 8 * unat i + 4)) = Some v'"
      using bound [THEN fetch32_defined] by blast
    have e: "int m + 2 + 8 * int (unat i) = int (m + 2 + 8 * unat i)"
      "int (m + 2 + 8 * unat i) + 4 = int (m + 2 + 8 * unat i + 4)" by simp_all
    show ?thesis unfolding range32_entry_def u m ui e v by simp
  qed
qed

lemma pred_index:
  assumes "(k :: u32) \<noteq> 0"
  shows "unat (k - 1) < unat k"
proof -
  have "unat k \<noteq> 0" using assms by (simp add: unat_eq_zero)
  then show ?thesis using unat_minus_one [OF assms] by linarith
qed

lemma exec_range_goes:
  assumes "subject_ok ctx" and k: "fetch16 bc p = Some k" "k \<noteq> 0" and fits: "table_fits bc p (2 + 4 * unat k)"
  shows "goes_on (p + 2 + 4 * int (unat k)) (exec_range ctx bc op p q)"
proof (cases "q < cbuf_end ctx")
  case False
  then show ?thesis by (simp add: exec_range_def k Let_def)
next
  case True
  obtain c0 q' where c0: "next_char ctx q = Some (c0, q')"
    using next_char_defined [OF assms(1) True] by blast
  define c where "c = (if op = REOP_range_i then lre_canonicalize c0 (is_unicode ctx) else c0)"
  have entries: "range16_entry bc (p + 2) i \<noteq> None" if "unat i < unat k" for i
    using range_entry_defined(1) [OF k that fits] .
  obtain low h0 where e0: "range16_entry bc (p + 2) 0 = Some (low, h0)"
    using entries [of 0] k(2) by (auto simp: unat_gt_0)
  obtain l1 high where e1: "range16_entry bc (p + 2) (k - 1) = Some (l1, high)"
    using entries [OF pred_index [OF k(2)]] by auto
  have low: "fetch16 bc (p + 2) = Some low"
    using e0 by (auto simp: range16_entry_def split: option.splits)
  have high: "fetch16 bc (p + 2 + uint ((k - 1) * 4) + 2) = Some high"
    using e1 by (auto simp: range16_entry_def split: option.splits)
  have search: "range_search (range16_entry bc (p + 2)) c 0 (k - 1) = Some Hit \<or>
      range_search (range16_entry bc (p + 2)) c 0 (k - 1) = Some Miss" if "low \<le> c"
    using that entries fetch16_less [OF k(1)] pred_index [OF k(2)]
    by (intro range_search_defined [where m = "unat k"]) (auto simp: e0)
  show ?thesis
    unfolding exec_range_def k c0 low high Let_def option.case prod.case c_def [symmetric]
    using search True by (auto simp: search_ctrl_def not_less)
qed

lemma exec_range32_goes:
  assumes "subject_ok ctx" and k: "fetch16 bc p = Some k" "k \<noteq> 0" and fits: "table_fits bc p (2 + 8 * unat k)"
  shows "goes_on (p + 2 + 8 * int (unat k)) (exec_range32 ctx bc op p q)"
proof (cases "q < cbuf_end ctx")
  case False
  then show ?thesis by (simp add: exec_range32_def k Let_def)
next
  case True
  obtain c0 q' where c0: "next_char ctx q = Some (c0, q')"
    using next_char_defined [OF assms(1) True] by blast
  define c where "c = (if op = REOP_range32_i then lre_canonicalize c0 (is_unicode ctx) else c0)"
  have entries: "range32_entry bc (p + 2) i \<noteq> None" if "unat i < unat k" for i
    using range_entry_defined(2) [OF k that fits] .
  obtain low h0 where e0: "range32_entry bc (p + 2) 0 = Some (low, h0)"
    using entries [of 0] k(2) by (auto simp: unat_gt_0)
  obtain l1 high where e1: "range32_entry bc (p + 2) (k - 1) = Some (l1, high)"
    using entries [OF pred_index [OF k(2)]] by auto
  have low: "fetch32 bc (p + 2) = Some low"
    using e0 by (auto simp: range32_entry_def split: option.splits)
  have high: "fetch32 bc (p + 2 + uint ((k - 1) * 8) + 4) = Some high"
    using e1 by (auto simp: range32_entry_def split: option.splits)
  have search: "range_search (range32_entry bc (p + 2)) c 0 (k - 1) = Some Hit \<or>
      range_search (range32_entry bc (p + 2)) c 0 (k - 1) = Some Miss" if "low \<le> c"
    using that entries fetch16_less [OF k(1)] pred_index [OF k(2)]
    by (intro range_search_defined [where m = "unat k"]) (auto simp: e0)
  show ?thesis
    unfolding exec_range32_def k c0 low high Let_def option.case prod.case c_def [symmetric]
    using search True by (auto simp: search_ctrl_def not_less)
qed


section \<open>Each operation is sound\<close>

text \<open>A state of the matcher whose captures and choice points agree with the typing of a place.\<close>

locale typed_state = inside_subject ctx "s_cptr t"
  for S :: "place set" and n :: nat and r :: nat and K :: "reg_kind list" and L :: "look list"
    and t :: spec_state and ctx :: re_exec_context +
  assumes caps: "caps_ok n r K (s_captures t)" and choices: "choices_ok S n r (s_choices t) L"
    and count: "capture_count ctx = n" and slots: "slots_in (cbuf_end ctx) (s_captures t)"
begin

lemma sound_ctrl: "ctrl_ok S K L c \<Longrightarrow> sound S n r t ([], c)"
  using caps choices by (auto simp: sound_def)

lemma sound_goes: "goes_on p c \<Longrightarrow> (p, K, L) \<in> S \<Longrightarrow> sound S n r t ([], c)"
  by (intro sound_ctrl goes_ctrl_ok)

lemma sound_unit: "op \<in> unit_ops \<Longrightarrow> (p, K, L) \<in> S \<Longrightarrow> sound S n r t (instr ctx bc op p (s_cptr t) (s_captures t))"
  using unit_op_goes [of op bc p "s_captures t"] sound_goes by (metis prod.collapse)

lemma sound_char:
  assumes "op \<in> char_ops" "fetch16 bc p = Some v" "(p + 2, K, L) \<in> S"
  shows "sound S n r t (instr ctx bc op p (s_cptr t) (s_captures t))"
proof -
  have "instr ctx bc op p (s_cptr t) (s_captures t) = ([], exec_char ctx bc op p (s_cptr t))"
    using assms(1) unfolding char_ops_def by (elim insertE emptyE; hypsubst; simp add: instr_def)
  with exec_char_goes(1) [OF assms(1,2)] assms(3) show ?thesis by (simp add: sound_goes)
qed

lemma sound_char32:
  assumes "op \<in> char32_ops" "fetch32 bc p = Some v" "(p + 4, K, L) \<in> S"
  shows "sound S n r t (instr ctx bc op p (s_cptr t) (s_captures t))"
proof -
  have "instr ctx bc op p (s_cptr t) (s_captures t) = ([], exec_char ctx bc op p (s_cptr t))"
    using assms(1) unfolding char32_ops_def by (elim insertE emptyE; hypsubst; simp add: instr_def)
  with exec_char_goes(2) [OF assms(1,2)] assms(3) show ?thesis by (simp add: sound_goes)
qed

lemma sound_range:
  assumes "op \<in> range_ops" and k: "fetch16 bc p = Some k" "k \<noteq> 0"
    and "table_fits bc p (2 + 4 * unat k)" and "(p + 2 + 4 * int (unat k), K, L) \<in> S"
  shows "sound S n r t (instr ctx bc op p (s_cptr t) (s_captures t))"
proof -
  have "instr ctx bc op p (s_cptr t) (s_captures t) = ([], exec_range ctx bc op p (s_cptr t))"
    using assms(1) unfolding range_ops_def by (elim insertE emptyE; hypsubst; simp add: instr_def)
  with sound_goes [OF exec_range_goes [OF subject k assms(4)] assms(5)] show ?thesis by simp
qed

lemma sound_range32:
  assumes "op \<in> range32_ops" and k: "fetch16 bc p = Some k" "k \<noteq> 0"
    and "table_fits bc p (2 + 8 * unat k)" and "(p + 2 + 8 * int (unat k), K, L) \<in> S"
  shows "sound S n r t (instr ctx bc op p (s_cptr t) (s_captures t))"
proof -
  have "instr ctx bc op p (s_cptr t) (s_captures t) = ([], exec_range32 ctx bc op p (s_cptr t))"
    using assms(1) unfolding range32_ops_def by (elim insertE emptyE; hypsubst; simp add: instr_def)
  with sound_goes [OF exec_range32_goes [OF subject k assms(4)] assms(5)] show ?thesis by simp
qed

lemma sound_ref:
  assumes "op \<in> ref_ops" "fetch8 bc p = Some k" "table_fits bc p (1 + unat k)" "(p + 1 + int (unat k), K, L) \<in> S"
  shows "sound S n r t (instr ctx bc op p (s_cptr t) (s_captures t))"
proof -
  have "instr ctx bc op p (s_cptr t) (s_captures t) = ([], exec_back_reference ctx bc op p (s_cptr t) (s_captures t))"
    using assms(1) unfolding ref_ops_def by (elim insertE emptyE; hypsubst; simp add: instr_def)
  moreover have "goes_on (p + 1 + int (unat k)) (exec_back_reference ctx bc op p (s_cptr t) (s_captures t))"
    unfolding exec_back_reference_def assms(2) option.case
    using assms(3) by (intro back_ref_groups_goes [OF subject inside count caps slots]) (auto simp: table_fits_def nat_add_distrib)
  ultimately show ?thesis using sound_goes [OF _ assms(4)] by simp
qed

lemma group_index: "i < 2 * n \<Longrightarrow> i < length (s_captures t)"
  using caps by (simp add: caps_ok_def)

lemma sound_put:
  assumes "i < 2 * n" "group_slot v" "ctrl_ok S K L c"
  shows "sound S n r t ([Save_capture i v], c)"
  by (rule soundI [where K' = K and L' = L and t' = "t\<lparr>s_captures := (s_captures t)[i := v]\<rparr>"])
    (use assms caps_ok_group [OF caps assms(1,2)] choices group_index in simp_all)

lemma sound_save:
  assumes "op \<in> save_ops" "reads8 bc p m" "m < n" "(p + 1, K, L) \<in> S"
  shows "sound S n r t (instr ctx bc op p (s_cptr t) (s_captures t))"
proof -
  obtain v where v: "fetch8 bc p = Some v" "unat v < n" using assms(2,3) by (auto simp: reads8_def)
  have "instr ctx bc op p (s_cptr t) (s_captures t) =
      ([Save_capture (2 * unat v + (if op = REOP_save_start then 0 else 1)) (SPtr (s_cptr t))], Go (p + 1) (s_cptr t))"
    using assms(1) unfolding save_ops_def
    by (elim insertE emptyE; hypsubst) (simp_all add: instr_def exec_save_def v count)
  then show ?thesis using v assms(4) by (auto intro!: sound_put)
qed

lemma spec_save_reset:
  assumes "\<forall>v \<in> set vs. v < n" and "caps_ok n r K (s_captures u)"
  shows "\<exists>caps'. spec_micros (concat (map (\<lambda>v. [Save_capture (2 * v) SNull, Save_capture (2 * v + 1) SNull]) vs)) u =
      Inl (u\<lparr>s_captures := caps'\<rparr>) \<and> caps_ok n r K caps'"
  using assms
proof (induction vs arbitrary: u)
  case Nil
  then show ?case by (intro exI [of _ "s_captures u"]) simp
next
  case (Cons v vs)
  let ?caps = "(s_captures u)[2 * v := SNull, 2 * v + 1 := SNull]"
  have len: "2 * v + 1 < length (s_captures u)" using Cons.prems by (auto simp: caps_ok_def)
  have "caps_ok n r K ?caps" using Cons.prems by (intro caps_ok_group) auto
  with Cons.IH [of "u\<lparr>s_captures := ?caps\<rparr>"] Cons.prems(1) obtain caps' where
    "spec_micros (concat (map (\<lambda>v. [Save_capture (2 * v) SNull, Save_capture (2 * v + 1) SNull]) vs))
       (u\<lparr>s_captures := ?caps\<rparr>) = Inl (u\<lparr>s_captures := caps'\<rparr>)" "caps_ok n r K caps'"
    by auto
  with len show ?case by (intro exI [of _ caps']) simp
qed

lemma sound_save_reset:
  assumes "fetch8 bc p = Some v" "reads8 bc (p + 1) m" "m < n" "(p + 2, K, L) \<in> S"
  shows "sound S n r t (instr ctx bc REOP_save_reset p (s_cptr t) (s_captures t))"
proof -
  obtain v2 where v2: "fetch8 bc (p + 1) = Some v2" "unat v2 = m" using assms(2) by (auto simp: reads8_def)
  let ?vs = "[unat v..<unat v2 + 1]"
  obtain caps' where c: "spec_micros (concat (map (\<lambda>v. [Save_capture (2 * v) SNull, Save_capture (2 * v + 1) SNull]) ?vs)) t =
      Inl (t\<lparr>s_captures := caps'\<rparr>)" "caps_ok n r K caps'"
    using spec_save_reset [of ?vs, OF _ caps] assms(3) v2(2) by (metis (lifting) atLeastLessThan_iff atLeastLessThan_upt
        less_Suc_eq_le order_le_less_trans Suc_eq_plus1)
  have op: "instr ctx bc REOP_save_reset p (s_cptr t) (s_captures t) =
      (Check_stack_space (unat (2 * (v2 - v + 1)))
         # concat (map (\<lambda>v. [Save_capture (2 * v) SNull, Save_capture (2 * v + 1) SNull]) ?vs),
       Go (p + 2) (s_cptr t))"
    using assms v2 count by (simp add: instr_def exec_save_reset_def)
  show ?thesis
    unfolding op
    by (rule soundI [where K' = K and L' = L and t' = "t\<lparr>s_captures := caps'\<rparr>"])
      (use c assms(4) choices in \<open>simp_all\<close>)
qed

lemma sound_goto: "jumps bc S p K L \<Longrightarrow> sound S n r t (instr ctx bc REOP_goto p (s_cptr t) (s_captures t))"
  by (auto simp: instr_def exec_goto_def jumps_def intro!: sound_ctrl)

lemma sound_push:
  assumes "(pc', K, L) \<in> S" and "ctrl_ok S K L c"
  shows "sound S n r t ([Push_state pc' q RE_EXEC_STATE_SPLIT], c)"
  by (rule soundI [where K' = K and L' = L and
        t' = "t\<lparr>s_choices := Choice RE_EXEC_STATE_SPLIT pc' q (s_captures t) # s_choices t\<rparr>"])
    (use assms caps choices in auto)

lemma sound_split:
  assumes "op \<in> split_ops" "jumps bc S p K L" "(p + 4, K, L) \<in> S"
  shows "sound S n r t (instr ctx bc op p (s_cptr t) (s_captures t))"
  using assms unfolding split_ops_def
  by (elim insertE emptyE; hypsubst) (auto simp: instr_def exec_split_def jumps_def Let_def intro!: sound_push)

lemma sound_look:
  assumes "op \<in> look_ops" "fetch32 bc p = Some v" "(p + 4 + sint v, K, L) \<in> S"
    "(p + 4, K, (op = REOP_negative_lookahead, p + 4 + sint v, K) # L) \<in> S"
  shows "sound S n r t (instr ctx bc op p (s_cptr t) (s_captures t))"
proof -
  have op: "instr ctx bc op p (s_cptr t) (s_captures t) =
      ([Push_state (p + 4 + sint v) (s_cptr t)
          (if op = REOP_lookahead then RE_EXEC_STATE_LOOKAHEAD else RE_EXEC_STATE_NEGATIVE_LOOKAHEAD)],
       Go (p + 4) (s_cptr t))"
    using assms(1,2) unfolding look_ops_def
    by (elim insertE emptyE; hypsubst; simp add: instr_def exec_lookahead_def Let_def)
  show ?thesis
    unfolding op
    by (rule soundI [where K' = K and L' = "(op = REOP_negative_lookahead, p + 4 + sint v, K) # L" and
          t' = "t\<lparr>s_choices := Choice (if op = REOP_lookahead then RE_EXEC_STATE_LOOKAHEAD
            else RE_EXEC_STATE_NEGATIVE_LOOKAHEAD) (p + 4 + sint v) (s_cptr t) (s_captures t) # s_choices t\<rparr>"])
      (use assms caps choices in \<open>auto simp: look_ops_def\<close>)
qed

text \<open>A register on top of the ones in use, and the number on top of them counted down.\<close>

lemma sound_push_register:
  assumes "length K < r" "kind_ok k v" "ctrl_ok S (K @ [k]) L c"
  shows "sound S n r t ([Save_capture_check (2 * n + length K) v], c)"
proof -
  have "2 * n + length K < length (s_captures t)" using caps assms(1) by (auto simp: caps_ok_def)
  then show ?thesis
    by (intro soundI [where K' = "K @ [k]" and L' = L and
          t' = "t\<lparr>s_captures := (s_captures t)[2 * n + length K := v]\<rparr>"])
      (simp_all add: choices assms(3) caps_ok_push [OF caps assms(1,2)])
qed

lemma sound_set_i32:
  assumes "reads8 bc p (length K)" "fetch32 bc (p + 1) = Some v" "length K < r" "(p + 5, K @ [RNum], L) \<in> S"
  shows "sound S n r t (instr ctx bc REOP_set_i32 p (s_cptr t) (s_captures t))"
  using assms sound_push_register [of RNum "SNum v"]
  by (auto simp: instr_def exec_set_i32_def reads8_def count)

lemma sound_set_char_pos:
  assumes "reads8 bc p (length K)" "length K < r" "(p + 1, K @ [RPtr], L) \<in> S"
  shows "sound S n r t (instr ctx bc REOP_set_char_pos p (s_cptr t) (s_captures t))"
  using assms sound_push_register [of RPtr "SPtr (s_cptr t)"]
  by (auto simp: instr_def exec_set_char_pos_def reads8_def count)

lemma sound_check_advance:
  assumes "K = K1 @ [RPtr]" "reads8 bc p (length K1)" "(p + 1, K1, L) \<in> S"
  shows "sound S n r t (instr ctx bc REOP_check_advance p (s_cptr t) (s_captures t))"
proof -
  obtain b where b: "slot_is_ptr (s_captures t) (2 * n + length K1) (s_cptr t) = Some b"
    using caps_ok_ptr caps assms(1) by blast
  obtain v where v: "fetch8 bc p = Some v" "unat v = length K1" using assms(2) by (auto simp: reads8_def)
  have "instr ctx bc REOP_check_advance p (s_cptr t) (s_captures t) = ([], if b then No_match else Go (p + 1) (s_cptr t))"
    using b by (simp add: instr_def exec_check_advance_def v count)
  moreover have "sound S n r t ([], if b then No_match else Go (p + 1) (s_cptr t))"
    by (rule soundI [where K' = K1 and L' = L and t' = t])
      (use caps_ok_prefix [of n r K1 "[RPtr]"] caps assms choices in auto)
  ultimately show ?thesis by simp
qed

text \<open>
  After the count is stored the loop leaves with the registers \<open>K1\<close> below it, or goes_on on with
  the ones in \<open>K2\<close>, which the count is on top of.
\<close>

lemma sound_count:
  assumes K: "K = K1 @ RNum # K3" and "ctrl_ok S K1 L c \<or> ctrl_ok S (K1 @ [RNum]) L c"
  shows "sound S n r t ([Save_capture_check (2 * n + length K1) (SNum v)], c)"
proof -
  let ?t = "t\<lparr>s_captures := (s_captures t)[2 * n + length K1 := SNum v]\<rparr>"
  have len: "2 * n + length K1 < length (s_captures t)" using caps K by (auto simp: caps_ok_def)
  have c: "caps_ok n r (K1 @ RNum # K3) (s_captures ?t)"
    using caps_ok_keep_num [of n r K1 K3 "s_captures t" v] caps K by simp
  have c1: "caps_ok n r K1 (s_captures ?t)" using caps_ok_prefix [OF c] .
  have c2: "caps_ok n r (K1 @ [RNum]) (s_captures ?t)"
    using caps_ok_prefix [of n r "K1 @ [RNum]" K3] c by simp
  show ?thesis
    using assms(2) len c1 c2 choices
    by (auto intro: soundI [where t' = ?t and L' = L])
qed

lemma sound_count_push:
  assumes K: "K = K1 @ RNum # K3" and "ctrl_ok S K1 L c \<and> (pc', K1 @ [RNum], L) \<in> S \<or>
      ctrl_ok S (K1 @ [RNum]) L c \<and> (pc', K1, L) \<in> S"
  shows "sound S n r t ([Save_capture_check (2 * n + length K1) (SNum v), Push_state pc' q RE_EXEC_STATE_SPLIT], c)"
proof -
  let ?caps = "(s_captures t)[2 * n + length K1 := SNum v]"
  let ?t = "t\<lparr>s_captures := ?caps, s_choices := Choice RE_EXEC_STATE_SPLIT pc' q ?caps # s_choices t\<rparr>"
  have len: "2 * n + length K1 < length (s_captures t)" using caps K by (auto simp: caps_ok_def)
  have c: "caps_ok n r (K1 @ RNum # K3) ?caps"
    using caps_ok_keep_num [of n r K1 K3 "s_captures t" v] caps K by simp
  have c1: "caps_ok n r K1 ?caps" using caps_ok_prefix [OF c] .
  have c2: "caps_ok n r (K1 @ [RNum]) ?caps"
    using caps_ok_prefix [of n r "K1 @ [RNum]" K3] c by simp
  have run: "spec_micros [Save_capture_check (2 * n + length K1) (SNum v), Push_state pc' q RE_EXEC_STATE_SPLIT] t = Inl ?t"
    using len by simp
  show ?thesis
    using assms(2)
  proof (elim disjE conjE)
    assume "ctrl_ok S K1 L c" "(pc', K1 @ [RNum], L) \<in> S"
    with run c1 c2 choices show ?thesis by (intro soundI [where t' = ?t and L' = L and K' = K1]) auto
  next
    assume "ctrl_ok S (K1 @ [RNum]) L c" "(pc', K1, L) \<in> S"
    with run c1 c2 choices show ?thesis by (intro soundI [where t' = ?t and L' = L and K' = "K1 @ [RNum]"]) auto
  qed
qed

lemma sound_loop:
  assumes K: "K = K1 @ [RNum]" and "reads8 bc p (length K1)" "(p + 5, K1, L) \<in> S" "jumps bc S (p + 1) K L"
  shows "sound S n r t (instr ctx bc REOP_loop p (s_cptr t) (s_captures t))"
proof -
  obtain w where w: "slot_num (s_captures t) (2 * n + length K1) = Some w"
    using caps_ok_num caps K by blast
  obtain i where i: "fetch8 bc p = Some i" "unat i = length K1" using assms(2) by (auto simp: reads8_def)
  obtain v where v: "fetch32 bc (p + 1) = Some v" "(p + 5 + sint v, K, L) \<in> S"
    using assms(4) by (auto simp: jumps_def add.assoc)
  have "instr ctx bc REOP_loop p (s_cptr t) (s_captures t) =
      ([Save_capture_check (2 * n + length K1) (SNum (w - 1))],
       if w - 1 \<noteq> 0 then Poll (p + 5 + sint v) (s_cptr t) else Go (p + 5) (s_cptr t))"
    using w by (simp add: instr_def exec_loop_def i v count Let_def)
  then show ?thesis using v(2) assms(3) K by (auto intro!: sound_count [of K1 "[]"])
qed

lemma sound_loop_split_aux:
  assumes K: "K = K1 @ RNum # K3" and op: "op \<in> loop_split_ops \<and> K3 = [] \<or> op \<in> loop_adv_ops \<and> K3 = [RPtr]"
    and "reads8 bc p (length K1)" "fetch32 bc (p + 1) = Some lim" "(p + 9, K1, L) \<in> S"
    and "jumps bc S (p + 5) (K1 @ [RNum]) L"
  shows "sound S n r t (exec_loop_split ctx bc op p (s_cptr t) (s_captures t))"
proof -
  obtain w where w: "slot_num (s_captures t) (2 * n + length K1) = Some w"
    using caps_ok_num caps K by blast
  obtain i where i: "fetch8 bc p = Some i" "unat i = length K1" using assms(3) by (auto simp: reads8_def)
  obtain v where v: "fetch32 bc (p + 5) = Some v" "(p + 9 + sint v, K1 @ [RNum], L) \<in> S"
    using assms(6) by (auto simp: jumps_def add.assoc)
  define adv where "adv = (op = REOP_loop_check_adv_split_goto_first \<or> op = REOP_loop_check_adv_split_next_first)"
  define next_first where "next_first = (op = REOP_loop_split_next_first \<or> op = REOP_loop_check_adv_split_next_first)"
  obtain b where b: "(if adv then slot_is_ptr (s_captures t) (2 * n + length K1 + 1) (s_cptr t) else Some False) = Some b"
  proof (cases adv)
    case True
    then have "K = (K1 @ [RNum]) @ [RPtr]" using K op by (auto simp: adv_def loop_split_ops_def)
    then obtain b where "slot_is_ptr (s_captures t) (2 * n + length (K1 @ [RNum])) (s_cptr t) = Some b"
      using caps_ok_ptr caps by metis
    with True that show ?thesis by simp
  qed (use that in auto)
  note sc = sound_count [OF K] and scp = sound_count_push [OF K]
  have goto: "ctrl_ok S (K1 @ [RNum]) L (Poll (p + 9 + sint v) (s_cptr t))" and leave: "ctrl_ok S K1 L (Go (p + 9) (s_cptr t))"
    and again: "ctrl_ok S (K1 @ [RNum]) L (Go (p + 9 + sint v) (s_cptr t))"
    using v(2) assms(5) by auto
  show ?thesis
    unfolding exec_loop_split_def Let_def i option.case prod.case assms(4) v(1) count w b
      adv_def [symmetric] next_first_def [symmetric]
    using goto leave again v(2) assms(5) by (auto intro!: sc scp)
qed

lemma sound_loop_split:
  assumes "K = K1 @ [RNum]" "op \<in> loop_split_ops" "reads8 bc p (length K1)" "fetch32 bc (p + 1) = Some v"
    "(p + 9, K1, L) \<in> S" "jumps bc S (p + 5) (K1 @ [RNum]) L"
  shows "sound S n r t (instr ctx bc op p (s_cptr t) (s_captures t))"
proof -
  have "instr ctx bc op p (s_cptr t) (s_captures t) = exec_loop_split ctx bc op p (s_cptr t) (s_captures t)"
    using assms(2) unfolding loop_split_ops_def by (elim insertE emptyE; hypsubst; simp add: instr_def)
  with sound_loop_split_aux [of K1 "[]" op] assms show ?thesis by simp
qed

lemma sound_loop_adv:
  assumes "K = K1 @ [RNum, RPtr]" "op \<in> loop_adv_ops" "reads8 bc p (length K1)" "fetch32 bc (p + 1) = Some v"
    "(p + 9, K1, L) \<in> S" "jumps bc S (p + 5) (K1 @ [RNum]) L"
  shows "sound S n r t (instr ctx bc op p (s_cptr t) (s_captures t))"
proof -
  have "instr ctx bc op p (s_cptr t) (s_captures t) = exec_loop_split ctx bc op p (s_cptr t) (s_captures t)"
    using assms(2) unfolding loop_adv_ops_def by (elim insertE emptyE; hypsubst; simp add: instr_def)
  with sound_loop_split_aux [of K1 "[RPtr]" op] assms show ?thesis by simp
qed

lemma wt_op_sound: "wt_op n r bc S op p K L \<Longrightarrow> sound S n r t (instr ctx bc op p (s_cptr t) (s_captures t))"
proof (induction rule: wt_op.cases)
  case wt_match
  then show ?case by (simp add: instr_def sound_ctrl)
next
  case wt_look_match
  then show ?case by (auto simp: instr_def intro!: sound_ctrl)
next
  case wt_neg_match
  then show ?case by (auto simp: instr_def intro!: sound_ctrl)
qed (simp_all add: sound_unit sound_char sound_char32 sound_range sound_range32 sound_ref sound_save
  sound_save_reset sound_goto sound_split sound_look sound_set_i32 sound_set_char_pos
  sound_check_advance sound_loop sound_loop_split sound_loop_adv)

end

text \<open>The state in which the matcher starts, with all captures unset, agrees with the empty typing.\<close>

interpretation start_position: inside_subject "ctx\<lparr>cbuf_end := length (cbuf ctx)\<rparr>" 0 for ctx
  by unfold_locales (simp_all add: subject_ok_def)

interpretation start_state: typed_state S "capture_count ctx" r "[]" "[]"
    "spec_init p 0 (replicate (2 * capture_count ctx + r) SNull)" "ctx\<lparr>cbuf_end := length (cbuf ctx)\<rparr>"
  for S r p ctx
  by unfold_locales (auto simp: spec_init_def caps_ok_def subject_ok_def slots_in_def)

section \<open>Runs of well-typed code\<close>

lemma spec_step_good:
  assumes code: "wt_code n r bc S" and "typed S n r t" and inv: "state_in (cbuf_end ctx) k t"
    and "subject_ok ctx" and "capture_count ctx = n"
  shows "good S n r (spec_step bc ctx t)"
proof -
  obtain K L where place: "(s_pc t, K, L) \<in> S" and caps: "caps_ok n r K (s_captures t)"
    and choices: "choices_ok S n r (s_choices t) L"
    using assms(2) by (auto simp: typed_def)
  obtain op where op: "fetch8 bc (s_pc t) = Some (ucast (reop_byte op))" "wt_op n r bc S op (s_pc t + 1) K L"
    using code place by (fastforce simp: wt_code_def wt_place_def)
  have "typed_state S n r K L t ctx"
    using caps choices assms(4,5) inv
    by (simp add: typed_state_def inside_subject_def typed_state_axioms_def state_in_def)
  then have "sound S n r t (instr ctx bc op (s_pc t + 1) (s_cptr t) (s_captures t))"
    using op(2) by (rule typed_state.wt_op_sound)
  then show ?thesis
    by (auto simp: spec_step_def op(1) reop_of_reop_byte case_prod_beta dest: sound_good [of S n r t "fst x" "snd x" for x, unfolded prod.collapse])
qed

definition safe_state :: "u8 list \<Rightarrow> re_exec_context \<Rightarrow> place set \<Rightarrow> nat \<Rightarrow> nat \<Rightarrow> spec_state \<Rightarrow> bool" where
  "safe_state bc ctx S r k t \<longleftrightarrow>
     wt_code (capture_count ctx) r bc S \<and> subject_ok ctx \<and> typed S (capture_count ctx) r t \<and>
     state_in (cbuf_end ctx) k t"

lemma safe_state_good:
  "safe_state bc ctx S r k t \<Longrightarrow> good S (capture_count ctx) r (spec_step bc ctx t)"
  using spec_step_good by (auto simp: safe_state_def)

interpretation safe: loop_invariant "safe_state bc ctx S r k" "\<lambda>e. e \<noteq> Fault" "spec_step bc ctx"
  for bc ctx S r k
proof
  fix s s'
  assume safe: "safe_state bc ctx S r k s" and step: "spec_step bc ctx s = Inl s'"
  have "state_in (cbuf_end ctx) k s'" using safe step bounds.keeps by (auto simp: safe_state_def)
  with safe_state_good [OF safe] safe step show "safe_state bc ctx S r k s'"
    by (simp add: safe_state_def)
next
  fix s e
  assume safe: "safe_state bc ctx S r k s" and step: "spec_step bc ctx s = Inr e"
  from safe_state_good [OF safe] step show "e \<noteq> Fault" by simp
qed

lemma wt_backtrack_safe:
  assumes code: "wt_code (capture_count ctx) r bc S" and start: "(p, [], []) \<in> S" and "subject_ok ctx"
    and q: "q \<le> cbuf_end ctx" and caps: "caps_ok (capture_count ctx) r [] caps" "slots_in (cbuf_end ctx) caps"
  shows "lre_exec_backtrack alloc bc ctx (exec_init p q caps) \<noteq> Some Fault"
proof
  assume run: "lre_exec_backtrack alloc bc ctx (exec_init p q caps) = Some Fault"
  have "safe_state bc ctx S r (length caps) (spec_init p q caps)"
    using assms by (auto simp: safe_state_def typed_def state_in_def spec_init_def choices_in_def)
  moreover have "loop (spec_step bc ctx) (spec_init p q caps) = Some Fault"
    using run.loop_sound [OF refines_init, of alloc bc ctx p q caps Fault] run
    unfolding lre_exec_backtrack_def by (simp add: gives_up_def)
  ultimately show False using safe.loop_result by blast
qed

lemma replicate_caps_ok:
  "2 * n + r \<le> length caps \<Longrightarrow> caps_ok n r [] (replicate (n * 2) SNull @ drop (n * 2) caps)"
  by (auto simp: caps_ok_def nth_append)

lemma wt_exec_safe:
  assumes "lre_get_flags bc = Some fl" and n: "lre_get_capture_count bc = Some n"
    and code: "wt_code n r bc S" and start: "(int RE_HEADER_LEN, [], []) \<in> S"
    and "2 * n + r \<le> length caps0" and "slots_in e caps0" and "e \<le> length units"
    and index: "buf_offset type clen = Some e" "0 \<le> cindex" "cindex \<le> clen"
  shows "lre_exec alloc caps0 bc units cindex clen type \<noteq> Some Fault"
proof
  assume run: "lre_exec alloc caps0 bc units cindex clen type = Some Fault"
  obtain p where p: "buf_offset type cindex = Some p"
    using buf_offset_le [OF index] by blast
  have le: "p \<le> e" by (rule buf_offset_mono [OF p index(1,3)])
  have "\<exists>lo hi. rd units p = Some lo \<and> rd units (p - 1) = Some hi" if "cindex < clen"
    using buf_offset_less [OF p index(1) that] assms(7) by (simp add: rd_def)
  with run assms(1,5) n p index(1) obtain ctx q where
    fault: "lre_exec_backtrack alloc bc ctx
      (exec_init (int RE_HEADER_LEN) q (replicate (n * 2) SNull @ drop (n * 2) caps0)) = Some Fault"
    and ctx: "cbuf_end ctx = e" "cbuf ctx = units" "capture_count ctx = n" and q: "q = p \<or> q = p - 1"
    by (fastforce simp: lre_exec_def Let_def not_less split: option.splits if_splits)
  have slots: "slots_in e (replicate (n * 2) SNull @ drop (n * 2) caps0)"
    using assms(6) by (auto simp: slots_in_iff dest: in_set_dropD)
  have "lre_exec_backtrack alloc bc ctx
      (exec_init (int RE_HEADER_LEN) q (replicate (n * 2) SNull @ drop (n * 2) caps0)) \<noteq> Some Fault"
    using code start ctx q assms(7) le slots replicate_caps_ok [OF assms(5)]
    by (intro wt_backtrack_safe [where S = S and r = r]) (auto simp: subject_ok_def)
  with fault show False by simp
qed

end
