(* ===== verification/CodeTree.thy ===== *)
theory CodeTree
  imports VerifierSound MatchOps
begin

text \<open>
  The shape of the byte code that the compiler emits: a tree whose nodes are the constructs of a
  pattern, each with the instructions around the code of its parts. Every jump goes to the start
  or the end of a part, a loop keeps its registers on top of the ones outside it, and a lookahead
  ends with its own match. Such code is well typed, so the matcher runs it safely.
\<close>

section \<open>Trees and their code\<close>

datatype code =
    Nop
  | Op reopcode "u8 list"
  | Seq code code
  | Alt code code
  | Opt bool code
  | Star bool code
  | Plus bool code
  | Adv code
  | Loop u32 code
  | Count bool u32 u32 code
  | Count_adv bool u32 u32 code
  | Look bool code

primrec csize :: "code \<Rightarrow> nat" where
  "csize Nop = 0"
| "csize (Op op bs) = 1 + length bs"
| "csize (Seq a b) = csize a + csize b"
| "csize (Alt a b) = 10 + csize a + csize b"
| "csize (Opt gr a) = 5 + csize a"
| "csize (Star gr a) = 10 + csize a"
| "csize (Plus gr a) = 5 + csize a"
| "csize (Adv a) = 4 + csize a"
| "csize (Loop n a) = 12 + csize a"
| "csize (Count gr n lim a) = 16 + csize a"
| "csize (Count_adv gr n lim a) = 18 + csize a"
| "csize (Look neg a) = 6 + csize a"

text \<open>The greedy forms of the operations.\<close>

definition split_op :: "bool \<Rightarrow> reopcode" where
  "split_op gr = (if gr then REOP_split_next_first else REOP_split_goto_first)"

definition back_op :: "bool \<Rightarrow> reopcode" where
  "back_op gr = (if gr then REOP_split_goto_first else REOP_split_next_first)"

definition count_op :: "bool \<Rightarrow> reopcode" where
  "count_op gr = (if gr then REOP_loop_split_goto_first else REOP_loop_split_next_first)"

definition count_adv_op :: "bool \<Rightarrow> reopcode" where
  "count_adv_op gr =
     (if gr then REOP_loop_check_adv_split_goto_first else REOP_loop_check_adv_split_next_first)"

definition look_op :: "bool \<Rightarrow> reopcode" where
  "look_op neg = (if neg then REOP_negative_lookahead else REOP_lookahead)"

definition look_match_op :: "bool \<Rightarrow> reopcode" where
  "look_match_op neg = (if neg then REOP_negative_lookahead_match else REOP_lookahead_match)"

definition fwd :: "nat \<Rightarrow> u8 list" where "fwd n = le32 (word_of_nat n)"
definition bwd :: "nat \<Rightarrow> u8 list" where "bwd n = le32 (- word_of_nat n)"

text \<open>
  The bytes of a tree under \<open>k\<close> registers; \<open>g\<close> gives the operand of a register, 0 until the
  registers are assigned.
\<close>

primrec flat :: "(nat \<Rightarrow> u8) \<Rightarrow> nat \<Rightarrow> code \<Rightarrow> u8 list" where
  "flat g k Nop = []"
| "flat g k (Op op bs) = reop_byte op # bs"
| "flat g k (Seq a b) = flat g k a @ flat g k b"
| "flat g k (Alt a b) =
     reop_byte REOP_split_next_first # fwd (csize a + 5) @ flat g k a @
     reop_byte REOP_goto # fwd (csize b) @ flat g k b"
| "flat g k (Opt gr a) = reop_byte (split_op gr) # fwd (csize a) @ flat g k a"
| "flat g k (Star gr a) =
     reop_byte (split_op gr) # fwd (csize a + 5) @ flat g k a @ reop_byte REOP_goto # bwd (csize a + 10)"
| "flat g k (Plus gr a) = flat g k a @ reop_byte (back_op gr) # bwd (csize a + 5)"
| "flat g k (Adv a) =
     [reop_byte REOP_set_char_pos, g k] @ flat g (k + 1) a @ [reop_byte REOP_check_advance, g k]"
| "flat g k (Loop n a) =
     reop_byte REOP_set_i32 # g k # le32 n @ flat g (k + 1) a @ reop_byte REOP_loop # g k # bwd (csize a + 6)"
| "flat g k (Count gr n lim a) =
     reop_byte REOP_set_i32 # g k # le32 n @ flat g (k + 1) a @
     reop_byte (count_op gr) # g k # le32 lim @ bwd (csize a + 10)"
| "flat g k (Count_adv gr n lim a) =
     reop_byte REOP_set_i32 # g k # le32 n @ [reop_byte REOP_set_char_pos, g (k + 1)] @ flat g (k + 2) a @
     reop_byte (count_adv_op gr) # g k # le32 lim @ bwd (csize a + 12)"
| "flat g k (Look neg a) =
     reop_byte (look_op neg) # fwd (csize a + 1) @ flat g k a @ [reop_byte (look_match_op neg)]"

lemma length_le32 [simp]: "length (le32 v) = 4"
  by (simp add: le32_def)

lemma length_ahead [simp]: "length (fwd n) = 4" "length (bwd n) = 4"
  by (simp_all add: fwd_def bwd_def)

lemma length_flat [simp]: "length (flat g k c) = csize c"
  by (induction c arbitrary: k) simp_all

text \<open>The operands of a simple instruction, with \<open>n\<close> captures.\<close>

inductive op_ok :: "nat \<Rightarrow> reopcode \<Rightarrow> u8 list \<Rightarrow> bool" for n where
  ok_unit: "op \<in> unit_ops \<Longrightarrow> op_ok n op []"
| ok_char: "op \<in> char_ops \<Longrightarrow> op_ok n op (le16 v)"
| ok_char32: "op \<in> char32_ops \<Longrightarrow> op_ok n op (le32 v)"
| ok_range: "op \<in> range_ops \<Longrightarrow> k \<noteq> 0 \<Longrightarrow> length tab = 4 * unat k \<Longrightarrow> op_ok n op (le16 k @ tab)"
| ok_range32: "op \<in> range32_ops \<Longrightarrow> k \<noteq> 0 \<Longrightarrow> length tab = 8 * unat k \<Longrightarrow> op_ok n op (le16 k @ tab)"
| ok_ref: "op \<in> ref_ops \<Longrightarrow> length gs = unat k \<Longrightarrow> op_ok n op (k # gs)"
| ok_save: "op \<in> save_ops \<Longrightarrow> unat m < n \<Longrightarrow> op_ok n op [m]"
| ok_save_reset: "unat b < n \<Longrightarrow> op_ok n REOP_save_reset [a, b]"

primrec code_ok :: "nat \<Rightarrow> code \<Rightarrow> bool" where
  "code_ok n Nop \<longleftrightarrow> True"
| "code_ok n (Op op bs) \<longleftrightarrow> op_ok n op bs"
| "code_ok n (Seq a b) \<longleftrightarrow> code_ok n a \<and> code_ok n b"
| "code_ok n (Alt a b) \<longleftrightarrow> code_ok n a \<and> code_ok n b"
| "code_ok n (Opt gr a) \<longleftrightarrow> code_ok n a"
| "code_ok n (Star gr a) \<longleftrightarrow> code_ok n a"
| "code_ok n (Plus gr a) \<longleftrightarrow> code_ok n a"
| "code_ok n (Adv a) \<longleftrightarrow> code_ok n a"
| "code_ok n (Loop m a) \<longleftrightarrow> code_ok n a"
| "code_ok n (Count gr m lim a) \<longleftrightarrow> code_ok n a"
| "code_ok n (Count_adv gr m lim a) \<longleftrightarrow> code_ok n a"
| "code_ok n (Look neg a) \<longleftrightarrow> code_ok n a"

lemma op_ok_mono: "op_ok n op bs \<Longrightarrow> n \<le> m \<Longrightarrow> op_ok m op bs"
  by (induction rule: op_ok.induct) (simp_all add: op_ok.intros)

lemma code_ok_mono: "code_ok n c \<Longrightarrow> n \<le> m \<Longrightarrow> code_ok m c"
  by (induction c) (auto intro: op_ok_mono)

text \<open>The registers a tree needs.\<close>

primrec regs :: "code \<Rightarrow> nat" where
  "regs Nop = 0"
| "regs (Op op bs) = 0"
| "regs (Seq a b) = max (regs a) (regs b)"
| "regs (Alt a b) = max (regs a) (regs b)"
| "regs (Opt gr a) = regs a"
| "regs (Star gr a) = regs a"
| "regs (Plus gr a) = regs a"
| "regs (Adv a) = regs a + 1"
| "regs (Loop n a) = regs a + 1"
| "regs (Count gr n lim a) = regs a + 1"
| "regs (Count_adv gr n lim a) = regs a + 2"
| "regs (Look neg a) = regs a"

section \<open>The places of a tree\<close>

primrec places :: "int \<Rightarrow> reg_kind list \<Rightarrow> look list \<Rightarrow> code \<Rightarrow> place set" where
  "places p K L Nop = {}"
| "places p K L (Op op bs) = {(p, K, L)}"
| "places p K L (Seq a b) = places p K L a \<union> places (p + int (csize a)) K L b"
| "places p K L (Alt a b) =
     {(p, K, L), (p + 5 + int (csize a), K, L)} \<union> places (p + 5) K L a \<union> places (p + 10 + int (csize a)) K L b"
| "places p K L (Opt gr a) = {(p, K, L)} \<union> places (p + 5) K L a"
| "places p K L (Star gr a) = {(p, K, L), (p + 5 + int (csize a), K, L)} \<union> places (p + 5) K L a"
| "places p K L (Plus gr a) = {(p + int (csize a), K, L)} \<union> places p K L a"
| "places p K L (Adv a) =
     {(p, K, L), (p + 2 + int (csize a), K @ [RPtr], L)} \<union> places (p + 2) (K @ [RPtr]) L a"
| "places p K L (Loop n a) =
     {(p, K, L), (p + 6 + int (csize a), K @ [RNum], L)} \<union> places (p + 6) (K @ [RNum]) L a"
| "places p K L (Count gr n lim a) =
     {(p, K, L), (p + 6 + int (csize a), K @ [RNum], L)} \<union> places (p + 6) (K @ [RNum]) L a"
| "places p K L (Count_adv gr n lim a) =
     {(p, K, L), (p + 6, K @ [RNum], L), (p + 8 + int (csize a), K @ [RNum, RPtr], L)} \<union>
     places (p + 8) (K @ [RNum, RPtr]) L a"
| "places p K L (Look neg a) =
     (let L' = (neg, p + 6 + int (csize a), K) # L in
      {(p, K, L), (p + 5 + int (csize a), K, L')} \<union> places (p + 5) K L' a)"

text \<open>The first place of a tree is where it begins, or where it ends if it has no code.\<close>

lemma entry_place: "csize c = 0 \<or> (p, K, L) \<in> places p K L c"
proof (induction c arbitrary: p)
  case (Seq a b)
  show ?case
    using Seq.IH(1) [of p] Seq.IH(2) [of p] by (cases "csize a = 0") auto
qed (auto simp: Let_def)

lemma entry_in: "places p K L c \<subseteq> S \<Longrightarrow> (p + int (csize c), K, L) \<in> S \<Longrightarrow> (p, K, L) \<in> S"
  using entry_place [of c p K L] by auto

section \<open>Reading the code\<close>

definition code_at :: "u8 list \<Rightarrow> int \<Rightarrow> u8 list \<Rightarrow> bool" where
  "code_at bc p bs \<longleftrightarrow> (\<exists>pre post. bc = pre @ bs @ post \<and> p = int (length pre))"

lemma code_at_append: "code_at bc p (xs @ ys) \<longleftrightarrow> code_at bc p xs \<and> code_at bc (p + int (length xs)) ys"
proof
  assume "code_at bc p (xs @ ys)"
  then obtain pre post where bc: "bc = pre @ xs @ ys @ post" and p: "p = int (length pre)"
    by (auto simp: code_at_def)
  show "code_at bc p xs \<and> code_at bc (p + int (length xs)) ys"
    unfolding code_at_def
    using bc p by (metis append.assoc length_append of_nat_add)
next
  assume a: "code_at bc p xs \<and> code_at bc (p + int (length xs)) ys"
  then obtain pre post where pre: "bc = pre @ xs @ post" "p = int (length pre)"
    unfolding code_at_def by blast
  from a obtain pre' post' where pre': "bc = pre' @ ys @ post'" "p + int (length xs) = int (length pre')"
    unfolding code_at_def by blast
  note bc = pre(1) pre'(1) and p = pre(2) pre'(2)
  have "length (pre @ xs) = length pre'" using p by simp
  moreover have "(pre @ xs) @ post = pre' @ ys @ post'" using bc by simp
  ultimately have "post = ys @ post'" using append_eq_append_conv by blast
  with bc(1) p(1) show "code_at bc p (xs @ ys)" by (auto simp: code_at_def)
qed

lemma code_at_Cons: "code_at bc p (b # bs) \<longleftrightarrow> code_at bc p [b] \<and> code_at bc (p + 1) bs"
  using code_at_append [of bc p "[b]" bs] by simp

lemma code_at_fits: "code_at bc p bs \<Longrightarrow> table_fits bc p (length bs)"
  by (auto simp: code_at_def table_fits_def)

lemma code_at_fetch8: "code_at bc p [b] \<Longrightarrow> fetch8 bc p = Some (ucast b)"
  by (auto simp: code_at_def fetch8_def get_u8_def rd_def)

lemma code_at_fetch16: "code_at bc p (le16 v) \<Longrightarrow> fetch16 bc p = Some (ucast v)"
  by (auto simp: code_at_def fetch16_at)

lemma code_at_fetch32: "code_at bc p (le32 v) \<Longrightarrow> fetch32 bc p = Some v"
  by (auto simp: code_at_def fetch32_at)

lemma sint_word_of_nat: "n < 2 ^ 31 \<Longrightarrow> sint (word_of_nat n :: u32) = int n"
  by (simp add: signed_of_nat signed_take_bit_eq_if_positive take_bit_nat_eq_self bit_iff_odd
      flip: of_nat_take_bit)

lemma sint_minus_word_of_nat: "n < 2 ^ 31 \<Longrightarrow> sint (- word_of_nat n :: u32) = - int n"
proof -
  assume "n < 2 ^ 31"
  then have "signed_take_bit 31 (- int n) = - int n"
    by (intro signed_take_bit_int_eq_self) auto
  moreover have "(- word_of_nat n :: u32) = word_of_int (- int n)" by simp
  ultimately show ?thesis by (simp only: sint_sbintrunc') simp
qed

lemma jumps_fwd: "code_at bc p (fwd n) \<Longrightarrow> n < 2 ^ 31 \<Longrightarrow> (p + 4 + int n, K, L) \<in> S \<Longrightarrow> jumps bc S p K L"
  by (auto simp: jumps_def fwd_def sint_word_of_nat dest!: code_at_fetch32)

lemma jumps_bwd: "code_at bc p (bwd n) \<Longrightarrow> n < 2 ^ 31 \<Longrightarrow> (p + 4 - int n, K, L) \<in> S \<Longrightarrow> jumps bc S p K L"
  by (auto simp: jumps_def bwd_def sint_minus_word_of_nat dest!: code_at_fetch32)

lemma reads8_at: "code_at bc p [word_of_nat m] \<Longrightarrow> m < 256 \<Longrightarrow> reads8 bc p m"
  by (auto simp: reads8_def unsigned_of_nat take_bit_nat_eq_self dest!: code_at_fetch8)

section \<open>Trees are well typed\<close>

lemma wt_placeI:
  "code_at bc q [reop_byte op] \<Longrightarrow> wt_op n r bc S op (q + 1) K L \<Longrightarrow> wt_place n r bc S (q, K, L)"
  by (auto simp: wt_place_def dest!: code_at_fetch8)

lemma op_wt:
  assumes ok: "op_ok n op bs" and at: "code_at bc p (reop_byte op # bs)"
    and exit: "(p + int (1 + length bs), K, L) \<in> S"
  shows "wt_place n r bc S (p, K, L)"
proof (rule wt_placeI)
  show "code_at bc p [reop_byte op]" using at by (simp add: code_at_Cons [of _ _ "reop_byte op" bs])
  have bs: "code_at bc (p + 1) bs" using at by (simp add: code_at_Cons [of _ _ "reop_byte op" bs])
  note fits = code_at_fits [OF bs]
  have w8: "unat (ucast m :: u32) = unat m" for m :: u8
    using unsigned_less [where ?'a = nat, of m] by (simp add: unsigned_ucast_eq take_bit_nat_eq_self)
  have w16: "unat (ucast m :: u32) = unat m" for m :: u16
    using unsigned_less [where ?'a = nat, of m] by (simp add: unsigned_ucast_eq take_bit_nat_eq_self)
  from ok show "wt_op n r bc S op (p + 1) K L"
  proof cases
    case ok_unit
    with exit show ?thesis by (auto intro: wt_unit)
  next
    case (ok_char v)
    with exit bs show ?thesis
      by (auto intro!: wt_char dest!: code_at_fetch16 simp: f16.enc_length algebra_simps)
  next
    case (ok_char32 v)
    with exit bs show ?thesis by (auto intro!: wt_char32 dest!: code_at_fetch32 simp: algebra_simps)
  next
    case (ok_range k tab)
    moreover have "unat (ucast k :: u32) = unat k" by (rule w16)
    moreover have "(ucast k :: u32) \<noteq> 0" using ok_range(3) w16 [of k] by (metis unat_0 unat_eq_zero)
    ultimately show ?thesis
      using bs exit fits by (intro wt_range [where k = "ucast k"])
        (auto simp: code_at_append f16.enc_length algebra_simps dest!: code_at_fetch16)
  next
    case (ok_range32 k tab)
    moreover have "unat (ucast k :: u32) = unat k" by (rule w16)
    moreover have "(ucast k :: u32) \<noteq> 0" using ok_range32(3) w16 [of k] by (metis unat_0 unat_eq_zero)
    ultimately show ?thesis
      using bs exit fits by (intro wt_range32 [where k = "ucast k"])
        (auto simp: code_at_append f16.enc_length algebra_simps dest!: code_at_fetch16)
  next
    case (ok_ref gs k)
    with w8 [of k] bs exit fits show ?thesis
      by (intro wt_ref [where k = "ucast k"]) (auto simp: code_at_Cons [of _ _ k gs] algebra_simps dest!: code_at_fetch8)
  next
    case (ok_save m)
    with w8 [of m] bs exit show ?thesis
      by (intro wt_save [where m = "unat m"]) (auto simp: reads8_def algebra_simps dest!: code_at_fetch8)
  next
    case (ok_save_reset b a)
    with w8 [of b] bs exit show ?thesis
      by (auto intro!: wt_save_reset [where m = "unat b"]
          simp: code_at_Cons [of _ _ a "[b]"] reads8_def algebra_simps dest!: code_at_fetch8)
  qed
qed

definition reg8 :: "nat \<Rightarrow> u8" where "reg8 k = word_of_nat k"

lemma reads8_reg: "code_at bc p [reg8 k] \<Longrightarrow> k < 256 \<Longrightarrow> reads8 bc p k"
  by (simp add: reg8_def reads8_at)

lemma jump_nonempty [simp]: "le32 v \<noteq> []" "fwd n \<noteq> []" "bwd n \<noteq> []"
  by (simp_all add: fwd_def bwd_def le32_def)

lemma code_at_step:
  "bs \<noteq> [] \<Longrightarrow> code_at bc p (b # bs) \<longleftrightarrow> code_at bc p [b] \<and> code_at bc (p + 1) bs"
  by (rule code_at_Cons)

lemmas code_at_parts = code_at_step code_at_append

lemma wt_split_at:
  "code_at bc p [reop_byte op] \<Longrightarrow> op \<in> split_ops \<Longrightarrow> code_at bc (p + 1) (fwd m) \<Longrightarrow> m < 2 ^ 31 \<Longrightarrow>
   (p + 5, K, L) \<in> S \<Longrightarrow> (p + 5 + int m, K, L) \<in> S \<Longrightarrow> wt_place n r bc S (p, K, L)"
  by (rule wt_placeI, assumption, rule wt_split, assumption, rule jumps_fwd) (auto simp: algebra_simps)

lemma wt_split_back_at:
  "code_at bc p [reop_byte op] \<Longrightarrow> op \<in> split_ops \<Longrightarrow> code_at bc (p + 1) (bwd m) \<Longrightarrow> m < 2 ^ 31 \<Longrightarrow>
   (p + 5, K, L) \<in> S \<Longrightarrow> (p + 5 - int m, K, L) \<in> S \<Longrightarrow> wt_place n r bc S (p, K, L)"
  by (rule wt_placeI, assumption, rule wt_split, assumption, rule jumps_bwd) (auto simp: algebra_simps)

lemma wt_goto_at:
  "code_at bc p [reop_byte REOP_goto] \<Longrightarrow> code_at bc (p + 1) (fwd m) \<Longrightarrow> m < 2 ^ 31 \<Longrightarrow>
   (p + 5 + int m, K, L) \<in> S \<Longrightarrow> wt_place n r bc S (p, K, L)"
  by (rule wt_placeI, assumption, rule wt_goto, rule jumps_fwd) (auto simp: algebra_simps)

lemma wt_goto_back_at:
  "code_at bc p [reop_byte REOP_goto] \<Longrightarrow> code_at bc (p + 1) (bwd m) \<Longrightarrow> m < 2 ^ 31 \<Longrightarrow>
   (p + 5 - int m, K, L) \<in> S \<Longrightarrow> wt_place n r bc S (p, K, L)"
  by (rule wt_placeI, assumption, rule wt_goto, rule jumps_bwd) (auto simp: algebra_simps)

lemma split_op_in [simp]: "split_op gr \<in> split_ops" "back_op gr \<in> split_ops"
  by (simp_all add: split_op_def back_op_def split_ops_def)

lemma wt_set_i32_at:
  "code_at bc p [reop_byte REOP_set_i32] \<Longrightarrow> code_at bc (p + 1) [reg8 (length K)] \<Longrightarrow> code_at bc (p + 2) (le32 v) \<Longrightarrow>
   length K < r \<Longrightarrow> r \<le> 256 \<Longrightarrow> (p + 6, K @ [RNum], L) \<in> S \<Longrightarrow> wt_place n r bc S (p, K, L)"
  by (rule wt_placeI, assumption, rule wt_set_i32 [where v = v])
    (auto intro: reads8_reg dest: code_at_fetch32 simp: algebra_simps)

lemma wt_set_char_pos_at:
  "code_at bc p [reop_byte REOP_set_char_pos] \<Longrightarrow> code_at bc (p + 1) [reg8 (length K)] \<Longrightarrow>
   length K < r \<Longrightarrow> r \<le> 256 \<Longrightarrow> (p + 2, K @ [RPtr], L) \<in> S \<Longrightarrow> wt_place n r bc S (p, K, L)"
  by (rule wt_placeI, assumption, rule wt_set_char_pos) (auto intro: reads8_reg simp: algebra_simps)

lemma wt_check_advance_at:
  "code_at bc p [reop_byte REOP_check_advance] \<Longrightarrow> code_at bc (p + 1) [reg8 (length K)] \<Longrightarrow>
   length K < 256 \<Longrightarrow> (p + 2, K, L) \<in> S \<Longrightarrow> wt_place n r bc S (p, K @ [RPtr], L)"
  by (rule wt_placeI, assumption, rule wt_check_advance) (auto intro: reads8_reg simp: algebra_simps)

lemma wt_loop_at:
  "code_at bc p [reop_byte REOP_loop] \<Longrightarrow> code_at bc (p + 1) [reg8 (length K)] \<Longrightarrow> code_at bc (p + 2) (bwd m) \<Longrightarrow>
   length K < 256 \<Longrightarrow> m < 2 ^ 31 \<Longrightarrow> (p + 6, K, L) \<in> S \<Longrightarrow> (p + 6 - int m, K @ [RNum], L) \<in> S \<Longrightarrow>
   wt_place n r bc S (p, K @ [RNum], L)"
  by (rule wt_placeI, assumption, rule wt_loop)
    (auto intro: reads8_reg jumps_bwd simp: algebra_simps)

lemma wt_count_at:
  "code_at bc p [reop_byte (count_op gr)] \<Longrightarrow> code_at bc (p + 1) [reg8 (length K)] \<Longrightarrow>
   code_at bc (p + 2) (le32 lim) \<Longrightarrow> code_at bc (p + 6) (bwd m) \<Longrightarrow>
   length K < 256 \<Longrightarrow> m < 2 ^ 31 \<Longrightarrow> (p + 10, K, L) \<in> S \<Longrightarrow> (p + 10 - int m, K @ [RNum], L) \<in> S \<Longrightarrow>
   wt_place n r bc S (p, K @ [RNum], L)"
  by (rule wt_placeI, assumption, rule wt_loop_split [where v = lim])
    (auto intro: reads8_reg jumps_bwd dest: code_at_fetch32 simp: algebra_simps count_op_def loop_split_ops_def)

lemma wt_count_adv_at:
  "code_at bc p [reop_byte (count_adv_op gr)] \<Longrightarrow> code_at bc (p + 1) [reg8 (length K)] \<Longrightarrow>
   code_at bc (p + 2) (le32 lim) \<Longrightarrow> code_at bc (p + 6) (bwd m) \<Longrightarrow>
   length K < 256 \<Longrightarrow> m < 2 ^ 31 \<Longrightarrow> (p + 10, K, L) \<in> S \<Longrightarrow> (p + 10 - int m, K @ [RNum], L) \<in> S \<Longrightarrow>
   wt_place n r bc S (p, K @ [RNum, RPtr], L)"
  by (rule wt_placeI, assumption, rule wt_loop_adv [where v = lim])
    (auto intro: reads8_reg jumps_bwd dest: code_at_fetch32 simp: algebra_simps count_adv_op_def loop_adv_ops_def)

lemma wt_look_at:
  assumes "code_at bc p [reop_byte (look_op neg)]" "code_at bc (p + 1) (fwd m)" "m < 2 ^ 31"
    "(p + 5 + int m, K, L) \<in> S" "(p + 5, K, (neg, p + 5 + int m, K) # L) \<in> S"
  shows "wt_place n r bc S (p, K, L)"
  by (rule wt_placeI [OF assms(1)], rule wt_look [where v = "word_of_nat m"])
    (use assms code_at_fetch32 [of bc "p + 1" "word_of_nat m"] in
      \<open>auto simp: look_op_def look_ops_def fwd_def sint_word_of_nat algebra_simps\<close>)

lemma wt_look_match_at:
  "code_at bc p [reop_byte (look_match_op neg)] \<Longrightarrow> (tgt, K, L) \<in> S \<Longrightarrow>
   wt_place n r bc S (p, K, (neg, tgt, K) # L)"
  using wt_look_match [of tgt K L S n r bc "p + 1" "[]"]
  by (cases neg) (auto simp: look_match_op_def intro!: wt_placeI wt_neg_match)

lemma code_wt:
  assumes "code_ok n c" and "code_at bc p (flat reg8 (length K) c)" and "csize c < 2 ^ 31"
    and "length K + regs c \<le> r" and "r \<le> 256"
    and "places p K L c \<subseteq> S" and "(p + int (csize c), K, L) \<in> S"
  shows "\<forall>x \<in> places p K L c. wt_place n r bc S x"
  using assms(1-4,6,7)
proof (induction c arbitrary: p K L)
  case Nop
  then show ?case by simp
next
  case (Op op bs)
  then show ?case using op_wt by fastforce
next
  case (Seq a b)
  have at: "code_at bc p (flat reg8 (length K) a)" "code_at bc (p + int (csize a)) (flat reg8 (length K) b)"
    using Seq.prems(2) by (simp_all add: code_at_append)
  have exit: "(p + int (csize a) + int (csize b), K, L) \<in> S" using Seq.prems(6) by (simp add: algebra_simps)
  have mid: "(p + int (csize a), K, L) \<in> S"
     by (rule entry_in [of _ K L b]) (use Seq.prems(5) exit in auto)
  have "\<forall>x \<in> places p K L a. wt_place n r bc S x"
    using Seq.prems by (intro Seq.IH(1) [OF _ at(1) _ _ _ mid]) simp_all
  moreover have "\<forall>x \<in> places (p + int (csize a)) K L b. wt_place n r bc S x"
    using Seq.prems by (intro Seq.IH(2) [OF _ at(2) _ _ _ exit]) simp_all
  ultimately show ?case unfolding places.simps by blast
next
  case (Alt a b)
  have at: "code_at bc p [reop_byte REOP_split_next_first]" "code_at bc (p + 1) (fwd (csize a + 5))"
    "code_at bc (p + 5) (flat reg8 (length K) a)" "code_at bc (p + 5 + int (csize a)) [reop_byte REOP_goto]"
    "code_at bc (p + 5 + int (csize a) + 1) (fwd (csize b))" "code_at bc (p + 10 + int (csize a)) (flat reg8 (length K) b)"
    using Alt.prems(2) by (auto simp: code_at_parts algebra_simps)
  have exit: "(p + 10 + int (csize a) + int (csize b), K, L) \<in> S" using Alt.prems(6) by (simp add: algebra_simps)
  have eb: "(p + 10 + int (csize a), K, L) \<in> S"
     by (rule entry_in [of _ K L b]) (use Alt.prems(5) exit in auto)
  have mid: "(p + 5 + int (csize a), K, L) \<in> S" using Alt.prems(5) by simp
  have ea: "(p + 5, K, L) \<in> S" by (rule entry_in [of _ K L a]) (use Alt.prems(5) mid in auto)
  have "wt_place n r bc S (p, K, L)"
    using at(1,2) Alt.prems(3) ea eb
    by (intro wt_split_at [where op = REOP_split_next_first and m = "csize a + 5"]) (auto simp: split_ops_def algebra_simps)
  moreover have "wt_place n r bc S (p + 5 + int (csize a), K, L)"
    using at(4,5) Alt.prems(3) exit by (intro wt_goto_at [where m = "csize b"]) (auto simp: algebra_simps)
  ultimately show ?case
    using Alt.IH(1) [OF _ at(3) _ _ _ mid] Alt.IH(2) [OF _ at(6) _ _ _ exit] Alt.prems
    by (simp add: ball_Un)
next
  case (Opt gr a)
  have at: "code_at bc p [reop_byte (split_op gr)]" "code_at bc (p + 1) (fwd (csize a))"
    "code_at bc (p + 5) (flat reg8 (length K) a)"
    using Opt.prems(2) by (auto simp: code_at_parts algebra_simps)
  have exit: "(p + 5 + int (csize a), K, L) \<in> S" using Opt.prems(6) by (simp add: algebra_simps)
  have ea: "(p + 5, K, L) \<in> S" by (rule entry_in [of _ K L a]) (use Opt.prems(5) exit in auto)
  have "wt_place n r bc S (p, K, L)"
    using at Opt.prems(3) ea exit by (intro wt_split_at [where op = "split_op gr" and m = "csize a"]) auto
  moreover have "\<forall>x \<in> places (p + 5) K L a. wt_place n r bc S x"
    by (rule Opt.IH [OF _ at(3) _ _ _ exit]) (use Opt.prems in \<open>simp_all add: Let_def\<close>)
  ultimately show ?case by (simp add: Let_def)
next
  case (Star gr a)
  have at: "code_at bc p [reop_byte (split_op gr)]" "code_at bc (p + 1) (fwd (csize a + 5))"
    "code_at bc (p + 5) (flat reg8 (length K) a)" "code_at bc (p + 5 + int (csize a)) [reop_byte REOP_goto]"
    "code_at bc (p + 5 + int (csize a) + 1) (bwd (csize a + 10))"
    using Star.prems(2) by (auto simp: code_at_parts algebra_simps)
  have exit: "(p + 10 + int (csize a), K, L) \<in> S" using Star.prems(6) by (simp add: algebra_simps)
  have mid: "(p + 5 + int (csize a), K, L) \<in> S" and start: "(p, K, L) \<in> S" using Star.prems(5) by auto
  have ea: "(p + 5, K, L) \<in> S" by (rule entry_in [of _ K L a]) (use Star.prems(5) mid in auto)
  have "wt_place n r bc S (p, K, L)"
    using at(1,2) Star.prems(3) ea exit
    by (intro wt_split_at [where op = "split_op gr" and m = "csize a + 5"]) (auto simp: algebra_simps)
  moreover have "wt_place n r bc S (p + 5 + int (csize a), K, L)"
    using at(4,5) Star.prems(3) start by (intro wt_goto_back_at [where m = "csize a + 10"]) (auto simp: algebra_simps)
  moreover have "\<forall>x \<in> places (p + 5) K L a. wt_place n r bc S x"
    by (rule Star.IH [OF _ at(3) _ _ _ mid]) (use Star.prems in \<open>simp_all add: Let_def\<close>)
  ultimately show ?case by (simp add: Let_def)
next
  case (Plus gr a)
  have at: "code_at bc p (flat reg8 (length K) a)" "code_at bc (p + int (csize a)) [reop_byte (back_op gr)]"
    "code_at bc (p + int (csize a) + 1) (bwd (csize a + 5))"
    using Plus.prems(2) by (auto simp: code_at_parts algebra_simps)
  have exit: "(p + int (csize a) + 5, K, L) \<in> S" using Plus.prems(6) by (simp add: algebra_simps)
  have mid: "(p + int (csize a), K, L) \<in> S" using Plus.prems(5) by auto
  have start: "(p, K, L) \<in> S"  by (rule entry_in [of _ K L a]) (use Plus.prems(5) mid in auto)
  have "wt_place n r bc S (p + int (csize a), K, L)"
    using at(2,3) Plus.prems(3) start exit
    by (intro wt_split_back_at [where op = "back_op gr" and m = "csize a + 5"]) (auto simp: algebra_simps)
  moreover have "\<forall>x \<in> places p K L a. wt_place n r bc S x"
    by (rule Plus.IH [OF _ at(1) _ _ _ mid]) (use Plus.prems in \<open>simp_all add: Let_def\<close>)
  ultimately show ?case by (simp add: Let_def)
next
  case (Adv a)
  have at: "code_at bc p [reop_byte REOP_set_char_pos]" "code_at bc (p + 1) [reg8 (length K)]"
    "code_at bc (p + 2) (flat reg8 (length (K @ [RPtr])) a)"
    "code_at bc (p + 2 + int (csize a)) [reop_byte REOP_check_advance]"
    "code_at bc (p + 2 + int (csize a) + 1) [reg8 (length K)]"
    using Adv.prems(2) by (auto simp: code_at_parts algebra_simps)
  have exit: "(p + 2 + int (csize a) + 2, K, L) \<in> S" using Adv.prems(6) by (simp add: algebra_simps)
  have mid: "(p + 2 + int (csize a), K @ [RPtr], L) \<in> S" using Adv.prems(5) by auto
  have ea: "(p + 2, K @ [RPtr], L) \<in> S"  by (rule entry_in [of _ _ _ a]) (use Adv.prems(5) mid in auto)
  have "wt_place n r bc S (p, K, L)"
    using at Adv.prems(4) assms(5) ea by (intro wt_set_char_pos_at) auto
  moreover have "wt_place n r bc S (p + 2 + int (csize a), K @ [RPtr], L)"
    using at Adv.prems(4) assms(5) exit by (intro wt_check_advance_at) auto
  moreover have "\<forall>x \<in> places (p + 2) (K @ [RPtr]) L a. wt_place n r bc S x"
    by (rule Adv.IH [OF _ at(3) _ _ _ mid]) (use Adv.prems in \<open>simp_all add: Let_def\<close>)
  ultimately show ?case by (simp add: Let_def)
next
  case (Loop m a)
  have at: "code_at bc p [reop_byte REOP_set_i32]" "code_at bc (p + 1) [reg8 (length K)]" "code_at bc (p + 2) (le32 m)"
    "code_at bc (p + 6) (flat reg8 (length (K @ [RNum])) a)"
    "code_at bc (p + 6 + int (csize a)) [reop_byte REOP_loop]"
    "code_at bc (p + 6 + int (csize a) + 1) [reg8 (length K)]"
    "code_at bc (p + 6 + int (csize a) + 2) (bwd (csize a + 6))"
    using Loop.prems(2) by (auto simp: code_at_parts algebra_simps)
  have exit: "(p + 6 + int (csize a) + 6, K, L) \<in> S" using Loop.prems(6) by (simp add: algebra_simps)
  have mid: "(p + 6 + int (csize a), K @ [RNum], L) \<in> S" using Loop.prems(5) by auto
  have ea: "(p + 6, K @ [RNum], L) \<in> S"  by (rule entry_in [of _ _ _ a]) (use Loop.prems(5) mid in auto)
  have "wt_place n r bc S (p, K, L)"
    using at Loop.prems(4) assms(5) ea by (intro wt_set_i32_at) auto
  moreover have "wt_place n r bc S (p + 6 + int (csize a), K @ [RNum], L)"
    using at Loop.prems(3,4) assms(5) exit ea by (intro wt_loop_at [where m = "csize a + 6"]) (auto simp: algebra_simps)
  moreover have "\<forall>x \<in> places (p + 6) (K @ [RNum]) L a. wt_place n r bc S x"
    by (rule Loop.IH [OF _ at(4) _ _ _ mid]) (use Loop.prems in \<open>simp_all add: Let_def\<close>)
  ultimately show ?case by (simp add: Let_def)
next
  case (Count gr m lim a)
  have at: "code_at bc p [reop_byte REOP_set_i32]" "code_at bc (p + 1) [reg8 (length K)]" "code_at bc (p + 2) (le32 m)"
    "code_at bc (p + 6) (flat reg8 (length (K @ [RNum])) a)"
    "code_at bc (p + 6 + int (csize a)) [reop_byte (count_op gr)]"
    "code_at bc (p + 6 + int (csize a) + 1) [reg8 (length K)]"
    "code_at bc (p + 6 + int (csize a) + 2) (le32 lim)"
    "code_at bc (p + 6 + int (csize a) + 6) (bwd (csize a + 10))"
    using Count.prems(2) by (auto simp: code_at_parts algebra_simps)
  have exit: "(p + 6 + int (csize a) + 10, K, L) \<in> S" using Count.prems(6) by (simp add: algebra_simps)
  have mid: "(p + 6 + int (csize a), K @ [RNum], L) \<in> S" using Count.prems(5) by auto
  have ea: "(p + 6, K @ [RNum], L) \<in> S"  by (rule entry_in [of _ _ _ a]) (use Count.prems(5) mid in auto)
  have "wt_place n r bc S (p, K, L)"
    using at Count.prems(4) assms(5) ea by (intro wt_set_i32_at) auto
  moreover have "wt_place n r bc S (p + 6 + int (csize a), K @ [RNum], L)"
    using at Count.prems(3,4) assms(5) exit ea by (intro wt_count_at [where m = "csize a + 10" and gr = gr and lim = lim]) (auto simp: algebra_simps)
  moreover have "\<forall>x \<in> places (p + 6) (K @ [RNum]) L a. wt_place n r bc S x"
    by (rule Count.IH [OF _ at(4) _ _ _ mid]) (use Count.prems in \<open>simp_all add: Let_def\<close>)
  ultimately show ?case by (simp add: Let_def)
next
  case (Count_adv gr m lim a)
  have at: "code_at bc p [reop_byte REOP_set_i32]" "code_at bc (p + 1) [reg8 (length K)]" "code_at bc (p + 2) (le32 m)"
    "code_at bc (p + 6) [reop_byte REOP_set_char_pos]" "code_at bc (p + 6 + 1) [reg8 (length (K @ [RNum]))]"
    "code_at bc (p + 8) (flat reg8 (length (K @ [RNum, RPtr])) a)"
    "code_at bc (p + 8 + int (csize a)) [reop_byte (count_adv_op gr)]"
    "code_at bc (p + 8 + int (csize a) + 1) [reg8 (length K)]"
    "code_at bc (p + 8 + int (csize a) + 2) (le32 lim)"
    "code_at bc (p + 8 + int (csize a) + 6) (bwd (csize a + 12))"
    using Count_adv.prems(2) by (auto simp: code_at_parts algebra_simps)
  have exit: "(p + 8 + int (csize a) + 10, K, L) \<in> S" using Count_adv.prems(6) by (simp add: algebra_simps)
  have mid: "(p + 8 + int (csize a), K @ [RNum, RPtr], L) \<in> S" and pos: "(p + 6, K @ [RNum], L) \<in> S"
    using Count_adv.prems(5) by auto
  have ea: "(p + 8, K @ [RNum, RPtr], L) \<in> S"  by (rule entry_in [of _ _ _ a]) (use Count_adv.prems(5) mid in auto)
  have "wt_place n r bc S (p, K, L)"
    using at Count_adv.prems(4) assms(5) pos by (intro wt_set_i32_at) auto
  moreover have "wt_place n r bc S (p + 6, K @ [RNum], L)"
    using at Count_adv.prems(4) assms(5) ea by (intro wt_set_char_pos_at) (auto simp: algebra_simps)
  moreover have "wt_place n r bc S (p + 8 + int (csize a), K @ [RNum, RPtr], L)"
    using at Count_adv.prems(3,4) assms(5) exit pos
    by (intro wt_count_adv_at [where m = "csize a + 12" and gr = gr and lim = lim]) (auto simp: algebra_simps)
  moreover have "\<forall>x \<in> places (p + 8) (K @ [RNum, RPtr]) L a. wt_place n r bc S x"
    by (rule Count_adv.IH [OF _ at(6) _ _ _ mid]) (use Count_adv.prems in \<open>simp_all add: Let_def\<close>)
  ultimately show ?case by (simp add: Let_def)
next
  case (Look neg a)
  let ?L = "(neg, p + 6 + int (csize a), K) # L"
  have at: "code_at bc p [reop_byte (look_op neg)]" "code_at bc (p + 1) (fwd (csize a + 1))"
    "code_at bc (p + 5) (flat reg8 (length K) a)" "code_at bc (p + 5 + int (csize a)) [reop_byte (look_match_op neg)]"
    using Look.prems(2) by (auto simp: code_at_parts algebra_simps)
  have exit: "(p + 6 + int (csize a), K, L) \<in> S" using Look.prems(6) by (simp add: algebra_simps)
  have mid: "(p + 5 + int (csize a), K, ?L) \<in> S" using Look.prems(5) by (auto simp: Let_def)
  have sub: "places (p + 5) K ?L a \<subseteq> S" using Look.prems(5) by (auto simp: Let_def)
  have ea: "(p + 5, K, ?L) \<in> S" using entry_in [OF sub mid] .
  have "wt_place n r bc S (p, K, L)"
    using at(1,2) Look.prems(3) ea exit by (intro wt_look_at [where m = "csize a + 1" and neg = neg]) (auto simp: algebra_simps)
  moreover have "wt_place n r bc S (p + 5 + int (csize a), K, ?L)"
    using at(4) exit by (intro wt_look_match_at) auto
  moreover have "\<forall>x \<in> places (p + 5) K ?L a. wt_place n r bc S x"
    by (rule Look.IH [OF _ at(3) _ _ sub mid]) (use Look.prems in \<open>simp_all add: Let_def\<close>)
  ultimately show ?case by (simp add: Let_def)
qed

section \<open>Programs\<close>

text \<open>
  A program is the code of a tree between a header of eight bytes and the operation \<open>match\<close>; the
  names of the groups may follow.
\<close>

lemma wt_match_at: "code_at bc p [reop_byte REOP_match] \<Longrightarrow> wt_place n r bc S (p, K, [])"
  by (rule wt_placeI, assumption, rule wt_match)

lemma program_wt:
  assumes bc: "bc = hdr @ flat reg8 0 c @ reop_byte REOP_match # names" and hdr: "length hdr = RE_HEADER_LEN"
    and c: "code_ok n c" "csize c < 2 ^ 31" "regs c \<le> r" "r \<le> 256"
  shows "\<exists>S. wt_code n r bc S \<and> (int RE_HEADER_LEN, [], []) \<in> S"
proof -
  let ?p = "int RE_HEADER_LEN" and ?S = "insert (int RE_HEADER_LEN + int (csize c), [], []) (places (int RE_HEADER_LEN) [] [] c)"
  have at: "code_at bc ?p (flat reg8 0 c)" "code_at bc (?p + int (csize c)) [reop_byte REOP_match]"
    unfolding code_at_def
    by (rule exI [of _ hdr], rule exI [of _ "reop_byte REOP_match # names"], use bc hdr in simp,
        rule exI [of _ "hdr @ flat reg8 0 c"], rule exI [of _ names], use bc hdr in simp)
  have "\<forall>x \<in> places ?p [] [] c. wt_place n r bc ?S x"
    using c at(1) by (intro code_wt) auto
  moreover have "wt_place n r bc ?S (?p + int (csize c), [], [])"
    using at(2) by (rule wt_match_at)
  moreover have "(?p, [], []) \<in> ?S" by (rule entry_in [of _ _ _ c]) auto
  ultimately show ?thesis unfolding wt_code_def by (intro exI [of _ ?S]) simp
qed

lemma program_safe:
  assumes bc: "bc = hdr @ flat reg8 0 c @ reop_byte REOP_match # names" and hdr: "length hdr = RE_HEADER_LEN"
    and n: "lre_get_capture_count bc = Some n" and m: "lre_get_alloc_count bc = Some m"
    and c: "code_ok n c" "csize c < 2 ^ 31" "2 * n + regs c \<le> m"
    and caps: "m \<le> length caps0" "slots_in e caps0" and "e \<le> length units"
    and index: "buf_offset type clen = Some e" "0 \<le> cindex" "cindex \<le> clen"
  shows "lre_exec alloc caps0 bc units cindex clen type \<noteq> Some Fault"
proof -
  have len: "RE_HEADER_LEN \<le> length bc" using bc hdr by simp
  then obtain fl where fl: "lre_get_flags bc = Some fl"
    by (auto simp: lre_get_flags_def get_u16_def RE_HEADER_FLAGS_def RE_HEADER_LEN_def)
  have r: "m - 2 * n \<le> 256"
  proof -
    obtain a b where ab: "get_u8 bc RE_HEADER_CAPTURE_COUNT = Some a" "get_u8 bc RE_HEADER_REGISTER_COUNT = Some b"
      "m = unat a * 2 + unat b" "n = unat a"
      using n m by (auto simp: lre_get_alloc_count_def lre_get_capture_count_def split: option.splits)
    then obtain b8 :: u8 where "b = ucast b8" by (auto simp: get_u8_def)
    then have "unat b = unat b8"
      using unsigned_less [where ?'a = nat, of b8] by (simp add: unsigned_ucast_eq take_bit_nat_eq_self)
    with ab unsigned_less [where ?'a = nat, of b8] show ?thesis by simp
  qed
  have "regs c \<le> m - 2 * n" using c(3) by simp
  from program_wt [OF bc hdr c(1,2) this r] obtain S where
    "wt_code n (m - 2 * n) bc S" "(int RE_HEADER_LEN, [], []) \<in> S" by blast
  with fl n c(3) caps assms(10) index show ?thesis
    by (intro wt_exec_safe [where S = S and n = n and r = "m - 2 * n"]) auto
qed

end
