(* ===== verification/ParseState.thy ===== *)
theory ParseState
  imports DynBuf Opcodes RStrings Utf8 UniTable
begin

text \<open>
  The state of the pattern compiler of \<^verbatim>\<open>libregexp/libregexp.c\<close> (\<^verbatim>\<open>REParseState\<close>), the outcome of
  its functions, and the emitters, which append instructions to the byte code.

  The pattern is a block of memory with its terminating zero, and a pointer into it is an index.
  A function of the code that returns -1 after it stored a message is \<open>Fail\<close>; \<open>Fault\<close> is what
  the code leaves undefined: a read outside the pattern, a write outside a buffer, the use of an
  operand that was not initialised, a failed assertion. \<open>No_fuel\<close> is the end of the fuel of a
  recursion.
\<close>

section \<open>Environment, state and outcomes\<close>

text \<open>
  The environment: the success of an allocation, and the Unicode property sets that the escapes
  \<^verbatim>\<open>\p\<close> and \<^verbatim>\<open>\P\<close> look up by name: scripts, general categories, properties and properties of
  sequences. A lookup gives a set, fails for lack of memory (-1) or does not know the name (-2).
\<close>

datatype 'a uni_result = Uni_ok 'a | Uni_memory | Uni_unknown

record re_env =
  e_alloc :: "nat \<Rightarrow> bool"
  e_script :: "u8 list \<Rightarrow> bool \<Rightarrow> char_range uni_result"
  e_category :: "u8 list \<Rightarrow> char_range uni_result"
  e_prop :: "u8 list \<Rightarrow> char_range uni_result"
  e_sequence :: "u8 list \<Rightarrow> u32 list list uni_result"

record re_parse_state =
  s_env :: re_env
  byte_code :: dynbuf
  pat :: "u8 list"
  buf_ptr :: nat
  buf_end :: nat
  s_is_unicode :: bool
  unicode_sets :: bool
  ignore_case :: bool
  multi_line :: bool
  dotall :: bool
  group_name_scope :: u8
  s_capture_count :: nat
  total_capture_count :: int
  has_named_captures :: int
  group_names :: dynbuf
  u_buf :: "u8 list"

definition TMP_BUF_SIZE :: nat where "TMP_BUF_SIZE = 128"

datatype 'a parsed =
    Done 'a re_parse_state
  | Fail re_parse_state
  | Fault re_parse_state
  | No_fuel re_parse_state

fun parse_then :: "'a parsed \<Rightarrow> ('a \<Rightarrow> re_parse_state \<Rightarrow> 'b parsed) \<Rightarrow> 'b parsed" where
  "parse_then (Done x s) f = f x s"
| "parse_then (Fail s) f = Fail s"
| "parse_then (Fault s) f = Fault s"
| "parse_then (No_fuel s) f = No_fuel s"

lemma parse_then_Done [simp]: "parse_then m Done = m"
  by (cases m) simp_all

lemma parse_then_assoc: "parse_then (parse_then m f) g = parse_then m (\<lambda>x s. parse_then (f x s) g)"
  by (cases m) simp_all

text \<open>Reading one byte of the pattern.\<close>

definition at :: "re_parse_state \<Rightarrow> nat \<Rightarrow> (u8 \<Rightarrow> 'a parsed) \<Rightarrow> 'a parsed" where
  "at s p f = (case rd (pat s) p of None \<Rightarrow> Fault s | Some c \<Rightarrow> f c)"

text \<open>An optional value whose absence is undefined behaviour, or a failure with a message.\<close>

definition or_fault :: "re_parse_state \<Rightarrow> 'a option \<Rightarrow> ('a \<Rightarrow> 'b parsed) \<Rightarrow> 'b parsed" where
  "or_fault s x f = (case x of None \<Rightarrow> Fault s | Some v \<Rightarrow> f v)"

definition chars :: "string \<Rightarrow> u8 list" where
  "chars str = map of_char str"

text \<open>
  \<^verbatim>\<open>re_parse_error\<close>: the message goes to the union that the temporary group name also uses.
\<close>

definition set_error :: "u8 list \<Rightarrow> re_parse_state \<Rightarrow> re_parse_state" where
  "set_error msg s = s\<lparr>u_buf := mem_write (u_buf s) 0 (take (TMP_BUF_SIZE - 1) msg @ [0])\<rparr>"

definition re_parse_error :: "u8 list \<Rightarrow> re_parse_state \<Rightarrow> 'a parsed" where
  "re_parse_error msg s = Fail (set_error msg s)"

definition re_parse_out_of_memory :: "re_parse_state \<Rightarrow> 'a parsed" where
  "re_parse_out_of_memory s = re_parse_error (chars ''out of memory'') s"

definition or_memory :: "re_parse_state \<Rightarrow> 'a option \<Rightarrow> ('a \<Rightarrow> 'b parsed) \<Rightarrow> 'b parsed" where
  "or_memory s x f = (case x of None \<Rightarrow> re_parse_out_of_memory s | Some v \<Rightarrow> f v)"

definition or_fail_silently :: "re_parse_state \<Rightarrow> 'a option \<Rightarrow> ('a \<Rightarrow> 'b parsed) \<Rightarrow> 'b parsed" where
  "or_fail_silently s x f = (case x of None \<Rightarrow> Fail s | Some v \<Rightarrow> f v)"

section \<open>Emitting\<close>

definition INT32_MAX :: int where "INT32_MAX = 0x7fffffff"

definition lre_bytecode_realloc :: "re_parse_state \<Rightarrow> nat \<Rightarrow> bool" where
  "lre_bytecode_realloc s n \<longleftrightarrow> \<not> int n > INT32_MAX div 2 \<and> e_alloc (s_env s) n"

definition bc_size :: "re_parse_state \<Rightarrow> nat" where
  "bc_size s = dbuf_size (byte_code s)"

definition emit_u8 :: "u8 \<Rightarrow> re_parse_state \<Rightarrow> re_parse_state" where
  "emit_u8 v s = s\<lparr>byte_code := snd (dbuf_putc (lre_bytecode_realloc s) (byte_code s) v)\<rparr>"

definition emit_u16 :: "u16 \<Rightarrow> re_parse_state \<Rightarrow> re_parse_state" where
  "emit_u16 v s = s\<lparr>byte_code := snd (dbuf_put_u16 (lre_bytecode_realloc s) (byte_code s) v)\<rparr>"

definition emit_u32 :: "u32 \<Rightarrow> re_parse_state \<Rightarrow> re_parse_state" where
  "emit_u32 v s = s\<lparr>byte_code := snd (dbuf_put_u32 (lre_bytecode_realloc s) (byte_code s) v)\<rparr>"

definition re_emit_op :: "u8 \<Rightarrow> re_parse_state \<Rightarrow> re_parse_state" where
  "re_emit_op op s = emit_u8 op s"

text \<open>The offset of the 32-bit operand is returned beside the state.\<close>

definition re_emit_op_u32 :: "u8 \<Rightarrow> u32 \<Rightarrow> re_parse_state \<Rightarrow> nat \<times> re_parse_state" where
  "re_emit_op_u32 op val s =
     (let s = emit_u8 op s; pos = bc_size s in (pos, emit_u32 val s))"

definition re_emit_goto :: "u8 \<Rightarrow> u32 \<Rightarrow> re_parse_state \<Rightarrow> nat \<times> re_parse_state" where
  "re_emit_goto op val s =
     (let s = emit_u8 op s; pos = bc_size s in (pos, emit_u32 (val - word_of_nat (pos + 4)) s))"

definition re_emit_goto_u8 :: "u8 \<Rightarrow> u8 \<Rightarrow> u32 \<Rightarrow> re_parse_state \<Rightarrow> nat \<times> re_parse_state" where
  "re_emit_goto_u8 op arg val s =
     (let s = emit_u8 arg (emit_u8 op s); pos = bc_size s
      in (pos, emit_u32 (val - word_of_nat (pos + 4)) s))"

definition re_emit_goto_u8_u32 :: "u8 \<Rightarrow> u8 \<Rightarrow> u32 \<Rightarrow> u32 \<Rightarrow> re_parse_state \<Rightarrow> nat \<times> re_parse_state" where
  "re_emit_goto_u8_u32 op arg0 arg1 val s =
     (let s = emit_u32 arg1 (emit_u8 arg0 (emit_u8 op s)); pos = bc_size s
      in (pos, emit_u32 (val - word_of_nat (pos + 4)) s))"

definition re_emit_op_u8 :: "u8 \<Rightarrow> u8 \<Rightarrow> re_parse_state \<Rightarrow> re_parse_state" where
  "re_emit_op_u8 op val s = emit_u8 val (emit_u8 op s)"

definition re_emit_op_u16 :: "u8 \<Rightarrow> u16 \<Rightarrow> re_parse_state \<Rightarrow> re_parse_state" where
  "re_emit_op_u16 op val s = emit_u16 val (emit_u8 op s)"

text \<open>Patching bytes that were written before, through the pointer to the buffer.\<close>

definition patch_bytes :: "nat \<Rightarrow> u8 list \<Rightarrow> re_parse_state \<Rightarrow> unit parsed" where
  "patch_bytes pos data s =
     (if pos + length data \<le> length (dbuf_mem (byte_code s)) then
        Done () (s\<lparr>byte_code := (byte_code s)\<lparr>dbuf_mem := mem_write (dbuf_mem (byte_code s)) pos data\<rparr>\<rparr>)
      else Fault s)"

definition patch_u32 :: "nat \<Rightarrow> u32 \<Rightarrow> re_parse_state \<Rightarrow> unit parsed" where
  "patch_u32 pos v s = patch_bytes pos (le32 v) s"

section \<open>Characters, ranges and strings\<close>

definition re_emit_char :: "u32 \<Rightarrow> re_parse_state \<Rightarrow> re_parse_state" where
  "re_emit_char c s =
     (if sint c \<le> 0xffff then
        re_emit_op_u16 (if ignore_case s then reop_byte REOP_char_i else reop_byte REOP_char) (ucast c) s
      else snd (re_emit_op_u32 (if ignore_case s then reop_byte REOP_char32_i else reop_byte REOP_char32) c s))"

fun emit_pairs16 :: "u32 list \<Rightarrow> re_parse_state \<Rightarrow> re_parse_state" where
  "emit_pairs16 (a # b # pts) s =
     (let s = emit_u16 (ucast a) s;
          high = b - 1;
          high = (if high = UINT32_MAX - 1 then 0xffff else high)
      in emit_pairs16 pts (emit_u16 (ucast high) s))"
| "emit_pairs16 pts s = s"

fun emit_pairs32 :: "u32 list \<Rightarrow> re_parse_state \<Rightarrow> re_parse_state" where
  "emit_pairs32 (a # b # pts) s = emit_pairs32 pts (emit_u32 (b - 1) (emit_u32 a s))"
| "emit_pairs32 pts s = s"

definition re_emit_range :: "char_range \<Rightarrow> re_parse_state \<Rightarrow> unit parsed" where
  "re_emit_range cr s =
     (let pts = cr_points cr; len = length pts div 2 in
      if len \<ge> 65535 then re_parse_error (chars ''too many ranges'') s
      else if len = 0 then Done () (snd (re_emit_op_u32 (reop_byte REOP_char32) (- 1) s))
      else
        (let high = pts ! (length pts - 1);
             high = (if high = UINT32_MAX then pts ! (length pts - 2) else high)
         in if high \<le> 0xffff then
              Done () (emit_pairs16 pts
                (re_emit_op_u16 (if ignore_case s then reop_byte REOP_range_i else reop_byte REOP_range)
                  (word_of_nat len) s))
            else
              Done () (emit_pairs32 pts
                (re_emit_op_u16 (if ignore_case s then reop_byte REOP_range32_i else reop_byte REOP_range32)
                  (word_of_nat len) s))))"

definition re_string_cmp_len :: "u32 list \<Rightarrow> u32 list \<Rightarrow> int" where
  "re_string_cmp_len p1 p2 = of_bool (length p1 < length p2) - of_bool (length p1 > length p2)"

interpretation string_cmp: comparator re_string_cmp_len
  by unfold_locales (auto simp: re_string_cmp_len_def of_bool_def split: if_splits)

text \<open>
  The strings of a class, the longest first, each as an alternative. \<open>last_match_pos\<close> chains the
  operands of the jumps behind the class until they are patched; -1 is its end.
\<close>

primrec emit_strings ::
  "bool \<Rightarrow> u32 list list \<Rightarrow> u32 \<Rightarrow> re_parse_state \<Rightarrow> u32 parsed" where
  "emit_strings alts [] last_match_pos s = Done last_match_pos s"
| "emit_strings alts (p # ps) last_match_pos s =
     (if \<not> alts \<and> ps = [] then emit_strings alts ps last_match_pos (fold re_emit_char p s)
      else
        (case re_emit_op_u32 (reop_byte REOP_split_next_first) 0 s of (split_pos, s) \<Rightarrow>
         case re_emit_op_u32 (reop_byte REOP_goto) last_match_pos (fold re_emit_char p s) of (pos, s) \<Rightarrow>
         parse_then (patch_u32 split_pos (word_of_nat (bc_size s) - word_of_nat (split_pos + 4)) s) (\<lambda>_ s.
           emit_strings alts ps (word_of_nat pos) s)))"

primrec patch_matches :: "nat \<Rightarrow> u32 \<Rightarrow> re_parse_state \<Rightarrow> unit parsed" where
  "patch_matches 0 last_match_pos s = No_fuel s"
| "patch_matches (Suc n) last_match_pos s =
     (if last_match_pos = - 1 then Done () s
      else
        or_fault s (get_u32 (dbuf_mem (byte_code s)) (unat last_match_pos)) (\<lambda>next_pos.
        parse_then (patch_u32 (unat last_match_pos) (word_of_nat (bc_size s) - (last_match_pos + 4)) s) (\<lambda>_ s.
          patch_matches n next_pos s)))"

definition emit_class_range :: "bool \<Rightarrow> char_range \<Rightarrow> re_parse_state \<Rightarrow> unit parsed" where
  "emit_class_range is_last cr s =
     (if cr_points cr = [] then Done () s
      else if is_last then re_emit_range cr s
      else
        (case re_emit_op_u32 (reop_byte REOP_split_next_first) 0 s of (split_pos, s) \<Rightarrow>
         parse_then (re_emit_range cr s) (\<lambda>_ s.
           patch_u32 split_pos (word_of_nat (bc_size s) - word_of_nat (split_pos + 4)) s)))"

definition re_emit_string_list :: "re_string_list \<Rightarrow> re_parse_state \<Rightarrow> unit parsed" where
  "re_emit_string_list sl s =
     (if n_strings sl = 0 then re_emit_range (rs_cr sl) s
      else if \<not> e_alloc (s_env s) (8 * n_strings sl) then re_parse_out_of_memory s
      else
        (let strs = map snd (concat (hash_table sl));
             has_empty_string = list_ex (\<lambda>p. p = []) strs;
             tab = filter (\<lambda>p. p \<noteq> []) strs
         in if \<not> length tab \<le> n_strings sl then Fault s
            else
              or_fault s (rqsort re_string_cmp_len tab) (\<lambda>tab.
              parse_then (emit_strings (has_empty_string \<or> cr_points (rs_cr sl) \<noteq> []) tab (- 1) s) (\<lambda>last_match_pos s.
              parse_then (emit_class_range (\<not> has_empty_string) (rs_cr sl) s) (\<lambda>_ s.
                patch_matches (length tab + 1) last_match_pos s)))))"

end
