(* ===== verification/ParseLex.thy ===== *)
theory ParseLex
  imports ParseState
begin

text \<open>
  The lexical level of the pattern parser: decimal numbers, escape sequences, property escapes,
  and the atoms that occur in and outside character classes.
\<close>

section \<open>Digits and escapes\<close>

text \<open>The characters of the syntax.\<close>

abbreviation (input) "c_bang \<equiv> (0x21 :: u8)"
abbreviation (input) "c_dollar \<equiv> (0x24 :: u8)"
abbreviation (input) "c_amp \<equiv> (0x26 :: u8)"
abbreviation (input) "c_lparen \<equiv> (0x28 :: u8)"
abbreviation (input) "c_rparen \<equiv> (0x29 :: u8)"
abbreviation (input) "c_star \<equiv> (0x2a :: u8)"
abbreviation (input) "c_plus \<equiv> (0x2b :: u8)"
abbreviation (input) "c_comma \<equiv> (0x2c :: u8)"
abbreviation (input) "c_minus \<equiv> (0x2d :: u8)"
abbreviation (input) "c_dot \<equiv> (0x2e :: u8)"
abbreviation (input) "c_colon \<equiv> (0x3a :: u8)"
abbreviation (input) "c_less \<equiv> (0x3c :: u8)"
abbreviation (input) "c_equal \<equiv> (0x3d :: u8)"
abbreviation (input) "c_greater \<equiv> (0x3e :: u8)"
abbreviation (input) "c_question \<equiv> (0x3f :: u8)"
abbreviation (input) "c_lbracket \<equiv> (0x5b :: u8)"
abbreviation (input) "c_backslash \<equiv> (0x5c :: u8)"
abbreviation (input) "c_rbracket \<equiv> (0x5d :: u8)"
abbreviation (input) "c_caret \<equiv> (0x5e :: u8)"
abbreviation (input) "c_under \<equiv> (0x5f :: u8)"
abbreviation (input) "c_lbrace \<equiv> (0x7b :: u8)"
abbreviation (input) "c_bar \<equiv> (0x7c :: u8)"
abbreviation (input) "c_rbrace \<equiv> (0x7d :: u8)"

definition is_digit :: "u8 \<Rightarrow> bool" where
  "is_digit c \<longleftrightarrow> 0x30 \<le> c \<and> c \<le> 0x39"

text \<open>\<open>Some (v, p)\<close>, where \<open>v\<close> is -1 on an overflow that is not allowed; the pointer stays then.\<close>

function parse_digits_loop :: "u8 list \<Rightarrow> bool \<Rightarrow> nat \<Rightarrow> int \<Rightarrow> (int \<times> nat) option" where
  "parse_digits_loop mem allow_overflow p v =
     (case rd mem p of
        None \<Rightarrow> None
      | Some c \<Rightarrow>
          if c < 0x30 \<or> c > 0x39 then Some (v, p)
          else
            (let v = v * 10 + uint c - 0x30 in
             if v \<ge> INT32_MAX then
               (if allow_overflow then parse_digits_loop mem allow_overflow (p + 1) INT32_MAX else Some (- 1, p))
             else parse_digits_loop mem allow_overflow (p + 1) v))"
  by pat_completeness auto
termination
  by (relation "measure (\<lambda>(mem, a, p, v). length mem - p)") (auto simp: rd_Some_iff)

declare parse_digits_loop.simps [simp del]

definition parse_digits :: "re_parse_state \<Rightarrow> nat \<Rightarrow> bool \<Rightarrow> (int \<Rightarrow> nat \<Rightarrow> 'a parsed) \<Rightarrow> 'a parsed" where
  "parse_digits s p allow_overflow f =
     or_fault s (parse_digits_loop (pat s) allow_overflow p 0) (\<lambda>(v, q). f v (if v < 0 then p else q))"

definition re_parse_expect :: "u8 \<Rightarrow> nat \<Rightarrow> re_parse_state \<Rightarrow> nat parsed" where
  "re_parse_expect c p s =
     at s p (\<lambda>c1.
     if c1 \<noteq> c then re_parse_error (chars ''expecting '' @ [0x27, c, 0x27]) s
     else Done (p + 1) s)"

text \<open>
  \<^verbatim>\<open>lre_parse_escape\<close>: \<open>p\<close> is behind the backslash. \<open>Some (r, p)\<close> with the character \<open>r\<close>, or -1 for a
  malformed and -2 for an unknown escape, where the pointer stays.
\<close>

function escape_braces :: "u8 list \<Rightarrow> nat \<Rightarrow> u32 \<Rightarrow> (u32 \<times> nat) option option" where
  "escape_braces mem p c =
     (case rd mem p of
        None \<Rightarrow> None
      | Some b \<Rightarrow>
          (let h = from_hex (uint b) in
           if h < 0 then Some None
           else
             (let c = push_bit 4 c OR word_of_int h in
              if c > 0x10FFFF then Some None
              else
                (case rd mem (p + 1) of
                   None \<Rightarrow> None
                 | Some b \<Rightarrow> if b = c_rbrace then Some (Some (c, p + 2)) else escape_braces mem (p + 1) c))))"
  by pat_completeness auto
termination
  by (relation "measure (\<lambda>(mem, p, c). length mem - p)") (auto simp: rd_Some_iff)

declare escape_braces.simps [simp del]

primrec escape_hex :: "nat \<Rightarrow> u8 list \<Rightarrow> nat \<Rightarrow> u32 \<Rightarrow> (u32 \<times> nat) option option" where
  "escape_hex 0 mem p c = Some (Some (c, p))"
| "escape_hex (Suc n) mem p c =
     (case rd mem p of
        None \<Rightarrow> None
      | Some b \<Rightarrow>
          (let h = from_hex (uint b) in
           if h < 0 then Some None else escape_hex n mem (p + 1) (push_bit 4 c OR word_of_int h)))"

text \<open>An escaped high surrogate may be followed by an escaped low one.\<close>

definition escape_pair :: "u8 list \<Rightarrow> nat \<Rightarrow> u32 \<Rightarrow> nat \<Rightarrow> (u32 \<times> nat) option" where
  "escape_pair mem allow_utf16 c p =
     (if is_hi_surrogate c \<and> allow_utf16 = 2 then
        Option.bind (rd mem p) (\<lambda>b0.
        if b0 \<noteq> c_backslash then Some (c, p)
        else
          Option.bind (rd mem (p + 1)) (\<lambda>b1.
          if b1 \<noteq> 0x75 then Some (c, p)
          else
            Option.bind (escape_hex 4 mem (p + 2) 0) (\<lambda>r.
            case r of
              None \<Rightarrow> Some (c, p)
            | Some (c1, _) \<Rightarrow>
                if is_lo_surrogate c1 then Some (from_surrogate c c1, p + 6) else Some (c, p))))
      else Some (c, p))"

definition escape_unicode :: "u8 list \<Rightarrow> nat \<Rightarrow> nat \<Rightarrow> (u32 \<times> nat) option option" where
  "escape_unicode mem allow_utf16 p =
     Option.bind (rd mem p) (\<lambda>b.
     if b = c_lbrace \<and> allow_utf16 \<noteq> 0 then escape_braces mem (p + 1) 0
     else
       Option.bind (escape_hex 4 mem p 0) (\<lambda>r.
       case r of
         None \<Rightarrow> Some None
       | Some (c, p) \<Rightarrow> map_option Some (escape_pair mem allow_utf16 c p)))"

definition escape_octal :: "u8 list \<Rightarrow> nat \<Rightarrow> u8 \<Rightarrow> nat \<Rightarrow> (u32 \<times> nat) option option" where
  "escape_octal mem allow_utf16 b p =
     (let c = ucast b - 0x30 :: u32 in
      Option.bind (rd mem p) (\<lambda>b.
      if allow_utf16 = 2 then
        (if c \<noteq> 0 \<or> is_digit b then Some None else Some (Some (c, p)))
      else
        (let v = ucast b - 0x30 in
         if v > 7 then Some (Some (c, p))
         else
           (let c = push_bit 3 c OR v; p = p + 1 in
            if c \<ge> 32 then Some (Some (c, p))
            else
              Option.bind (rd mem p) (\<lambda>b.
              let v = ucast b - 0x30 in
              if v > 7 then Some (Some (c, p)) else Some (Some (push_bit 3 c OR v, p + 1)))))))"

definition lre_parse_escape :: "u8 list \<Rightarrow> nat \<Rightarrow> nat \<Rightarrow> (int \<times> nat) option" where
  "lre_parse_escape mem pp allow_utf16 =
     Option.bind (rd mem pp) (\<lambda>c.
     let p = pp + 1;
         result = map_option (\<lambda>r. case r of None \<Rightarrow> (- 1, pp) | Some (c, p) \<Rightarrow> (sint (c :: u32), p))
     in if c = 0x62 then Some (8, p)
        else if c = 0x66 then Some (12, p)
        else if c = 0x6e then Some (10, p)
        else if c = 0x72 then Some (13, p)
        else if c = 0x74 then Some (9, p)
        else if c = 0x76 then Some (11, p)
        else if c = 0x78 then result (escape_hex 2 mem p 0)
        else if c = 0x75 then result (escape_unicode mem allow_utf16 p)
        else if 0x30 \<le> c \<and> c \<le> 0x37 then result (escape_octal mem allow_utf16 c p)
        else Some (- 2, pp))"

section \<open>Property escapes\<close>

definition is_unicode_char :: "u8 \<Rightarrow> bool" where
  "is_unicode_char c \<longleftrightarrow>
     (0x30 \<le> c \<and> c \<le> 0x39) \<or> (0x41 \<le> c \<and> c \<le> 0x5a) \<or> (0x61 \<le> c \<and> c \<le> 0x7a) \<or> c = c_under"

text \<open>
  A name or a value goes to an array of 64 bytes; \<open>Some None\<close> is a name that does not fit.
\<close>

function property_name :: "u8 list \<Rightarrow> nat \<Rightarrow> u8 list \<Rightarrow> (u8 list \<times> nat) option option" where
  "property_name mem p name =
     (case rd mem p of
        None \<Rightarrow> None
      | Some c \<Rightarrow>
          if \<not> is_unicode_char c then Some (Some (name, p))
          else if length name \<ge> 64 - 1 then Some None
          else property_name mem (p + 1) (name @ [c]))"
  by pat_completeness auto
termination
  by (relation "measure (\<lambda>(mem, p, name). length mem - p)") (auto simp: rd_Some_iff)

declare property_name.simps [simp del]

text \<open>The strings of a sequence property are added without a look at the status.\<close>

definition seq_prop_cb :: "(nat \<Rightarrow> bool) \<Rightarrow> u32 list \<Rightarrow> re_string_list \<Rightarrow> re_string_list" where
  "seq_prop_cb alloc seq sl = (case re_string_add alloc sl seq of None \<Rightarrow> sl | Some sl \<Rightarrow> sl)"

definition unknown_property_name :: "re_parse_state \<Rightarrow> 'a parsed" where
  "unknown_property_name s = re_parse_error (chars ''unknown unicode property name'') s"

definition range_list :: "char_range \<Rightarrow> re_string_list" where
  "range_list cr = re_string_list_init\<lparr>rs_cr := cr\<rparr>"

definition property_set ::
  "u8 list \<Rightarrow> u8 list \<Rightarrow> bool \<Rightarrow> bool \<Rightarrow> re_parse_state \<Rightarrow> re_string_list parsed" where
  "property_set name val is_inv allow_sequence_prop s =
     (let env = s_env s;
          known = (\<lambda>r msg. case r of
              Uni_ok cr \<Rightarrow> Done (range_list cr) s
            | Uni_memory \<Rightarrow> re_parse_out_of_memory s
            | Uni_unknown \<Rightarrow> re_parse_error msg s)
      in if name = chars ''Script'' \<or> name = chars ''sc'' then
           known (e_script env val False) (chars ''unknown unicode script'')
         else if name = chars ''Script_Extensions'' \<or> name = chars ''scx'' then
           known (e_script env val True) (chars ''unknown unicode script'')
         else if name = chars ''General_Category'' \<or> name = chars ''gc'' then
           known (e_category env val) (chars ''unknown unicode general category'')
         else if val = [] then
           (case e_category env name of
              Uni_ok cr \<Rightarrow> Done (range_list cr) s
            | Uni_memory \<Rightarrow> re_parse_out_of_memory s
            | Uni_unknown \<Rightarrow>
                (case e_prop env name of
                   Uni_ok cr \<Rightarrow> Done (range_list cr) s
                 | Uni_memory \<Rightarrow> re_parse_out_of_memory s
                 | Uni_unknown \<Rightarrow>
                     if \<not> is_inv \<and> allow_sequence_prop then
                       (case e_sequence env name of
                          Uni_ok seqs \<Rightarrow> Done (fold (seq_prop_cb (e_alloc env)) seqs re_string_list_init) s
                        | Uni_memory \<Rightarrow> re_parse_out_of_memory s
                        | Uni_unknown \<Rightarrow> unknown_property_name s)
                     else unknown_property_name s))
         else unknown_property_name s)"

text \<open>Case folding of an operand, which the callers treat alike.\<close>

definition canonicalize_list :: "bool \<Rightarrow> bool \<Rightarrow> re_string_list \<Rightarrow> re_parse_state \<Rightarrow> re_string_list parsed" where
  "canonicalize_list cond is_unicode cr s =
     (if cond then
        or_fault s (re_string_list_canonicalize (e_alloc (s_env s)) cr is_unicode) (\<lambda>r.
        or_memory s r (\<lambda>cr. Done cr s))
      else Done cr s)"

definition property_finish :: "bool \<Rightarrow> re_string_list \<Rightarrow> re_parse_state \<Rightarrow> re_string_list parsed" where
  "property_finish is_inv cr s =
     parse_then (canonicalize_list (ignore_case s \<and> unicode_sets s) (s_is_unicode s) cr s) (\<lambda>cr s.
     parse_then
       (if is_inv then or_memory s (cr_invert (e_alloc (s_env s)) (rs_cr cr)) (\<lambda>c. Done (cr\<lparr>rs_cr := c\<rparr>) s)
        else Done cr s) (\<lambda>cr s.
     canonicalize_list (ignore_case s \<and> \<not> unicode_sets s) (s_is_unicode s) cr s))"

definition parse_unicode_property ::
  "nat \<Rightarrow> bool \<Rightarrow> bool \<Rightarrow> re_parse_state \<Rightarrow> (re_string_list \<times> nat) parsed" where
  "parse_unicode_property p is_inv allow_sequence_prop s =
     at s p (\<lambda>c.
     if c \<noteq> c_lbrace then re_parse_error (chars ''expecting '' @ [0x27, c_lbrace, 0x27] @ chars '' after '' @ [c_backslash, 0x70]) s
     else
       or_fault s (property_name (pat s) (p + 1) []) (\<lambda>r.
       case r of
         None \<Rightarrow> unknown_property_name s
       | Some (name, p) \<Rightarrow>
           at s p (\<lambda>c.
           or_fault s (if c = c_equal then property_name (pat s) (p + 1) [] else Some (Some ([], p))) (\<lambda>r.
           case r of
             None \<Rightarrow> re_parse_error (chars ''unknown unicode property value'') s
           | Some (val, p) \<Rightarrow>
               at s p (\<lambda>c.
               if c \<noteq> c_rbrace then re_parse_error (chars ''expecting '' @ [0x27, c_rbrace, 0x27]) s
               else
                 parse_then (property_set name val is_inv allow_sequence_prop s) (\<lambda>cr s.
                 parse_then (property_finish is_inv cr s) (\<lambda>cr s. Done (cr, p + 1) s)))))))"

section \<open>Atoms of classes\<close>

text \<open>
  \<^verbatim>\<open>get_class_atom\<close>: a character, or a class range, whose code is at least \<open>CLASS_RANGE_BASE\<close> and
  which comes with its operand. The operand of a character is not initialised, so it is \<open>None\<close>.
\<close>

type_synonym class_atom = "u32 \<times> re_string_list option \<times> nat"

definition invalid_escape :: "re_parse_state \<Rightarrow> 'a parsed" where
  "invalid_escape s = re_parse_error (chars ''invalid escape sequence in regular expression'') s"

definition unexpected_end :: "re_parse_state \<Rightarrow> 'a parsed" where
  "unexpected_end s = re_parse_error (chars ''unexpected end'') s"

text \<open>A malformed character is -1, an error without a message.\<close>

definition class_normal_char :: "u32 \<Rightarrow> nat \<Rightarrow> re_parse_state \<Rightarrow> class_atom parsed" where
  "class_normal_char c p s =
     (if c \<ge> 128 then
        or_fault s (unicode_from_utf8 (pat s) p UTF8_CHAR_LEN_MAX) (\<lambda>(c, p).
        if c > 0xffff \<and> \<not> s_is_unicode s then re_parse_error (chars ''malformed unicode char'') s
        else if sint c < 0 then Fail s
        else Done (c, None, p) s)
      else Done (c, None, p + 1) s)"

definition class_default_escape :: "u32 \<Rightarrow> nat \<Rightarrow> re_parse_state \<Rightarrow> class_atom parsed" where
  "class_default_escape c p s =
     (let p = p - 1 in
      or_fault s (lre_parse_escape (pat s) p (if s_is_unicode s then 2 else 0)) (\<lambda>(ret, q).
      if ret \<ge> 0 then Done (word_of_int ret, None, q) s
      else if s_is_unicode s then invalid_escape s
      else class_normal_char c p s))"

definition class_range_escape :: "bool \<Rightarrow> u32 \<Rightarrow> nat \<Rightarrow> re_parse_state \<Rightarrow> class_atom parsed" where
  "class_range_escape has_cr c p s =
     (if \<not> has_cr then class_default_escape c p s
      else
        or_fail_silently s (cr_init_char_range (e_alloc (s_env s)) c) (\<lambda>cr.
          Done (c + CLASS_RANGE_BASE, Some cr, p) s))"

text \<open>\<^verbatim>\<open>\c\<close> with a control letter; Annex B allows digits and the underscore in a class.\<close>

definition class_control_escape :: "bool \<Rightarrow> nat \<Rightarrow> re_parse_state \<Rightarrow> class_atom parsed" where
  "class_control_escape inclass p s =
     at s p (\<lambda>c.
     if (0x61 \<le> c \<and> c \<le> 0x7a) \<or> (0x41 \<le> c \<and> c \<le> 0x5a) \<or>
        (((0x30 \<le> c \<and> c \<le> 0x39) \<or> c = c_under) \<and> inclass \<and> \<not> s_is_unicode s)
     then Done (ucast c AND 0x1f, None, p + 1) s
     else if s_is_unicode s then invalid_escape s
     else Done (ucast c_backslash, None, p - 1) s)"

definition always_escapable :: "u8 list" where
  "always_escapable =
     [c_caret, c_dollar, c_backslash, c_dot, c_star, c_plus, c_question, c_lparen, c_rparen,
      c_lbracket, c_rbracket, c_lbrace, c_rbrace, c_bar, 0x2f]"

definition double_punctuators :: "u8 list" where
  "double_punctuators =
     [c_amp, c_bang, 0x23, c_dollar, 0x25, c_star, c_plus, c_comma, c_dot, c_colon, 0x3b, c_less,
      c_equal, c_greater, c_question, 0x40, c_caret, 0x60, 0x7e]"

definition class_syntax_chars :: "u8 list" where
  "class_syntax_chars =
     [c_lparen, c_rparen, c_lbracket, c_rbracket, c_lbrace, c_rbrace, 0x2f, c_minus, c_bar]"

text \<open>
  The escape after the backslash; \<open>qd\<close> parses the operand of \<^verbatim>\<open>\q\<close>, which calls back for its
  characters without an operand.
\<close>

definition class_escape ::
  "(nat \<Rightarrow> re_parse_state \<Rightarrow> (re_string_list \<times> nat) parsed) \<Rightarrow>
   bool \<Rightarrow> bool \<Rightarrow> nat \<Rightarrow> re_parse_state \<Rightarrow> class_atom parsed" where
  "class_escape qd has_cr inclass p s =
     (if p \<ge> buf_end s then unexpected_end s
      else
        at s p (\<lambda>b.
        let c = ucast b; p = p + 1 in
        if b = 0x64 then class_range_escape has_cr CHAR_RANGE_d p s
        else if b = 0x44 then class_range_escape has_cr CHAR_RANGE_D p s
        else if b = 0x73 then class_range_escape has_cr CHAR_RANGE_s p s
        else if b = 0x53 then class_range_escape has_cr CHAR_RANGE_S p s
        else if b = 0x77 then class_range_escape has_cr CHAR_RANGE_w p s
        else if b = 0x57 then class_range_escape has_cr CHAR_RANGE_W p s
        else if b = 0x63 then class_control_escape inclass p s
        else if b = c_minus then
          (if \<not> inclass \<and> s_is_unicode s then invalid_escape s else Done (c, None, p) s)
        else if b \<in> set always_escapable then Done (c, None, p) s
        else if (b = 0x70 \<or> b = 0x50) \<and> s_is_unicode s \<and> has_cr then
          parse_then (parse_unicode_property p (b = 0x50) (unicode_sets s) s) (\<lambda>(cr, p) s.
            Done (CLASS_RANGE_BASE, Some cr, p) s)
        else if b = 0x71 \<and> unicode_sets s \<and> has_cr \<and> inclass then
          parse_then (qd p s) (\<lambda>(cr, p) s. Done (CLASS_RANGE_BASE, Some cr, p) s)
        else class_default_escape c p s))"

definition class_atom_with ::
  "(nat \<Rightarrow> re_parse_state \<Rightarrow> (re_string_list \<times> nat) parsed) \<Rightarrow>
   bool \<Rightarrow> nat \<Rightarrow> bool \<Rightarrow> re_parse_state \<Rightarrow> class_atom parsed" where
  "class_atom_with qd has_cr p inclass s =
     at s p (\<lambda>b.
     let c = ucast b in
     if b = c_backslash then class_escape qd has_cr inclass (p + 1) s
     else if b = 0 \<and> p \<ge> buf_end s then unexpected_end s
     else if b \<in> set double_punctuators then
       (if unicode_sets s then
          at s (p + 1) (\<lambda>b1.
          if b1 = b then re_parse_error (chars ''invalid class set operation in regular expression'') s
          else class_normal_char c p s)
        else class_normal_char c p s)
     else if b \<in> set class_syntax_chars \<and> unicode_sets s then
       re_parse_error (chars ''invalid character in class in regular expression'') s
     else class_normal_char c p s)"

text \<open>The characters of a \<^verbatim>\<open>\q\<close> string are atoms without an operand, which never get to \<open>qd\<close>.\<close>

definition get_plain_atom :: "nat \<Rightarrow> re_parse_state \<Rightarrow> class_atom parsed" where
  "get_plain_atom p s = class_atom_with (\<lambda>_ s. Fault s) False p False s"

section \<open>String disjunctions\<close>

text \<open>\<open>str\<close> is the buffer of the characters, 32 bits each.\<close>

definition dbuf_u32s :: "dynbuf \<Rightarrow> u32 list option" where
  "dbuf_u32s d =
     those (map (\<lambda>i. get_u32 (dbuf_mem d) (4 * i)) [0..<dbuf_size d div 4])"

primrec string_chars :: "nat \<Rightarrow> nat \<Rightarrow> dynbuf \<Rightarrow> re_parse_state \<Rightarrow> (dynbuf \<times> nat) parsed" where
  "string_chars 0 p str s = No_fuel s"
| "string_chars (Suc n) p str s =
     at s p (\<lambda>b.
     if b = c_rbrace \<or> b = c_bar then Done (str, p) s
     else
       parse_then (get_plain_atom p s) (\<lambda>(c, _, p) s.
       case dbuf_put_u32 (e_alloc (s_env s)) str c of (rc, str) \<Rightarrow>
         if rc \<noteq> 0 then re_parse_out_of_memory s else string_chars n p str s))"

primrec string_alternatives ::
  "nat \<Rightarrow> nat \<Rightarrow> dynbuf \<Rightarrow> re_string_list \<Rightarrow> re_parse_state \<Rightarrow> (re_string_list \<times> nat) parsed" where
  "string_alternatives 0 p str cr s = No_fuel s"
| "string_alternatives (Suc n) p str cr s =
     parse_then (string_chars (length (pat s) + 1) p (str\<lparr>dbuf_size := 0\<rparr>) s) (\<lambda>(str, p) s.
     or_fault s (dbuf_u32s str) (\<lambda>buf.
     or_memory s (re_string_add (e_alloc (s_env s)) cr buf) (\<lambda>cr.
     at s p (\<lambda>b.
     if b = c_rbrace then Done (cr, p) s else string_alternatives n (p + 1) str cr s))))"

definition parse_class_string_disjunction :: "nat \<Rightarrow> re_parse_state \<Rightarrow> (re_string_list \<times> nat) parsed" where
  "parse_class_string_disjunction p s =
     at s p (\<lambda>b.
     if b \<noteq> c_lbrace then re_parse_error (chars ''expecting '' @ [0x27, c_lbrace, 0x27] @ chars '' after '' @ [c_backslash, 0x71]) s
     else
       parse_then (string_alternatives (length (pat s) + 1) (p + 1) dbuf_init2 re_string_list_init s) (\<lambda>(cr, p) s.
       if ignore_case s then
         or_fault s (re_string_list_canonicalize (e_alloc (s_env s)) cr True) (\<lambda>r.
         or_fail_silently s r (\<lambda>cr. Done (cr, p + 1) s))
       else Done (cr, p + 1) s))"

definition get_class_atom :: "nat \<Rightarrow> bool \<Rightarrow> re_parse_state \<Rightarrow> class_atom parsed" where
  "get_class_atom p inclass s = class_atom_with parse_class_string_disjunction True p inclass s"

end
