(* ===== verification/ParseClass.thy ===== *)
theory ParseClass
  imports ParseLex
begin

text \<open>
  Character classes: \<^verbatim>\<open>re_parse_nested_class\<close> with its unions, ranges and the set operations of the
  flag \<^verbatim>\<open>v\<close>. The recursion into a nested class is the argument \<open>nested\<close> of the definitions, tied
  with fuel for the depth; the loops have fuel for their turns.
\<close>

type_synonym class_result = "re_string_list \<times> nat"

definition invalid_operation :: "re_parse_state \<Rightarrow> 'a parsed" where
  "invalid_operation s = re_parse_error (chars ''invalid operation in regular expression'') s"

definition invalid_class_range :: "re_parse_state \<Rightarrow> 'a parsed" where
  "invalid_class_range s = re_parse_error (chars ''invalid class range'') s"

text \<open>Adding one character, folded when case is ignored.\<close>

definition fold_class_char :: "u32 \<Rightarrow> re_parse_state \<Rightarrow> u32" where
  "fold_class_char c s = (if ignore_case s then lre_canonicalize c (s_is_unicode s) else c)"

definition class_add_char :: "u32 \<Rightarrow> re_string_list \<Rightarrow> re_parse_state \<Rightarrow> re_string_list option" where
  "class_add_char c cr s =
     (let c = fold_class_char c s in
      map_option (\<lambda>r. cr\<lparr>rs_cr := r\<rparr>) (cr_union_interval (e_alloc (s_env s)) (rs_cr cr) c c))"

definition class_union :: "re_string_list option \<Rightarrow> re_string_list \<Rightarrow> re_parse_state \<Rightarrow> re_string_list parsed" where
  "class_union cr1 cr s =
     or_fault s cr1 (\<lambda>cr1.
     or_memory s (re_string_list_op (e_alloc (s_env s)) cr cr1 CR_OP_UNION) (\<lambda>cr. Done cr s))"

definition class_atom_union :: "u32 \<Rightarrow> re_string_list option \<Rightarrow> re_string_list \<Rightarrow> re_parse_state \<Rightarrow> re_string_list parsed" where
  "class_atom_union c1 cr1 cr s =
     (if c1 \<ge> CLASS_RANGE_BASE then class_union cr1 cr s
      else or_memory s (class_add_char c1 cr s) (\<lambda>cr. Done cr s))"

text \<open>The union with the interval from \<open>c1\<close> to \<open>c2\<close>; the outer option is a failed assertion.\<close>

definition class_add_range :: "u32 \<Rightarrow> u32 \<Rightarrow> re_string_list \<Rightarrow> re_parse_state \<Rightarrow> re_string_list option option" where
  "class_add_range c1 c2 cr s =
     (let alloc = e_alloc (s_env s) in
      if ignore_case s then
        (case cr_add_interval alloc cr_init c1 (c2 + 1) of
           None \<Rightarrow> Some None
         | Some cr2 \<Rightarrow>
             (case cr_regexp_canonicalize alloc cr2 (s_is_unicode s) of
                None \<Rightarrow> None
              | Some None \<Rightarrow> Some None
              | Some (Some cr2) \<Rightarrow>
                  Some (map_option (\<lambda>r. cr\<lparr>rs_cr := r\<rparr>) (cr_op1 alloc (rs_cr cr) (cr_points cr2) CR_OP_UNION))))
      else Some (map_option (\<lambda>r. cr\<lparr>rs_cr := r\<rparr>) (cr_union_interval alloc (rs_cr cr) c1 c2)))"

definition re_parse_class_set_operand ::
  "(nat \<Rightarrow> re_parse_state \<Rightarrow> class_result parsed) \<Rightarrow> nat \<Rightarrow> re_parse_state \<Rightarrow> class_result parsed" where
  "re_parse_class_set_operand nested p s =
     at s p (\<lambda>b.
     if b = c_lbracket then nested p s
     else
       parse_then (get_class_atom p True s) (\<lambda>(c1, cr, p) s.
       if c1 < CLASS_RANGE_BASE then
         or_fail_silently s (class_add_char c1 re_string_list_init s) (\<lambda>cr. Done (cr, p) s)
       else or_fault s cr (\<lambda>cr. Done (cr, p) s)))"

text \<open>
  The part of a turn that reads an atom and, after a minus, the end of a range. The result is the
  operand so far, the pointer, and whether the class is still at its first operand.
\<close>

definition class_member ::
  "bool \<Rightarrow> nat \<Rightarrow> re_string_list \<Rightarrow> re_parse_state \<Rightarrow> (re_string_list \<times> nat \<times> bool) parsed" where
  "class_member is_first p cr s =
     parse_then (get_class_atom p True s) (\<lambda>(c1, cr1, p) s.
     let class_atom = parse_then (class_atom_union c1 cr1 cr s) (\<lambda>cr s. Done (cr, p, is_first) s) in
     at s p (\<lambda>b.
     if b \<noteq> c_minus then class_atom
     else
       at s (p + 1) (\<lambda>b1.
       if b1 = c_rbracket then class_atom
       else if b1 = c_minus \<and> unicode_sets s \<and> is_first then class_atom
       else if c1 \<ge> CLASS_RANGE_BASE then
         (if s_is_unicode s then or_fault s cr1 (\<lambda>_. invalid_class_range s) else class_atom)
       else
         parse_then (get_class_atom (p + 1) True s) (\<lambda>(c2, cr2, p0) s.
         if c2 \<ge> CLASS_RANGE_BASE then
           or_fault s cr2 (\<lambda>_. if s_is_unicode s then invalid_class_range s else class_atom)
         else if c2 < c1 then invalid_class_range s
         else
           or_fault s (class_add_range c1 c2 cr s) (\<lambda>r.
           or_memory s r (\<lambda>cr. Done (cr, p0, False) s))))))"

text \<open>The operations of the flag \<^verbatim>\<open>v\<close>: \<open>b\<close> twice, then an operand, up to the bracket.\<close>

definition op_follows :: "u8 \<Rightarrow> nat \<Rightarrow> re_parse_state \<Rightarrow> (bool \<Rightarrow> 'a parsed) \<Rightarrow> 'a parsed" where
  "op_follows b p s f =
     at s p (\<lambda>b0.
     if b0 \<noteq> b then f False
     else
       at s (p + 1) (\<lambda>b1.
       if b1 \<noteq> b then f False
       else if b = c_minus then f True
       else at s (p + 2) (\<lambda>b2. f (b2 \<noteq> b))))"

primrec class_operations ::
  "nat \<Rightarrow> (nat \<Rightarrow> re_parse_state \<Rightarrow> class_result parsed) \<Rightarrow> u8 \<Rightarrow> cr_op_enum \<Rightarrow> nat \<Rightarrow> re_string_list \<Rightarrow>
   re_parse_state \<Rightarrow> class_result parsed" where
  "class_operations 0 nested b op p cr s = No_fuel s"
| "class_operations (Suc n) nested b op p cr s =
     at s p (\<lambda>b0.
     if b0 = c_rbracket then Done (cr, p) s
     else
       op_follows b p s (\<lambda>follows.
       if \<not> follows then invalid_operation s
       else
         parse_then (re_parse_class_set_operand nested (p + 2) s) (\<lambda>(cr1, p) s.
         or_memory s (re_string_list_op (e_alloc (s_env s)) cr cr1 op) (\<lambda>cr.
           class_operations n nested b op p cr s))))"

definition class_set_operations ::
  "(nat \<Rightarrow> re_parse_state \<Rightarrow> class_result parsed) \<Rightarrow> bool \<Rightarrow> nat \<Rightarrow> re_string_list \<Rightarrow> re_parse_state \<Rightarrow> class_result parsed" where
  "class_set_operations nested is_first p cr s =
     (if unicode_sets s \<and> is_first then
        op_follows c_amp p s (\<lambda>inter.
        if inter then class_operations (length (pat s) + 1) nested c_amp CR_OP_INTER p cr s
        else
          op_follows c_minus p s (\<lambda>sub.
          if sub then class_operations (length (pat s) + 1) nested c_minus CR_OP_SUB p cr s
          else Done (cr, p) s))
      else Done (cr, p) s)"

primrec class_loop ::
  "nat \<Rightarrow> (nat \<Rightarrow> re_parse_state \<Rightarrow> class_result parsed) \<Rightarrow> bool \<Rightarrow> nat \<Rightarrow> re_string_list \<Rightarrow>
   re_parse_state \<Rightarrow> class_result parsed" where
  "class_loop 0 nested is_first p cr s = No_fuel s"
| "class_loop (Suc n) nested is_first p cr s =
     at s p (\<lambda>b.
     if b = c_rbracket then Done (cr, p) s
     else
       parse_then
         (if b = c_lbracket \<and> unicode_sets s then
            parse_then (nested p s) (\<lambda>(cr1, p) s.
            parse_then (class_union (Some cr1) cr s) (\<lambda>cr s. Done (cr, p, is_first) s))
          else class_member is_first p cr s) (\<lambda>(cr, p, is_first) s.
       parse_then (class_set_operations nested is_first p cr s) (\<lambda>(cr, p) s.
         class_loop n nested False p cr s)))"

definition nested_class_body ::
  "(nat \<Rightarrow> re_parse_state \<Rightarrow> class_result parsed) \<Rightarrow> nat \<Rightarrow> re_parse_state \<Rightarrow> class_result parsed" where
  "nested_class_body nested p s =
     at s (p + 1) (\<lambda>b.
     let invert = b = c_caret; p = (if invert then p + 2 else p + 1) in
     parse_then (class_loop (length (pat s) + 1) nested True p re_string_list_init s) (\<lambda>(cr, p) s.
     if invert then
       (if n_strings cr \<noteq> 0 then
          re_parse_error (chars ''negated character class with strings in regular expression debugger eval code'') s
        else or_memory s (cr_invert (e_alloc (s_env s)) (rs_cr cr)) (\<lambda>r. Done (cr\<lparr>rs_cr := r\<rparr>, p + 1) s))
     else Done (cr, p + 1) s))"

text \<open>The fuel is the depth of nesting; the stack check of the code never fires.\<close>

primrec re_parse_nested_class :: "nat \<Rightarrow> nat \<Rightarrow> re_parse_state \<Rightarrow> class_result parsed" where
  "re_parse_nested_class 0 p s = No_fuel s"
| "re_parse_nested_class (Suc n) p s = nested_class_body (re_parse_nested_class n) p s"

definition re_parse_char_class :: "nat \<Rightarrow> re_parse_state \<Rightarrow> nat parsed" where
  "re_parse_char_class p s =
     parse_then (re_parse_nested_class (length (pat s) + 1) p s) (\<lambda>(cr, p) s.
     parse_then (re_emit_string_list cr s) (\<lambda>_ s. Done p s))"

end
