(* ===== verification/ParseGroups.thy ===== *)
theory ParseGroups
  imports ParseLex
begin

text \<open>
  Names of groups: their syntax, the scan of the whole pattern for captures, and the buffer of the
  names that were met so far, each with a terminating zero and the number of its scope.
\<close>

section \<open>The syntax of a name\<close>

text \<open>
  The name is written to \<open>buf\<close>, \<open>q\<close> is its length so far. The outcome is the pointer behind the
  name, or \<open>None\<close> for the status -1, with the bytes that were written.
\<close>

primrec group_name_loop ::
  "nat \<Rightarrow> re_parse_state \<Rightarrow> nat \<Rightarrow> u8 list \<Rightarrow> nat \<Rightarrow> (nat option \<times> u8 list) parsed" where
  "group_name_loop 0 s p buf q = No_fuel s"
| "group_name_loop (Suc n) s p buf q =
     at s p (\<lambda>b.
     let invalid = Done (None, buf) s;
         put = (\<lambda>(c :: u32) p.
           if c > 0x10FFFF then invalid
           else
             or_fault s (if q = 0 then lre_js_is_ident_first c else lre_js_is_ident_next c) (\<lambda>ok.
             if \<not> ok then invalid
             else if q + UTF8_CHAR_LEN_MAX + 1 > TMP_BUF_SIZE then invalid
             else
               (let enc = (if c < 128 then [ucast c] else unicode_to_utf8 c)
                in group_name_loop n s p (mem_write buf q enc) (q + length enc))))
     in if b = c_backslash then
          at s (p + 1) (\<lambda>b1.
          if b1 \<noteq> 0x75 then invalid
          else or_fault s (lre_parse_escape (pat s) (p + 1) 2) (\<lambda>(c, p). put (word_of_int c) p))
        else if b = c_greater then
          (if q = 0 then invalid else Done (Some (p + 1), mem_write buf q [0]) s)
        else if b \<ge> 128 then
          or_fault s (unicode_from_utf8 (pat s) p UTF8_CHAR_LEN_MAX) (\<lambda>(c, p).
          if is_hi_surrogate c then
            or_fault s (unicode_from_utf8 (pat s) p UTF8_CHAR_LEN_MAX) (\<lambda>(d, p1).
            if is_lo_surrogate d then put (from_surrogate c d) p1 else put c p)
          else put c p)
        else put (ucast b) (p + 1))"

definition re_parse_group_name :: "nat \<Rightarrow> u8 list \<Rightarrow> re_parse_state \<Rightarrow> (nat option \<times> u8 list) parsed" where
  "re_parse_group_name p buf s = group_name_loop (length (pat s) + 1) s p buf 0"

section \<open>Counting the captures\<close>

text \<open>The scan over a class looks for its end only.\<close>

function skip_class :: "re_parse_state \<Rightarrow> nat \<Rightarrow> nat option" where
  "skip_class s p =
     (if p < buf_end s then
        (case rd (pat s) p of
           None \<Rightarrow> None
         | Some b \<Rightarrow>
             if b = c_rbracket then Some p
             else skip_class s (if b = c_backslash then p + 2 else p + 1))
      else Some p)"
  by pat_completeness auto
termination by (relation "measure (\<lambda>(s, p). buf_end s - p)") auto

declare skip_class.simps [simp del]

text \<open>The emitted index of a capture with the name, or nothing.\<close>

definition emit_group_index_if :: "bool \<Rightarrow> nat \<Rightarrow> re_parse_state \<Rightarrow> re_parse_state" where
  "emit_group_index_if emit_group_index capture_index s =
     (if emit_group_index then emit_u8 (word_of_nat capture_index) s else s)"

text \<open>
  \<open>re_parse_captures\<close>: the number of captures and one, or the number of captures with the name;
  and whether there is a name at all. The scan stops at 255 captures.
\<close>

primrec captures_loop ::
  "nat \<Rightarrow> u8 list option \<Rightarrow> bool \<Rightarrow> nat \<Rightarrow> nat \<Rightarrow> nat \<Rightarrow> bool \<Rightarrow> re_parse_state \<Rightarrow> (nat \<times> bool) parsed" where
  "captures_loop 0 capture_name emit_group_index p capture_index n has_named s = No_fuel s"
| "captures_loop (Suc fuel) capture_name emit_group_index p capture_index n has_named s =
     (let result = (\<lambda>ci n named. Done (if capture_name = None then ci else n, named));
          count = (\<lambda>p n named s.
            if capture_index + 1 \<ge> CAPTURE_COUNT_MAX then result (capture_index + 1) n named s
            else captures_loop fuel capture_name emit_group_index (p + 1) (capture_index + 1) n named s);
          continue = (\<lambda>p. captures_loop fuel capture_name emit_group_index (p + 1) capture_index n has_named s)
      in if \<not> p < buf_end s then result capture_index n has_named s
         else
           at s p (\<lambda>b.
           if b = c_lparen then
             at s (p + 1) (\<lambda>b1.
             if b1 \<noteq> c_question then count p n has_named s
             else
               at s (p + 2) (\<lambda>b2.
               if b2 \<noteq> c_less then continue p
               else
                 at s (p + 3) (\<lambda>b3.
                 if b3 = c_equal \<or> b3 = c_bang then continue p
                 else
                   (case capture_name of
                      None \<Rightarrow> count p n True s
                    | Some cn \<Rightarrow>
                        parse_then (re_parse_group_name (p + 3) (replicate TMP_BUF_SIZE 0) s) (\<lambda>(r, name) s.
                        case r of
                          None \<Rightarrow> count (p + 3) n True s
                        | Some p \<Rightarrow>
                            if cstr name = cn
                            then count p (n + 1) True (emit_group_index_if emit_group_index capture_index s)
                            else count p n True s)))))
           else if b = c_backslash then continue (p + 1)
           else if b = c_lbracket then or_fault s (skip_class s (p + 1)) continue
           else continue p))"

definition re_parse_captures :: "u8 list option \<Rightarrow> bool \<Rightarrow> re_parse_state \<Rightarrow> (nat \<times> bool) parsed" where
  "re_parse_captures capture_name emit_group_index s =
     captures_loop (buf_end s + 1) capture_name emit_group_index 0 1 0 False s"

definition re_count_captures :: "re_parse_state \<Rightarrow> int parsed" where
  "re_count_captures s =
     (if total_capture_count s < 0 then
        parse_then (re_parse_captures None False s) (\<lambda>(n, named) s.
          Done (int n) (s\<lparr>total_capture_count := int n, has_named_captures := of_bool named\<rparr>))
      else Done (total_capture_count s) s)"

definition re_has_named_captures :: "re_parse_state \<Rightarrow> bool parsed" where
  "re_has_named_captures s =
     (if has_named_captures s < 0 then
        parse_then (re_count_captures s) (\<lambda>_ s. Done (has_named_captures s \<noteq> 0) s)
      else Done (has_named_captures s \<noteq> 0) s)"

section \<open>The names met so far\<close>

text \<open>The length of the C string at a place of a block; \<open>None\<close> if no zero follows.\<close>

definition strlen_at :: "u8 list \<Rightarrow> nat \<Rightarrow> nat option" where
  "strlen_at mem p =
     (let len = length (cstr (drop p mem)) in if p + len < length mem then Some len else None)"

function find_name_loop ::
  "u8 list \<Rightarrow> bool \<Rightarrow> nat \<Rightarrow> nat \<Rightarrow> nat \<Rightarrow> re_parse_state \<Rightarrow> nat parsed" where
  "find_name_loop name emit_group_index p capture_index n s =
     (if p < dbuf_size (group_names s) then
        (case strlen_at (dbuf_mem (group_names s)) p of
           None \<Rightarrow> Fault s
         | Some len \<Rightarrow>
             if take len (drop p (dbuf_mem (group_names s))) = name
             then find_name_loop name emit_group_index (p + len + LRE_GROUP_NAME_TRAILER_LEN) (capture_index + 1) (n + 1)
                    (emit_group_index_if emit_group_index capture_index s)
             else find_name_loop name emit_group_index (p + len + LRE_GROUP_NAME_TRAILER_LEN) (capture_index + 1) n s)
      else Done n s)"
  by pat_completeness auto
termination
  by (relation "measure (\<lambda>(name, e, p, ci, n, s). dbuf_size (group_names s) - p)")
    (auto simp: LRE_GROUP_NAME_TRAILER_LEN_def emit_group_index_if_def emit_u8_def)

declare find_name_loop.simps [simp del]

definition find_group_name :: "u8 list \<Rightarrow> bool \<Rightarrow> re_parse_state \<Rightarrow> nat parsed" where
  "find_group_name name emit_group_index s = find_name_loop name emit_group_index 0 1 0 s"

function duplicate_loop :: "u8 list \<Rightarrow> u8 \<Rightarrow> dynbuf \<Rightarrow> nat \<Rightarrow> bool option" where
  "duplicate_loop name scope d p =
     (if p < dbuf_size d then
        (case strlen_at (dbuf_mem d) p of
           None \<Rightarrow> None
         | Some len \<Rightarrow>
             if take len (drop p (dbuf_mem d)) = name then
               (case rd (dbuf_mem d) (p + len + 1) of
                  None \<Rightarrow> None
                | Some scope1 \<Rightarrow>
                    if scope = scope1 then Some True
                    else duplicate_loop name scope d (p + len + LRE_GROUP_NAME_TRAILER_LEN))
             else duplicate_loop name scope d (p + len + LRE_GROUP_NAME_TRAILER_LEN))
      else Some False)"
  by pat_completeness auto
termination
  by (relation "measure (\<lambda>(name, scope, d, p). dbuf_size d - p)") (auto simp: LRE_GROUP_NAME_TRAILER_LEN_def)

declare duplicate_loop.simps [simp del]

definition is_duplicate_group_name :: "u8 list \<Rightarrow> u8 \<Rightarrow> re_parse_state \<Rightarrow> bool option" where
  "is_duplicate_group_name name scope s = duplicate_loop name scope (group_names s) 0"

text \<open>A group name with its zero and its scope is appended.\<close>

definition put_group_name :: "u8 list \<Rightarrow> u8 \<Rightarrow> re_parse_state \<Rightarrow> re_parse_state" where
  "put_group_name name scope s =
     (let alloc = e_alloc (s_env s);
          d = snd (dbuf_put alloc (group_names s) (name @ [0]))
      in s\<lparr>group_names := snd (dbuf_putc alloc d scope)\<rparr>)"

definition put_no_name :: "re_parse_state \<Rightarrow> re_parse_state" where
  "put_no_name s =
     (let alloc = e_alloc (s_env s);
          d = snd (dbuf_putc alloc (group_names s) 0)
      in s\<lparr>group_names := snd (dbuf_putc alloc d 0)\<rparr>)"

end
