(* ===== verification/ParseTerm.thy ===== *)
theory ParseTerm
  imports ParseClass ParseGroups
begin

text \<open>
  Terms with their quantifiers, alternatives and disjunctions: the recursive descent parser of
  \<^verbatim>\<open>libregexp/libregexp.c\<close>, which writes the byte code as it reads. The recursive call of a
  disjunction inside a group is the argument \<open>sub\<close>; \<open>re_parse_disjunction\<close> ties it with fuel
  for the depth of nesting.
\<close>

section \<open>What a quantifier asks of its atom\<close>

text \<open>The operand bytes of an instruction that are not in the table of sizes.\<close>

definition var_len :: "reopcode \<Rightarrow> u8 list \<Rightarrow> nat \<Rightarrow> nat option" where
  "var_len op mem pos =
     (if op \<in> {REOP_range, REOP_range_i} then map_option (\<lambda>v. unat v * 4) (get_u16 mem (pos + 1))
      else if op \<in> {REOP_range32, REOP_range32_i} then map_option (\<lambda>v. unat v * 8) (get_u16 mem (pos + 1))
      else if op \<in> {REOP_back_reference, REOP_back_reference_i, REOP_backward_back_reference,
          REOP_backward_back_reference_i} then map_option unat (get_u8 mem (pos + 1))
      else Some 0)"

lemma reopcode_size_pos: "0 < reopcode_size op"
  by (cases op) (simp_all add: reopcode_size_def reop_sizes_def)

text \<open>Instructions that always advance, that never matter, and that set captures.\<close>

definition advancing_ops :: "reopcode set" where
  "advancing_ops =
     {REOP_range, REOP_range_i, REOP_range32, REOP_range32_i, REOP_char, REOP_char_i, REOP_char32,
      REOP_char32_i, REOP_dot, REOP_any, REOP_space, REOP_not_space}"

definition neutral_ops :: "reopcode set" where
  "neutral_ops =
     {REOP_line_start, REOP_line_start_m, REOP_line_end, REOP_line_end_m, REOP_set_i32,
      REOP_set_char_pos, REOP_word_boundary, REOP_word_boundary_i, REOP_not_word_boundary,
      REOP_not_word_boundary_i, REOP_prev, REOP_save_start, REOP_save_end, REOP_save_reset}"

definition back_reference_ops :: "reopcode set" where
  "back_reference_ops =
     {REOP_back_reference, REOP_back_reference_i, REOP_backward_back_reference,
      REOP_backward_back_reference_i}"

text \<open>The block \<open>mem\<close> is scanned from \<open>pos\<close> to \<open>e\<close>; the result is whether a check is needed, and a reset.\<close>

function need_check_loop :: "u8 list \<Rightarrow> nat \<Rightarrow> nat \<Rightarrow> bool \<Rightarrow> bool \<Rightarrow> (bool \<times> bool) option" where
  "need_check_loop mem pos e need_check_adv need_capture_init =
     (if pos < e then
        (case rd mem pos of
           None \<Rightarrow> None
         | Some b \<Rightarrow>
             (case reop_of (ucast b) of
                None \<Rightarrow> None
              | Some op \<Rightarrow>
                  if op \<in> advancing_ops \<union> neutral_ops \<union> back_reference_ops then
                    (case var_len op mem pos of
                       None \<Rightarrow> None
                     | Some n \<Rightarrow>
                         need_check_loop mem (pos + reopcode_size op + n) e
                           (need_check_adv \<and> op \<notin> advancing_ops) (need_capture_init \<or> op \<in> back_reference_ops))
                  else Some (need_check_adv, True)))
      else Some (need_check_adv, need_capture_init))"
  by pat_completeness auto
termination
  by (relation "measure (\<lambda>(mem, pos, e, a, c). e - pos)") (auto simp: reopcode_size_pos diff_less_mono2 less_add_same_cancel1 add.assoc)

declare need_check_loop.simps [simp del]

definition re_need_check_adv_and_capture_init :: "re_parse_state \<Rightarrow> nat \<Rightarrow> (bool \<times> bool) option" where
  "re_need_check_adv_and_capture_init s start =
     need_check_loop (dbuf_mem (byte_code s)) start (bc_size s) True False"

section \<open>Inserting\<close>

definition bc_insert :: "nat \<Rightarrow> u8 list \<Rightarrow> re_parse_state \<Rightarrow> unit parsed" where
  "bc_insert pos data s =
     (case dbuf_insert (lre_bytecode_realloc s) (byte_code s) pos (length data) of (rc, d) \<Rightarrow>
        let s = s\<lparr>byte_code := d\<rparr> in
        if rc \<noteq> 0 then re_parse_out_of_memory s else patch_bytes pos data s)"

definition save_reset_code :: "nat \<Rightarrow> nat \<Rightarrow> u8 list" where
  "save_reset_code lo hi = [reop_byte REOP_save_reset, word_of_nat lo, word_of_nat hi]"

definition set_i32_code :: "int \<Rightarrow> u8 list" where
  "set_i32_code n = reop_byte REOP_set_i32 # 0 # le32 (word_of_int n)"

definition char_pos_code :: "bool \<Rightarrow> u8 list" where
  "char_pos_code adv = (if adv then [reop_byte REOP_set_char_pos, 0] else [])"

definition split_code :: "bool \<Rightarrow> nat \<Rightarrow> u8 list" where
  "split_code greedy off = (reop_byte REOP_split_goto_first + of_bool greedy) # le32 (word_of_nat off)"

section \<open>Quantifiers\<close>

text \<open>The jump back of a counted loop.\<close>

definition emit_loop_split :: "bool \<Rightarrow> bool \<Rightarrow> int \<Rightarrow> nat \<Rightarrow> re_parse_state \<Rightarrow> unit parsed" where
  "emit_loop_split adv greedy limit target s =
     Done () (snd (re_emit_goto_u8_u32
       ((if adv then reop_byte REOP_loop_check_adv_split_next_first else reop_byte REOP_loop_split_next_first)
          - of_bool greedy) 0 (word_of_int limit) (word_of_nat target) s))"

text \<open>
  \<open>start\<close> is where the atom begins, \<open>lcc\<close> the number of captures before it. With a minimum of 0 the
  captures of the atom must be reset even when it is not executed.
\<close>

definition quantify_from_zero ::
  "nat \<Rightarrow> nat \<Rightarrow> int \<Rightarrow> bool \<Rightarrow> bool \<Rightarrow> bool \<Rightarrow> nat \<Rightarrow> re_parse_state \<Rightarrow> unit parsed" where
  "quantify_from_zero start len quant_max greedy adv need_capture_init lcc s =
     (let reset = \<not> need_capture_init \<and> lcc \<noteq> s_capture_count s in
      parse_then
        (if reset then bc_insert start (save_reset_code lcc (s_capture_count s - 1)) s else Done () s) (\<lambda>_ s.
      let start = (if reset then start + 3 else start); a = (if adv then 1 else 0) in
      if quant_max = 0 then Done () (s\<lparr>byte_code := (byte_code s)\<lparr>dbuf_size := start\<rparr>\<rparr>)
      else if quant_max = 1 \<or> quant_max = INT32_MAX then
        (let has_goto = quant_max = INT32_MAX in
         parse_then
           (bc_insert start
             (split_code greedy (len + (if has_goto then 5 else 0) + a * 2 * 2) @ char_pos_code adv) s) (\<lambda>_ s.
         let s = (if adv then re_emit_op_u8 (reop_byte REOP_check_advance) 0 s else s)
         in Done () (if has_goto then snd (re_emit_goto (reop_byte REOP_goto) (word_of_nat start) s) else s)))
      else
        parse_then
          (bc_insert start
            (split_code greedy (6 + a * 2 + len + 10) @ set_i32_code quant_max @ char_pos_code adv) s) (\<lambda>_ s.
          emit_loop_split adv greedy quant_max (start + 11) s)))"

definition quantify_counted ::
  "nat \<Rightarrow> int \<Rightarrow> int \<Rightarrow> bool \<Rightarrow> bool \<Rightarrow> re_parse_state \<Rightarrow> unit parsed" where
  "quantify_counted start quant_min quant_max greedy adv s =
     (let adv = (if quant_min = quant_max then False else adv) in
      parse_then (bc_insert start (set_i32_code quant_max @ char_pos_code adv) s) (\<lambda>_ s.
      if quant_min = quant_max then
        Done () (snd (re_emit_goto_u8 (reop_byte REOP_loop) 0 (word_of_nat (start + 6)) s))
      else emit_loop_split adv greedy (quant_max - quant_min) (start + 6) s))"

definition re_emit_quantifier ::
  "nat \<Rightarrow> nat \<Rightarrow> int \<Rightarrow> int \<Rightarrow> bool \<Rightarrow> re_parse_state \<Rightarrow> unit parsed" where
  "re_emit_quantifier start lcc quant_min quant_max greedy s =
     or_fault s (re_need_check_adv_and_capture_init s start) (\<lambda>(adv, need_capture_init).
     parse_then
       (if need_capture_init \<and> lcc \<noteq> s_capture_count s
        then bc_insert start (save_reset_code lcc (s_capture_count s - 1)) s else Done () s) (\<lambda>_ s.
     let len = bc_size s - start in
     if quant_min = 0 then quantify_from_zero start len quant_max greedy adv need_capture_init lcc s
     else if quant_min = 1 \<and> quant_max = INT32_MAX \<and> \<not> adv then
       Done () (snd (re_emit_goto (reop_byte REOP_split_next_first - of_bool greedy) (word_of_nat start) s))
     else quantify_counted start quant_min quant_max greedy adv s))"

text \<open>
  The counts of a quantifier at \<open>p\<close>; \<open>None\<close> when there is no quantifier, which Annex B allows for a
  brace that is not a count.
\<close>

definition invalid_repetition :: "re_parse_state \<Rightarrow> 'a parsed" where
  "invalid_repetition s = re_parse_error (chars ''invalid repetition count'') s"

definition parse_brace_counts :: "nat \<Rightarrow> re_parse_state \<Rightarrow> (int \<times> int \<times> nat) option parsed" where
  "parse_brace_counts p s =
     at s (p + 1) (\<lambda>b1.
     if \<not> is_digit b1 then (if s_is_unicode s then invalid_repetition s else Done None s)
     else
       parse_digits s (p + 1) True (\<lambda>quant_min q.
       let finish = (\<lambda>quant_max q.
         at s q (\<lambda>b.
         if b \<noteq> c_rbrace \<and> \<not> s_is_unicode s then Done None s
         else parse_then (re_parse_expect c_rbrace q s) (\<lambda>q s. Done (Some (quant_min, quant_max, q)) s)))
       in at s q (\<lambda>b.
          if b \<noteq> c_comma then finish quant_min q
          else
            at s (q + 1) (\<lambda>b.
            if is_digit b then
              parse_digits s (q + 1) True (\<lambda>quant_max q.
              if quant_max < quant_min then invalid_repetition s else finish quant_max q)
            else finish INT32_MAX (q + 1)))))"

definition parse_counts :: "nat \<Rightarrow> re_parse_state \<Rightarrow> (int \<times> int \<times> nat) option parsed" where
  "parse_counts p s =
     at s p (\<lambda>b.
     if b = c_star then Done (Some (0, INT32_MAX, p + 1)) s
     else if b = c_plus then Done (Some (1, INT32_MAX, p + 1)) s
     else if b = c_question then Done (Some (0, 1, p + 1)) s
     else if b = c_lbrace then parse_brace_counts p s
     else Done None s)"

definition re_parse_quantifier :: "nat \<Rightarrow> nat \<Rightarrow> nat \<Rightarrow> re_parse_state \<Rightarrow> nat parsed" where
  "re_parse_quantifier start lcc p s =
     parse_then (parse_counts p s) (\<lambda>r s.
     case r of
       None \<Rightarrow> Done p s
     | Some (quant_min, quant_max, p) \<Rightarrow>
         at s p (\<lambda>b.
         let greedy = b \<noteq> c_question; p = (if greedy then p else p + 1) in
         parse_then (re_emit_quantifier start lcc quant_min quant_max greedy s) (\<lambda>_ s. Done p s)))"

section \<open>Atoms\<close>

text \<open>
  The outcome of an atom: the pointer behind it and, when a quantifier may follow, where its code
  begins and how many captures there were.
\<close>

type_synonym atom_result = "nat \<times> (nat \<times> nat) option"

definition emit_prev_if :: "bool \<Rightarrow> re_parse_state \<Rightarrow> re_parse_state" where
  "emit_prev_if is_backward_dir s = (if is_backward_dir then re_emit_op (reop_byte REOP_prev) s else s)"

definition term_normal_char ::
  "bool \<Rightarrow> u32 \<Rightarrow> re_string_list option \<Rightarrow> nat \<Rightarrow> re_parse_state \<Rightarrow> atom_result parsed" where
  "term_normal_char is_backward_dir c cr p s =
     (let start = bc_size s; lcc = s_capture_count s; s = emit_prev_if is_backward_dir s in
      parse_then
        (if c \<ge> CLASS_RANGE_BASE then
           or_fault s cr (\<lambda>cr.
           if c = CLASS_RANGE_BASE + CHAR_RANGE_s then Done () (re_emit_op (reop_byte REOP_space) s)
           else if c = CLASS_RANGE_BASE + CHAR_RANGE_S then Done () (re_emit_op (reop_byte REOP_not_space) s)
           else re_emit_string_list cr s)
         else
           Done () (re_emit_char (if ignore_case s then lre_canonicalize c (s_is_unicode s) else c) s)) (\<lambda>_ s.
      Done (p, Some (start, lcc)) (emit_prev_if is_backward_dir s)))"

definition term_class_atom :: "bool \<Rightarrow> nat \<Rightarrow> re_parse_state \<Rightarrow> atom_result parsed" where
  "term_class_atom is_backward_dir p s =
     parse_then (get_class_atom p False s) (\<lambda>(c, cr, p) s. term_normal_char is_backward_dir c cr p s)"

definition syntax_error :: "re_parse_state \<Rightarrow> 'a parsed" where
  "syntax_error s = re_parse_error (chars ''syntax error'') s"

definition nothing_to_repeat :: "re_parse_state \<Rightarrow> 'a parsed" where
  "nothing_to_repeat s = re_parse_error (chars ''nothing to repeat'') s"

text \<open>A brace at the start of a term: a character, unless it looks like a count.\<close>

definition term_brace :: "bool \<Rightarrow> nat \<Rightarrow> re_parse_state \<Rightarrow> atom_result parsed" where
  "term_brace is_backward_dir p s =
     (if s_is_unicode s then syntax_error s
      else
        at s (p + 1) (\<lambda>b1.
        if \<not> is_digit b1 then term_class_atom is_backward_dir p s
        else
          parse_digits s (p + 1) True (\<lambda>_ q.
          let close = (\<lambda>q. at s q (\<lambda>b. if b \<noteq> c_rbrace then term_class_atom is_backward_dir p s else nothing_to_repeat s))
          in at s q (\<lambda>b.
             if b \<noteq> c_comma then close q
             else at s (q + 1) (\<lambda>b.
               if is_digit b then parse_digits s (q + 1) True (\<lambda>_ q. close q) else close (q + 1))))))"

section \<open>Groups\<close>

function modifiers_loop :: "re_parse_state \<Rightarrow> nat \<Rightarrow> u32 \<Rightarrow> (u32 \<times> nat) parsed" where
  "modifiers_loop s p seen =
     (case rd (pat s) p of
        None \<Rightarrow> Fault s
      | Some b \<Rightarrow>
          (let val = (if b = 0x69 then LRE_FLAG_IGNORECASE
                      else if b = 0x6d then LRE_FLAG_MULTILINE
                      else if b = 0x73 then LRE_FLAG_DOTALL else 0) in
           if val = 0 then Done (seen, p) s
           else if seen AND val \<noteq> 0 then
             re_parse_error (chars ''duplicate modifier: '' @ [0x27, b, 0x27]) s
           else modifiers_loop s (p + 1) (seen OR val)))"
  by pat_completeness auto
termination
  by (relation "measure (\<lambda>(s, p, seen). length (pat s) - p)") (auto simp: rd_Some_iff)

declare modifiers_loop.simps [simp del]

definition re_parse_modifiers :: "nat \<Rightarrow> re_parse_state \<Rightarrow> (u32 \<times> nat) parsed" where
  "re_parse_modifiers p s = modifiers_loop s p 0"

definition update_modifier :: "bool \<Rightarrow> u32 \<Rightarrow> u32 \<Rightarrow> u32 \<Rightarrow> bool" where
  "update_modifier val add_mask remove_mask flag =
     (let val = (if add_mask AND flag \<noteq> 0 then True else val)
      in if remove_mask AND flag \<noteq> 0 then False else val)"

text \<open>A group without a capture: the disjunction and its closing parenthesis.\<close>

definition term_group ::
  "(bool \<Rightarrow> re_parse_state \<Rightarrow> unit parsed) \<Rightarrow> bool \<Rightarrow> nat \<Rightarrow> re_parse_state \<Rightarrow> atom_result parsed" where
  "term_group sub is_backward_dir p s =
     (let start = bc_size s; lcc = s_capture_count s in
      parse_then (sub is_backward_dir (s\<lparr>buf_ptr := p\<rparr>)) (\<lambda>_ s.
      parse_then (re_parse_expect c_rparen (buf_ptr s) s) (\<lambda>p s.
      Done (p, Some (start, lcc)) s)))"

definition term_modifiers ::
  "(bool \<Rightarrow> re_parse_state \<Rightarrow> unit parsed) \<Rightarrow> bool \<Rightarrow> nat \<Rightarrow> re_parse_state \<Rightarrow> atom_result parsed" where
  "term_modifiers sub is_backward_dir p s =
     parse_then (re_parse_modifiers p s) (\<lambda>(add_mask, p) s.
     at s p (\<lambda>b.
     parse_then (if b = c_minus then re_parse_modifiers (p + 1) s else Done (0, p) s) (\<lambda>(remove_mask, p) s.
     if (add_mask = 0 \<and> remove_mask = 0) \<or> add_mask AND remove_mask \<noteq> 0 then
       re_parse_error (chars ''invalid modifiers'') s
     else
       parse_then (re_parse_expect c_colon p s) (\<lambda>p s.
       let i = ignore_case s; m = multi_line s; d = dotall s;
           s = s\<lparr>ignore_case := update_modifier i add_mask remove_mask LRE_FLAG_IGNORECASE,
                 multi_line := update_modifier m add_mask remove_mask LRE_FLAG_MULTILINE,
                 dotall := update_modifier d add_mask remove_mask LRE_FLAG_DOTALL\<rparr>
       in parse_then (term_group sub is_backward_dir p s) (\<lambda>r s.
          Done r (s\<lparr>ignore_case := i, multi_line := m, dotall := d\<rparr>))))))"

definition term_lookahead ::
  "(bool \<Rightarrow> re_parse_state \<Rightarrow> unit parsed) \<Rightarrow> bool \<Rightarrow> bool \<Rightarrow> nat \<Rightarrow> re_parse_state \<Rightarrow> atom_result parsed" where
  "term_lookahead sub is_neg is_backward_lookahead p s =
     (let atom = (if \<not> s_is_unicode s \<and> \<not> is_backward_lookahead then Some (bc_size s, s_capture_count s) else None) in
      case re_emit_op_u32 (reop_byte REOP_lookahead + of_bool is_neg) 0 s of (pos, s) \<Rightarrow>
      parse_then (sub is_backward_lookahead (s\<lparr>buf_ptr := p\<rparr>)) (\<lambda>_ s.
      parse_then (re_parse_expect c_rparen (buf_ptr s) s) (\<lambda>p s.
      let s = re_emit_op (reop_byte REOP_lookahead_match + of_bool is_neg) s in
      if dbuf_err (byte_code s) then Fail s
      else parse_then (patch_u32 pos (word_of_nat (bc_size s) - word_of_nat (pos + 4)) s) (\<lambda>_ s. Done (p, atom) s))))"

definition term_capture ::
  "(bool \<Rightarrow> re_parse_state \<Rightarrow> unit parsed) \<Rightarrow> bool \<Rightarrow> nat \<Rightarrow> re_parse_state \<Rightarrow> atom_result parsed" where
  "term_capture sub is_backward_dir p s =
     (if s_capture_count s \<ge> CAPTURE_COUNT_MAX then re_parse_error (chars ''too many captures'') s
      else
        (let start = bc_size s; lcc = s_capture_count s; capture_index = word_of_nat lcc;
             s = re_emit_op_u8 (reop_byte REOP_save_start + of_bool is_backward_dir) capture_index
                   (s\<lparr>s_capture_count := lcc + 1\<rparr>)
         in parse_then (sub is_backward_dir (s\<lparr>buf_ptr := p\<rparr>)) (\<lambda>_ s.
            let s = re_emit_op_u8 (reop_byte REOP_save_start + 1 - of_bool is_backward_dir) capture_index s in
            parse_then (re_parse_expect c_rparen (buf_ptr s) s) (\<lambda>p s.
            Done (p, Some (start, lcc)) s))))"

definition term_named_capture ::
  "(bool \<Rightarrow> re_parse_state \<Rightarrow> unit parsed) \<Rightarrow> bool \<Rightarrow> nat \<Rightarrow> re_parse_state \<Rightarrow> atom_result parsed" where
  "term_named_capture sub is_backward_dir p s =
     parse_then (re_parse_group_name p (u_buf s) s) (\<lambda>(r, buf) s.
     let s = s\<lparr>u_buf := buf\<rparr>; name = cstr buf in
     case r of
       None \<Rightarrow> re_parse_error (chars ''invalid group name'') s
     | Some p \<Rightarrow>
         or_fault s (is_duplicate_group_name name (group_name_scope s) s) (\<lambda>dup.
         if dup then re_parse_error (chars ''duplicate group name'') s
         else term_capture sub is_backward_dir p
                ((put_group_name name (group_name_scope s) s)\<lparr>has_named_captures := 1\<rparr>)))"

definition term_paren ::
  "(bool \<Rightarrow> re_parse_state \<Rightarrow> unit parsed) \<Rightarrow> bool \<Rightarrow> nat \<Rightarrow> re_parse_state \<Rightarrow> atom_result parsed" where
  "term_paren sub is_backward_dir p s =
     at s (p + 1) (\<lambda>b1.
     if b1 \<noteq> c_question then term_capture sub is_backward_dir (p + 1) (put_no_name s)
     else
       at s (p + 2) (\<lambda>b2.
       if b2 = c_colon then term_group sub is_backward_dir (p + 3) s
       else if b2 = 0x69 \<or> b2 = 0x6d \<or> b2 = 0x73 \<or> b2 = c_minus then term_modifiers sub is_backward_dir (p + 2) s
       else if b2 = c_equal \<or> b2 = c_bang then term_lookahead sub (b2 = c_bang) False (p + 3) s
       else if b2 = c_less then
         at s (p + 3) (\<lambda>b3.
         if b3 = c_equal \<or> b3 = c_bang then term_lookahead sub (b3 = c_bang) True (p + 4) s
         else term_named_capture sub is_backward_dir (p + 3) s)
       else re_parse_error (chars ''invalid group'') s))"

section \<open>Escapes at the level of terms\<close>

definition back_reference_op :: "bool \<Rightarrow> re_parse_state \<Rightarrow> u8" where
  "back_reference_op is_backward_dir s =
     reop_byte REOP_back_reference + 2 * of_bool is_backward_dir + of_bool (ignore_case s)"

text \<open>
  Annex B: a wrong name is tolerated in non-Unicode mode when the pattern has no named group; then
  the escape is an atom.
\<close>

definition group_name_error :: "bool \<Rightarrow> nat \<Rightarrow> u8 list \<Rightarrow> re_parse_state \<Rightarrow> atom_result parsed" where
  "group_name_error is_backward_dir p msg s =
     (if s_is_unicode s then re_parse_error msg s
      else
        parse_then (re_has_named_captures s) (\<lambda>named s.
        if named then re_parse_error msg s else term_class_atom is_backward_dir p s))"

definition term_named_reference :: "bool \<Rightarrow> nat \<Rightarrow> re_parse_state \<Rightarrow> atom_result parsed" where
  "term_named_reference is_backward_dir p s =
     at s (p + 2) (\<lambda>b2.
     if b2 \<noteq> c_less then group_name_error is_backward_dir p (chars ''expecting group name'') s
     else
       parse_then (re_parse_group_name (p + 3) (u_buf s) s) (\<lambda>(r, buf) s.
       let s = s\<lparr>u_buf := buf\<rparr>; name = cstr buf in
       case r of
         None \<Rightarrow> group_name_error is_backward_dir p (chars ''invalid group name'') s
       | Some p1 \<Rightarrow>
           parse_then (find_group_name name False s) (\<lambda>n s.
           let is_forward = n = 0 in
           parse_then (if is_forward then re_parse_captures (Some name) False s else Done (n, False) s) (\<lambda>(n, _) s.
           if n = 0 then group_name_error is_backward_dir p (chars ''group name not defined'') s
           else
             (let start = bc_size s; lcc = s_capture_count s;
                  s = re_emit_op_u8 (back_reference_op is_backward_dir s) (word_of_nat n) s
              in parse_then
                   (if is_forward then parse_then (re_parse_captures (Some name) True s) (\<lambda>_ s. Done () s)
                    else parse_then (find_group_name name True s) (\<lambda>_ s. Done () s)) (\<lambda>_ s.
                 Done (p1, Some (start, lcc)) s))))))"

text \<open>The octal digits of Annex B, after the first one was read into \<open>c\<close>.\<close>

definition octal_digit :: "u8 \<Rightarrow> bool" where
  "octal_digit b \<longleftrightarrow> 0x30 \<le> b \<and> b \<le> 0x37"

definition term_zero_escape :: "bool \<Rightarrow> nat \<Rightarrow> re_parse_state \<Rightarrow> atom_result parsed" where
  "term_zero_escape is_backward_dir p s =
     (let p = p + 2 in
      at s p (\<lambda>b.
      if s_is_unicode s then
        (if is_digit b then re_parse_error (chars ''invalid decimal escape in regular expression'') s
         else term_normal_char is_backward_dir 0 None p s)
      else if octal_digit b then
        at s (p + 1) (\<lambda>b1.
        let c = ucast b - 0x30 in
        if octal_digit b1 then
          term_normal_char is_backward_dir (push_bit 3 c + ucast b1 - 0x30) None (p + 2) s
        else term_normal_char is_backward_dir c None (p + 1) s)
      else term_normal_char is_backward_dir 0 None p s))"

definition term_legacy_octal :: "bool \<Rightarrow> nat \<Rightarrow> re_parse_state \<Rightarrow> atom_result parsed" where
  "term_legacy_octal is_backward_dir p s =
     at s p (\<lambda>b.
     if b \<le> 0x37 then
       (let (c, p) = (if b \<le> 0x33 then (ucast b - 0x30, p + 1) else (0, p)) in
        at s p (\<lambda>b1.
        if octal_digit b1 then
          (let c = push_bit 3 c + ucast b1 - 0x30 in
           at s (p + 1) (\<lambda>b2.
           if octal_digit b2 then term_normal_char is_backward_dir (push_bit 3 c + ucast b2 - 0x30) None (p + 2) s
           else term_normal_char is_backward_dir c None (p + 1) s))
        else term_normal_char is_backward_dir c None p s))
     else term_normal_char is_backward_dir (ucast b) None (p + 1) s)"

definition term_numbered_reference :: "bool \<Rightarrow> nat \<Rightarrow> re_parse_state \<Rightarrow> atom_result parsed" where
  "term_numbered_reference is_backward_dir p s =
     parse_digits s (p + 1) False (\<lambda>c q.
     parse_then
       (if c < 0 then Done True s
        else if c \<ge> int (s_capture_count s) then parse_then (re_count_captures s) (\<lambda>n s. Done (c \<ge> n) s)
        else Done False s) (\<lambda>out_of_range s.
     if out_of_range then
       (if s_is_unicode s then re_parse_error (chars ''back reference out of range in regular expression'') s
        else term_legacy_octal is_backward_dir (p + 1) s)
     else
       (let start = bc_size s; lcc = s_capture_count s;
            s = emit_u8 (word_of_int c) (re_emit_op_u8 (back_reference_op is_backward_dir s) 1 s)
        in Done (q, Some (start, lcc)) s)))"

definition term_backslash :: "bool \<Rightarrow> nat \<Rightarrow> re_parse_state \<Rightarrow> atom_result parsed" where
  "term_backslash is_backward_dir p s =
     at s (p + 1) (\<lambda>b1.
     let fold_words = ignore_case s \<and> s_is_unicode s in
     if b1 = 0x62 then
       Done (p + 2, None) (re_emit_op (if fold_words then reop_byte REOP_word_boundary_i else reop_byte REOP_word_boundary) s)
     else if b1 = 0x42 then
       Done (p + 2, None)
         (re_emit_op (if fold_words then reop_byte REOP_not_word_boundary_i else reop_byte REOP_not_word_boundary) s)
     else if b1 = 0x6b then term_named_reference is_backward_dir p s
     else if b1 = 0x30 then term_zero_escape is_backward_dir p s
     else if 0x31 \<le> b1 \<and> b1 \<le> 0x39 then term_numbered_reference is_backward_dir p s
     else term_class_atom is_backward_dir p s)"

section \<open>Terms, alternatives, disjunctions\<close>

definition term_atom ::
  "(bool \<Rightarrow> re_parse_state \<Rightarrow> unit parsed) \<Rightarrow> bool \<Rightarrow> re_parse_state \<Rightarrow> atom_result parsed" where
  "term_atom sub is_backward_dir s =
     (let p = buf_ptr s in
      at s p (\<lambda>b.
      if b = c_caret then
        Done (p + 1, None) (re_emit_op (if multi_line s then reop_byte REOP_line_start_m else reop_byte REOP_line_start) s)
      else if b = c_dollar then
        Done (p + 1, None) (re_emit_op (if multi_line s then reop_byte REOP_line_end_m else reop_byte REOP_line_end) s)
      else if b = c_dot then
        (let start = bc_size s; lcc = s_capture_count s; s = emit_prev_if is_backward_dir s;
             s = re_emit_op (if dotall s then reop_byte REOP_any else reop_byte REOP_dot) s
         in Done (p + 1, Some (start, lcc)) (emit_prev_if is_backward_dir s))
      else if b = c_lbrace then term_brace is_backward_dir p s
      else if b = c_star \<or> b = c_plus \<or> b = c_question then nothing_to_repeat s
      else if b = c_lparen then term_paren sub is_backward_dir p s
      else if b = c_backslash then term_backslash is_backward_dir p s
      else if b = c_lbracket then
        (let start = bc_size s; lcc = s_capture_count s; s = emit_prev_if is_backward_dir s in
         parse_then (re_parse_char_class p s) (\<lambda>p s.
           Done (p, Some (start, lcc)) (emit_prev_if is_backward_dir s)))
      else if (b = c_rbracket \<or> b = c_rbrace) \<and> s_is_unicode s then syntax_error s
      else term_class_atom is_backward_dir p s))"

definition re_parse_term ::
  "(bool \<Rightarrow> re_parse_state \<Rightarrow> unit parsed) \<Rightarrow> bool \<Rightarrow> re_parse_state \<Rightarrow> unit parsed" where
  "re_parse_term sub is_backward_dir s =
     parse_then (term_atom sub is_backward_dir s) (\<lambda>(p, atom) s.
     parse_then
       (case atom of
          None \<Rightarrow> Done p s
        | Some (start, lcc) \<Rightarrow> re_parse_quantifier start lcc p s) (\<lambda>p s.
     Done () (s\<lparr>buf_ptr := p\<rparr>)))"

text \<open>In a lookbehind the code of each term goes before the code of the terms read so far.\<close>

definition move_term_to_front :: "nat \<Rightarrow> nat \<Rightarrow> re_parse_state \<Rightarrow> unit parsed" where
  "move_term_to_front start term_start s =
     (let e = bc_size s; term_size = e - term_start in
      case dbuf_claim (lre_bytecode_realloc s) (byte_code s) term_size of (rc, d) \<Rightarrow>
        let s = s\<lparr>byte_code := d\<rparr> in
        if rc \<noteq> 0 then Fail s
        else if \<not> e + term_size \<le> length (dbuf_mem d) then Fault s
        else
          (let mem = mem_move (dbuf_mem d) (start + term_size) start (e - start);
               mem = mem_write mem start (take term_size (drop e mem))
           in Done () (s\<lparr>byte_code := d\<lparr>dbuf_mem := mem\<rparr>\<rparr>)))"

primrec alternative_loop ::
  "nat \<Rightarrow> (bool \<Rightarrow> re_parse_state \<Rightarrow> unit parsed) \<Rightarrow> bool \<Rightarrow> nat \<Rightarrow> re_parse_state \<Rightarrow> unit parsed" where
  "alternative_loop 0 sub is_backward_dir start s = No_fuel s"
| "alternative_loop (Suc n) sub is_backward_dir start s =
     (if buf_ptr s \<ge> buf_end s then Done () s
      else
        at s (buf_ptr s) (\<lambda>b.
        if b = c_bar \<or> b = c_rparen then Done () s
        else
          (let term_start = bc_size s in
           parse_then (re_parse_term sub is_backward_dir s) (\<lambda>_ s.
           parse_then (if is_backward_dir then move_term_to_front start term_start s else Done () s) (\<lambda>_ s.
             alternative_loop n sub is_backward_dir start s)))))"

definition re_parse_alternative ::
  "(bool \<Rightarrow> re_parse_state \<Rightarrow> unit parsed) \<Rightarrow> bool \<Rightarrow> re_parse_state \<Rightarrow> unit parsed" where
  "re_parse_alternative sub is_backward_dir s =
     alternative_loop (length (pat s) + 1) sub is_backward_dir (bc_size s) s"

primrec disjunction_loop ::
  "nat \<Rightarrow> (bool \<Rightarrow> re_parse_state \<Rightarrow> unit parsed) \<Rightarrow> bool \<Rightarrow> nat \<Rightarrow> re_parse_state \<Rightarrow> unit parsed" where
  "disjunction_loop 0 sub is_backward_dir start s = No_fuel s"
| "disjunction_loop (Suc n) sub is_backward_dir start s =
     at s (buf_ptr s) (\<lambda>b.
     if b \<noteq> c_bar then Done () s
     else
       (let s = s\<lparr>buf_ptr := buf_ptr s + 1\<rparr>; len = bc_size s - start in
        parse_then (bc_insert start (reop_byte REOP_split_next_first # le32 (word_of_nat (len + 5))) s) (\<lambda>_ s.
        case re_emit_op_u32 (reop_byte REOP_goto) 0 s of (pos, s) \<Rightarrow>
        parse_then (re_parse_alternative sub is_backward_dir (s\<lparr>group_name_scope := group_name_scope s + 1\<rparr>)) (\<lambda>_ s.
        parse_then (patch_u32 pos (word_of_nat (bc_size s) - word_of_nat (pos + 4)) s) (\<lambda>_ s.
          disjunction_loop n sub is_backward_dir start s)))))"

primrec re_parse_disjunction :: "nat \<Rightarrow> bool \<Rightarrow> re_parse_state \<Rightarrow> unit parsed" where
  "re_parse_disjunction 0 is_backward_dir s = No_fuel s"
| "re_parse_disjunction (Suc n) is_backward_dir s =
     parse_then (re_parse_alternative (re_parse_disjunction n) is_backward_dir s) (\<lambda>_ s1.
     disjunction_loop (length (pat s) + 1) (re_parse_disjunction n) is_backward_dir (bc_size s) s1)"

end
