(* ===== verification/Compile.thy ===== *)
theory Compile
  imports ParseTerm
begin

text \<open>
  \<^verbatim>\<open>lre_compile\<close>: the header, the search loop in front of the code, the pattern, the assignment of
  registers to the loops, and the names of the groups behind the code.
\<close>

section \<open>Registers\<close>

text \<open>
  The registers of loops are a stack: an instruction that starts a loop or stores a position takes
  the next register, the one that ends it gives it back, and the number goes into the operand.
  \<open>None\<close> is a failed assertion or a read outside the code, -1 the status of more than 255 registers.
\<close>

definition push_ops :: "reopcode set" where
  "push_ops = {REOP_set_i32, REOP_set_char_pos}"

definition pop1_ops :: "reopcode set" where
  "pop1_ops = {REOP_check_advance, REOP_loop, REOP_loop_split_goto_first, REOP_loop_split_next_first}"

definition pop2_ops :: "reopcode set" where
  "pop2_ops = {REOP_loop_check_adv_split_goto_first, REOP_loop_check_adv_split_next_first}"

function register_loop :: "u8 list \<Rightarrow> nat \<Rightarrow> nat \<Rightarrow> nat \<Rightarrow> nat \<Rightarrow> (int \<times> u8 list) option" where
  "register_loop mem pos e stack_size stack_size_max =
     (if pos < e then
        (case rd mem pos of
           None \<Rightarrow> None
         | Some b \<Rightarrow>
             (case reop_of (ucast b) of
                None \<Rightarrow> None
              | Some op \<Rightarrow>
                  if \<not> pos + reopcode_size op \<le> e then None
                  else
                    (case var_len op mem pos of
                       None \<Rightarrow> None
                     | Some n \<Rightarrow>
                         (let pos' = pos + reopcode_size op + n in
                          if op \<in> push_ops then
                            (let mem = mem[pos + 1 := word_of_nat stack_size]; stack_size = stack_size + 1 in
                             if stack_size > stack_size_max then
                               (if stack_size > REGISTER_COUNT_MAX then Some (- 1, mem)
                                else register_loop mem pos' e stack_size stack_size)
                             else register_loop mem pos' e stack_size stack_size_max)
                          else if op \<in> pop1_ops then
                            (if stack_size = 0 then None
                             else register_loop (mem[pos + 1 := word_of_nat (stack_size - 1)]) pos' e
                                    (stack_size - 1) stack_size_max)
                          else if op \<in> pop2_ops then
                            (if stack_size < 2 then None
                             else register_loop (mem[pos + 1 := word_of_nat (stack_size - 2)]) pos' e
                                    (stack_size - 2) stack_size_max)
                          else register_loop mem pos' e stack_size stack_size_max))))
      else Some (int stack_size_max, mem))"
  by pat_completeness auto
termination
proof (relation "measure (\<lambda>(mem, pos, e, k, m). e - pos)", goal_cases)
  case 1
  show ?case by simp
qed (use reopcode_size_pos in \<open>auto simp: diff_less_mono2 less_add_same_cancel1 add.assoc\<close>)

declare register_loop.simps [simp del]

definition compute_register_count :: "u8 list \<Rightarrow> nat \<Rightarrow> (int \<times> u8 list) option" where
  "compute_register_count mem bc_buf_len = register_loop mem RE_HEADER_LEN bc_buf_len 0 0"

section \<open>The compiler\<close>

text \<open>
  The result: the byte code, the message, undefined behaviour, or the end of the fuel.
\<close>

datatype compile_result =
    Compiled "u8 list"
  | Compile_error "u8 list"
  | Compile_fault re_parse_state
  | Compile_no_fuel

definition has_flag :: "u32 \<Rightarrow> u32 \<Rightarrow> bool" where
  "has_flag re_flags flag \<longleftrightarrow> re_flags AND flag \<noteq> 0"

definition re_parse_init :: "re_env \<Rightarrow> u8 list \<Rightarrow> u32 \<Rightarrow> re_parse_state" where
  "re_parse_init env buf flags =
     \<lparr>s_env = env, byte_code = dbuf_init2, pat = buf @ [0], buf_ptr = 0, buf_end = length buf,
      s_is_unicode = has_flag flags (LRE_FLAG_UNICODE OR LRE_FLAG_UNICODE_SETS),
      unicode_sets = has_flag flags LRE_FLAG_UNICODE_SETS,
      ignore_case = has_flag flags LRE_FLAG_IGNORECASE,
      multi_line = has_flag flags LRE_FLAG_MULTILINE,
      dotall = has_flag flags LRE_FLAG_DOTALL,
      group_name_scope = 0, s_capture_count = 1, total_capture_count = - 1, has_named_captures = - 1,
      group_names = dbuf_init2, u_buf = replicate TMP_BUF_SIZE 0\<rparr>"

definition emit_header :: "u32 \<Rightarrow> re_parse_state \<Rightarrow> re_parse_state" where
  "emit_header flags s = emit_u32 0 (emit_u8 0 (emit_u8 0 (emit_u16 (ucast flags) s)))"

text \<open>Without the sticky flag the code tries all positions: a lazy loop over any character.\<close>

definition emit_search_loop :: "re_parse_state \<Rightarrow> re_parse_state" where
  "emit_search_loop s =
     (let s = snd (re_emit_op_u32 (reop_byte REOP_split_goto_first) (1 + 5) s);
          s = re_emit_op (reop_byte REOP_any) s
      in snd (re_emit_op_u32 (reop_byte REOP_goto) (- (5 + 1 + 5)) s))"

definition emit_prologue :: "u32 \<Rightarrow> re_parse_state \<Rightarrow> re_parse_state" where
  "emit_prologue flags s =
     (let s = emit_header flags s;
          s = (if has_flag flags LRE_FLAG_STICKY then s else emit_search_loop s)
      in re_emit_op_u8 (reop_byte REOP_save_start) 0 s)"

text \<open>The header fields that are known at the end only.\<close>

definition finish_header :: "int \<Rightarrow> re_parse_state \<Rightarrow> unit parsed" where
  "finish_header register_count s =
     parse_then (patch_bytes RE_HEADER_CAPTURE_COUNT
        [word_of_nat (s_capture_count s), word_of_int register_count] s) (\<lambda>_ s.
     patch_u32 RE_HEADER_BYTECODE_LEN (word_of_nat (bc_size s - RE_HEADER_LEN)) s)"

definition append_group_names :: "re_parse_state \<Rightarrow> unit parsed" where
  "append_group_names s =
     (if dbuf_size (group_names s) > (s_capture_count s - 1) * LRE_GROUP_NAME_TRAILER_LEN then
        (let s = s\<lparr>byte_code := snd (dbuf_put (lre_bytecode_realloc s) (byte_code s) (dbuf_content (group_names s)))\<rparr> in
         or_fault s (lre_get_flags (dbuf_mem (byte_code s))) (\<lambda>flags.
           patch_bytes RE_HEADER_FLAGS (le16 (ucast (flags OR LRE_FLAG_NAMED_GROUPS))) s))
      else Done () s)"

definition lre_compile_body :: "u32 \<Rightarrow> re_parse_state \<Rightarrow> unit parsed" where
  "lre_compile_body flags s =
     parse_then (re_parse_disjunction (length (pat s) + 1) False (emit_prologue flags s)) (\<lambda>_ s.
     let s = re_emit_op (reop_byte REOP_match) (re_emit_op_u8 (reop_byte REOP_save_end) 0 s) in
     at s (buf_ptr s) (\<lambda>b.
     if b \<noteq> 0 then re_parse_error (chars ''extraneous characters at the end'') s
     else if dbuf_err (byte_code s) then re_parse_out_of_memory s
     else
       or_fault s (compute_register_count (dbuf_mem (byte_code s)) (bc_size s)) (\<lambda>(register_count, mem).
       let s = s\<lparr>byte_code := (byte_code s)\<lparr>dbuf_mem := mem\<rparr>\<rparr> in
       if register_count < 0 then re_parse_error (chars ''too many imbricated quantifiers'') s
       else
         parse_then (finish_header register_count s) (\<lambda>_ s. append_group_names s))))"

definition lre_compile :: "re_env \<Rightarrow> nat \<Rightarrow> u8 list \<Rightarrow> u32 \<Rightarrow> compile_result" where
  "lre_compile env error_msg_size buf flags =
     (case lre_compile_body flags (re_parse_init env buf flags) of
        Done _ s \<Rightarrow> Compiled (dbuf_content (byte_code s))
      | Fail s \<Rightarrow>
          Compile_error (cstr (pstrcpy (replicate error_msg_size 0) (int error_msg_size) (cstr (u_buf s))))
      | Fault s \<Rightarrow> Compile_fault s
      | No_fuel _ \<Rightarrow> Compile_no_fuel)"

end
