(* ===== verification/CodeRegs.thy ===== *)
theory CodeRegs
  imports CodeTree Compile
begin

text \<open>
  The assignment of registers, \<^verbatim>\<open>compute_register_count\<close>, on the code of a tree: no assertion in
  it fails, each loop gets the registers above those around it, and the count is the depth of the
  loops, unless it is over 255.
\<close>

section \<open>One instruction\<close>

lemma register_loop_at:
  assumes "length pre + reopcode_size op \<le> e" and "var_len op (pre @ reop_byte op # bs) (length pre) = Some v"
  shows "register_loop (pre @ reop_byte op # bs) (length pre) e k m =
    (let mem = pre @ reop_byte op # bs; pos' = length pre + reopcode_size op + v in
     if op \<in> push_ops then
       (let mem = mem[length pre + 1 := word_of_nat k] in
        if k + 1 > m then
          (if k + 1 > REGISTER_COUNT_MAX then Some (- 1, mem) else register_loop mem pos' e (k + 1) (k + 1))
        else register_loop mem pos' e (k + 1) m)
     else if op \<in> pop1_ops then
       (if k = 0 then None
        else register_loop (mem[length pre + 1 := word_of_nat (k - 1)]) pos' e (k - 1) m)
     else if op \<in> pop2_ops then
       (if k < 2 then None
        else register_loop (mem[length pre + 1 := word_of_nat (k - 2)]) pos' e (k - 2) m)
     else register_loop mem pos' e k m)"
proof -
  have "0 < reopcode_size op" by (rule reopcode_size_pos)
  with assms(1) have "length pre < e" by linarith
  moreover have "rd (pre @ reop_byte op # bs) (length pre) = Some (reop_byte op)"
    by (simp add: rd_def)
  ultimately show ?thesis
    using assms by (subst register_loop.simps) (simp add: reop_of_reop_byte Let_def)
qed

text \<open>The bytes \<open>xs\<close> become \<open>ys\<close>, and the scan goes on behind them.\<close>

definition assigns :: "nat \<Rightarrow> nat \<Rightarrow> nat \<Rightarrow> u8 list \<Rightarrow> nat \<Rightarrow> nat \<Rightarrow> u8 list \<Rightarrow> bool" where
  "assigns e k m xs k' m' ys \<longleftrightarrow>
     length ys = length xs \<and>
     (\<forall>pre post. length pre + length xs \<le> e \<longrightarrow>
        register_loop (pre @ xs @ post) (length pre) e k m =
        register_loop (pre @ ys @ post) (length pre + length xs) e k' m')"

definition too_many :: "nat \<Rightarrow> nat \<Rightarrow> nat \<Rightarrow> u8 list \<Rightarrow> bool" where
  "too_many e k m xs \<longleftrightarrow>
     (\<forall>pre post. length pre + length xs \<le> e \<longrightarrow>
        (\<exists>mem. register_loop (pre @ xs @ post) (length pre) e k m = Some (- 1, mem)))"

lemma assigns_run:
  "assigns e k m xs k' m' ys \<Longrightarrow> length pre + length xs \<le> e \<Longrightarrow>
   register_loop (pre @ xs @ post) (length pre) e k m =
   register_loop (pre @ ys @ post) (length pre + length xs) e k' m'"
  by (simp add: assigns_def)

lemma assigns_length: "assigns e k m xs k' m' ys \<Longrightarrow> length ys = length xs"
  by (simp add: assigns_def)

lemma assigns_Nil: "assigns e k m [] k m []"
  by (simp add: assigns_def)

lemma assigns_append:
  assumes a: "assigns e k m xs k1 m1 ys" and b: "assigns e k1 m1 xs' k2 m2 ys'"
  shows "assigns e k m (xs @ xs') k2 m2 (ys @ ys')"
proof -
  have "register_loop (pre @ (xs @ xs') @ post) (length pre) e k m =
      register_loop (pre @ (ys @ ys') @ post) (length pre + length (xs @ xs')) e k2 m2"
    if le: "length pre + length (xs @ xs') \<le> e" for pre post
    using assigns_run [OF a, of pre "xs' @ post"] assigns_run [OF b, of "pre @ ys" post] le
      assigns_length [OF a]
    by (simp add: add.assoc)
  with assigns_length [OF a] assigns_length [OF b] show ?thesis by (simp add: assigns_def)
qed

lemma too_many_append_left: "too_many e k m xs \<Longrightarrow> too_many e k m (xs @ ys)"
  by (simp add: too_many_def)

lemma too_many_append_right:
  assumes a: "assigns e k m xs k1 m1 ys" and b: "too_many e k1 m1 xs'"
  shows "too_many e k m (xs @ xs')"
proof -
  have "\<exists>mem. register_loop (pre @ (xs @ xs') @ post) (length pre) e k m = Some (- 1, mem)"
    if le: "length pre + length (xs @ xs') \<le> e" for pre post
  proof -
    have "length (pre @ ys) + length xs' \<le> e" using le assigns_length [OF a] by simp
    then obtain mem where "register_loop ((pre @ ys) @ xs' @ post) (length (pre @ ys)) e k1 m1 = Some (- 1, mem)"
      using b unfolding too_many_def by blast
    then show ?thesis
      using assigns_run [OF a, of pre "xs' @ post"] le assigns_length [OF a] by simp
  qed
  then show ?thesis by (simp add: too_many_def)
qed

section \<open>The operations\<close>

lemma assigns_plain:
  assumes "op \<notin> push_ops" "op \<notin> pop1_ops" "op \<notin> pop2_ops"
    and "\<And>pre post. var_len op (pre @ reop_byte op # bs @ post) (length pre) = Some v"
    and "reopcode_size op + v = 1 + length bs"
  shows "assigns e k m (reop_byte op # bs) k m (reop_byte op # bs)"
proof -
  have "register_loop (pre @ reop_byte op # bs @ post) (length pre) e k m =
      register_loop (pre @ reop_byte op # bs @ post) (length pre + (1 + length bs)) e k m"
    if "length pre + (1 + length bs) \<le> e" for pre post
    using register_loop_at [of pre op e "bs @ post" v k m] assms that by (simp add: Let_def add.assoc)
  then show ?thesis by (simp add: assigns_def)
qed

definition fixed_ops :: "reopcode set" where
  "fixed_ops = - (range_ops \<union> range32_ops \<union> ref_ops)"

lemma var_len_fixed: "op \<in> fixed_ops \<Longrightarrow> var_len op mem pos = Some 0"
  by (auto simp: var_len_def fixed_ops_def range_ops_def range32_ops_def ref_ops_def)

lemma assigns_fixed:
  "op \<in> fixed_ops \<Longrightarrow> op \<notin> push_ops \<Longrightarrow> op \<notin> pop1_ops \<Longrightarrow> op \<notin> pop2_ops \<Longrightarrow>
   reopcode_size op = 1 + length bs \<Longrightarrow> assigns e k m (reop_byte op # bs) k m (reop_byte op # bs)"
  by (rule assigns_plain) (simp_all add: var_len_fixed)

lemma assigns_push:
  assumes "op \<in> push_ops" and "reopcode_size op = 2 + length bs" and "k < 255" and "m \<le> 255"
  shows "assigns e k m (reop_byte op # x # bs) (k + 1) (max m (k + 1)) (reop_byte op # reg8 k # bs)"
proof -
  have fixed: "op \<in> fixed_ops" using assms(1) by (auto simp: push_ops_def fixed_ops_def op_sets)
  have "register_loop (pre @ reop_byte op # x # bs @ post) (length pre) e k m =
      register_loop (pre @ reop_byte op # reg8 k # bs @ post) (length pre + (2 + length bs)) e (k + 1) (max m (k + 1))"
    if "length pre + (2 + length bs) \<le> e" for pre post
    using register_loop_at [of pre op e "x # bs @ post" 0 k m] assms that
    by (simp add: Let_def var_len_fixed [OF fixed] reg8_def REGISTER_COUNT_MAX_def list_update_append max_def)
  then show ?thesis by (simp add: assigns_def)
qed

lemma too_many_push:
  assumes "op \<in> push_ops" and "reopcode_size op = 2 + length bs" and "255 \<le> k" and "m \<le> 255"
  shows "too_many e k m (reop_byte op # x # bs)"
proof -
  have fixed: "op \<in> fixed_ops" using assms(1) by (auto simp: push_ops_def fixed_ops_def op_sets)
  have "\<exists>mem. register_loop (pre @ reop_byte op # x # bs @ post) (length pre) e k m = Some (- 1, mem)"
    if "length pre + (2 + length bs) \<le> e" for pre post
    using register_loop_at [of pre op e "x # bs @ post" 0 k m] assms that
    by (simp add: Let_def var_len_fixed [OF fixed] REGISTER_COUNT_MAX_def)
  then show ?thesis by (simp add: too_many_def)
qed

lemma assigns_pop1:
  assumes "op \<in> pop1_ops" and "reopcode_size op = 2 + length bs"
  shows "assigns e (k + 1) m (reop_byte op # x # bs) k m (reop_byte op # reg8 k # bs)"
proof -
  have fixed: "op \<in> fixed_ops" and np: "op \<notin> push_ops"
    using assms(1) by (auto simp: pop1_ops_def push_ops_def fixed_ops_def op_sets)
  have "register_loop (pre @ reop_byte op # x # bs @ post) (length pre) e (k + 1) m =
      register_loop (pre @ reop_byte op # reg8 k # bs @ post) (length pre + (2 + length bs)) e k m"
    if "length pre + (2 + length bs) \<le> e" for pre post
    using register_loop_at [of pre op e "x # bs @ post" 0 "k + 1" m] assms np that
    by (simp add: Let_def var_len_fixed [OF fixed] reg8_def list_update_append)
  then show ?thesis by (simp add: assigns_def)
qed

lemma assigns_pop2:
  assumes "op \<in> pop2_ops" and "reopcode_size op = 2 + length bs"
  shows "assigns e (k + 2) m (reop_byte op # x # bs) k m (reop_byte op # reg8 k # bs)"
proof -
  have fixed: "op \<in> fixed_ops" and np: "op \<notin> push_ops" "op \<notin> pop1_ops"
    using assms(1) by (auto simp: pop1_ops_def pop2_ops_def push_ops_def fixed_ops_def op_sets)
  have "register_loop (pre @ reop_byte op # x # bs @ post) (length pre) e (k + 2) m =
      register_loop (pre @ reop_byte op # reg8 k # bs @ post) (length pre + (2 + length bs)) e k m"
    if "length pre + (2 + length bs) \<le> e" for pre post
    using register_loop_at [of pre op e "x # bs @ post" 0 "k + 2" m] assms np that
    by (simp add: Let_def var_len_fixed [OF fixed] reg8_def list_update_append)
  then show ?thesis by (simp add: assigns_def)
qed

text \<open>The simple instructions of a tree.\<close>

lemma get_u16_at: "get_u16 (pre @ b # le16 v @ post) (length pre + 1) = Some (ucast v)"
  using f16.dec_enc [of "pre @ [b]" v post] by simp

lemma get_u8_at: "get_u8 (pre @ b # v # post) (length pre + 1) = Some (ucast v)"
  by (simp add: get_u8_def rd_def nth_append)

lemma assigns_op:
  assumes "op_ok n op bs"
  shows "assigns e k m (reop_byte op # bs) k m (reop_byte op # bs)"
proof -
  have w8: "unat (ucast m :: u32) = unat m" for m :: u8
    using unsigned_less [where ?'a = nat, of m] by (simp add: unsigned_ucast_eq take_bit_nat_eq_self)
  have w16: "unat (ucast m :: u32) = unat m" for m :: u16
    using unsigned_less [where ?'a = nat, of m] by (simp add: unsigned_ucast_eq take_bit_nat_eq_self)
  from assms show ?thesis
  proof cases
    case ok_unit
    then show ?thesis unfolding unit_ops_def
      by (elim insertE emptyE; hypsubst; intro assigns_fixed)
        (simp_all add: fixed_ops_def op_sets push_ops_def pop1_ops_def pop2_ops_def reopcode_size_def reop_sizes_def)
  next
    case (ok_char v)
    then show ?thesis unfolding char_ops_def
      by (elim insertE emptyE; hypsubst; intro assigns_fixed)
        (simp_all add: fixed_ops_def op_sets push_ops_def pop1_ops_def pop2_ops_def reopcode_size_def reop_sizes_def f16.enc_length)
  next
    case (ok_char32 v)
    then show ?thesis unfolding char32_ops_def
      by (elim insertE emptyE; hypsubst; intro assigns_fixed)
        (simp_all add: fixed_ops_def op_sets push_ops_def pop1_ops_def pop2_ops_def reopcode_size_def reop_sizes_def)
  next
    case (ok_range k tab)
    then show ?thesis unfolding range_ops_def
      by (elim insertE emptyE; hypsubst; intro assigns_plain [where v = "4 * unat k"])
        (simp_all add: var_len_def get_u16_at [simplified] w16 push_ops_def pop1_ops_def pop2_ops_def reopcode_size_def reop_sizes_def f16.enc_length)
  next
    case (ok_range32 k tab)
    then show ?thesis unfolding range32_ops_def
      by (elim insertE emptyE; hypsubst; intro assigns_plain [where v = "8 * unat k"])
        (simp_all add: var_len_def get_u16_at [simplified] w16 push_ops_def pop1_ops_def pop2_ops_def reopcode_size_def reop_sizes_def f16.enc_length)
  next
    case (ok_ref gs k)
    then show ?thesis unfolding ref_ops_def
      by (elim insertE emptyE; hypsubst; intro assigns_plain [where v = "unat k"])
        (simp_all add: var_len_def get_u8_at [simplified] w8 push_ops_def pop1_ops_def pop2_ops_def reopcode_size_def reop_sizes_def)
  next
    case (ok_save m)
    then show ?thesis unfolding save_ops_def
      by (elim insertE emptyE; hypsubst; intro assigns_fixed)
        (simp_all add: fixed_ops_def op_sets push_ops_def pop1_ops_def pop2_ops_def reopcode_size_def reop_sizes_def)
  next
    case (ok_save_reset b a)
    show ?thesis unfolding ok_save_reset
      by (intro assigns_fixed)
        (simp_all add: fixed_ops_def op_sets push_ops_def pop1_ops_def pop2_ops_def reopcode_size_def reop_sizes_def)
  qed
qed

section \<open>Trees\<close>

lemma assigns_jump:
  assumes "op = REOP_goto \<or> op = split_op gr \<or> op = back_op gr \<or> op = look_op gr" and "length bs = 4"
  shows "assigns e k m (reop_byte op # bs) k m (reop_byte op # bs)"
  using assms
  by (intro assigns_fixed; cases gr)
    (auto simp: split_op_def back_op_def look_op_def fixed_ops_def op_sets push_ops_def pop1_ops_def pop2_ops_def
      reopcode_size_def reop_sizes_def)

lemma assigns_look_match: "assigns e k m [reop_byte (look_match_op neg)] k m [reop_byte (look_match_op neg)]"
  by (rule assigns_fixed; cases neg)
    (auto simp: look_match_op_def fixed_ops_def op_sets push_ops_def pop1_ops_def pop2_ops_def
      reopcode_size_def reop_sizes_def)

lemma op_sizes:
  "reopcode_size REOP_set_i32 = 6" "reopcode_size REOP_set_char_pos = 2" "reopcode_size REOP_check_advance = 2"
  "reopcode_size REOP_loop = 6" "reopcode_size (count_op gr) = 10" "reopcode_size (count_adv_op gr) = 10"
  by (simp_all add: reopcode_size_def reop_sizes_def count_op_def count_adv_op_def)

lemma loop_op_kinds:
  "REOP_set_i32 \<in> push_ops" "REOP_set_char_pos \<in> push_ops" "REOP_check_advance \<in> pop1_ops"
  "REOP_loop \<in> pop1_ops" "count_op gr \<in> pop1_ops" "count_adv_op gr \<in> pop2_ops"
  by (simp_all add: push_ops_def pop1_ops_def pop2_ops_def count_op_def count_adv_op_def)

lemmas assigns_set_i32 = assigns_push [OF loop_op_kinds(1), of "le32 n" for n]
lemmas assigns_set_char_pos = assigns_push [OF loop_op_kinds(2), of "[]"]
lemmas assigns_check_advance = assigns_pop1 [OF loop_op_kinds(3), of "[]"]
lemmas assigns_loop = assigns_pop1 [OF loop_op_kinds(4), of "bwd n" for n]
lemmas assigns_count = assigns_pop1 [OF loop_op_kinds(5), of gr "le32 lim @ bwd n" for gr lim n]
lemmas assigns_count_adv = assigns_pop2 [OF loop_op_kinds(6), of gr "le32 lim @ bwd n" for gr lim n]

lemma flat_assigns:
  "code_ok n c \<Longrightarrow> k \<le> m \<Longrightarrow> m \<le> 255 \<Longrightarrow> k + regs c \<le> 255 \<Longrightarrow>
   assigns e k m (flat g k c) k (max m (k + regs c)) (flat reg8 k c)"
proof (induction c arbitrary: k m)
  case Nop
  then show ?case by (simp add: assigns_Nil max_def)
next
  case (Op op bs)
  then show ?case using assigns_op [of n op bs e k m] by (simp add: max_def)
next
  case (Seq a b)
  have "max (max m (k + regs a)) (k + regs b) = max m (k + regs (Seq a b))" by simp
  then show ?case
    using assigns_append [OF Seq.IH(1) [of k m] Seq.IH(2) [of k "max m (k + regs a)"]] Seq.prems by simp
next
  case (Alt a b)
  have "max (max m (k + regs a)) (k + regs b) = max m (k + regs (Alt a b))" by simp
  moreover have "assigns e k m ((reop_byte REOP_split_next_first # fwd (csize a + 5)) @ flat g k a @
      (reop_byte REOP_goto # fwd (csize b)) @ flat g k b) k (max (max m (k + regs a)) (k + regs b))
     ((reop_byte REOP_split_next_first # fwd (csize a + 5)) @ flat reg8 k a @
      (reop_byte REOP_goto # fwd (csize b)) @ flat reg8 k b)"
    using Alt.prems assigns_jump [of REOP_split_next_first True]
    by (intro assigns_append [OF _ assigns_append [OF Alt.IH(1) assigns_append [OF assigns_jump Alt.IH(2)]]])
      (auto simp: split_op_def)
  ultimately show ?case by simp
next
  case (Opt gr a)
  have "assigns e k m ((reop_byte (split_op gr) # fwd (csize a)) @ flat g k a) k (max m (k + regs a))
     ((reop_byte (split_op gr) # fwd (csize a)) @ flat reg8 k a)"
    using Opt.prems by (intro assigns_append [OF assigns_jump Opt.IH]) auto
  then show ?case by simp
next
  case (Star gr a)
  have "assigns e k m ((reop_byte (split_op gr) # fwd (csize a + 5)) @ flat g k a @ (reop_byte REOP_goto # bwd (csize a + 10)))
      k (max m (k + regs a))
     ((reop_byte (split_op gr) # fwd (csize a + 5)) @ flat reg8 k a @ (reop_byte REOP_goto # bwd (csize a + 10)))"
    using Star.prems by (intro assigns_append [OF assigns_jump assigns_append [OF Star.IH assigns_jump]]) auto
  then show ?case by simp
next
  case (Plus gr a)
  have "assigns e k m (flat g k a @ (reop_byte (back_op gr) # bwd (csize a + 5))) k (max m (k + regs a))
     (flat reg8 k a @ (reop_byte (back_op gr) # bwd (csize a + 5)))"
    using Plus.prems by (intro assigns_append [OF Plus.IH assigns_jump]) auto
  then show ?case by simp
next
  case (Adv a)
  have m: "max (max m (k + 1)) (k + 1 + regs a) = max m (k + regs (Adv a))" by simp
  have "assigns e k m ([reop_byte REOP_set_char_pos, g k] @ flat g (k + 1) a @ [reop_byte REOP_check_advance, g k])
      k (max (max m (k + 1)) (k + 1 + regs a))
     ([reop_byte REOP_set_char_pos, reg8 k] @ flat reg8 (k + 1) a @ [reop_byte REOP_check_advance, reg8 k])"
    using Adv.prems
    by (intro assigns_append [OF assigns_set_char_pos assigns_append [OF Adv.IH assigns_check_advance]])
      (auto simp: op_sizes)
  with m show ?case by simp
next
  case (Loop v a)
  have m: "max (max m (k + 1)) (k + 1 + regs a) = max m (k + regs (Loop v a))" by simp
  have "assigns e k m ((reop_byte REOP_set_i32 # g k # le32 v) @ flat g (k + 1) a @ (reop_byte REOP_loop # g k # bwd (csize a + 6)))
      k (max (max m (k + 1)) (k + 1 + regs a))
     ((reop_byte REOP_set_i32 # reg8 k # le32 v) @ flat reg8 (k + 1) a @ (reop_byte REOP_loop # reg8 k # bwd (csize a + 6)))"
    using Loop.prems
    by (intro assigns_append [OF assigns_set_i32 assigns_append [OF Loop.IH assigns_loop]])
      (auto simp: op_sizes)
  with m show ?case by simp
next
  case (Count gr v lim a)
  have m: "max (max m (k + 1)) (k + 1 + regs a) = max m (k + regs (Count gr v lim a))" by simp
  have "assigns e k m ((reop_byte REOP_set_i32 # g k # le32 v) @ flat g (k + 1) a @ (reop_byte (count_op gr) # g k # le32 lim @ bwd (csize a + 10)))
      k (max (max m (k + 1)) (k + 1 + regs a))
     ((reop_byte REOP_set_i32 # reg8 k # le32 v) @ flat reg8 (k + 1) a @ (reop_byte (count_op gr) # reg8 k # le32 lim @ bwd (csize a + 10)))"
    using Count.prems
    by (intro assigns_append [OF assigns_set_i32 assigns_append [OF Count.IH assigns_count]])
      (auto simp: op_sizes)
  with m show ?case by simp
next
  case (Count_adv gr v lim a)
  have m: "max (max (max m (k + 1)) (k + 1 + 1)) (k + 1 + 1 + regs a) = max m (k + regs (Count_adv gr v lim a))" by simp
  have "assigns e k m ((reop_byte REOP_set_i32 # g k # le32 v) @ [reop_byte REOP_set_char_pos, g (k + 1)] @ flat g (k + 1 + 1) a @
        (reop_byte (count_adv_op gr) # g k # le32 lim @ bwd (csize a + 12)))
      k (max (max (max m (k + 1)) (k + 1 + 1)) (k + 1 + 1 + regs a))
     ((reop_byte REOP_set_i32 # reg8 k # le32 v) @ [reop_byte REOP_set_char_pos, reg8 (k + 1)] @ flat reg8 (k + 1 + 1) a @
        (reop_byte (count_adv_op gr) # reg8 k # le32 lim @ bwd (csize a + 12)))"
  proof (intro assigns_append [OF assigns_set_i32 assigns_append [OF assigns_set_char_pos assigns_append [OF Count_adv.IH]]])
    show "assigns e (k + 1 + 1) (max (max (max m (k + 1)) (k + 1 + 1)) (k + 1 + 1 + regs a))
      (reop_byte (count_adv_op gr) # g k # le32 lim @ bwd (csize a + 12)) k
      (max (max (max m (k + 1)) (k + 1 + 1)) (k + 1 + 1 + regs a))
      (reop_byte (count_adv_op gr) # reg8 k # le32 lim @ bwd (csize a + 12))"
      using assigns_count_adv [of gr lim "csize a + 12" e k] by (simp add: op_sizes)
  qed (use Count_adv.prems in \<open>auto simp: op_sizes\<close>)
  with m show ?case by simp
next
  case (Look neg a)
  have "assigns e k m ((reop_byte (look_op neg) # fwd (csize a + 1)) @ flat g k a @ [reop_byte (look_match_op neg)])
      k (max m (k + regs a))
     ((reop_byte (look_op neg) # fwd (csize a + 1)) @ flat reg8 k a @ [reop_byte (look_match_op neg)])"
    using Look.prems by (intro assigns_append [OF assigns_jump assigns_append [OF Look.IH assigns_look_match]]) auto
  then show ?case by simp
qed

text \<open>More than 255 loops inside each other give the status -1.\<close>

lemmas too_many_set_i32 = too_many_push [OF loop_op_kinds(1), of "le32 n" for n]
lemmas too_many_set_char_pos = too_many_push [OF loop_op_kinds(2), of "[]"]

lemma too_many_after:
  "assigns e k m xs k m xs \<Longrightarrow> too_many e k m ys \<Longrightarrow> too_many e k m (xs @ ys @ zs)"
  using too_many_append_right too_many_append_left by blast

lemma flat_too_many:
  "code_ok n c \<Longrightarrow> k \<le> m \<Longrightarrow> m \<le> 255 \<Longrightarrow> 255 < k + regs c \<Longrightarrow> too_many e k m (flat g k c)"
proof (induction c arbitrary: k m)
  case Nop
  then show ?case by simp
next
  case (Op op bs)
  then show ?case by simp
next
  case (Seq a b)
  show ?case
  proof (cases "k + regs a \<le> 255")
    case True
    with Seq.prems have "too_many e k (max m (k + regs a)) (flat g k b)"
      by (intro Seq.IH(2)) auto
    with True Seq.prems flat_assigns [of n a k m e g] show ?thesis
      by (auto intro: too_many_append_right)
  next
    case False
    with Seq.prems Seq.IH(1) [of k m] show ?thesis by (auto intro: too_many_append_left)
  qed
next
  case (Alt a b)
  have j: "assigns e k m' (reop_byte op # bs) k m' (reop_byte op # bs)"
    if "op = REOP_split_next_first \<or> op = REOP_goto" "length bs = 4" for op bs m'
    using assigns_jump [of op True bs] that by (auto simp: split_op_def)
  show ?case
  proof (cases "k + regs a \<le> 255")
    case True
    let ?m = "max m (k + regs a)"
    have "too_many e k ?m (flat g k b)"
      using True Alt.prems by (intro Alt.IH(2)) auto
    then have "too_many e k ?m ((reop_byte REOP_goto # fwd (csize b)) @ flat g k b)"
      by (intro too_many_append_right [OF j]) auto
    then have "too_many e k m (flat g k a @ (reop_byte REOP_goto # fwd (csize b)) @ flat g k b)"
      using True Alt.prems by (intro too_many_append_right [OF flat_assigns]) auto
    then have "too_many e k m ((reop_byte REOP_split_next_first # fwd (csize a + 5)) @
        flat g k a @ (reop_byte REOP_goto # fwd (csize b)) @ flat g k b)"
      by (intro too_many_append_right [OF j]) auto
    then show ?thesis by simp
  next
    case False
    with Alt.prems have "too_many e k m (flat g k a)" by (intro Alt.IH(1)) auto
    then have "too_many e k m ((reop_byte REOP_split_next_first # fwd (csize a + 5)) @
        flat g k a @ (reop_byte REOP_goto # fwd (csize b)) @ flat g k b)"
      by (intro too_many_after [OF j]) auto
    then show ?thesis by simp
  qed
next
  case (Opt gr a)
  have "too_many e k m ((reop_byte (split_op gr) # fwd (csize a)) @ flat g k a)"
    using Opt.prems Opt.IH by (intro too_many_append_right [OF assigns_jump [of _ gr]]) auto
  then show ?case by simp
next
  case (Star gr a)
  have "too_many e k m ((reop_byte (split_op gr) # fwd (csize a + 5)) @ flat g k a @
      (reop_byte REOP_goto # bwd (csize a + 10)))"
    using Star.prems Star.IH by (intro too_many_after [OF assigns_jump [of _ gr]]) auto
  then show ?case by simp
next
  case (Plus gr a)
  then show ?case by (auto intro: too_many_append_left)
next
  case (Adv a)
  have "too_many e k m ([reop_byte REOP_set_char_pos, g k] @ flat g (k + 1) a @ [reop_byte REOP_check_advance, g k])"
  proof (cases "k = 255")
    case True
    with Adv.prems show ?thesis
      by (intro too_many_append_left too_many_set_char_pos) (auto simp: op_sizes)
  next
    case False
    with Adv.prems show ?thesis
      by (intro too_many_append_right [OF assigns_set_char_pos] too_many_append_left Adv.IH) (auto simp: op_sizes)
  qed
  then show ?case by simp
next
  case (Loop v a)
  have "too_many e k m ((reop_byte REOP_set_i32 # g k # le32 v) @ flat g (k + 1) a @
      reop_byte REOP_loop # g k # bwd (csize a + 6))"
  proof (cases "k = 255")
    case True
    with Loop.prems show ?thesis
      by (intro too_many_append_left too_many_set_i32) (auto simp: op_sizes)
  next
    case False
    with Loop.prems show ?thesis
      by (intro too_many_append_right [OF assigns_set_i32] too_many_append_left Loop.IH) (auto simp: op_sizes)
  qed
  then show ?case by simp
next
  case (Count gr v lim a)
  have "too_many e k m ((reop_byte REOP_set_i32 # g k # le32 v) @ flat g (k + 1) a @
      reop_byte (count_op gr) # g k # le32 lim @ bwd (csize a + 10))"
  proof (cases "k = 255")
    case True
    with Count.prems show ?thesis
      by (intro too_many_append_left too_many_set_i32) (auto simp: op_sizes)
  next
    case False
    with Count.prems show ?thesis
      by (intro too_many_append_right [OF assigns_set_i32] too_many_append_left Count.IH) (auto simp: op_sizes)
  qed
  then show ?case by simp
next
  case (Count_adv gr v lim a)
  have "too_many e k m ((reop_byte REOP_set_i32 # g k # le32 v) @ [reop_byte REOP_set_char_pos, g (k + 1)] @
      flat g (k + 2) a @ reop_byte (count_adv_op gr) # g k # le32 lim @ bwd (csize a + 12))"
  proof (cases "k = 255")
    case True
    with Count_adv.prems show ?thesis
      by (intro too_many_append_left too_many_set_i32) (auto simp: op_sizes)
  next
    case k: False
    have "too_many e (k + 1) (max m (k + 1)) ([reop_byte REOP_set_char_pos, g (k + 1)] @
        flat g (k + 2) a @ reop_byte (count_adv_op gr) # g k # le32 lim @ bwd (csize a + 12))"
    proof (cases "k + 1 = 255")
      case True
      with Count_adv.prems show ?thesis
        by (intro too_many_append_left too_many_set_char_pos) (auto simp: op_sizes)
    next
      case False
      have "too_many e (k + 1 + 1) (max (max m (k + 1)) (k + 1 + 1)) (flat g (k + 2) a)"
        using Count_adv.prems Count_adv.IH [of "k + 2"] k False by simp
      with Count_adv.prems k False show ?thesis
        by (intro too_many_append_right [OF assigns_set_char_pos] too_many_append_left) (auto simp: op_sizes)
    qed
    with Count_adv.prems k show ?thesis
      by (intro too_many_append_right [OF assigns_set_i32]) (auto simp: op_sizes)
  qed
  then show ?case by simp
next
  case (Look neg a)
  have "too_many e k m ((reop_byte (look_op neg) # fwd (csize a + 1)) @ flat g k a @ [reop_byte (look_match_op neg)])"
    using Look.prems Look.IH by (intro too_many_after [OF assigns_jump [of _ neg]]) auto
  then show ?case by simp
qed

section \<open>Whole programs\<close>

lemma assigns_match: "assigns e k m [reop_byte REOP_match] k m [reop_byte REOP_match]"
  by (rule assigns_fixed)
    (simp_all add: fixed_ops_def op_sets push_ops_def pop1_ops_def pop2_ops_def reopcode_size_def reop_sizes_def)

lemma register_count_of_program:
  assumes "code_ok n c" and "length hdr = RE_HEADER_LEN" and "e = RE_HEADER_LEN + csize c + 1"
  shows "compute_register_count (hdr @ flat g 0 c @ reop_byte REOP_match # rest) e =
      Some (int (regs c), hdr @ flat reg8 0 c @ reop_byte REOP_match # rest) \<and> regs c \<le> 255 \<or>
    (\<exists>mem. compute_register_count (hdr @ flat g 0 c @ reop_byte REOP_match # rest) e = Some (- 1, mem)) \<and> 255 < regs c"
proof (cases "regs c \<le> 255")
  case True
  have "assigns e 0 0 (flat g 0 c @ [reop_byte REOP_match]) 0 (regs c) (flat reg8 0 c @ [reop_byte REOP_match])"
    using flat_assigns [OF assms(1), of 0 0 e g] True assigns_match by (auto intro: assigns_append)
  from assigns_run [OF this, of hdr rest] have
    "register_loop (hdr @ flat g 0 c @ reop_byte REOP_match # rest) RE_HEADER_LEN e 0 0 =
     register_loop (hdr @ flat reg8 0 c @ reop_byte REOP_match # rest) e e 0 (regs c)"
    using assms(2,3) by simp
  then show ?thesis
    using True by (simp add: compute_register_count_def register_loop.simps [of _ e e])
next
  case False
  have "too_many e 0 0 (flat g 0 c @ [reop_byte REOP_match])"
    using False flat_too_many [OF assms(1), of 0 0 e g] by (auto intro: too_many_append_left)
  moreover have "length hdr + length (flat g 0 c @ [reop_byte REOP_match]) \<le> e" using assms(2,3) by simp
  ultimately have "\<exists>mem. register_loop (hdr @ (flat g 0 c @ [reop_byte REOP_match]) @ rest) (length hdr) e 0 0 = Some (- 1, mem)"
    unfolding too_many_def by blast
  then show ?thesis using False assms(2) by (simp add: compute_register_count_def)
qed

end
