(* ===== verification/CodeEmit.thy ===== *)
theory CodeEmit
  imports CodeRegs
begin

text \<open>
  What the emitters do to the byte code when no allocation has failed: they append instructions.
  The judgement \<open>runs\<close> carries the invariant of the state through the parser: a function that
  returns with the error flag of the buffer clear found it clear, keeps the invariant, and has its
  postcondition.
\<close>

section \<open>Code before the registers are assigned\<close>

definition code_bytes :: "code \<Rightarrow> u8 list" where
  "code_bytes c = flat (\<lambda>_. 0) 0 c"

lemma flat_zero: "flat (\<lambda>_. 0) k c = code_bytes c"
proof -
  have "\<exists>b. \<forall>k. flat (\<lambda>_. 0) k c = b"
    by (induction c) auto
  then show ?thesis by (auto simp: code_bytes_def)
qed

lemmas code_bytes_simps [simp] = flat.simps [of "\<lambda>_. 0" 0, unfolded flat_zero]

lemma length_code_bytes [simp]: "length (code_bytes c) = csize c"
  by (simp add: code_bytes_def)

section \<open>The buffer under a bounded allocator\<close>

lemma dbuf_claim_err: "dbuf_err d \<Longrightarrow> dbuf_err (snd (dbuf_claim a d len))"
  by (simp add: dbuf_claim_def Let_def)

lemma dbuf_put_err: "dbuf_err d \<Longrightarrow> dbuf_err (snd (dbuf_put a d data))"
  using dbuf_claim_err [of d a "length data"]
  by (cases "dbuf_claim a d (length data)") (simp add: dbuf_put_def Let_def)

lemma dbuf_insert_err: "dbuf_err d \<Longrightarrow> dbuf_err (snd (dbuf_insert a d pos len))"
  using dbuf_claim_err [of d a len]
  by (cases "dbuf_claim a d len") (simp add: dbuf_insert_def Let_def)

lemma dbuf_putc_err: "dbuf_err d \<Longrightarrow> dbuf_err (snd (dbuf_putc a d v))"
  by (simp add: dbuf_putc_def dbuf_put_err)

lemma dbuf_claim_bounded:
  assumes "dbuf_wf d" "dbuf_allocated d \<le> b" "b < 2 ^ 31" "len < 2 ^ 31" "\<And>n. a n \<Longrightarrow> n \<le> b"
    and "dbuf_claim a d len = (rc, d')" "\<not> dbuf_err d'"
  shows "rc = 0 \<and> \<not> dbuf_err d \<and> dbuf_allocated d' \<le> b"
proof -
  have "(dbuf_size d + len) mod 2 ^ 64 = dbuf_size d + len"
    "(dbuf_allocated d + dbuf_allocated d div 2) mod 2 ^ 64 = dbuf_allocated d + dbuf_allocated d div 2"
    using assms(1-4) by (simp_all add: dbuf_wf_def)
  with assms show ?thesis
    by (auto simp: dbuf_claim_def Let_def split: if_splits)
qed

lemma dbuf_put_bounded:
  assumes "dbuf_wf d" "dbuf_allocated d \<le> b" "b < 2 ^ 31" "length data < 2 ^ 31" "\<And>n. a n \<Longrightarrow> n \<le> b"
    and "dbuf_put a d data = (rc, d')" "\<not> dbuf_err d'"
  shows "rc = 0 \<and> \<not> dbuf_err d \<and> dbuf_allocated d' \<le> b"
proof (cases "dbuf_allocated d - dbuf_size d < length data")
  case True
  obtain rc0 d0 where c: "dbuf_claim a d (length data) = (rc0, d0)" by fastforce
  with assms(6) True have "\<not> dbuf_err d0" using assms(7) by (auto simp: dbuf_put_def split: if_splits)
  from dbuf_claim_bounded [OF assms(1-5) c this] assms(6) True c show ?thesis
    by (auto simp: dbuf_put_def split: if_splits)
next
  case False
  with assms show ?thesis by (auto simp: dbuf_put_def split: if_splits)
qed

section \<open>The invariant of the state\<close>

abbreviation cc :: "re_parse_state \<Rightarrow> nat" where "cc \<equiv> s_capture_count"

text \<open>What an emitter does not touch.\<close>

abbreviation kept :: "re_parse_state \<Rightarrow> re_parse_state \<Rightarrow> bool" where
  "kept s s' \<equiv> cc s' = cc s \<and> pat s' = pat s \<and> buf_end s' = buf_end s \<and> buf_ptr s' = buf_ptr s"

definition content :: "re_parse_state \<Rightarrow> u8 list" where
  "content s = dbuf_content (byte_code s)"

definition fine :: "re_parse_state \<Rightarrow> bool" where
  "fine s \<longleftrightarrow> \<not> dbuf_err (byte_code s)"

text \<open>
  The names of the groups: how often a byte other than zero is followed by a zero is at most the
  number of groups, also when some of the names are missing for lack of memory.
\<close>

fun ends :: "u8 list \<Rightarrow> nat" where
  "ends (a # b # xs) = of_bool (a \<noteq> 0 \<and> b = 0) + ends (b # xs)"
| "ends xs = 0"

definition names_inv :: "nat \<Rightarrow> dynbuf \<Rightarrow> bool" where
  "names_inv n d \<longleftrightarrow> dbuf_wf d \<and> (\<exists>m. dbuf_mem d = dbuf_content d @ replicate m 0) \<and> ends (dbuf_content d) \<le> n"

definition bc_ok :: "re_parse_state \<Rightarrow> bool" where
  "bc_ok s \<longleftrightarrow> dbuf_wf (byte_code s) \<and> dbuf_allocated (byte_code s) \<le> 0x3fffffff"

definition ps_inv :: "re_parse_state \<Rightarrow> bool" where
  "ps_inv s \<longleftrightarrow> bc_ok s \<and> 1 \<le> cc s \<and> cc s \<le> CAPTURE_COUNT_MAX \<and> names_inv (cc s - 1) (group_names s)"

lemma bc_size_content: "bc_ok s \<Longrightarrow> bc_size s = length (content s)"
  by (simp add: bc_ok_def bc_size_def content_def dbuf_content_def dbuf_wf_def)

lemma ps_inv_bc_ok: "ps_inv s \<Longrightarrow> bc_ok s"
  by (simp add: ps_inv_def)

lemma ps_inv_size: "ps_inv s \<Longrightarrow> bc_size s = length (content s)"
  by (simp add: ps_inv_bc_ok bc_size_content)

lemma content_bound: "bc_ok s \<Longrightarrow> length (content s) \<le> 0x3fffffff"
  by (simp add: bc_ok_def content_def dbuf_content_def dbuf_wf_def)

section \<open>The judgement\<close>

definition runs :: "bool \<Rightarrow> re_parse_state \<Rightarrow> 'a parsed \<Rightarrow> ('a \<Rightarrow> re_parse_state \<Rightarrow> bool) \<Rightarrow> bool" where
  "runs P s m Q \<longleftrightarrow>
     (\<forall>x s'. m = Done x s' \<longrightarrow> fine s' \<longrightarrow> fine s \<and> (ps_inv s \<longrightarrow> P \<longrightarrow> ps_inv s' \<and> cc s \<le> cc s' \<and> Q x s'))"

lemma runsI:
  "(\<And>x s'. m = Done x s' \<Longrightarrow> fine s' \<Longrightarrow> fine s) \<Longrightarrow>
   (\<And>x s'. m = Done x s' \<Longrightarrow> fine s' \<Longrightarrow> ps_inv s \<Longrightarrow> P \<Longrightarrow> ps_inv s' \<and> cc s \<le> cc s' \<and> Q x s') \<Longrightarrow> runs P s m Q"
  by (simp add: runs_def)

lemma runs_Done: "(ps_inv s \<Longrightarrow> P \<Longrightarrow> Q x s) \<Longrightarrow> runs P s (Done x s) Q"
  by (simp add: runs_def)

lemma runs_stop: "runs P s (Fail s') Q" "runs P s (Fault s') Q" "runs P s (No_fuel s') Q"
  by (simp_all add: runs_def)

lemma runs_errors:
  "runs P s (re_parse_error msg s') Q" "runs P s (re_parse_out_of_memory s') Q"
  by (simp_all add: re_parse_out_of_memory_def re_parse_error_def runs_stop)

lemma runs_bind:
  assumes "runs P s m Q"
    and "\<And>x s1. runs (ps_inv s \<and> P \<and> cc s \<le> cc s1 \<and> Q x s1) s1 (f x s1) R"
  shows "runs P s (parse_then m f) R"
  using assms by (cases m) (auto simp: runs_def intro: order_trans)

lemma runs_weaken:
  assumes "runs P s m Q" and "ps_inv s \<Longrightarrow> P' \<Longrightarrow> P"
    and "\<And>x s'. ps_inv s \<Longrightarrow> P' \<Longrightarrow> ps_inv s' \<Longrightarrow> cc s \<le> cc s' \<Longrightarrow> Q x s' \<Longrightarrow> Q' x s'"
  shows "runs P' s m Q'"
  using assms by (auto simp: runs_def)

lemma runs_exists: "(\<And>t. runs (P t) s m Q) \<Longrightarrow> runs (\<exists>t. P t) s m Q"
  by (auto simp: runs_def)

lemma runs_same:
  assumes "byte_code s = byte_code s1" "group_names s = group_names s1" "cc s = cc s1"
    and "runs P s1 m Q"
  shows "runs P s m Q"
  using assms by (simp add: runs_def fine_def ps_inv_def bc_ok_def)

lemma runs_at: "(\<And>c. rd (pat s') p = Some c \<Longrightarrow> runs P s (f c) Q) \<Longrightarrow> runs P s (at s' p f) Q"
  by (auto simp: at_def runs_stop split: option.split)

lemma runs_options:
  "(\<And>v. r = Some v \<Longrightarrow> runs P s (f v) Q) \<Longrightarrow> runs P s (or_fault s' r f) Q"
  "(\<And>v. r = Some v \<Longrightarrow> runs P s (f v) Q) \<Longrightarrow> runs P s (or_memory s' r f) Q"
  "(\<And>v. r = Some v \<Longrightarrow> runs P s (f v) Q) \<Longrightarrow> runs P s (or_fail_silently s' r f) Q"
  by (auto simp: or_fault_def or_memory_def or_fail_silently_def runs_stop runs_errors split: option.split)

lemma runs_if: "(b \<Longrightarrow> runs P s m Q) \<Longrightarrow> (\<not> b \<Longrightarrow> runs P s m' Q) \<Longrightarrow> runs P s (if b then m else m') Q"
  by simp

section \<open>Appending\<close>

definition puts :: "re_parse_state \<Rightarrow> u8 list \<Rightarrow> re_parse_state \<Rightarrow> bool" where
  "puts s bs s' \<longleftrightarrow> (fine s' \<longrightarrow> fine s \<and> (ps_inv s \<longrightarrow> ps_inv s' \<and> content s' = content s @ bs)) \<and> kept s s'"

lemma puts_refl: "puts s [] s"
  by (simp add: puts_def)

lemma puts_trans: "puts s a s1 \<Longrightarrow> puts s1 b s2 \<Longrightarrow> puts s (a @ b) s2"
  by (auto simp: puts_def)

lemma runs_puts:
  assumes "puts s bs s1"
    and "runs (ps_inv s \<and> P \<and> kept s s1 \<and> content s1 = content s @ bs) s1 m Q"
  shows "runs P s m Q"
  using assms by (auto simp: puts_def runs_def)

lemma realloc_bound: "lre_bytecode_realloc s n \<Longrightarrow> n \<le> 0x3fffffff"
  by (simp add: lre_bytecode_realloc_def INT32_MAX_def)

lemma puts_put:
  assumes d': "dbuf_wf (byte_code s) \<Longrightarrow> d' = snd (dbuf_put (lre_bytecode_realloc s) (byte_code s) bs)"
    and err: "dbuf_err (byte_code s) \<Longrightarrow> dbuf_err d'" and small: "length bs < 2 ^ 31"
  shows "puts s bs (s\<lparr>byte_code := d'\<rparr>)"
proof -
  have "ps_inv (s\<lparr>byte_code := d'\<rparr>) \<and> content (s\<lparr>byte_code := d'\<rparr>) = content s @ bs"
    if "ps_inv s" and ok: "\<not> dbuf_err d'"
  proof -
    have wf: "dbuf_wf (byte_code s)" "dbuf_allocated (byte_code s) \<le> 0x3fffffff"
      using \<open>ps_inv s\<close> by (simp_all add: ps_inv_def bc_ok_def)
    obtain rc where put: "dbuf_put (lre_bytecode_realloc s) (byte_code s) bs = (rc, d')"
      using d' [OF wf(1)] by (metis prod.collapse)
    have "rc = 0 \<and> dbuf_allocated d' \<le> 0x3fffffff"
      using dbuf_put_bounded [OF wf _ small realloc_bound put ok] by simp
    with dbuf_put_cases [OF wf(1) put] \<open>ps_inv s\<close> show ?thesis
      by (simp add: ps_inv_def bc_ok_def content_def)
  qed
  with err show ?thesis by (auto simp: puts_def fine_def)
qed

lemma puts_emit_u8: "puts s [v] (emit_u8 v s)"
  unfolding emit_u8_def by (rule puts_put) (simp_all add: dbuf_putc_eq dbuf_putc_err)

lemma puts_emit_u16: "puts s (le16 v) (emit_u16 v s)"
  unfolding emit_u16_def dbuf_put_u16_eq by (rule puts_put) (simp_all add: dbuf_put_err f16.enc_length)

lemma puts_emit_u32: "puts s (le32 v) (emit_u32 v s)"
  unfolding emit_u32_def dbuf_put_u32_eq by (rule puts_put) (simp_all add: dbuf_put_err)

lemma puts_emit_op: "puts s [op] (re_emit_op op s)"
  by (simp add: re_emit_op_def puts_emit_u8)

lemma puts_op_u8: "puts s [op, v] (re_emit_op_u8 op v s)"
  using puts_trans [OF puts_emit_u8 puts_emit_u8] by (simp add: re_emit_op_u8_def)

lemma puts_op_u16: "puts s (op # le16 v) (re_emit_op_u16 op v s)"
  using puts_trans [OF puts_emit_u8 puts_emit_u16] by (simp add: re_emit_op_u16_def)

lemma puts_op_u32: "puts s (op # le32 v) (snd (re_emit_op_u32 op v s))"
  using puts_trans [OF puts_emit_u8 puts_emit_u32] by (simp add: re_emit_op_u32_def Let_def)

text \<open>The offset of an operand that is patched later.\<close>

lemma op_u32_pos:
  assumes "re_emit_op_u32 op v s = (pos, s1)" and "ps_inv s" and "fine s1"
  shows "pos = length (content s) + 1"
proof -
  have "puts (emit_u8 op s) (le32 v) s1" "pos = bc_size (emit_u8 op s)"
    using assms(1) puts_emit_u32 by (auto simp: re_emit_op_u32_def Let_def)
  with puts_emit_u8 [of s op] assms(2,3) show ?thesis by (auto simp: puts_def ps_inv_size)
qed

lemma runs_op_u32:
  assumes "\<And>pos s1. runs (ps_inv s \<and> P \<and> kept s s1 \<and> content s1 = content s @ op # le32 v \<and> pos = length (content s) + 1)
      s1 (f pos s1) Q"
  shows "runs P s (case re_emit_op_u32 op v s of (pos, s1) \<Rightarrow> f pos s1) Q"
proof -
  obtain pos s1 where e: "re_emit_op_u32 op v s = (pos, s1)" by fastforce
  with puts_op_u32 [of s op v] have p: "puts s (op # le32 v) s1" by simp
  have "runs P s (f pos s1) Q"
  proof (rule runsI)
    fix x s' assume m: "f pos s1 = Done x s'" "fine s'"
    have s1: "fine s1" using assms [of s1 pos] m by (simp add: runs_def)
    with p show "fine s" by (simp add: puts_def)
    assume "ps_inv s" "P"
    with s1 p op_u32_pos [OF e] assms [of s1 pos] m
    show "ps_inv s' \<and> cc s \<le> cc s' \<and> Q x s'" by (auto simp: puts_def runs_def)
  qed
  with e show ?thesis by simp
qed

text \<open>A jump to a place of the code that was emitted before.\<close>

lemma goto_bwd: "word_of_nat t - word_of_nat (t + n) = (- word_of_nat n :: u32)"
  by simp

lemma puts_jump:
  assumes put: "puts s bs s1" and small: "t \<le> bc_size s + length bs + 4"
  shows "puts s (bs @ bwd (bc_size s + length bs + 4 - t)) (emit_u32 (word_of_nat t - word_of_nat (bc_size s1 + 4)) s1)"
proof -
  let ?v = "word_of_nat t - word_of_nat (bc_size s1 + 4) :: u32"
  have "bc_size s1 = bc_size s + length bs" if "ps_inv s" "fine s1"
    using put that by (simp add: puts_def ps_inv_size)
  then have "le32 ?v = bwd (bc_size s + length bs + 4 - t)" if "ps_inv s" "fine s1"
    using that small goto_bwd [of t "bc_size s + length bs + 4 - t"] by (simp add: bwd_def)
  with put puts_emit_u32 [of s1 ?v] show ?thesis by (auto simp: puts_def)
qed

lemma puts_goto:
  "t \<le> bc_size s \<Longrightarrow> puts s (op # bwd (bc_size s + 5 - t)) (snd (re_emit_goto op (word_of_nat t) s))"
  using puts_jump [OF puts_emit_u8 [of s op], of t] by (simp add: re_emit_goto_def Let_def add.commute)

lemma puts_goto_u8:
  "t \<le> bc_size s \<Longrightarrow> puts s (op # a # bwd (bc_size s + 6 - t)) (snd (re_emit_goto_u8 op a (word_of_nat t) s))"
  using puts_jump [OF puts_trans [OF puts_emit_u8 puts_emit_u8], of t s op a]
  by (simp add: re_emit_goto_u8_def Let_def add.commute)

lemma puts_goto_u8_u32:
  "t \<le> bc_size s \<Longrightarrow>
   puts s (op # a # le32 v @ bwd (bc_size s + 10 - t)) (snd (re_emit_goto_u8_u32 op a v (word_of_nat t) s))"
  using puts_jump [OF puts_trans [OF puts_trans [OF puts_emit_u8 puts_emit_u8] puts_emit_u32], of t s op a v]
  by (simp add: re_emit_goto_u8_u32_def Let_def add.commute)

section \<open>Patching and inserting\<close>

lemma take_mem_write:
  "pos + length data \<le> n \<Longrightarrow> n \<le> length mem \<Longrightarrow>
   take n (mem_write mem pos data) = mem_write (take n mem) pos data"
  by (simp add: mem_write_def drop_take min_absorb1 min_absorb2)

lemma runs_patch:
  "runs (pos + length data \<le> length (content s)) s (patch_bytes pos data s)
     (\<lambda>_ s'. kept s s' \<and> content s' = mem_write (content s) pos data)"
  by (auto simp: runs_def patch_bytes_def fine_def ps_inv_def bc_ok_def content_def dbuf_content_def
      dbuf_wf_def length_mem_write take_mem_write)

lemma runs_insert:
  assumes "length data < 2 ^ 31"
  shows "runs (pos \<le> length (content s)) s (bc_insert pos data s)
     (\<lambda>_ s'. kept s s' \<and> content s' = take pos (content s) @ data @ drop pos (content s))"
proof -
  obtain rc d where ins: "dbuf_insert (lre_bytecode_realloc s) (byte_code s) pos (length data) = (rc, d)" by fastforce
  let ?s = "s\<lparr>byte_code := d\<rparr>"
  have err: "fine s" if "fine ?s"
    using dbuf_insert_err [of "byte_code s" "lre_bytecode_realloc s" pos "length data"] ins that
    by (auto simp: fine_def)
  show ?thesis
  proof (rule runsI)
    fix x s' assume m: "bc_insert pos data s = Done x s'" and "fine s'"
    with ins have rc: "rc = 0" and p: "patch_bytes pos data ?s = Done x s'"
      by (auto simp: bc_insert_def Let_def re_parse_out_of_memory_def re_parse_error_def split: if_splits)
    have fine: "fine ?s" using runs_patch [of pos data ?s] p \<open>fine s'\<close> by (auto simp: runs_def)
    with err show "fine s" by blast
    assume "ps_inv s" and pos: "pos \<le> length (content s)"
    then have wf: "dbuf_wf (byte_code s)" "dbuf_allocated (byte_code s) \<le> 0x3fffffff"
      and size: "pos \<le> dbuf_size (byte_code s)"
      by (simp_all add: ps_inv_def bc_ok_def content_def dbuf_content_def)
    note c = dbuf_insert_cases [OF wf(1) size ins]
    obtain gap where gap: "length gap = length data"
      "content ?s = take pos (content s) @ gap @ drop pos (content s)"
      using c(3) [OF rc] by (auto simp: content_def)
    obtain rc0 d0 where claim: "dbuf_claim (lre_bytecode_realloc s) (byte_code s) (length data) = (rc0, d0)"
      by fastforce
    have d: "dbuf_err d = dbuf_err d0" "dbuf_allocated d = dbuf_allocated d0"
      using ins claim by (auto simp: dbuf_insert_def Let_def split: if_splits)
    have "dbuf_allocated d \<le> 0x3fffffff"
      using dbuf_claim_bounded [OF wf _ assms realloc_bound claim] fine d by (simp add: fine_def)
    with c(1) \<open>ps_inv s\<close> have "ps_inv ?s" by (simp add: ps_inv_def bc_ok_def)
    moreover have "pos + length data \<le> length (content ?s)" using gap pos by simp
    ultimately show "ps_inv s' \<and> cc s \<le> cc s' \<and> kept s s' \<and>
        content s' = take pos (content s) @ data @ drop pos (content s)"
      using runs_patch [of pos data ?s] p \<open>fine s'\<close> gap pos by (auto simp: runs_def mem_write_def)
  qed
qed

end
