(* ===== verification/CodeStrings.thy ===== *)
theory CodeStrings
  imports CodeEmit
begin

text \<open>
  The code of characters, ranges, and the strings of a class. The jumps behind the strings of a
  class are a chain through their operands; when the chain is patched from its end, the code
  becomes a nest of alternatives.
\<close>

section \<open>Characters and ranges\<close>

lemma code_ok_0: "code_ok 0 t \<Longrightarrow> code_ok n t"
  by (erule code_ok_mono) simp

lemma puts_code:
  "puts s (code_bytes a) s1 \<Longrightarrow> puts s1 (code_bytes b) s2 \<Longrightarrow> puts s (code_bytes (Seq a b)) s2"
  by (simp add: puts_trans)

lemma char_ops_in:
  "(if b then REOP_char_i else REOP_char) \<in> char_ops" "(if b then REOP_char32_i else REOP_char32) \<in> char32_ops"
  "(if b then REOP_range_i else REOP_range) \<in> range_ops" "(if b then REOP_range32_i else REOP_range32) \<in> range32_ops"
  by (simp_all add: char_ops_def char32_ops_def range_ops_def range32_ops_def)

lemma emit_char_code: "\<exists>t. code_ok 0 t \<and> puts s (code_bytes t) (re_emit_char c s)"
proof (cases "sint c \<le> 0xffff")
  case True
  let ?op = "if ignore_case s then REOP_char_i else REOP_char"
  have "puts s (reop_byte ?op # le16 (ucast c)) (re_emit_char c s)"
    using True puts_op_u16 [of s "reop_byte ?op" "ucast c"] by (simp add: re_emit_char_def if_distrib)
  with ok_char [OF char_ops_in(1)] show ?thesis
    by (intro exI [of _ "Op ?op (le16 (ucast c))"]) simp
next
  case False
  let ?op = "if ignore_case s then REOP_char32_i else REOP_char32"
  have "puts s (reop_byte ?op # le32 c) (re_emit_char c s)"
    using False puts_op_u32 [of s "reop_byte ?op" c] by (simp add: re_emit_char_def if_distrib)
  with ok_char32 [OF char_ops_in(2)] show ?thesis
    by (intro exI [of _ "Op ?op (le32 c)"]) simp
qed

lemma emit_chars_code: "\<exists>t. code_ok 0 t \<and> puts s (code_bytes t) (fold re_emit_char p s)"
proof (induction p arbitrary: s)
  case Nil
  show ?case by (intro exI [of _ Nop]) (simp add: puts_refl)
next
  case (Cons c p)
  obtain a where a: "code_ok 0 a" "puts s (code_bytes a) (re_emit_char c s)"
    using emit_char_code by blast
  obtain b where b: "code_ok 0 b" "puts (re_emit_char c s) (code_bytes b) (fold re_emit_char p (re_emit_char c s))"
    using Cons.IH by blast
  from a b show ?case by (intro exI [of _ "Seq a b"]) (simp add: puts_trans)
qed

lemma emit_pairs16_puts: "\<exists>bs. length bs = 4 * (length pts div 2) \<and> puts s bs (emit_pairs16 pts s)"
proof (induction pts s rule: emit_pairs16.induct)
  case (1 a b pts s)
  let ?high = "if b - 1 = UINT32_MAX - 1 then 0xffff else b - 1"
  obtain bs where "length bs = 4 * (length pts div 2)"
    "puts (emit_u16 (ucast ?high) (emit_u16 (ucast a) s)) bs (emit_pairs16 (a # b # pts) s)"
    using 1 [OF refl refl refl] by (auto simp: Let_def)
  with puts_trans [OF puts_trans [OF puts_emit_u16 puts_emit_u16]] show ?case
    by (intro exI [of _ "(le16 (ucast a) @ le16 (ucast ?high)) @ bs"]) (simp add: f16.enc_length)
qed (auto intro: puts_refl exI [of _ "[]"])

lemma emit_pairs32_puts: "\<exists>bs. length bs = 8 * (length pts div 2) \<and> puts s bs (emit_pairs32 pts s)"
proof (induction pts s rule: emit_pairs32.induct)
  case (1 a b pts s)
  obtain bs where "length bs = 8 * (length pts div 2)"
    "puts (emit_u32 (b - 1) (emit_u32 a s)) bs (emit_pairs32 (a # b # pts) s)"
    using 1 by auto
  with puts_trans [OF puts_trans [OF puts_emit_u32 puts_emit_u32]] show ?case
    by (intro exI [of _ "(le32 a @ le32 (b - 1)) @ bs"]) simp
qed (auto intro: puts_refl exI [of _ "[]"])

lemma unat_u16_of_nat: "0 < n \<Longrightarrow> n < 65535 \<Longrightarrow> unat (word_of_nat n :: u16) = n \<and> (word_of_nat n :: u16) \<noteq> 0"
  by (simp add: unsigned_of_nat take_bit_nat_eq_self word_of_nat_eq_0_iff nat_dvd_not_less)

lemma runs_emit_range:
  "runs P s (re_emit_range cr s)
     (\<lambda>_ s'. kept s s' \<and> (\<exists>t. code_ok 0 t \<and> content s' = content s @ code_bytes t))"
proof -
  let ?pts = "cr_points cr"
  let ?len = "length ?pts div 2"
  have fin: "runs P s (Done () s1) (\<lambda>_ s'. kept s s' \<and> (\<exists>t. code_ok 0 t \<and> content s' = content s @ code_bytes t))"
    if "op_ok 0 op bs" "puts s (reop_byte op # bs) s1" for op bs s1
    by (rule runs_puts [OF that(2)], rule runs_Done) (use that(1) in \<open>auto intro!: exI [of _ "Op op bs"]\<close>)
  consider (many) "65535 \<le> ?len" | (none) "?len = 0" | (some) "0 < ?len" "?len < 65535" by linarith
  then show ?thesis
  proof cases
    case many
    then show ?thesis by (simp add: re_emit_range_def Let_def runs_errors)
  next
    case none
    have "op_ok 0 REOP_char32 (le32 (- 1))" by (rule ok_char32) (simp add: char32_ops_def)
    from fin [OF this puts_op_u32] none show ?thesis by (simp add: re_emit_range_def Let_def)
  next
    case some
    note w = unat_u16_of_nat [OF some]
    let ?op16 = "if ignore_case s then REOP_range_i else REOP_range"
    let ?op32 = "if ignore_case s then REOP_range32_i else REOP_range32"
    obtain bs where bs: "length bs = 4 * ?len"
      "puts (re_emit_op_u16 (reop_byte ?op16) (word_of_nat ?len) s) bs
        (emit_pairs16 ?pts (re_emit_op_u16 (reop_byte ?op16) (word_of_nat ?len) s))"
      using emit_pairs16_puts by blast
    obtain bs' where bs': "length bs' = 8 * ?len"
      "puts (re_emit_op_u16 (reop_byte ?op32) (word_of_nat ?len) s) bs'
        (emit_pairs32 ?pts (re_emit_op_u16 (reop_byte ?op32) (word_of_nat ?len) s))"
      using emit_pairs32_puts by blast
    have ok16: "op_ok 0 ?op16 (le16 (word_of_nat ?len) @ bs)"
      by (rule ok_range [OF char_ops_in(3)]) (use w bs(1) in simp_all)
    have ok32: "op_ok 0 ?op32 (le16 (word_of_nat ?len) @ bs')"
      by (rule ok_range32 [OF char_ops_in(4)]) (use w bs'(1) in simp_all)
    have p: "puts s (reop_byte ?op16 # le16 (word_of_nat ?len) @ bs)
        (emit_pairs16 ?pts (re_emit_op_u16 (reop_byte ?op16) (word_of_nat ?len) s))"
      "puts s (reop_byte ?op32 # le16 (word_of_nat ?len) @ bs')
        (emit_pairs32 ?pts (re_emit_op_u16 (reop_byte ?op32) (word_of_nat ?len) s))"
      using puts_trans [OF puts_op_u16 bs(2)] puts_trans [OF puts_op_u16 bs'(2)] by simp_all
    show ?thesis
      using some fin [OF ok16 p(1)] fin [OF ok32 p(2)]
      by (simp add: re_emit_range_def Let_def if_distrib [of reop_byte])
  qed
qed

section \<open>The strings of a class\<close>

text \<open>
  The code of the strings \<open>ts\<close> at offset \<open>p\<close>, with the chain \<open>link\<close> so far, and the chain behind it.
\<close>

primrec pending :: "nat \<Rightarrow> u32 \<Rightarrow> code list \<Rightarrow> u8 list" where
  "pending p link [] = []"
| "pending p link (t # ts) =
     (reop_byte REOP_split_next_first # fwd (csize t + 5) @ code_bytes t @ reop_byte REOP_goto # le32 link) @
     pending (p + (csize t + 10)) (word_of_nat (p + csize t + 6)) ts"

primrec chain :: "nat \<Rightarrow> u32 \<Rightarrow> code list \<Rightarrow> u32" where
  "chain p link [] = link"
| "chain p link (t # ts) = chain (p + (csize t + 10)) (word_of_nat (p + csize t + 6)) ts"

lemma pending_snoc:
  "pending p link (ts @ [t]) = pending p link ts @
     reop_byte REOP_split_next_first # fwd (csize t + 5) @ code_bytes t @ reop_byte REOP_goto # le32 (chain p link ts)"
  by (induction ts arbitrary: p link) simp_all

lemma chain_snoc:
  "chain p link (ts @ [t]) = word_of_nat (p + length (pending p link ts) + csize t + 6)"
  by (induction ts arbitrary: p link) (simp_all add: algebra_simps)

lemma split_next_first [simp]: "split_op True = REOP_split_next_first"
  by (simp add: split_op_def)

text \<open>A split around a part whose size is patched afterwards.\<close>

lemma mem_write_at: "length old = length new \<Longrightarrow> mem_write (pre @ old @ post) (length pre) new = pre @ new @ post"
  by (simp add: mem_write_def)

lemma patch_distance:
  "q + 4 \<le> e \<Longrightarrow> (word_of_nat e - word_of_nat (q + 4) :: u32) = word_of_nat (e - (q + 4))"
  by (simp add: of_nat_diff)

lemma runs_patch_ahead:
  assumes "ps_inv s \<Longrightarrow> P \<Longrightarrow> content s = pre @ le32 v @ post \<and> pos = length pre"
  shows "runs P s (patch_u32 pos (word_of_nat (bc_size s) - word_of_nat (pos + 4)) s)
    (\<lambda>_ s'. kept s s' \<and> content s' = pre @ fwd (length post) @ post)"
  unfolding patch_u32_def
proof (rule runs_weaken [OF runs_patch], goal_cases)
  case 1
  with assms show ?case by simp
next
  case (2 x s')
  have c: "content s = pre @ le32 v @ post" "pos = length pre" using assms 2 by simp_all
  have "length pre + 4 \<le> bc_size s" using c 2(1) by (simp add: ps_inv_size)
  then have "(word_of_nat (bc_size s) - word_of_nat (pos + 4) :: u32) = word_of_nat (length post)"
    using c 2(1) by (subst patch_distance) (simp_all add: ps_inv_size)
  with 2 c show ?case by (simp add: mem_write_at fwd_def)
qed

lemma runs_emit_strings:
  "runs (link = chain p (- 1) ts0 \<and> p + length (pending p (- 1) ts0) = length (content s) \<and> list_all (code_ok 0) ts0)
     s (emit_strings alts ps link s)
     (\<lambda>link s'. \<exists>ts t. list_all (code_ok 0) (ts0 @ ts) \<and> code_ok 0 t \<and> (alts \<longrightarrow> t = Nop) \<and> kept s s' \<and>
        length ts \<le> length ps \<and> link = chain p (- 1) (ts0 @ ts) \<and>
        (\<exists>bs. pending p (- 1) (ts0 @ ts) = pending p (- 1) ts0 @ bs \<and> content s' = content s @ bs @ code_bytes t))"
proof (induction ps arbitrary: link ts0 s)
  case Nil
  show ?case by (auto intro!: runs_Done exI [of _ "[]"] exI [of _ Nop])
next
  case (Cons w ps)
  show ?case
  proof (cases "\<not> alts \<and> ps = []")
    case True
    obtain t where "code_ok 0 t" "puts s (code_bytes t) (fold re_emit_char w s)"
      using emit_chars_code by blast
    with True show ?thesis
      by (auto intro!: runs_puts [of s "code_bytes t"] runs_Done exI [of _ "[]"])
  next
    case False
    let ?P = "link = chain p (- 1) ts0 \<and> p + length (pending p (- 1) ts0) = length (content s) \<and> list_all (code_ok 0) ts0"
    show ?thesis unfolding emit_strings.simps if_not_P [OF False]
    proof (rule runs_op_u32)
      fix split_pos s1
      obtain t where t: "code_ok 0 t" "puts s1 (code_bytes t) (fold re_emit_char w s1)"
        using emit_chars_code by blast
      let ?s2 = "fold re_emit_char w s1"
      have ts0: "list_all (code_ok 0) (ts0 @ [t])" if ?P using that t(1) by simp
      show "runs (ps_inv s \<and> ?P \<and> kept s s1 \<and>
            content s1 = content s @ reop_byte REOP_split_next_first # le32 0 \<and> split_pos = length (content s) + 1)
          s1 (case re_emit_op_u32 (reop_byte REOP_goto) link ?s2 of (pos, s) \<Rightarrow>
            parse_then (patch_u32 split_pos (word_of_nat (bc_size s) - word_of_nat (split_pos + 4)) s)
              (\<lambda>_. emit_strings alts ps (word_of_nat pos)))
          (\<lambda>link s'. \<exists>ts t. list_all (code_ok 0) (ts0 @ ts) \<and> code_ok 0 t \<and> (alts \<longrightarrow> t = Nop) \<and> kept s s' \<and>
            length ts \<le> length (w # ps) \<and> link = chain p (- 1) (ts0 @ ts) \<and>
            (\<exists>bs. pending p (- 1) (ts0 @ ts) = pending p (- 1) ts0 @ bs \<and> content s' = content s @ bs @ code_bytes t))"
        apply (rule runs_puts [OF t(2)])
        apply (rule runs_op_u32)
        apply (rule runs_bind)
         apply (rule runs_patch_ahead [where pre = "content s @ [reop_byte REOP_split_next_first]" and v = 0 and
              post = "code_bytes t @ reop_byte REOP_goto # le32 link"])
         apply (simp)
        apply (rule runs_weaken [OF Cons.IH [where ?ts0.0 = "ts0 @ [t]"]])
         apply (simp add: chain_snoc pending_snoc t(1) algebra_simps)
        subgoal for pos s3 x s4 link' s'
          apply (elim exE conjE)
          subgoal for ts tl bs
            apply (rule exI [of _ "t # ts"], rule exI [of _ tl])
            apply (simp add: pending_snoc algebra_simps)
            done
          done
        done
    qed
  qed
qed

text \<open>
  A loop or a recursion with fuel does not stop for lack of it, unless an allocation failed before.
\<close>

definition halts :: "bool \<Rightarrow> re_parse_state \<Rightarrow> 'a parsed \<Rightarrow> bool" where
  "halts P s m \<longleftrightarrow> (\<forall>s'. m = No_fuel s' \<longrightarrow> fine s' \<longrightarrow> fine s \<and> \<not> (ps_inv s \<and> P))"

lemma halts_stop: "halts P s (Done x s')" "halts P s (Fail s')" "halts P s (Fault s')"
  by (simp_all add: halts_def)

lemma halts_bind:
  assumes "halts P s m" and "runs P s m Q"
    and "\<And>x s1. halts (ps_inv s \<and> P \<and> cc s \<le> cc s1 \<and> Q x s1) s1 (f x s1)"
  shows "halts P s (parse_then m f)"
  using assms by (cases m) (auto simp: halts_def runs_def)

lemma get_u32_content:
  assumes "bc_ok s" "content s = pre @ le32 v @ post" "p = length pre"
  shows "get_u32 (dbuf_mem (byte_code s)) p = Some v"
proof -
  have "dbuf_mem (byte_code s) = pre @ le32 v @ post @ drop (dbuf_size (byte_code s)) (dbuf_mem (byte_code s))"
    using assms(2) append_take_drop_id [of "dbuf_size (byte_code s)" "dbuf_mem (byte_code s)"]
    by (simp add: content_def dbuf_content_def)
  then show ?thesis using f32.dec_enc [of pre v] assms(3) by metis
qed

text \<open>The end of the chain is patched first; the alternative behind it grows.\<close>

lemma patch_matches_step:
  assumes c: "content s = pre @ pending (length pre) (- 1) (ts @ [t1]) @ code_bytes t" and ok: "bc_ok s"
  defines "l \<equiv> chain (length pre) (- 1) (ts @ [t1])"
  defines "pre' \<equiv> pre @ pending (length pre) (- 1) ts @
      reop_byte REOP_split_next_first # fwd (csize t1 + 5) @ code_bytes t1 @ [reop_byte REOP_goto]"
  shows "content s = pre' @ le32 (chain (length pre) (- 1) ts) @ code_bytes t" and "unat l = length pre'" and "l \<noteq> - 1"
    and "l = word_of_nat (length pre')"
proof -
  show c': "content s = pre' @ le32 (chain (length pre) (- 1) ts) @ code_bytes t"
    using c by (simp add: pre'_def pending_snoc)
  show l: "l = word_of_nat (length pre')"
    by (simp add: l_def chain_snoc pre'_def algebra_simps)
  have small: "length pre' < 0x3fffffff"
    using content_bound [OF ok] c' by simp
  then show "unat l = length pre'" by (simp add: l unsigned_of_nat take_bit_nat_eq_self)
  moreover have "unat (- 1 :: u32) = 4294967295"
    by (simp add: unsigned_minus_1_eq_mask mask_eq_exp_minus_1)
  ultimately show "l \<noteq> - 1" using small by auto
qed

lemma runs_patch_match:
  assumes "ps_inv s \<Longrightarrow> P \<Longrightarrow> content s = pre @ pending (length pre) (- 1) (ts @ [t1]) @ code_bytes t"
  defines "l \<equiv> chain (length pre) (- 1) (ts @ [t1])"
  shows "runs P s (patch_u32 (unat l) (word_of_nat (bc_size s) - (l + 4)) s)
    (\<lambda>_ s'. kept s s' \<and> content s' = pre @ pending (length pre) (- 1) ts @ code_bytes (Alt t1 t))"
proof (cases "ps_inv s \<and> P")
  case True
  note step = patch_matches_step [OF assms(1) ps_inv_bc_ok, folded l_def]
  have "runs True s (patch_u32 (unat l) (word_of_nat (bc_size s) - word_of_nat (unat l + 4)) s)
      (\<lambda>_ s'. kept s s' \<and> content s' = (pre @ pending (length pre) (- 1) ts @
        reop_byte REOP_split_next_first # fwd (csize t1 + 5) @ code_bytes t1 @ [reop_byte REOP_goto]) @
        fwd (length (code_bytes t)) @ code_bytes t)"
    by (rule runs_patch_ahead) (use True step in simp)
  then show ?thesis using True by (auto simp: runs_def)
next
  case False
  have "runs False s (patch_u32 (unat l) (word_of_nat (bc_size s) - (l + 4)) s) (\<lambda>_ s'. True)"
    unfolding patch_u32_def by (rule runs_weaken [OF runs_patch]) auto
  then show ?thesis using False by (auto simp: runs_def)
qed

lemma halts_patch: "halts P s (patch_u32 pos v s')"
  by (simp add: halts_def patch_u32_def patch_bytes_def)

lemma patch_matches_fine: "runs False s (patch_matches n l s) Q" "halts False s (patch_matches n l s)"
proof -
  have "runs False s (patch_matches n l s) Q \<and> halts False s (patch_matches n l s)"
  proof (induction n arbitrary: l s)
    case 0
    show ?case by (simp add: runs_stop halts_def)
  next
    case (Suc n)
    have p: "runs False s (patch_u32 q v s) (\<lambda>_ _. False)" for q v
      unfolding patch_u32_def by (rule runs_weaken [OF runs_patch]) auto
    show ?case
    proof (cases "get_u32 (dbuf_mem (byte_code s)) (unat l)")
      case None
      then show ?thesis by (simp add: or_fault_def runs_stop halts_stop runs_Done)
    next
      case (Some v)
      then show ?thesis
        using Suc.IH by (auto simp: or_fault_def halts_stop intro!: runs_Done runs_bind [OF p] halts_bind [OF halts_patch p])
    qed
  qed
  then show "runs False s (patch_matches n l s) Q" "halts False s (patch_matches n l s)" by simp_all
qed

lemma patch_matches_code:
  assumes "list_all (code_ok 0) ts" and "code_ok 0 t"
  shows "runs (content s = pre @ pending (length pre) (- 1) ts @ code_bytes t) s
        (patch_matches n (chain (length pre) (- 1) ts) s)
        (\<lambda>_ s'. kept s s' \<and> (\<exists>u. code_ok 0 u \<and> content s' = pre @ code_bytes u)) \<and>
      (length ts < n \<longrightarrow> halts (content s = pre @ pending (length pre) (- 1) ts @ code_bytes t) s
        (patch_matches n (chain (length pre) (- 1) ts) s))"
  using assms
proof (induction ts arbitrary: n s t rule: rev_induct)
  case Nil
  then show ?case by (cases n) (auto simp: runs_stop halts_stop intro!: runs_Done)
next
  case (snoc t1 ts)
  let ?P = "content s = pre @ pending (length pre) (- 1) (ts @ [t1]) @ code_bytes t"
  let ?Q = "\<lambda>s'. content s' = pre @ pending (length pre) (- 1) ts @ code_bytes (Alt t1 t)"
  have oks: "list_all (code_ok 0) ts" "code_ok 0 (Alt t1 t)" using snoc.prems by simp_all
  note IH = snoc.IH [OF oks]
  show ?case
  proof (cases "ps_inv s \<and> ?P")
    case False
    then show ?thesis using patch_matches_fine [of s n "chain (length pre) (- 1) (ts @ [t1])"]
      by (auto simp: runs_def halts_def)
  next
    case True
    note st = patch_matches_step [OF conjunct2 [OF True] ps_inv_bc_ok [OF conjunct1 [OF True]]]
    define l where "l = chain (length pre) (- 1) (ts @ [t1])"
    let ?patch = "patch_u32 (unat l) (word_of_nat (bc_size s) - (l + 4)) s"
    have step: "content s = (pre @ pending (length pre) (- 1) ts @ reop_byte REOP_split_next_first #
        fwd (csize t1 + 5) @ code_bytes t1 @ [reop_byte REOP_goto]) @
        le32 (chain (length pre) (- 1) ts) @ code_bytes t"
      "unat l = length (pre @ pending (length pre) (- 1) ts @ reop_byte REOP_split_next_first #
        fwd (csize t1 + 5) @ code_bytes t1 @ [reop_byte REOP_goto])" "l \<noteq> - 1"
      unfolding l_def by (rule st(1), rule st(2), rule st(3))
    have run: "patch_matches (Suc m) l s = parse_then ?patch (\<lambda>_ s. patch_matches m (chain (length pre) (- 1) ts) s)" for m
      using step(3) get_u32_content [OF _ step(1,2)] True by (simp add: or_fault_def ps_inv_bc_ok)
    have patch: "runs ?P s ?patch (\<lambda>_ s'. kept s s' \<and> ?Q s')"
      unfolding l_def by (rule runs_patch_match) simp
    show ?thesis unfolding l_def [symmetric]
    proof (cases n)
      case (Suc m)
      have "runs ?P s (patch_matches (Suc m) l s)
          (\<lambda>_ s'. kept s s' \<and> (\<exists>u. code_ok 0 u \<and> content s' = pre @ code_bytes u))"
        unfolding run by (rule runs_bind [OF patch], rule runs_weaken [OF conjunct1 [OF IH]]) auto
      moreover have "halts ?P s (patch_matches (Suc m) l s)" if "length ts < m"
        unfolding run using that IH
        by (intro halts_bind [OF halts_patch patch]) (auto simp: halts_def)
      ultimately show "runs ?P s (patch_matches n l s)
          (\<lambda>_ s'. kept s s' \<and> (\<exists>u. code_ok 0 u \<and> content s' = pre @ code_bytes u)) \<and>
        (length (ts @ [t1]) < n \<longrightarrow> halts ?P s (patch_matches n l s))"
        using Suc by simp
    qed (simp add: runs_stop)
  qed
qed

lemma runs_class_range:
  "runs P s (emit_class_range is_last cr s)
     (\<lambda>_ s'. kept s s' \<and> (\<exists>t. code_ok 0 t \<and> (cr_points cr = [] \<longrightarrow> t = Nop) \<and> content s' = content s @ code_bytes t))"
proof -
  have split: "runs P s (case re_emit_op_u32 (reop_byte REOP_split_next_first) 0 s of (split_pos, s) \<Rightarrow>
      parse_then (re_emit_range cr s) (\<lambda>_ s.
        patch_u32 split_pos (word_of_nat (bc_size s) - word_of_nat (split_pos + 4)) s))
     (\<lambda>_ s'. kept s s' \<and> (\<exists>t. code_ok 0 t \<and> content s' = content s @ code_bytes t))"
  proof (rule runs_op_u32)
    fix pos s1
    let ?P = "ps_inv s \<and> P \<and> kept s s1 \<and> content s1 = content s @ reop_byte REOP_split_next_first # le32 0 \<and>
        pos = length (content s) + 1"
    show "runs ?P s1
        (parse_then (re_emit_range cr s1) (\<lambda>_ s.
          patch_u32 pos (word_of_nat (bc_size s) - word_of_nat (pos + 4)) s))
        (\<lambda>_ s'. kept s s' \<and> (\<exists>t. code_ok 0 t \<and> content s' = content s @ code_bytes t))"
    proof (rule runs_bind [OF runs_emit_range])
      fix x s2
      let ?Q = "kept s1 s2 \<and> (\<exists>t. code_ok 0 t \<and> content s2 = content s1 @ code_bytes t)"
      have "runs (ps_inv s1 \<and> ?P \<and> kept s1 s2 \<and> code_ok 0 t \<and> content s2 = content s1 @ code_bytes t) s2
          (patch_u32 pos (word_of_nat (bc_size s2) - word_of_nat (pos + 4)) s2)
          (\<lambda>_ s'. kept s s' \<and> (\<exists>t. code_ok 0 t \<and> content s' = content s @ code_bytes t))" for t
        by (rule runs_weaken [OF runs_patch_ahead [where pre = "content s @ [reop_byte REOP_split_next_first]"
              and v = 0 and post = "code_bytes t" and
              P = "?P \<and> kept s1 s2 \<and> code_ok 0 t \<and> content s2 = content s1 @ code_bytes t"]])
          (auto intro!: exI [of _ "Opt True t"])
      then show "runs (ps_inv s1 \<and> ?P \<and> cc s1 \<le> cc s2 \<and> ?Q) s2
          (patch_u32 pos (word_of_nat (bc_size s2) - word_of_nat (pos + 4)) s2)
          (\<lambda>_ s'. kept s s' \<and> (\<exists>t. code_ok 0 t \<and> content s' = content s @ code_bytes t))"
        by (elim runs_weaken [OF runs_exists]) auto
    qed
  qed
  show ?thesis
    unfolding emit_class_range_def
    by (intro runs_if runs_weaken [OF runs_emit_range] runs_weaken [OF split])
      (auto intro!: runs_Done exI [of _ Nop])
qed

text \<open>The whole list: the strings, the ranges and the end of the chain.\<close>

lemma halts_emit_strings: "halts P s (emit_strings alts ps link s)"
proof -
  have "emit_strings alts ps link s \<noteq> No_fuel s'" for s'
  proof (induction ps arbitrary: link s)
    case (Cons p ps)
    have "parse_then (patch_u32 q v s1) (\<lambda>_ s. emit_strings alts ps w s) \<noteq> No_fuel s'" for q v s1 w
      using Cons.IH by (simp add: patch_u32_def patch_bytes_def)
    with Cons.IH show ?case by (auto simp: Let_def split: prod.split)
  qed simp
  then show ?thesis by (simp add: halts_def)
qed

lemma halts_emit_range: "halts P s (re_emit_range cr s)"
  by (simp add: halts_def re_emit_range_def Let_def re_parse_error_def)

lemma halts_class_range: "halts P s (emit_class_range is_last cr s)"
proof -
  have "parse_then (re_emit_range cr s1) (\<lambda>_ s. patch_u32 q (f s) s) \<noteq> No_fuel s'" for s1 q f s'
    by (cases "re_emit_range cr s1") (auto simp: patch_u32_def patch_bytes_def re_emit_range_def Let_def
        re_parse_error_def split: if_splits)
  then show ?thesis
    using halts_emit_range [of P s cr] by (auto simp: halts_def emit_class_range_def split: prod.split)
qed

definition string_list_tail ::
  "bool \<Rightarrow> bool \<Rightarrow> char_range \<Rightarrow> u32 list list \<Rightarrow> re_parse_state \<Rightarrow> unit parsed" where
  "string_list_tail alts is_last cr tab s =
     parse_then (emit_strings alts tab (- 1) s) (\<lambda>last_match_pos s.
     parse_then (emit_class_range is_last cr s) (\<lambda>_ s.
       patch_matches (length tab + 1) last_match_pos s))"

lemma string_list_tail_code:
  assumes "\<not> alts \<Longrightarrow> cr_points cr = []"
  shows "runs P s (string_list_tail alts is_last cr tab s)
      (\<lambda>_ s'. kept s s' \<and> (\<exists>t. code_ok 0 t \<and> content s' = content s @ code_bytes t))"
    and "halts P s (string_list_tail alts is_last cr tab s)"
proof -
  let ?p = "length (content s)"
  let ?A = "\<lambda>link s1 ts t. list_all (code_ok 0) ts \<and> code_ok 0 t \<and> (alts \<longrightarrow> t = Nop) \<and> kept s s1 \<and>
      length ts \<le> length tab \<and> link = chain ?p (- 1) ts \<and> content s1 = content s @ pending ?p (- 1) ts @ code_bytes t"
  let ?B = "\<lambda>link s2 ts t. list_all (code_ok 0) ts \<and> code_ok 0 t \<and> kept s s2 \<and>
      length ts \<le> length tab \<and> link = chain ?p (- 1) ts \<and> content s2 = content s @ pending ?p (- 1) ts @ code_bytes t"
  define A where "A link s1 \<longleftrightarrow> (\<exists>ts t. ?A link s1 ts t)" for link s1
  define B where "B link s2 \<longleftrightarrow> (\<exists>ts t. ?B link s2 ts t)" for link s2
  have strings: "runs P s (emit_strings alts tab (- 1) s) A"
    unfolding A_def
    by (rule runs_weaken [OF runs_emit_strings [where p = ?p and ?ts0.0 = "[]"]]) auto
  have range: "runs (A link s1) s1 (emit_class_range is_last cr s1) (\<lambda>_. B link)" for link s1
    unfolding A_def B_def
  proof (intro runs_exists)
    fix ts t
    show "runs (?A link s1 ts t) s1 (emit_class_range is_last cr s1) (\<lambda>_ s2. \<exists>ts t. ?B link s2 ts t)"
    proof (rule runs_weaken [OF runs_class_range], goal_cases)
      case (2 x s2)
      then obtain u where "code_ok 0 u" "cr_points cr = [] \<longrightarrow> u = Nop" "content s2 = content s1 @ code_bytes u"
        by blast
      moreover have "t = Nop \<or> u = Nop" using calculation(2) 2(2) assms by auto
      ultimately have "?B link s2 ts (Seq t u)" using 2 by auto
      then show ?case by blast
    qed simp
  qed
  have patch: "runs (B link s2) s2 (patch_matches (length tab + 1) link s2)
        (\<lambda>_ s'. kept s s' \<and> (\<exists>t. code_ok 0 t \<and> content s' = content s @ code_bytes t))"
    and patch_halts: "halts (B link s2) s2 (patch_matches (length tab + 1) link s2)" for link s2
  proof -
    have "runs (?B link s2 ts t) s2 (patch_matches (length tab + 1) link s2)
        (\<lambda>_ s'. kept s s' \<and> (\<exists>t. code_ok 0 t \<and> content s' = content s @ code_bytes t)) \<and>
      halts (?B link s2 ts t) s2 (patch_matches (length tab + 1) link s2)" for ts t
    proof (cases "?B link s2 ts t")
      case True
      then have "list_all (code_ok 0) ts" "code_ok 0 t" by simp_all
      from patch_matches_code [OF this, of s2 "content s" "length tab + 1"] True show ?thesis
        by (auto simp: runs_def halts_def)
    next
      case False
      then show ?thesis using patch_matches_fine [of s2 "length tab + 1" link]
        by (auto simp: runs_def halts_def)
    qed
    note both = this
    show "runs (B link s2) s2 (patch_matches (length tab + 1) link s2)
        (\<lambda>_ s'. kept s s' \<and> (\<exists>t. code_ok 0 t \<and> content s' = content s @ code_bytes t))"
      unfolding B_def by (intro runs_exists) (rule conjunct1 [OF both])
    show "halts (B link s2) s2 (patch_matches (length tab + 1) link s2)"
      using both unfolding halts_def B_def by blast
  qed
  show "runs P s (string_list_tail alts is_last cr tab s)
      (\<lambda>_ s'. kept s s' \<and> (\<exists>t. code_ok 0 t \<and> content s' = content s @ code_bytes t))"
    unfolding string_list_tail_def
    by (rule runs_bind [OF strings], rule runs_bind [OF runs_weaken [OF range]], blast, assumption,
        rule runs_weaken [OF patch]) blast+
  show "halts P s (string_list_tail alts is_last cr tab s)"
    unfolding string_list_tail_def
  proof (rule halts_bind [OF halts_emit_strings strings])
    fix link s1
    let ?P = "ps_inv s \<and> P \<and> cc s \<le> cc s1 \<and> A link s1"
    have "runs ?P s1 (emit_class_range is_last cr s1) (\<lambda>_. B link)"
      by (rule runs_weaken [OF range]) auto
    then show "halts ?P s1
        (parse_then (emit_class_range is_last cr s1) (\<lambda>_ s. patch_matches (length tab + 1) link s))"
      by (rule halts_bind [OF halts_class_range]) (use patch_halts in \<open>auto simp: halts_def\<close>)
  qed
qed

lemma string_list_code:
  shows "runs P s (re_emit_string_list sl s)
      (\<lambda>_ s'. kept s s' \<and> (\<exists>t. code_ok 0 t \<and> content s' = content s @ code_bytes t))"
    and "halts P s (re_emit_string_list sl s)"
proof -
  let ?tab = "filter (\<lambda>p. p \<noteq> []) (map snd (concat (hash_table sl)))"
  let ?empty = "list_ex (\<lambda>p. p = []) (map snd (concat (hash_table sl)))"
  have eq: "re_emit_string_list sl s =
     (if n_strings sl = 0 then re_emit_range (rs_cr sl) s
      else if \<not> e_alloc (s_env s) (8 * n_strings sl) then re_parse_out_of_memory s
      else if \<not> length ?tab \<le> n_strings sl then Fault s
      else or_fault s (rqsort re_string_cmp_len ?tab) (\<lambda>tab.
        string_list_tail (?empty \<or> cr_points (rs_cr sl) \<noteq> []) (\<not> ?empty) (rs_cr sl) tab s))"
    by (simp only: re_emit_string_list_def string_list_tail_def Let_def)
  show "runs P s (re_emit_string_list sl s)
      (\<lambda>_ s'. kept s s' \<and> (\<exists>t. code_ok 0 t \<and> content s' = content s @ code_bytes t))"
    unfolding eq
    by (intro runs_if runs_emit_range runs_errors runs_stop runs_options string_list_tail_code(1)) blast
  show "halts P s (re_emit_string_list sl s)"
    unfolding eq
    by (auto simp: or_fault_def halts_stop re_parse_out_of_memory_def re_parse_error_def
        intro!: halts_emit_range string_list_tail_code(2) split: option.split)
qed

end
