(* ===== verification/ParseQuiet.thy ===== *)
theory ParseQuiet
  imports CodeStrings
begin

text \<open>
  The parts of the parser that read only: escapes, properties and character classes, and the names
  of groups. They leave the state as it is, they go forward in the pattern, and their fuel is
  enough for any pattern.
\<close>

section \<open>The judgement\<close>

definition quiet :: "re_parse_state \<Rightarrow> 'a parsed \<Rightarrow> ('a \<Rightarrow> bool) \<Rightarrow> bool" where
  "quiet s m Q \<longleftrightarrow> (\<forall>x s'. m = Done x s' \<longrightarrow> s' = s \<and> Q x) \<and> (\<forall>s'. m \<noteq> No_fuel s')"

named_theorems quiet_intros

lemma quiet_Done [quiet_intros]: "Q x \<Longrightarrow> quiet s (Done x s) Q"
  by (simp add: quiet_def)

lemma quiet_stop [quiet_intros]: "quiet s (Fail s') Q" "quiet s (Fault s') Q"
  by (simp_all add: quiet_def)

lemma quiet_errors [quiet_intros]:
  "quiet s (re_parse_error msg s') Q" "quiet s (re_parse_out_of_memory s') Q"
  "quiet s (unknown_property_name s') Q" "quiet s (invalid_escape s') Q" "quiet s (unexpected_end s') Q"
  "quiet s (invalid_operation s') Q" "quiet s (invalid_class_range s') Q"
  by (simp_all add: quiet_def re_parse_out_of_memory_def re_parse_error_def unknown_property_name_def
      invalid_escape_def unexpected_end_def invalid_operation_def invalid_class_range_def)

lemma quiet_bind:
  "quiet s m Q \<Longrightarrow> (\<And>x. Q x \<Longrightarrow> quiet s (f x s) R) \<Longrightarrow> quiet s (parse_then m f) R"
  by (cases m) (auto simp: quiet_def)

lemma quiet_weaken: "quiet s m Q \<Longrightarrow> (\<And>x. Q x \<Longrightarrow> R x) \<Longrightarrow> quiet s m R"
  by (auto simp: quiet_def)

lemma quiet_at [quiet_intros]:
  "(\<And>c. p < length (pat s) \<Longrightarrow> pat s ! p = c \<Longrightarrow> quiet s (f c) Q) \<Longrightarrow> quiet s (at s p f) Q"
  by (auto simp: at_def rd_Some_iff quiet_stop split: option.split)

lemma quiet_options [quiet_intros]:
  "(\<And>v. r = Some v \<Longrightarrow> quiet s (f v) Q) \<Longrightarrow> quiet s (or_fault s' r f) Q"
  "(\<And>v. r = Some v \<Longrightarrow> quiet s (f v) Q) \<Longrightarrow> quiet s (or_memory s' r f) Q"
  "(\<And>v. r = Some v \<Longrightarrow> quiet s (f v) Q) \<Longrightarrow> quiet s (or_fail_silently s' r f) Q"
  by (auto simp: or_fault_def or_memory_def or_fail_silently_def quiet_stop quiet_errors split: option.split)

lemma quiet_if [quiet_intros]:
  "(b \<Longrightarrow> quiet s m Q) \<Longrightarrow> (\<not> b \<Longrightarrow> quiet s m' Q) \<Longrightarrow> quiet s (if b then m else m') Q"
  by simp

lemma quiet_option_case [quiet_intros]:
  "(r = None \<Longrightarrow> quiet s m Q) \<Longrightarrow> (\<And>v. r = Some v \<Longrightarrow> quiet s (f v) Q) \<Longrightarrow>
   quiet s (case r of None \<Rightarrow> m | Some v \<Rightarrow> f v) Q"
  by (cases r) simp_all

lemma quiet_pair_case [quiet_intros]:
  "(\<And>a b. r = (a, b) \<Longrightarrow> quiet s (f a b) Q) \<Longrightarrow> quiet s (case r of (a, b) \<Rightarrow> f a b) Q"
  by (cases r) simp

lemma quiet_pair_fun [quiet_intros]:
  "(\<And>a b. r = (a, b) \<Longrightarrow> quiet s (f a b s) Q) \<Longrightarrow> quiet s ((case r of (a, b) \<Rightarrow> f a b) s) Q"
  by (cases r) simp

lemma quiet_uni_case [quiet_intros]:
  "(\<And>v. quiet s (f v) Q) \<Longrightarrow> quiet s m Q \<Longrightarrow> quiet s m' Q \<Longrightarrow>
   quiet s (case r of Uni_ok v \<Rightarrow> f v | Uni_memory \<Rightarrow> m | Uni_unknown \<Rightarrow> m') Q"
  by (cases r) simp_all

lemma quiet_let [quiet_intros]: "quiet s (f x) Q \<Longrightarrow> quiet s (Let x f) Q"
  by simp

section \<open>Escapes and properties\<close>

lemma escape_hex_progress: "escape_hex n mem p c = Some (Some (v, q)) \<Longrightarrow> q = p + n"
proof (induction n arbitrary: p c)
  case (Suc n)
  from Suc.prems Suc.IH show ?case by (fastforce simp: Let_def split: option.splits if_splits)
qed simp

lemma escape_braces_progress: "escape_braces mem p c = Some (Some (v, q)) \<Longrightarrow> p < q"
proof (induction mem p c rule: escape_braces.induct)
  case (1 mem p c)
  from 1(2) show ?case
    by (subst (asm) escape_braces.simps) (auto simp: Let_def split: option.splits if_splits dest!: 1(1))
qed

lemma lre_parse_escape_progress:
  assumes "lre_parse_escape mem p m = Some (r, q)" and "0 \<le> r"
  shows "p < q"
proof -
  have pair: "p' \<le> q'" if "escape_pair mem m c p' = Some (c', q')" for c p' c' q'
    using that by (auto simp: escape_pair_def split: if_splits option.splits bind_splits)
  have uni: "p' < q'" if "escape_unicode mem m p' = Some (Some (c', q'))" for p' c' q'
    using that
    by (auto simp: escape_unicode_def split: if_splits option.splits bind_splits
        dest!: escape_braces_progress escape_hex_progress pair)
  have octal: "p' \<le> q'" if "escape_octal mem m b p' = Some (Some (c', q'))" for b p' c' q'
    using that by (auto simp: escape_octal_def Let_def split: if_splits option.splits bind_splits)
  from assms show ?thesis
    by (auto simp: lre_parse_escape_def Let_def split: if_splits option.splits bind_splits
        dest!: escape_hex_progress uni octal)
qed

lemma property_name_progress: "property_name mem p name = Some (Some (v, q)) \<Longrightarrow> p \<le> q"
proof (induction mem p name rule: property_name.induct)
  case (1 mem p name)
  from 1(2) show ?case
    by (subst (asm) property_name.simps) (auto split: option.splits if_splits dest!: 1(1))
qed

lemma quiet_property_set: "quiet s (property_set name val is_inv allow s) (\<lambda>_. True)"
  unfolding property_set_def Let_def
  by (intro quiet_intros) simp_all

lemma quiet_canonicalize_list: "quiet s (canonicalize_list b u cr s) (\<lambda>_. True)"
  unfolding canonicalize_list_def by (intro quiet_intros) simp_all

lemma quiet_property_finish: "quiet s (property_finish is_inv cr s) (\<lambda>_. True)"
  unfolding property_finish_def
  by (intro quiet_bind [OF quiet_canonicalize_list] quiet_bind [where Q = "\<lambda>_. True"]
      quiet_canonicalize_list quiet_intros) simp_all

lemma quiet_unicode_property: "quiet s (parse_unicode_property p is_inv allow s) (\<lambda>(cr, q). p < q)"
  unfolding parse_unicode_property_def
  by (intro quiet_intros quiet_bind [OF quiet_property_set] quiet_bind [OF quiet_property_finish])
    (auto split: if_splits dest!: property_name_progress)

section \<open>Atoms of classes\<close>

lemma quiet_normal_char: "quiet s (class_normal_char c p s) (\<lambda>(c, cr, q). p < q)"
  unfolding class_normal_char_def
  by (intro quiet_intros) (auto dest!: unicode_from_utf8_progress)

lemma quiet_default_escape: "0 < p \<Longrightarrow> quiet s (class_default_escape c p s) (\<lambda>(c, cr, q). p \<le> q)"
  unfolding class_default_escape_def Let_def
  by (intro quiet_intros quiet_weaken [OF quiet_normal_char])
    (auto dest!: lre_parse_escape_progress)

lemma quiet_range_escape: "0 < p \<Longrightarrow> quiet s (class_range_escape has_cr c p s) (\<lambda>(c, cr, q). p \<le> q)"
  unfolding class_range_escape_def
  by (intro quiet_intros quiet_default_escape) auto

lemma quiet_control_escape: "quiet s (class_control_escape inclass p s) (\<lambda>(c, cr, q). p - 1 \<le> q)"
  unfolding class_control_escape_def by (intro quiet_intros) auto

lemma quiet_class_escape:
  assumes "\<And>q. has_cr \<Longrightarrow> quiet s (qd q s) (\<lambda>(cr, q'). q < q')"
  shows "quiet s (class_escape qd has_cr inclass p s) (\<lambda>(c, cr, q). p \<le> q)"
  unfolding class_escape_def Let_def
  by (intro quiet_intros quiet_bind [OF quiet_unicode_property] quiet_bind [OF assms]
      quiet_weaken [OF quiet_range_escape] quiet_weaken [OF quiet_default_escape]
      quiet_weaken [OF quiet_control_escape]) auto

lemma quiet_class_atom:
  assumes "\<And>q. has_cr \<Longrightarrow> quiet s (qd q s) (\<lambda>(cr, q'). q < q')"
  shows "quiet s (class_atom_with qd has_cr p inclass s) (\<lambda>(c, cr, q). p < q)"
  unfolding class_atom_with_def Let_def
  by (intro quiet_intros quiet_normal_char quiet_weaken [OF quiet_class_escape] assms) auto

lemma quiet_plain_atom: "quiet s (get_plain_atom p s) (\<lambda>(c, cr, q). p < q)"
  unfolding get_plain_atom_def by (rule quiet_class_atom) simp

section \<open>Strings of classes\<close>

text \<open>The fuel of a loop at \<open>p\<close> is enough when it is more than what is left of the pattern.\<close>

definition enough :: "re_parse_state \<Rightarrow> nat \<Rightarrow> nat \<Rightarrow> bool" where
  "enough s n p \<longleftrightarrow> 0 < n \<and> length (pat s) < n + p"

lemma enough_0 [simp]: "\<not> enough s 0 p"
  by (simp add: enough_def)

lemma enough_start: "enough s (length (pat s) + 1) p"
  by (simp add: enough_def)

lemma enough_step: "enough s (Suc n) p \<Longrightarrow> p < length (pat s) \<Longrightarrow> p < q \<Longrightarrow> enough s n q"
  by (auto simp: enough_def)

lemma quiet_string_chars: "enough s n p \<Longrightarrow> quiet s (string_chars n p str s) (\<lambda>(str, q). p \<le> q)"
proof (induction n arbitrary: p str)
  case (Suc n)
  have IH: "quiet s (string_chars n q str s) (\<lambda>(str, q). p \<le> q)" if "p < length (pat s)" "p < q" for q str
    by (rule quiet_weaken [OF Suc.IH]) (use enough_step [OF Suc.prems that] that in auto)
  show ?case
    unfolding string_chars.simps
    by (intro quiet_intros quiet_bind [OF quiet_plain_atom] IH) auto
qed simp

lemma quiet_string_alternatives:
  "enough s n p \<Longrightarrow> quiet s (string_alternatives n p str cr s) (\<lambda>(cr, q). p \<le> q)"
proof (induction n arbitrary: p str cr)
  case (Suc n)
  have IH: "quiet s (string_alternatives n (q + 1) str cr s) (\<lambda>(cr, q). p \<le> q)"
    if "q < length (pat s)" "p \<le> q" for q str cr
    by (rule quiet_weaken [OF Suc.IH]) (use Suc.prems that in \<open>auto simp: enough_def\<close>)
  show ?case
    unfolding string_alternatives.simps
    by (intro quiet_intros quiet_bind [OF quiet_string_chars [OF enough_start]] IH) auto
qed simp

lemma quiet_string_disjunction: "quiet s (parse_class_string_disjunction p s) (\<lambda>(cr, q). p < q)"
  unfolding parse_class_string_disjunction_def
  by (intro quiet_intros quiet_bind [OF quiet_string_alternatives [OF enough_start]]) auto

lemma quiet_get_class_atom: "quiet s (get_class_atom p inclass s) (\<lambda>(c, cr, q). p < q)"
  unfolding get_class_atom_def by (rule quiet_class_atom) (rule quiet_string_disjunction)

section \<open>Classes\<close>

lemma quiet_class_union: "quiet s (class_union cr1 cr s) (\<lambda>_. True)"
  unfolding class_union_def by (intro quiet_intros) simp_all

lemma quiet_class_atom_union: "quiet s (class_atom_union c cr1 cr s) (\<lambda>_. True)"
  unfolding class_atom_union_def by (intro quiet_intros quiet_class_union) simp_all

lemma quiet_set_operand:
  assumes "quiet s (nested p s) (\<lambda>(cr, q). p < q)"
  shows "quiet s (re_parse_class_set_operand nested p s) (\<lambda>(cr, q). p < q)"
  unfolding re_parse_class_set_operand_def
  by (intro quiet_intros assms quiet_bind [OF quiet_get_class_atom]) auto

lemma quiet_class_member: "quiet s (class_member is_first p cr s) (\<lambda>(cr, q, f). p < q)"
  unfolding class_member_def Let_def
  by (intro quiet_intros quiet_bind [OF quiet_get_class_atom] quiet_bind [OF quiet_class_atom_union]) auto

lemma quiet_op_follows [quiet_intros]: "(\<And>b. quiet s (f b) Q) \<Longrightarrow> quiet s (op_follows c p s f) Q"
  unfolding op_follows_def by (intro quiet_intros) auto

lemma quiet_class_operations:
  assumes "\<And>q. p < q \<Longrightarrow> quiet s (nested q s) (\<lambda>(cr, q'). q < q')" and "enough s n p"
  shows "quiet s (class_operations n nested b op p cr s) (\<lambda>(cr, q). p \<le> q)"
  using assms
proof (induction n arbitrary: p cr)
  case (Suc n)
  have IH: "quiet s (class_operations n nested b op q cr s) (\<lambda>(cr, q). p \<le> q)"
    if "p < length (pat s)" "p < q" for q cr
    by (rule quiet_weaken [OF Suc.IH]) (use Suc.prems(1) enough_step [OF Suc.prems(2) that] that in auto)
  show ?case
    unfolding class_operations.simps
    by (intro quiet_intros quiet_bind [OF quiet_set_operand] IH Suc.prems(1)) auto
qed simp

lemma quiet_set_operations:
  assumes "\<And>q. p < q \<Longrightarrow> quiet s (nested q s) (\<lambda>(cr, q'). q < q')"
  shows "quiet s (class_set_operations nested is_first p cr s) (\<lambda>(cr, q). p \<le> q)"
  unfolding class_set_operations_def
  by (intro quiet_intros quiet_class_operations enough_start) (auto intro: assms)

lemma quiet_class_loop:
  assumes "\<And>q. p \<le> q \<Longrightarrow> quiet s (nested q s) (\<lambda>(cr, q'). q < q')" and "enough s n p"
  shows "quiet s (class_loop n nested is_first p cr s) (\<lambda>(cr, q). p \<le> q)"
  using assms
proof (induction n arbitrary: p is_first cr)
  case (Suc n)
  have IH: "quiet s (class_loop n nested f q cr s) (\<lambda>(cr, q). p \<le> q)"
    if "p < length (pat s)" "p < q" for q f cr
    by (rule quiet_weaken [OF Suc.IH]) (use Suc.prems(1) enough_step [OF Suc.prems(2) that] that in auto)
  have first: "quiet s (if b = c_lbracket \<and> unicode_sets s then
            parse_then (nested p s) (\<lambda>(cr1, p) s.
            parse_then (class_union (Some cr1) cr s) (\<lambda>cr s. Done (cr, p, is_first) s))
          else class_member is_first p cr s) (\<lambda>(cr, q, f). p < q)" for b
    by (intro quiet_intros quiet_bind [OF Suc.prems(1)] quiet_bind [OF quiet_class_union] quiet_class_member) auto
  show ?case
    unfolding class_loop.simps
    by (intro quiet_intros quiet_bind [OF first] quiet_bind [OF quiet_set_operations] IH)
      (auto intro: Suc.prems(1))
qed simp

lemma quiet_nested_body:
  assumes "\<And>q. p < q \<Longrightarrow> p < length (pat s) \<Longrightarrow> quiet s (nested q s) (\<lambda>(cr, q'). q < q')"
  shows "quiet s (nested_class_body nested p s) (\<lambda>(cr, q). p < q)"
  unfolding nested_class_body_def Let_def
  by (intro quiet_intros quiet_bind [OF quiet_class_loop [OF _ enough_start]])
    (auto intro: assms split: if_splits)

lemma quiet_nested_class: "enough s n p \<Longrightarrow> quiet s (re_parse_nested_class n p s) (\<lambda>(cr, q). p < q)"
proof (induction n arbitrary: p)
  case (Suc n)
  show ?case
    unfolding re_parse_nested_class.simps
    by (intro quiet_nested_body Suc.IH) (use enough_step [OF Suc.prems] in blast)
qed simp

section \<open>Names of groups\<close>

text \<open>
  A name that was read is not empty. The buffer with the first \<open>q\<close> bytes of the name begins with
  a byte other than zero when \<open>q\<close> is positive.
\<close>

definition named_buf :: "u8 list \<Rightarrow> bool" where
  "named_buf buf \<longleftrightarrow> (\<exists>b bs. buf = b # bs \<and> b \<noteq> 0)"

lemma named_buf_cstr: "named_buf buf \<Longrightarrow> cstr buf \<noteq> []"
  by (auto simp: named_buf_def cstr_def)

lemma named_buf_write: "named_buf buf \<Longrightarrow> 0 < q \<Longrightarrow> named_buf (mem_write buf q enc)"
  by (auto simp: named_buf_def mem_write_def take_Cons')

lemma named_first: "named_buf enc \<Longrightarrow> named_buf (mem_write buf 0 enc)"
  by (auto simp: named_buf_def mem_write_def)

lemma ucast_or_nonzero: "bit k 7 \<Longrightarrow> (ucast (x OR k :: u32) :: u8) \<noteq> 0"
  by (auto simp: bit_eq_iff bit_simps intro!: exI [of _ 7])

lemma named_utf8: "c \<le> 0x10FFFF \<Longrightarrow> \<not> c < 128 \<Longrightarrow> named_buf (unicode_to_utf8 c)"
proof -
  assume c: "c \<le> 0x10FFFF" "\<not> c < 128"
  have "bit (0xc0 :: u32) 7" "bit (0xe0 :: u32) 7" "bit (0xf0 :: u32) 7" by simp_all
  note nz = this [THEN ucast_or_nonzero]
  have "c < 0x200000" using c(1) by (simp add: word_le_nat_alt word_less_nat_alt)
  then show ?thesis using c(2) nz by (simp add: named_buf_def unicode_to_utf8_def)
qed

lemma lre_parse_escape_range:
  assumes "lre_parse_escape mem p m = Some (r, q)"
  shows "- (2 ^ 31) \<le> r" and "r < 2 ^ 31"
proof -
  have "- (2 ^ 31) \<le> r \<and> r < 2 ^ 31"
    using assms sint_ge [where ?'a = 32] sint_lt [where ?'a = 32]
    by (auto simp: lre_parse_escape_def Let_def split: if_splits option.splits bind_splits)
  then show "- (2 ^ 31) \<le> r" "r < 2 ^ 31" by simp_all
qed

lemma negative_escape:
  assumes "- (2 ^ 31) \<le> r" "r < 0"
  shows "\<not> (word_of_int r :: u32) \<le> 0x10FFFF"
proof -
  have "r mod 2 ^ 32 = r + 2 ^ 32"
    using assms mod_add_self2 [of r "2 ^ 32"] mod_pos_pos_trivial [of "r + 2 ^ 32" "2 ^ 32"] by simp
  then show ?thesis using assms(1) by (simp add: word_le_def uint_word_of_int)
qed

lemma ident_not_zero: "lre_js_is_ident_first c = Some True \<Longrightarrow> c < 128 \<Longrightarrow> (ucast c :: u8) \<noteq> 0"
proof
  assume "lre_js_is_ident_first c = Some True" "c < 128" "(ucast c :: u8) = 0"
  then have "lre_is_id_start_byte 0" by (simp add: lre_js_is_ident_first_def)
  moreover have "\<not> lre_is_id_start_byte 0" by code_simp
  ultimately show False by blast
qed

lemma quiet_group_name_loop:
  "enough s n p \<Longrightarrow> (0 < q \<Longrightarrow> named_buf buf) \<Longrightarrow>
   quiet s (group_name_loop n s p buf q) (\<lambda>(r, buf'). \<forall>p'. r = Some p' \<longrightarrow> p < p' \<and> named_buf buf')"
proof (induction n arbitrary: p buf q)
  case (Suc n)
  let ?Q = "\<lambda>(r, buf'). \<forall>p'. r = Some p' \<longrightarrow> p < p' \<and> named_buf buf'"
  have IH: "quiet s (group_name_loop n s p' (mem_write buf q enc) (q + length enc)) ?Q"
    if "p < length (pat s)" "p < p'" and enc: "q = 0 \<Longrightarrow> named_buf enc" for p' enc
  proof (rule quiet_weaken [OF Suc.IH])
    show "enough s n p'" using enough_step [OF Suc.prems(1) that(1,2)] .
    show "named_buf (mem_write buf q enc)"
      using Suc.prems(2) enc by (cases "q = 0") (simp_all add: named_first named_buf_write)
  qed (use that in auto)
  define put where "put = (\<lambda>(c :: u32) p.
           if c > 0x10FFFF then Done (None, buf) s
           else
             or_fault s (if q = 0 then lre_js_is_ident_first c else lre_js_is_ident_next c) (\<lambda>ok.
             if \<not> ok then Done (None, buf) s
             else if q + UTF8_CHAR_LEN_MAX + 1 > TMP_BUF_SIZE then Done (None, buf) s
             else
               (let enc = (if c < 128 then [ucast c] else unicode_to_utf8 c)
                in group_name_loop n s p (mem_write buf q enc) (q + length enc))))"
  have put: "quiet s (put c p') ?Q" if p: "p < length (pat s)" "c \<le> 0x10FFFF \<Longrightarrow> p < p'" for c p'
    unfolding put_def Let_def
  proof (intro quiet_intros IH p)
    assume c: "\<not> c > 0x10FFFF"
    then show "c \<le> 0x10FFFF" by simp
    fix ok
    assume "(if q = 0 then lre_js_is_ident_first c else lre_js_is_ident_next c) = Some ok" "\<not> \<not> ok" "q = 0"
    then show "named_buf (if c < 128 then [ucast c] else unicode_to_utf8 c)"
      using ident_not_zero [of c] named_utf8 [of c] c by (auto simp: named_buf_def)
  qed auto
  have eq: "group_name_loop (Suc n) s p buf q =
     at s p (\<lambda>b.
     if b = c_backslash then
       at s (p + 1) (\<lambda>b1.
       if b1 \<noteq> 0x75 then Done (None, buf) s
       else or_fault s (lre_parse_escape (pat s) (p + 1) 2) (\<lambda>(c, p). put (word_of_int c) p))
     else if b = c_greater then
       (if q = 0 then Done (None, buf) s else Done (Some (p + 1), mem_write buf q [0]) s)
     else if b \<ge> 128 then
       or_fault s (unicode_from_utf8 (pat s) p UTF8_CHAR_LEN_MAX) (\<lambda>(c, p).
       if is_hi_surrogate c then
         or_fault s (unicode_from_utf8 (pat s) p UTF8_CHAR_LEN_MAX) (\<lambda>(d, p1).
         if is_lo_surrogate d then put (from_surrogate c d) p1 else put c p)
       else put c p)
     else put (ucast b) (p + 1))"
    by (simp only: group_name_loop.simps put_def Let_def)
  have "\<not> is_hi_surrogate (- 1)" "\<not> is_lo_surrogate (- 1)" by code_simp+
  then have hi: "c \<noteq> - 1" if "is_hi_surrogate c" for c using that by auto
  have lo: "d \<noteq> - 1" if "is_lo_surrogate d" for d
    using \<open>\<not> is_lo_surrogate (- 1)\<close> that by auto
  have escape: "p < p'" if "lre_parse_escape (pat s) (p + 1) 2 = Some (c, p')" "(word_of_int c :: u32) \<le> 0x10FFFF" for c p'
    using lre_parse_escape_progress [OF that(1)] lre_parse_escape_range [OF that(1)] negative_escape [of c] that(2)
    by (cases "0 \<le> c") auto
  have top: "\<not> (- 1 :: u32) \<le> 0x10FFFF" by code_simp
  have utf8: "p1 < p'" if "unicode_from_utf8 (pat s) p1 UTF8_CHAR_LEN_MAX = Some (c, p')" "c \<le> 0x10FFFF \<or> c \<noteq> - 1" for c p1 p'
    using unicode_from_utf8_progress [OF that(1)] that(2) top by auto
  show ?case
    unfolding eq
    by (intro quiet_intros put)
      (auto intro: escape utf8 named_buf_write Suc.prems(2) dest: hi lo dest!: utf8)
qed simp

end
