(* ===== verification/ParseNames.thy ===== *)
theory ParseNames
  imports ParseQuiet
begin

text \<open>
  The parts of the parser that use the names of groups: the buffer of names, and the two scans that
  count the groups of a name and then emit their numbers. A back reference gets as many numbers as
  its count byte says, because both scans find the same groups.
\<close>

section \<open>Running and halting\<close>

definition goes :: "bool \<Rightarrow> re_parse_state \<Rightarrow> 'a parsed \<Rightarrow> ('a \<Rightarrow> re_parse_state \<Rightarrow> bool) \<Rightarrow> bool" where
  "goes P s m Q \<longleftrightarrow> runs P s m Q \<and> halts P s m"

lemma goes_Done: "(ps_inv s \<Longrightarrow> P \<Longrightarrow> Q x s) \<Longrightarrow> goes P s (Done x s) Q"
  by (simp add: goes_def runs_Done halts_stop)

lemma goes_stop: "goes P s (Fail s') Q" "goes P s (Fault s') Q"
  by (simp_all add: goes_def runs_stop halts_stop)

lemma goes_errors: "goes P s (re_parse_error msg s') Q" "goes P s (re_parse_out_of_memory s') Q"
  by (simp_all add: re_parse_out_of_memory_def re_parse_error_def goes_stop)

lemma goes_bind:
  assumes "goes P s m Q" and "\<And>x s1. goes (ps_inv s \<and> P \<and> cc s \<le> cc s1 \<and> Q x s1) s1 (f x s1) R"
  shows "goes P s (parse_then m f) R"
  using assms unfolding goes_def by (blast intro: runs_bind halts_bind)

lemma goes_weaken:
  assumes "goes P s m Q" and "ps_inv s \<Longrightarrow> P' \<Longrightarrow> P"
    and "\<And>x s'. ps_inv s \<Longrightarrow> P' \<Longrightarrow> ps_inv s' \<Longrightarrow> cc s \<le> cc s' \<Longrightarrow> Q x s' \<Longrightarrow> Q' x s'"
  shows "goes P' s m Q'"
  using assms by (auto simp: goes_def halts_def intro: runs_weaken)

lemma goes_pre: "goes P s m Q \<Longrightarrow> (ps_inv s \<Longrightarrow> P' \<Longrightarrow> P) \<Longrightarrow> goes P' s m Q"
  by (erule goes_weaken)

lemma goes_exists: "(\<And>t. goes (P t) s m Q) \<Longrightarrow> goes (\<exists>t. P t) s m Q"
  unfolding goes_def halts_def by (blast intro: runs_exists)

lemma goes_false: "goes True s m Q \<Longrightarrow> goes P s m Q"
  by (erule goes_weaken) simp_all

lemma goes_at: "(\<And>c. p < length (pat s') \<Longrightarrow> pat s' ! p = c \<Longrightarrow> goes P s (f c) Q) \<Longrightarrow> goes P s (at s' p f) Q"
  by (auto simp: at_def rd_Some_iff goes_stop split: option.split)

lemma goes_options:
  "(\<And>v. r = Some v \<Longrightarrow> goes P s (f v) Q) \<Longrightarrow> goes P s (or_fault s' r f) Q"
  "(\<And>v. r = Some v \<Longrightarrow> goes P s (f v) Q) \<Longrightarrow> goes P s (or_memory s' r f) Q"
  "(\<And>v. r = Some v \<Longrightarrow> goes P s (f v) Q) \<Longrightarrow> goes P s (or_fail_silently s' r f) Q"
  by (auto simp: or_fault_def or_memory_def or_fail_silently_def goes_stop goes_errors split: option.split)

lemma goes_if: "(b \<Longrightarrow> goes P s m Q) \<Longrightarrow> (\<not> b \<Longrightarrow> goes P s m' Q) \<Longrightarrow> goes P s (if b then m else m') Q"
  by simp

lemma goes_let: "goes P s (f x) Q \<Longrightarrow> goes P s (Let x f) Q"
  by simp

lemma goes_option_case:
  "(r = None \<Longrightarrow> goes P s m Q) \<Longrightarrow> (\<And>v. r = Some v \<Longrightarrow> goes P s (f v) Q) \<Longrightarrow>
   goes P s (case r of None \<Rightarrow> m | Some v \<Rightarrow> f v) Q"
  by (cases r) simp_all

lemma goes_pair_case:
  "(\<And>a b. r = (a, b) \<Longrightarrow> goes P s (f a b) Q) \<Longrightarrow> goes P s (case r of (a, b) \<Rightarrow> f a b) Q"
  "(\<And>a b. r = (a, b) \<Longrightarrow> goes P s (g a b s2) Q) \<Longrightarrow> goes P s ((case r of (a, b) \<Rightarrow> g a b) s2) Q"
  by (cases r, simp)+

lemmas goes_intros = goes_stop goes_errors goes_at goes_options goes_if goes_let goes_option_case goes_pair_case

lemma goes_quiet: "quiet s m Q \<Longrightarrow> goes P s m (\<lambda>x s'. s' = s \<and> Q x)"
  by (auto simp: goes_def runs_def halts_def quiet_def)

lemma goes_quiet_bind:
  "quiet s m Q \<Longrightarrow> (\<And>x. Q x \<Longrightarrow> goes P s (f x s) R) \<Longrightarrow> goes P s (parse_then m f) R"
  by (cases m) (auto simp: quiet_def goes_stop)

lemma goes_bind_same:
  assumes "goes P s m Q" "\<And>x s'. m = Done x s' \<Longrightarrow> s' = s"
    and "\<And>x. m = Done x s \<Longrightarrow> goes (ps_inv s \<and> P \<and> Q x s) s (f x s) R"
  shows "goes P s (parse_then m f) R"
proof (cases m)
  case (Done x s')
  then have m: "m = Done x s" using assms(2) by simp
  with assms(1,3) show ?thesis by (auto simp: goes_def runs_def halts_def)
qed (use assms(1) in \<open>auto simp: goes_def runs_def halts_def\<close>)

lemma goes_puts:
  assumes "puts s bs s1" and "goes (ps_inv s \<and> P \<and> kept s s1 \<and> content s1 = content s @ bs) s1 m Q"
  shows "goes P s m Q"
proof -
  have "runs P s m Q" by (rule runs_puts [OF assms(1)]) (use assms(2) in \<open>simp add: goes_def\<close>)
  moreover have "halts P s m" using assms by (auto simp: goes_def halts_def puts_def)
  ultimately show ?thesis by (simp add: goes_def)
qed

lemma goes_puts_Done:
  assumes "puts s bs s1" and "ps_inv s \<Longrightarrow> P \<Longrightarrow> ps_inv s1 \<Longrightarrow> kept s s1 \<Longrightarrow> content s1 = content s @ bs \<Longrightarrow> Q x s1"
  shows "goes P s (Done x s1) Q"
  by (rule goes_puts [OF assms(1)], rule goes_Done) (use assms(2) in blast)

text \<open>A step that does not touch the byte code.\<close>

lemma goes_enter:
  assumes "byte_code s1 = byte_code s" "cc s \<le> cc s1" "ps_inv s \<Longrightarrow> P \<Longrightarrow> ps_inv s1"
    and "goes (ps_inv s \<and> P) s1 m Q"
  shows "goes P s m Q"
  using assms by (auto simp: goes_def runs_def halts_def fine_def)

lemma goes_update:
  assumes "byte_code s1 = byte_code s" "cc s1 = cc s" "group_names s1 = group_names s"
    and "ps_inv s \<Longrightarrow> P \<Longrightarrow> content s1 = content s \<Longrightarrow> Q x s1"
  shows "goes P s (Done x s1) Q"
  using assms by (auto simp: goes_def runs_def halts_def fine_def ps_inv_def bc_ok_def content_def)

lemma goes_leave:
  assumes "goes P s m Q'" "\<And>x s'. byte_code (f s') = byte_code s' \<and> cc (f s') = cc s' \<and> group_names (f s') = group_names s'"
    and "\<And>x s'. ps_inv s \<Longrightarrow> P \<Longrightarrow> ps_inv s' \<Longrightarrow> cc s \<le> cc s' \<Longrightarrow> Q' x s' \<Longrightarrow> Q x (f s')"
  shows "goes P s (parse_then m (\<lambda>x s'. Done x (f s'))) Q"
  using assms
  by (cases m) (auto simp: goes_def runs_def halts_def fine_def ps_inv_def bc_ok_def)

lemma goes_op_u32:
  assumes "\<And>pos s1. goes (ps_inv s \<and> P \<and> kept s s1 \<and> content s1 = content s @ op # le32 v \<and> pos = length (content s) + 1)
      s1 (f pos s1) Q"
  shows "goes P s (case re_emit_op_u32 op v s of (pos, s1) \<Rightarrow> f pos s1) Q"
proof -
  obtain pos s1 where e: "re_emit_op_u32 op v s = (pos, s1)" by fastforce
  have p: "puts s (op # le32 v) s1" using puts_op_u32 [of s op v] e by simp
  have "halts P s (f pos s1)"
    using assms [of s1 pos] p op_u32_pos [OF e] by (auto simp: goes_def halts_def puts_def)
  moreover have "runs P s (case re_emit_op_u32 op v s of (pos, s1) \<Rightarrow> f pos s1) Q"
    using assms by (intro runs_op_u32) (simp add: goes_def)
  ultimately show ?thesis by (simp add: goes_def e)
qed

lemma goes_patch_ahead:
  assumes "ps_inv s \<Longrightarrow> P \<Longrightarrow> content s = pre @ le32 v @ post \<and> pos = length pre"
  shows "goes P s (patch_u32 pos (word_of_nat (bc_size s) - word_of_nat (pos + 4)) s)
    (\<lambda>_ s'. kept s s' \<and> content s' = pre @ fwd (length post) @ post)"
  using runs_patch_ahead [OF assms] halts_patch by (simp add: goes_def)

lemma goes_insert:
  assumes "length data < 2 ^ 31"
  shows "goes (pos \<le> length (content s)) s (bc_insert pos data s)
     (\<lambda>_ s'. kept s s' \<and> content s' = take pos (content s) @ data @ drop pos (content s))"
  using runs_insert [OF assms]
  by (auto simp: goes_def halts_def bc_insert_def Let_def re_parse_out_of_memory_def re_parse_error_def
      patch_bytes_def split: prod.splits if_splits)

lemma goes_string_list:
  "goes P s (re_emit_string_list sl s)
     (\<lambda>_ s'. kept s s' \<and> (\<exists>t. code_ok 0 t \<and> content s' = content s @ code_bytes t))"
  unfolding goes_def by (intro conjI string_list_code)

lemma goes_char_class:
  "goes P s (re_parse_char_class p s)
     (\<lambda>q s'. p < q \<and> kept s s' \<and> (\<exists>t. code_ok 0 t \<and> content s' = content s @ code_bytes t))"
  unfolding re_parse_char_class_def
  by (intro goes_bind [OF goes_quiet [OF quiet_nested_class [OF enough_start]]] goes_pair_case
      goes_bind [OF goes_string_list] goes_Done) auto

section \<open>The buffer of names\<close>

lemma ends_append_ge: "ends xs + ends ys \<le> ends (xs @ ys)"
proof (induction xs rule: ends.induct [case_names more empty single])
  case (single a)
  then show ?case by (cases ys) simp_all
qed simp_all

lemma ends_append_le: "ends (xs @ ys) \<le> ends xs + ends ys + 1"
proof (induction xs rule: ends.induct [case_names more empty single])
  case (single a)
  then show ?case by (cases ys) simp_all
qed simp_all

lemma ends_nonzero: "0 \<notin> set xs \<Longrightarrow> ends xs = 0"
  by (induction xs rule: ends.induct) auto

lemma ends_zeros [simp]: "ends (replicate m 0) = 0"
proof (induction m)
  case (Suc m)
  then show ?case by (cases m) simp_all
qed simp

lemma ends_zero_snoc: "ends (xs @ [0, b]) = ends (xs @ [0])"
  by (induction xs rule: ends.induct) auto

lemma ends_name: "0 \<notin> set name \<Longrightarrow> ends (xs @ name @ [0]) \<le> ends xs + 1"
proof (cases name rule: rev_cases)
  case Nil
  then show ?thesis using ends_append_le [of xs "[0]"] by simp
next
  case (snoc ns n)
  assume nz: "0 \<notin> set name"
  have "ends ((xs @ name) @ [0]) \<le> ends xs + 1" if "ends (xs @ name) = ends xs"
    using ends_append_le [of "xs @ name" "[0]"] that by simp
  moreover have "ends (xs @ name) = ends xs"
  proof -
    have "ends (xs @ name) = ends xs + ends name"
      using nz
    proof (induction xs rule: ends.induct [case_names more empty single])
      case (single a)
      then show ?case by (cases name) auto
    qed auto
    then show ?thesis using ends_nonzero [OF nz] by simp
  qed
  ultimately show ?thesis by simp
qed

lemma ends_mark: "name \<noteq> [] \<Longrightarrow> 0 \<notin> set name \<Longrightarrow> 1 + ends xs \<le> ends (name @ 0 # xs)"
proof (induction name)
  case (Cons a name)
  have "ends xs \<le> ends (0 # xs)" using ends_append_ge [of "[0]" xs] by simp
  with Cons show ?case by (cases name) auto
qed simp

text \<open>Writing keeps the zeros behind the content.\<close>

lemma names_put:
  assumes "names_inv n d" "dbuf_put a d data = (rc, d')"
  shows "(\<exists>m. dbuf_mem d' = dbuf_content d' @ replicate m 0) \<and> dbuf_wf d' \<and>
    (dbuf_content d' = dbuf_content d \<or> dbuf_content d' = dbuf_content d @ data)"
proof -
  have wf: "dbuf_wf d" using assms(1) by (simp add: names_inv_def)
  obtain m where m: "dbuf_mem d = dbuf_content d @ replicate m 0" using assms(1) by (auto simp: names_inv_def)
  obtain rc0 d0 where d0: "(if dbuf_allocated d - dbuf_size d < length data
      then dbuf_claim a d (length data) else (0, d)) = (rc0, d0)" by fastforce
  have "dbuf_content d0 = dbuf_content d \<and> (\<exists>m. dbuf_mem d0 = dbuf_content d0 @ replicate m 0) \<and> dbuf_wf d0 \<and>
      dbuf_size d0 = dbuf_size d"
  proof (cases "dbuf_allocated d - dbuf_size d < length data")
    case True
    with d0 have c: "dbuf_claim a d (length data) = (rc0, d0)" by simp
    note cs = dbuf_claim_cases [OF wf c]
    have "\<exists>j. dbuf_mem d0 = dbuf_mem d @ replicate j 0"
      using c by (auto simp: dbuf_claim_def Let_def split: if_splits intro: exI [of _ 0])
    then have "\<exists>m. dbuf_mem d0 = dbuf_content d @ replicate m 0"
      using m by (metis append.assoc replicate_add)
    with cs show ?thesis by simp
  next
    case False
    with d0 m wf show ?thesis by auto
  qed
  then obtain m0 where d0': "dbuf_content d0 = dbuf_content d" "dbuf_mem d0 = dbuf_content d0 @ replicate m0 0"
    "dbuf_wf d0" "dbuf_size d0 = dbuf_size d" by blast
  note cases = dbuf_put_cases [OF wf assms(2)]
  have "\<exists>m. dbuf_mem d' = dbuf_content d' @ replicate m 0"
  proof (cases "rc = 0")
    case True
    with assms(2) d0 have d': "d' = d0\<lparr>dbuf_mem := mem_write (dbuf_mem d0) (dbuf_size d0) data,
        dbuf_size := dbuf_size d0 + length data\<rparr>"
      by (auto simp: dbuf_put_def split: if_splits)
    have size: "length (dbuf_content d0) = dbuf_size d0"
      using d0'(3) by (simp add: dbuf_content_def dbuf_wf_def)
    have "dbuf_mem d' = (dbuf_content d0 @ data) @ replicate (m0 - length data) 0"
      using d0'(2) size by (simp add: d' mem_write_def)
    moreover have "dbuf_content d' = dbuf_content d0 @ data" using cases(3) True d0'(1) by simp
    ultimately show ?thesis by auto
  next
    case False
    with assms(2) d0 have "d' = d0" by (auto simp: dbuf_put_def split: if_splits)
    with d0' show ?thesis by auto
  qed
  with cases show ?thesis by blast
qed

lemma names_entry:
  assumes "names_inv n d" "0 \<notin> set name"
  shows "names_inv (n + 1) (snd (dbuf_putc a (snd (dbuf_put a d (name @ [0]))) v))"
proof -
  obtain rc d1 where p1: "dbuf_put a d (name @ [0]) = (rc, d1)" by fastforce
  note f1 = names_put [OF assms(1) p1]
  have n1: "ends (dbuf_content d1) \<le> n + 1"
    using f1 ends_name [OF assms(2), of "dbuf_content d"] assms(1) by (auto simp: names_inv_def)
  with f1 have inv1: "names_inv (n + 1) d1" by (simp add: names_inv_def)
  obtain rc2 d2 where p2: "dbuf_put a d1 [v] = (rc2, d2)" by fastforce
  note f2 = names_put [OF inv1 p2]
  have "ends (dbuf_content d1 @ [v]) \<le> n + 1"
    using f1 ends_zero_snoc [of "dbuf_content d @ name" v] ends_name [OF assms(2), of "dbuf_content d"]
      ends_append_le [of "dbuf_content d" "[v]"] assms(1)
    by (auto simp: names_inv_def)
  with f2 n1 have "names_inv (n + 1) d2" by (auto simp: names_inv_def)
  then show ?thesis using p1 p2 inv1 by (simp add: dbuf_putc_eq names_inv_def)
qed

lemma names_put_group: "names_inv n (group_names s) \<Longrightarrow> names_inv (n + 1) (group_names (put_group_name (cstr buf) scope s))"
proof -
  have "0 \<notin> set (cstr buf)" by (auto simp: cstr_def dest: set_takeWhileD)
  moreover assume "names_inv n (group_names s)"
  ultimately show ?thesis using names_entry by (simp add: put_group_name_def Let_def)
qed

lemma names_put_none: "names_inv n (group_names s) \<Longrightarrow> names_inv (n + 1) (group_names (put_no_name s))"
  using names_entry [of n "group_names s" "[]"]
  by (simp add: put_no_name_def Let_def dbuf_putc_eq names_inv_def)

end
