(* ===== verification/ParseCaptures.thy ===== *)
theory ParseCaptures
  imports ParseNames
begin

text \<open>
  The scans that count the groups of a name: the count does not depend on the code that was
  emitted in between, and the numbers emitted are as many as the count.
\<close>

section \<open>The same outcome in another state\<close>

primrec restate :: "re_parse_state \<Rightarrow> 'a parsed \<Rightarrow> 'a parsed" where
  "restate s0 (Done x s) = Done x s0"
| "restate s0 (Fail s) = Fail s0"
| "restate s0 (Fault s) = Fault s0"
| "restate s0 (No_fuel s) = No_fuel s0"

lemma restate_if: "restate s0 (if b then m else m') = (if b then restate s0 m else restate s0 m')"
  by simp

lemma restate_at: "pat s0 = pat s \<Longrightarrow> restate s0 (at s p f) = at s0 p (\<lambda>c. restate s0 (f c))"
  by (simp add: at_def split: option.split)

lemma restate_fault: "restate s0 (or_fault s r f) = or_fault s0 r (\<lambda>v. restate s0 (f v))"
  by (simp add: or_fault_def split: option.split)

lemma restate_pair: "restate s0 (case r of (a, b) \<Rightarrow> f a b) = (case r of (a, b) \<Rightarrow> restate s0 (f a b))"
  by (cases r) simp

lemmas restate_simps = restate_if restate_at restate_fault restate_pair

lemma restate_group_name:
  "pat s0 = pat s \<Longrightarrow> restate s0 (group_name_loop n s p buf q) = group_name_loop n s0 p buf q"
  by (induction n arbitrary: p buf q) (simp_all add: restate_simps Let_def cong: if_cong)

lemma restate_bind:
  "quiet s m Q \<Longrightarrow> (\<And>x. Q x \<Longrightarrow> restate s0 (f x s) = g x s0) \<Longrightarrow>
   restate s0 (parse_then m f) = parse_then (restate s0 m) g"
  by (cases m) (auto simp: quiet_def)

lemma quiet_group_name:
  "quiet s (re_parse_group_name p buf s) (\<lambda>(r, buf'). \<forall>p'. r = Some p' \<longrightarrow> p < p' \<and> named_buf buf')"
  unfolding re_parse_group_name_def by (rule quiet_group_name_loop [OF enough_start]) simp

lemma restate_group: "pat s0 = pat s \<Longrightarrow> restate s0 (re_parse_group_name p buf s) = re_parse_group_name p buf s0"
  by (simp add: re_parse_group_name_def restate_group_name del: group_name_loop.simps)

lemma emit_index_kept [simp]:
  "pat (emit_group_index_if e ci s) = pat s" "buf_end (emit_group_index_if e ci s) = buf_end s"
  "group_names (emit_group_index_if e ci s) = group_names s"
  by (simp_all add: emit_group_index_if_def emit_u8_def)

lemma skip_class_text: "buf_end s0 = buf_end s \<Longrightarrow> pat s0 = pat s \<Longrightarrow> skip_class s0 p = skip_class s p"
proof (induction s p rule: skip_class.induct)
  case (1 s p)
  then show ?case
    by (subst (1 2) skip_class.simps) (auto split: option.split)
qed

lemma skip_class_progress: "skip_class s p = Some q \<Longrightarrow> p \<le> q"
proof (induction s p rule: skip_class.induct)
  case (1 s p)
  from "1.prems" show ?case
    by (subst (asm) skip_class.simps) (auto split: option.splits if_splits dest!: "1.IH")
qed

text \<open>One turn of the scan, in terms of what follows it.\<close>

definition captures_step ::
  "(nat \<Rightarrow> nat \<Rightarrow> nat \<Rightarrow> bool \<Rightarrow> re_parse_state \<Rightarrow> (nat \<times> bool) parsed) \<Rightarrow>
   u8 list \<Rightarrow> bool \<Rightarrow> nat \<Rightarrow> nat \<Rightarrow> nat \<Rightarrow> bool \<Rightarrow> re_parse_state \<Rightarrow> (nat \<times> bool) parsed" where
  "captures_step rest cn e p ci n h s =
     (let count = (\<lambda>p n named s.
            if ci + 1 \<ge> CAPTURE_COUNT_MAX then Done (n, named) s else rest (p + 1) (ci + 1) n named s)
      in if \<not> p < buf_end s then Done (n, h) s
         else
           at s p (\<lambda>b.
           if b = c_lparen then
             at s (p + 1) (\<lambda>b1.
             if b1 \<noteq> c_question then count p n h s
             else
               at s (p + 2) (\<lambda>b2.
               if b2 \<noteq> c_less then rest (p + 1) ci n h s
               else
                 at s (p + 3) (\<lambda>b3.
                 if b3 = c_equal \<or> b3 = c_bang then rest (p + 1) ci n h s
                 else
                   parse_then (re_parse_group_name (p + 3) (replicate TMP_BUF_SIZE 0) s) (\<lambda>(r, name) s.
                     case r of
                       None \<Rightarrow> count (p + 3) n True s
                     | Some p \<Rightarrow>
                         if cstr name = cn then count p (n + 1) True (emit_group_index_if e ci s)
                         else count p n True s))))
           else if b = c_backslash then rest (p + 1 + 1) ci n h s
           else if b = c_lbracket then or_fault s (skip_class s (p + 1)) (\<lambda>p. rest (p + 1) ci n h s)
           else rest (p + 1) ci n h s))"

lemma captures_loop_step:
  "captures_loop (Suc k) (Some cn) e p ci n h s = captures_step (captures_loop k (Some cn) e) cn e p ci n h s"
  by (simp only: captures_loop.simps captures_step_def Let_def option.case option.distinct if_False)

lemma restate_cong:
  "restate s0 (Done x s) = Done x s0"
  "pat s0 = pat s \<Longrightarrow> (\<And>c. restate s0 (f c) = g c) \<Longrightarrow> restate s0 (at s p f) = at s0 p g"
  "(\<And>v. restate s0 (f1 v) = g1 v) \<Longrightarrow> restate s0 (or_fault s r f1) = or_fault s0 r g1"
  "restate s0 m = m0 \<Longrightarrow> restate s0 m' = m0' \<Longrightarrow> restate s0 (if b then m else m') = (if b then m0 else m0')"
  "restate s0 m = m0 \<Longrightarrow> (\<And>v. restate s0 (f2 v) = g2 v) \<Longrightarrow>
   restate s0 (case opt of None \<Rightarrow> m | Some v \<Rightarrow> f2 v) = (case opt of None \<Rightarrow> m0 | Some v \<Rightarrow> g2 v)"
  "(\<And>a b. restate s0 (h a b s) = h' a b s0) \<Longrightarrow>
   restate s0 ((case pr of (a, b) \<Rightarrow> h a b) s) = (case pr of (a, b) \<Rightarrow> h' a b) s0"
  by (simp_all add: at_def or_fault_def split: option.split prod.split)

lemma restate_step:
  assumes rest: "\<And>p ci n h s. pat s0 = pat s \<Longrightarrow> buf_end s0 = buf_end s \<Longrightarrow>
      restate s0 (rest p ci n h s) = rest0 p ci n h s0"
    and t: "pat s0 = pat s" "buf_end s0 = buf_end s"
  shows "restate s0 (captures_step rest cn e p ci n h s) = captures_step rest0 cn False p ci n h s0"
proof -
  have e: "emit_group_index_if False ci s = s" for ci s by (simp add: emit_group_index_if_def)
  show ?thesis
    unfolding captures_step_def Let_def t(2) e skip_class_text [OF t(2,1)]
      restate_group [OF t(1), symmetric]
    by (intro restate_cong restate_bind [OF quiet_group_name] t rest) (simp_all add: t)
qed

lemma restate_captures:
  "pat s0 = pat s \<Longrightarrow> buf_end s0 = buf_end s \<Longrightarrow>
   restate s0 (captures_loop k (Some cn) e p ci n h s) = captures_loop k (Some cn) False p ci n h s0"
proof (induction k arbitrary: p ci n h s)
  case (Suc k)
  show ?case unfolding captures_loop_step using Suc.prems by (intro restate_step Suc.IH)
qed simp

section \<open>What the scans emit\<close>

definition scan_fuel :: "nat \<Rightarrow> nat \<Rightarrow> re_parse_state \<Rightarrow> bool" where
  "scan_fuel k p s \<longleftrightarrow> 0 < k \<and> buf_end s < k + p"

lemma scan_fuel_step: "scan_fuel (Suc k) p s \<Longrightarrow> p < buf_end s \<Longrightarrow> p < q \<Longrightarrow> buf_end s' = buf_end s \<Longrightarrow> scan_fuel k q s'"
  by (auto simp: scan_fuel_def)

lemma scan_fuel_0 [simp]: "\<not> scan_fuel 0 p s"
  by (simp add: scan_fuel_def)

text \<open>The numbers emitted so far: none in a counting scan.\<close>

definition numbers :: "bool \<Rightarrow> nat \<Rightarrow> re_parse_state \<Rightarrow> nat \<Rightarrow> re_parse_state \<Rightarrow> bool" where
  "numbers e n s r s' \<longleftrightarrow> kept s s' \<and> n \<le> r \<and>
     (\<exists>bs. length bs = (if e then r - n else 0) \<and> content s' = content s @ bs)"

lemma numbers_refl: "numbers e n s n s"
  by (simp add: numbers_def)

lemma puts_index: "puts s (if e then [word_of_nat ci] else []) (emit_group_index_if e ci s)"
  by (simp add: emit_group_index_if_def puts_emit_u8 puts_refl)

lemma numbers_index:
  assumes "content s1 = content s @ (if e then [w] else [])" "kept s s1" "numbers e (n + 1) s1 r s'"
  shows "numbers e n s r s'"
proof -
  from assms(3) obtain bs where "length bs = (if e then r - (n + 1) else 0)" "content s' = content s1 @ bs"
    "n + 1 \<le> r" "kept s1 s'" unfolding numbers_def by blast
  with assms(1,2) show ?thesis
    unfolding numbers_def by (intro conjI exI [of _ "(if e then [w] else []) @ bs"]) auto
qed

lemma goes_captures:
  "scan_fuel k p s \<Longrightarrow> n < ci \<Longrightarrow> ci < CAPTURE_COUNT_MAX \<Longrightarrow>
   goes P s (captures_loop k (Some cn) e p ci n h s)
     (\<lambda>(r, b) s'. numbers e n s r s' \<and> r < CAPTURE_COUNT_MAX)"
proof (induction k arbitrary: p ci n h s P)
  case (Suc k)
  let ?Q = "\<lambda>n s (r, b :: bool) s'. numbers e n s r s' \<and> r < CAPTURE_COUNT_MAX"
  have rest: "goes P s1 (captures_loop k (Some cn) e q ci1 n1 h1 s1) (?Q n1 s1)"
    if "p < buf_end s" "p < q" "buf_end s1 = buf_end s" "n1 < ci1" "ci1 < CAPTURE_COUNT_MAX" for q ci1 n1 h1 s1 P
    using Suc.IH [OF scan_fuel_step [OF Suc.prems(1) that(1-3)] that(4,5)] .
  have count: "goes P s1 (if ci + 1 \<ge> CAPTURE_COUNT_MAX then Done (n1, h1) s1
      else captures_loop k (Some cn) e (q + 1) (ci + 1) n1 h1 s1) (?Q n1 s1)"
    if "p < buf_end s" "p \<le> q" "buf_end s1 = buf_end s" "n1 \<le> ci" for q n1 h1 s1 P
    using that Suc.prems by (intro goes_if goes_Done rest) (auto simp: numbers_refl)
  have matched: "goes P s (if ci + 1 \<ge> CAPTURE_COUNT_MAX then Done (n + 1, True) (emit_group_index_if e ci s)
      else captures_loop k (Some cn) e (q + 1) (ci + 1) (n + 1) True (emit_group_index_if e ci s)) (?Q n s)"
    if "p < buf_end s" "p \<le> q" for q P
    by (rule goes_puts [OF puts_index], rule goes_weaken [OF count])
      (use that Suc.prems numbers_index in \<open>auto split: prod.split\<close>)
  show ?case
    unfolding captures_loop_step captures_step_def Let_def
    by (intro goes_intros goes_Done rest count matched goes_quiet_bind [OF quiet_group_name])
      (use Suc.prems in \<open>auto simp: numbers_refl dest!: skip_class_progress\<close>)
qed simp

lemma quiet_captures:
  "scan_fuel k p s \<Longrightarrow> quiet s (captures_loop k None e p ci n h s) (\<lambda>_. True)"
proof (induction k arbitrary: p ci n h)
  case (Suc k)
  have rest: "quiet s (captures_loop k None e q ci1 n1 h1 s) (\<lambda>_. True)" if "p < buf_end s" "p < q" for q ci1 n1 h1
    using Suc.IH [OF scan_fuel_step [OF Suc.prems that refl]] .
  show ?case
    unfolding captures_loop.simps Let_def
    by (intro quiet_intros rest; (simp; fail)?)
      (auto intro!: rest quiet_intros dest!: skip_class_progress)
qed simp

lemma goes_count_captures:
  "goes P s (re_count_captures s) (\<lambda>_ s'. content s' = content s \<and> kept s s')"
  unfolding re_count_captures_def re_parse_captures_def
  by (intro goes_if goes_pair_case goes_quiet_bind [OF quiet_captures] goes_update) (simp_all add: scan_fuel_def)

lemma goes_has_named:
  "goes P s (re_has_named_captures s) (\<lambda>_ s'. content s' = content s \<and> kept s s')"
  unfolding re_has_named_captures_def
  by (intro goes_if goes_Done goes_bind [OF goes_count_captures]) auto

text \<open>The scan of the names met so far.\<close>

lemma restate_find_name:
  "group_names s0 = group_names s \<Longrightarrow>
   restate s0 (find_name_loop name e p ci n s) = find_name_loop name False p ci n s0"
proof (induction name e p ci n s rule: find_name_loop.induct)
  case (1 name e p ci n s)
  then show ?case
    by (subst (1 2) find_name_loop.simps)
      (auto simp: emit_group_index_if_def [of False] split: option.split)
qed

lemma strlen_split:
  assumes "strlen_at mem p = Some len"
  shows "drop p mem = take len (drop p mem) @ 0 # drop (p + len + 1) mem \<and> 0 \<notin> set (take len (drop p mem))"
proof -
  have len: "len = length (cstr (drop p mem))" "p + len < length mem"
    using assms by (auto simp: strlen_at_def Let_def split: if_splits)
  let ?xs = "drop p mem"
  have t: "take len ?xs = takeWhile (\<lambda>b. b \<noteq> 0) ?xs"
    using len(1) by (metis cstr_def takeWhile_eq_take)
  have "?xs ! len = 0"
    using nth_length_takeWhile [of "\<lambda>b. b \<noteq> 0" ?xs] len by (simp add: cstr_def)
  moreover have "?xs = take len ?xs @ ?xs ! len # drop (Suc len) ?xs"
    using len(2) by (intro id_take_nth_drop) simp
  ultimately have "?xs = take len ?xs @ 0 # drop (p + len + 1) mem" by (simp add: add.commute)
  moreover have "0 \<notin> set (take len ?xs)" unfolding t by (auto dest: set_takeWhileD)
  ultimately show ?thesis by blast
qed

lemma ends_drop_le: "ends (drop k xs) \<le> ends xs"
  using ends_append_ge [of "take k xs" "drop k xs"] by simp

lemma goes_find_name_loop:
  "name \<noteq> [] \<Longrightarrow> goes P s (find_name_loop name e p ci n s)
    (\<lambda>r s'. numbers e n s r s' \<and> r \<le> n + ends (drop p (dbuf_mem (group_names s))))"
proof (induction name e p ci n s arbitrary: P rule: find_name_loop.induct)
  case (1 name e p ci n s)
  let ?mem = "dbuf_mem (group_names s)"
  let ?Q = "\<lambda>n s p r s'. numbers e n s r s' \<and> r \<le> n + ends (drop p ?mem)"
  show ?case
  proof (cases "p < dbuf_size (group_names s)")
    case p: True
    show ?thesis
    proof (cases "strlen_at ?mem p")
      case None
      with p show ?thesis by (subst find_name_loop.simps) (simp add: goes_stop)
    next
      case (Some len)
      let ?p = "p + len + LRE_GROUP_NAME_TRAILER_LEN"
      note split = strlen_split [OF Some]
      have tail: "ends (drop ?p ?mem) \<le> ends (drop (p + len + 1) ?mem)"
        using ends_drop_le [of 1 "drop (p + len + 1) ?mem"]
        by (simp add: LRE_GROUP_NAME_TRAILER_LEN_def add.commute add.left_commute)
      show ?thesis
      proof (cases "take len (drop p ?mem) = name")
        case True
        have e: "1 + ends (drop (p + len + 1) ?mem) \<le> ends (drop p ?mem)"
          using ends_mark [OF "1.prems", of "drop (p + len + 1) ?mem"] split unfolding True by simp
        have "goes P s (find_name_loop name e ?p (ci + 1) (n + 1) (emit_group_index_if e ci s)) (?Q n s p)"
        proof (rule goes_puts [OF puts_index], rule goes_weaken [OF "1.IH"(1) [OF p Some True "1.prems"]])
          fix r s'
          assume "numbers e (n + 1) (emit_group_index_if e ci s) r s' \<and>
              r \<le> n + 1 + ends (drop ?p (dbuf_mem (group_names (emit_group_index_if e ci s))))"
            "ps_inv s \<and> P \<and> kept s (emit_group_index_if e ci s) \<and>
              content (emit_group_index_if e ci s) = content s @ (if e then [word_of_nat ci] else [])"
          with e tail show "?Q n s p r s'" by (auto intro: numbers_index)
        qed simp
        with p Some True show ?thesis by (subst find_name_loop.simps) simp
      next
        case False
        have e: "ends (drop (p + len + 1) ?mem) \<le> ends (drop p ?mem)"
          using ends_drop_le [of "len + 1" "drop p ?mem"] by (simp add: add.commute add.left_commute)
        have "goes P s (find_name_loop name e ?p (ci + 1) n s) (?Q n s p)"
          by (rule goes_weaken [OF "1.IH"(2) [OF p Some False "1.prems"]]) (use e tail in auto)
        with p Some False show ?thesis by (subst find_name_loop.simps) simp
      qed
    qed
  next
    case False
    then show ?thesis by (subst find_name_loop.simps) (auto intro: goes_Done simp: numbers_refl)
  qed
qed

text \<open>The count of a name fits the byte of the instruction.\<close>

lemma goes_find_name:
  assumes "name \<noteq> []"
  shows "goes P s (find_group_name name e s) (\<lambda>r s'. numbers e 0 s r s' \<and> r < 256)"
  unfolding find_group_name_def
proof (rule goes_weaken [OF goes_find_name_loop [OF assms]])
  fix r s'
  assume inv: "ps_inv s" and r: "numbers e 0 s r s' \<and> r \<le> 0 + ends (drop 0 (dbuf_mem (group_names s)))"
  from inv obtain m where m: "dbuf_mem (group_names s) = dbuf_content (group_names s) @ replicate m 0"
    and le: "ends (dbuf_content (group_names s)) \<le> cc s - 1" "cc s \<le> CAPTURE_COUNT_MAX" "1 \<le> cc s"
    by (auto simp: ps_inv_def names_inv_def)
  have "ends (dbuf_mem (group_names s)) \<le> cc s - 1 + 1"
    using ends_append_le [of "dbuf_content (group_names s)" "replicate m 0"] le(1) m by simp
  with r le show "numbers e 0 s r s' \<and> r < 256" by (auto simp: CAPTURE_COUNT_MAX_def)
qed simp

lemma goes_parse_captures:
  "goes P s (re_parse_captures (Some cn) e s) (\<lambda>(r, b) s'. numbers e 0 s r s' \<and> r < 256)"
  unfolding re_parse_captures_def
  by (rule goes_weaken [OF goes_captures]) (auto simp: scan_fuel_def CAPTURE_COUNT_MAX_def)

text \<open>The second scan finds what the first one found.\<close>

lemma find_name_again:
  assumes "find_group_name name False s = Done n s1" "find_group_name name True s2 = Done m s3"
    and "group_names s = group_names s2"
  shows "m = n"
  using restate_find_name [of s s2 name True 0 1 0] assms by (simp add: find_group_name_def)

lemma captures_again:
  assumes "re_parse_captures (Some cn) False s = Done (n, b) s1" "re_parse_captures (Some cn) True s2 = Done (m, c) s3"
    and "pat s = pat s2" "buf_end s = buf_end s2"
  shows "m = n"
  using restate_captures [of s s2 "buf_end s2 + 1" cn True 0 1 0 False] assms
  by (simp add: re_parse_captures_def del: captures_loop.simps)

end
