(* ===== verification/ParseCode.thy ===== *)
theory ParseCode
  imports ParseCaptures
begin

text \<open>
  The parser appends the code of a tree: every kind of term, with its quantifier, the alternatives
  and the disjunctions. Together with that, each function goes forward in the pattern, and the
  fuel of the recursion is never used up.
\<close>

section \<open>Appending a tree\<close>

definition emits :: "re_parse_state \<Rightarrow> re_parse_state \<Rightarrow> bool" where
  "emits s s' \<longleftrightarrow> cc s \<le> cc s' \<and> pat s' = pat s \<and> buf_end s' = buf_end s \<and>
     (\<exists>t. code_ok (cc s') t \<and> content s' = content s @ code_bytes t)"

lemma emitsI:
  "content s' = content s @ code_bytes t \<Longrightarrow> code_ok (cc s') t \<Longrightarrow> cc s \<le> cc s' \<Longrightarrow> pat s' = pat s \<Longrightarrow>
   buf_end s' = buf_end s \<Longrightarrow> emits s s'"
  by (auto simp: emits_def)

lemma emits_refl: "emits s s"
  by (rule emitsI [of _ _ Nop]) simp_all

lemma emits_trans [trans]: "emits s s1 \<Longrightarrow> emits s1 s2 \<Longrightarrow> emits s s2"
proof -
  assume "emits s s1" "emits s1 s2"
  then obtain t u where "code_ok (cc s1) t" "content s1 = content s @ code_bytes t" "cc s \<le> cc s1"
    "code_ok (cc s2) u" "content s2 = content s1 @ code_bytes u" "cc s1 \<le> cc s2"
    "pat s2 = pat s" "buf_end s2 = buf_end s"
    by (auto simp: emits_def)
  then show ?thesis by (intro emitsI [of _ _ "Seq t u"]) (auto intro: code_ok_mono)
qed

lemma emits_same: "content s' = content s \<Longrightarrow> kept s s' \<Longrightarrow> emits s s'"
  by (rule emitsI [of _ _ Nop]) simp_all

lemma emits_text: "emits s s' \<Longrightarrow> pat s' = pat s" "emits s s' \<Longrightarrow> buf_end s' = buf_end s"
  by (simp_all add: emits_def)

lemma emits_ptr: "emits (s\<lparr>buf_ptr := p\<rparr>) s' = emits s s'" "emits s (s'\<lparr>buf_ptr := p\<rparr>) = emits s s'"
  by (simp_all add: emits_def content_def)

lemma emits_flags:
  "emits (s\<lparr>ignore_case := i, multi_line := m, dotall := d\<rparr>) s' = emits s s'"
  "emits s (s'\<lparr>ignore_case := i, multi_line := m, dotall := d\<rparr>) = emits s s'"
  by (simp_all add: emits_def content_def)

lemma goes_code:
  assumes "puts s (code_bytes t) s1" "code_ok 0 t" and "goes (ps_inv s \<and> P \<and> emits s s1) s1 m Q"
  shows "goes P s m Q"
  by (rule goes_puts [OF assms(1)], rule goes_pre [OF assms(3)])
    (auto intro: emitsI [of _ _ t] code_ok_0 [OF assms(2)])

lemma goes_op:
  assumes "puts s (reop_byte op # bs) s1" "op_ok 0 op bs" and "goes (ps_inv s \<and> P \<and> emits s s1) s1 m Q"
  shows "goes P s m Q"
  using goes_code [of s "Op op bs" s1 P m Q] assms by simp

section \<open>Characters and classes\<close>

text \<open>The outcome of an atom at \<open>p\<close>.\<close>

definition atom_post :: "nat \<Rightarrow> re_parse_state \<Rightarrow> atom_result \<Rightarrow> re_parse_state \<Rightarrow> bool" where
  "atom_post p s r s' \<longleftrightarrow> emits s s' \<and> p < fst r \<and> (\<forall>st l. snd r = Some (st, l) \<longrightarrow> st = length (content s))"

lemma unit_in:
  "REOP_prev \<in> unit_ops" "REOP_space \<in> unit_ops" "REOP_not_space \<in> unit_ops" "REOP_any \<in> unit_ops" "REOP_dot \<in> unit_ops"
  "REOP_line_start \<in> unit_ops" "REOP_line_start_m \<in> unit_ops" "REOP_line_end \<in> unit_ops" "REOP_line_end_m \<in> unit_ops"
  "REOP_word_boundary \<in> unit_ops" "REOP_word_boundary_i \<in> unit_ops" "REOP_not_word_boundary \<in> unit_ops"
  "REOP_not_word_boundary_i \<in> unit_ops"
  by (simp_all add: unit_ops_def)

lemma goes_unit:
  assumes "op \<in> unit_ops" and "goes (ps_inv s \<and> P \<and> emits s (re_emit_op (reop_byte op) s)) (re_emit_op (reop_byte op) s) m Q"
  shows "goes P s m Q"
  by (rule goes_op [OF _ ok_unit [OF assms(1)] assms(2)]) (rule puts_emit_op)

lemma goes_prev:
  assumes "goes (ps_inv s \<and> P \<and> emits s (emit_prev_if b s)) (emit_prev_if b s) m Q"
  shows "goes P s m Q"
proof (cases b)
  case True
  then show ?thesis using assms goes_unit [OF unit_in(1), of s P m Q] by (simp add: emit_prev_if_def)
next
  case False
  then show ?thesis using assms by (auto simp: emit_prev_if_def emits_refl intro: goes_pre)
qed

lemma goes_normal_char:
  assumes "p < q"
  shows "goes P s (term_normal_char b c cr q s) (atom_post p s)"
proof -
  let ?body = "\<lambda>s. if c \<ge> CLASS_RANGE_BASE then
           or_fault s cr (\<lambda>cr.
           if c = CLASS_RANGE_BASE + CHAR_RANGE_s then Done () (re_emit_op (reop_byte REOP_space) s)
           else if c = CLASS_RANGE_BASE + CHAR_RANGE_S then Done () (re_emit_op (reop_byte REOP_not_space) s)
           else re_emit_string_list cr s)
         else
           Done () (re_emit_char (if ignore_case s then lre_canonicalize c (s_is_unicode s) else c) s)"
  have op: "goes P s (Done () (re_emit_op (reop_byte op) s)) (\<lambda>_. emits s)" if "op \<in> unit_ops" for op s P
    by (rule goes_unit [OF that], rule goes_Done) blast
  have char: "goes P s (Done () (re_emit_char c s)) (\<lambda>_. emits s)" for c s P
  proof -
    obtain t where "code_ok 0 t" "puts s (code_bytes t) (re_emit_char c s)" using emit_char_code by blast
    note t = this
    show ?thesis by (rule goes_code [OF t(2,1)]) (rule goes_Done, blast)
  qed
  have list: "goes P s (re_emit_string_list sl s) (\<lambda>_. emits s)" for sl s P
    by (rule goes_weaken [OF goes_string_list [of True]]) (auto intro: emitsI code_ok_0)
  have body: "goes P s (?body s) (\<lambda>_. emits s)" for s P
    by (intro goes_intros op unit_in char list)
  show ?thesis
    unfolding term_normal_char_def Let_def
    apply (rule goes_prev [of _ _ b])
    apply (rule goes_bind [OF body])
    apply (rule goes_prev [of _ _ b])
    apply (rule goes_Done)
    apply (auto simp: atom_post_def assms ps_inv_size intro: emits_trans)
    done
qed

lemma goes_class_atom: "goes P s (term_class_atom b p s) (atom_post p s)"
  unfolding term_class_atom_def
  by (intro goes_quiet_bind [OF quiet_get_class_atom] goes_pair_case goes_normal_char) simp

lemma parse_digits_progress: "parse_digits_loop mem a p v = Some (w, q) \<Longrightarrow> p \<le> q"
proof (induction mem a p v rule: parse_digits_loop.induct)
  case (1 mem a p v)
  from "1.prems" show ?case
    by (subst (asm) parse_digits_loop.simps)
      (auto simp: Let_def split: option.splits if_splits
        dest: "1.IH"(1) [OF _ _ refl] "1.IH"(2) [OF _ _ refl])
qed

lemma goes_parse_digits:
  "(\<And>v q. p \<le> q \<Longrightarrow> goes P s (f v q) Q) \<Longrightarrow> goes P s (parse_digits s' p a f) Q"
  unfolding parse_digits_def
  by (intro goes_options goes_pair_case) (auto dest!: parse_digits_progress)

lemma quiet_parse_digits:
  "(\<And>v q. p \<le> q \<Longrightarrow> quiet s (f v q) Q) \<Longrightarrow> quiet s (parse_digits s' p a f) Q"
  unfolding parse_digits_def
  by (intro quiet_options quiet_pair_case) (auto dest!: parse_digits_progress)

lemma goes_errors2: "goes P s (syntax_error s') Q" "goes P s (nothing_to_repeat s') Q" "goes P s (invalid_repetition s') Q"
  by (simp_all add: syntax_error_def nothing_to_repeat_def invalid_repetition_def goes_errors)

lemma goes_brace: "goes P s (term_brace b p s) (atom_post p s)"
  unfolding term_brace_def Let_def
  by (intro goes_intros goes_errors2 goes_class_atom goes_parse_digits)

section \<open>Quantifiers\<close>

lemma op_bytes:
  "reop_byte REOP_split_goto_first + of_bool gr = reop_byte (split_op gr)"
  "reop_byte REOP_split_next_first - of_bool gr = reop_byte (back_op gr)"
  "reop_byte REOP_loop_split_next_first - of_bool gr = reop_byte (count_op gr)"
  "reop_byte REOP_loop_check_adv_split_next_first - of_bool gr = reop_byte (count_adv_op gr)"
  "reop_byte REOP_lookahead + of_bool neg = reop_byte (look_op neg)"
  "reop_byte REOP_lookahead_match + of_bool neg = reop_byte (look_match_op neg)"
  "reop_byte REOP_save_start + of_bool b = reop_byte (if b then REOP_save_end else REOP_save_start)"
  "reop_byte REOP_save_start + 1 - of_bool b = reop_byte (if b then REOP_save_start else REOP_save_end)"
  by (simp_all add: split_op_def back_op_def count_op_def count_adv_op_def look_op_def look_match_op_def)

text \<open>The code of the atom from \<open>start\<close> on, and what a quantifier makes of it.\<close>

definition holds :: "u8 list \<Rightarrow> code \<Rightarrow> re_parse_state \<Rightarrow> bool" where
  "holds pre t s \<longleftrightarrow> content s = pre @ code_bytes t \<and> code_ok (cc s) t"

definition becomes :: "u8 list \<Rightarrow> re_parse_state \<Rightarrow> re_parse_state \<Rightarrow> bool" where
  "becomes pre s s' \<longleftrightarrow> kept s s' \<and> (\<exists>t. holds pre t s')"

lemma becomes_trans: "kept s s1 \<Longrightarrow> becomes pre s1 s2 \<Longrightarrow> becomes pre s s2"
  by (simp add: becomes_def)

lemma goes_insert_at:
  assumes "ps_inv s \<Longrightarrow> P \<Longrightarrow> content s = pre @ bs \<and> start = length pre" "length data < 2 ^ 31"
  shows "goes P s (bc_insert start data s) (\<lambda>_ s'. kept s s' \<and> content s' = pre @ data @ bs)"
  by (rule goes_weaken [OF goes_insert [OF assms(2)]]) (use assms(1) in auto)

lemma goes_reset:
  assumes "ps_inv s \<Longrightarrow> P \<Longrightarrow> holds pre t s \<and> start = length pre"
  shows "goes P s (if reset then bc_insert start (save_reset_code lcc (cc s - 1)) s else Done () s)
    (\<lambda>_ s'. kept s s' \<and> (if reset then \<exists>op bs. op_ok (cc s) op bs \<and> length bs = 2 \<and>
        content s' = pre @ reop_byte op # bs @ code_bytes t else content s' = content s))"
proof (rule goes_if)
  assume r: reset
  have b: "unat (word_of_nat (cc s - 1) :: u8) < cc s" if "ps_inv s"
  proof -
    have "cc s = Suc (cc s - 1)" "cc s - 1 < 255"
      using that by (auto simp: ps_inv_def CAPTURE_COUNT_MAX_def)
    then obtain k where "cc s = Suc k" "k < 255" by metis
    then show ?thesis by (simp add: unsigned_of_nat take_bit_nat_eq_self)
  qed
  show "goes P s (bc_insert start (save_reset_code lcc (cc s - 1)) s)
    (\<lambda>_ s'. kept s s' \<and> (if reset then \<exists>op bs. op_ok (cc s) op bs \<and> length bs = 2 \<and>
        content s' = pre @ reop_byte op # bs @ code_bytes t else content s' = content s))"
  proof (rule goes_weaken [OF goes_insert_at [where pre = pre and bs = "code_bytes t" and P = P]], goal_cases)
    case (4 x s')
    have "op_ok (cc s) REOP_save_reset [word_of_nat lcc, word_of_nat (cc s - 1)]"
      using b [OF 4(1)] by (rule ok_save_reset)
    with 4 r show ?case
      by (auto simp: save_reset_code_def intro!: exI [of _ REOP_save_reset] exI [of _ "[word_of_nat lcc, word_of_nat (cc s - 1)]"])
  qed (use assms in \<open>auto simp: holds_def save_reset_code_def\<close>)
qed (simp add: goes_Done)

text \<open>Jumps back, whose target is in the code.\<close>

lemma goes_jump:
  assumes "t \<le> bc_size s \<Longrightarrow> puts s (f (bc_size s)) s1" "\<exists>bs. puts s bs s1"
    and "ps_inv s \<Longrightarrow> P \<Longrightarrow> t \<le> length (content s)"
    and "ps_inv s \<Longrightarrow> P \<Longrightarrow> kept s s1 \<Longrightarrow> content s1 = content s @ f (length (content s)) \<Longrightarrow> Q x s1"
  shows "goes P s (Done x s1) Q"
proof (cases "t \<le> bc_size s")
  case True
  then show ?thesis using assms by (intro goes_puts_Done [OF assms(1)]) (auto simp: ps_inv_size)
next
  case False
  obtain bs where "puts s bs s1" using assms(2) by blast
  moreover have "\<not> (ps_inv s \<and> P)" using False assms(3) by (auto simp: ps_inv_size)
  ultimately show ?thesis by (intro goes_puts_Done [of s bs]) auto
qed

lemma puts_goto_any: "\<exists>bs. puts s bs (snd (re_emit_goto op v s))"
  unfolding re_emit_goto_def Let_def snd_conv by (rule exI, rule puts_trans [OF puts_emit_u8 puts_emit_u32])

lemma puts_goto_u8_any: "\<exists>bs. puts s bs (snd (re_emit_goto_u8 op a v s))"
  unfolding re_emit_goto_u8_def Let_def snd_conv
  by (rule exI, rule puts_trans [OF puts_trans [OF puts_emit_u8 puts_emit_u8] puts_emit_u32])

lemma puts_goto_u8_u32_any: "\<exists>bs. puts s bs (snd (re_emit_goto_u8_u32 op a b v s))"
  unfolding re_emit_goto_u8_u32_def Let_def snd_conv
  by (rule exI, rule puts_trans [OF puts_trans [OF puts_trans [OF puts_emit_u8 puts_emit_u8] puts_emit_u32] puts_emit_u32])

lemmas goes_goto = goes_jump [where f = "\<lambda>n. op # bwd (n + 5 - t)" and t = t for op t, OF puts_goto puts_goto_any]
lemmas goes_goto_u8 = 
  goes_jump [where f = "\<lambda>n. op # a # bwd (n + 6 - t)" and t = t for op a t, OF puts_goto_u8 puts_goto_u8_any]
lemmas goes_goto_u8_u32 = 
  goes_jump [where f = "\<lambda>n. op # a # le32 v @ bwd (n + 10 - t)" and t = t for op a v t, OF puts_goto_u8_u32 puts_goto_u8_u32_any]

text \<open>The body of a loop, with a check that it advanced.\<close>

definition advancing :: "bool \<Rightarrow> code \<Rightarrow> code" where
  "advancing adv t = (if adv then Adv t else t)"

lemma advancing_facts [simp]:
  "csize (advancing adv t) = csize t + (if adv then 4 else 0)" "code_ok n (advancing adv t) = code_ok n t"
  by (simp_all add: advancing_def)

lemma split_code_eq: "split_code gr n = reop_byte (split_op gr) # fwd n"
  by (simp only: split_code_def op_bytes fwd_def)

lemma goes_optional:
  assumes "ps_inv s \<Longrightarrow> P \<Longrightarrow> holds pre t s \<and> start = length pre \<and> len = csize t"
  shows "goes P s
    (parse_then
       (bc_insert start
         (split_code greedy (len + (if has_goto then 5 else 0) + (if adv then 1 else 0) * 2 * 2) @ char_pos_code adv) s) (\<lambda>_ s.
     let s = (if adv then re_emit_op_u8 (reop_byte REOP_check_advance) 0 s else s)
     in Done () (if has_goto then snd (re_emit_goto (reop_byte REOP_goto) (word_of_nat start) s) else s)))
    (\<lambda>_. becomes pre s)"
proof -
  let ?off = "len + (if has_goto then 5 else 0) + (if adv then 1 else 0) * 2 * 2"
  let ?t = "advancing adv t"
  let ?mid = "pre @ reop_byte (split_op greedy) # fwd (csize ?t + (if has_goto then 5 else 0)) @ code_bytes ?t"
  show ?thesis
    unfolding Let_def
  proof (rule goes_bind [OF goes_insert_at [where pre = pre and bs = "code_bytes t"]])
    fix x s1
    let ?P = "ps_inv s \<and> P \<and> cc s \<le> cc s1 \<and> kept s s1 \<and>
        content s1 = pre @ (split_code greedy ?off @ char_pos_code adv) @ code_bytes t"
    let ?s = "if adv then re_emit_op_u8 (reop_byte REOP_check_advance) 0 s1 else s1"
    have check: "puts s1 (if adv then [reop_byte REOP_check_advance, 0] else []) ?s"
      by (simp add: puts_op_u8 puts_refl)
    show "goes ?P s1 (Done () (if has_goto then snd (re_emit_goto (reop_byte REOP_goto) (word_of_nat start) ?s) else ?s))
        (\<lambda>_. becomes pre s)"
    proof (rule goes_puts [OF check])
      let ?P1 = "ps_inv s1 \<and> ?P \<and> kept s1 ?s \<and>
          content ?s = content s1 @ (if adv then [reop_byte REOP_check_advance, 0] else [])"
      have mid: "content ?s = ?mid \<and> kept s ?s \<and> code_ok (cc s) t" if ?P1
        using that assms by (auto simp: split_code_eq char_pos_code_def advancing_def holds_def add.commute)
      show "goes ?P1 ?s (Done () (if has_goto then snd (re_emit_goto (reop_byte REOP_goto) (word_of_nat start) ?s) else ?s))
          (\<lambda>_. becomes pre s)"
      proof (cases has_goto)
        case True
        have "goes ?P1 ?s (Done () (snd (re_emit_goto (reop_byte REOP_goto) (word_of_nat start) ?s))) (\<lambda>_. becomes pre s)"
        proof (rule goes_goto)
          show "start \<le> length (content ?s)" if ?P1 using mid [OF that] that assms by simp
          fix s2
          assume p: ?P1 and k: "kept ?s (snd (re_emit_goto (reop_byte REOP_goto) (word_of_nat start) ?s))"
            and c: "content (snd (re_emit_goto (reop_byte REOP_goto) (word_of_nat start) ?s)) =
              content ?s @ reop_byte REOP_goto # bwd (length (content ?s) + 5 - start)"
          have "length (content ?s) + 5 - start = csize ?t + 10" using mid [OF p] p assms by simp
          with mid [OF p] k c True show "becomes pre s (snd (re_emit_goto (reop_byte REOP_goto) (word_of_nat start) ?s))"
            by (auto simp: becomes_def holds_def intro!: exI [of _ "Star greedy ?t"])
        qed
        with True show ?thesis by simp
      next
        case False
        have "goes ?P1 ?s (Done () ?s) (\<lambda>_. becomes pre s)"
          by (rule goes_Done) (use mid False in \<open>auto simp: becomes_def holds_def intro!: exI [of _ "Opt greedy ?t"]\<close>)
        with False show ?thesis by simp
      qed
    qed
  qed (use assms in \<open>auto simp: holds_def split_code_eq char_pos_code_def\<close>)
qed

text \<open>The counted forms: a loop between a start of the register and a jump back.\<close>

definition counted :: "bool \<Rightarrow> bool \<Rightarrow> int \<Rightarrow> int \<Rightarrow> code \<Rightarrow> code" where
  "counted gr adv n lim t =
     (if adv then Count_adv gr (word_of_int n) (word_of_int lim) t else Count gr (word_of_int n) (word_of_int lim) t)"

lemma counted_facts:
  "csize (counted gr adv n lim t) = (if adv then 18 else 16) + csize t"
  "code_ok m (counted gr adv n lim t) = code_ok m t"
  by (simp_all add: counted_def)

lemma counted_bytes:
  "code_bytes (counted gr adv n lim t) = set_i32_code n @ char_pos_code adv @ code_bytes t @
     reop_byte (if adv then count_adv_op gr else count_op gr) # 0 # le32 (word_of_int lim) @
     bwd (csize t + 10 + (if adv then 2 else 0))"
  by (simp add: counted_def set_i32_code_def char_pos_code_def add.commute)

lemma goes_loop_split:
  assumes "ps_inv s \<Longrightarrow> P \<Longrightarrow> content s = pre @ set_i32_code n @ char_pos_code adv @ code_bytes t \<and>
      target = length pre + 6 \<and> code_ok (cc s) t"
  shows "goes P s (emit_loop_split adv gr lim target s)
    (\<lambda>_ s'. kept s s' \<and> content s' = pre @ code_bytes (counted gr adv n lim t))"
proof -
  have op: "(if adv then reop_byte REOP_loop_check_adv_split_next_first else reop_byte REOP_loop_split_next_first) - of_bool gr
      = reop_byte (if adv then count_adv_op gr else count_op gr)"
    by (simp only: op_bytes split: if_split) simp
  show ?thesis
    unfolding emit_loop_split_def op
  proof (rule goes_goto_u8_u32)
    show "target \<le> length (content s)" if "ps_inv s" P
      using assms [OF that] by (simp add: set_i32_code_def)
    let ?op = "reop_byte (if adv then count_adv_op gr else count_op gr)"
    let ?s = "snd (re_emit_goto_u8_u32 ?op 0 (word_of_int lim) (word_of_nat target) s)"
    assume p: "ps_inv s" P and k: "kept s ?s"
      and c: "content ?s = content s @ ?op # 0 # le32 (word_of_int lim) @ bwd (length (content s) + 10 - target)"
    have "length (content s) + 10 - target = csize t + 10 + (if adv then 2 else 0)"
      using assms [OF p] by (simp add: set_i32_code_def char_pos_code_def)
    then have "content ?s = pre @ code_bytes (counted gr adv n lim t)"
      unfolding c counted_bytes using assms [OF p] by (simp only: append.assoc append_Cons)
    with k show "kept s ?s \<and> content ?s = pre @ code_bytes (counted gr adv n lim t)" by simp
  qed
qed

lemma goes_counted:
  assumes "ps_inv s \<Longrightarrow> P \<Longrightarrow> holds pre t s \<and> start = length pre"
  shows "goes P s (quantify_counted start quant_min quant_max greedy adv s) (\<lambda>_. becomes pre s)"
proof -
  let ?adv = "if quant_min = quant_max then False else adv"
  have len: "length (set_i32_code quant_max @ char_pos_code a) < 2 ^ 31" for a
    by (simp add: set_i32_code_def char_pos_code_def)
  show ?thesis
    unfolding quantify_counted_def Let_def
  proof (rule goes_bind [OF goes_insert_at [where pre = pre and bs = "code_bytes t", OF _ len]])
    fix x s1
    let ?P = "ps_inv s \<and> P \<and> cc s \<le> cc s1 \<and> kept s s1 \<and>
        content s1 = pre @ (set_i32_code quant_max @ char_pos_code ?adv) @ code_bytes t"
    show "goes ?P s1
      (if quant_min = quant_max then Done () (snd (re_emit_goto_u8 (reop_byte REOP_loop) 0 (word_of_nat (start + 6)) s1))
       else emit_loop_split ?adv greedy (quant_max - quant_min) (start + 6) s1) (\<lambda>_. becomes pre s)"
    proof (rule goes_if)
      assume eq: "quant_min = quant_max"
      let ?s = "snd (re_emit_goto_u8 (reop_byte REOP_loop) 0 (word_of_nat (start + 6)) s1)"
      show "goes ?P s1 (Done () ?s) (\<lambda>_. becomes pre s)"
      proof (rule goes_goto_u8)
        show "start + 6 \<le> length (content s1)" if ?P
          using that assms by (auto simp: set_i32_code_def)
        assume p: ?P and k: "kept s1 ?s"
          and c: "content ?s = content s1 @ reop_byte REOP_loop # 0 # bwd (length (content s1) + 6 - (start + 6))"
        have "length (content s1) + 6 - (start + 6) = csize t + 6"
          using p assms eq by (auto simp: set_i32_code_def char_pos_code_def)
        with c k p eq assms show "becomes pre s ?s"
          by (auto simp: becomes_def holds_def set_i32_code_def char_pos_code_def add.commute
              intro!: exI [of _ "Loop (word_of_int quant_max) t"])
      qed
    next
      assume ne: "quant_min \<noteq> quant_max"
      show "goes ?P s1 (emit_loop_split ?adv greedy (quant_max - quant_min) (start + 6) s1) (\<lambda>_. becomes pre s)"
        by (rule goes_weaken [OF goes_loop_split [where pre = pre and n = quant_max and t = t and P = ?P]])
          (use assms in \<open>auto simp: becomes_def holds_def counted_facts
            intro!: exI [of _ "counted greedy ?adv quant_max (quant_max - quant_min) t"]\<close>)
    qed
  qed (use assms in \<open>auto simp: holds_def\<close>)
qed

lemma goes_bounded:
  assumes "ps_inv s \<Longrightarrow> P \<Longrightarrow> holds pre t s \<and> start = length pre \<and> len = csize t"
  shows "goes P s
    (parse_then
      (bc_insert start
        (split_code greedy (6 + (if adv then 1 else 0) * 2 + len + 10) @ set_i32_code quant_max @ char_pos_code adv) s) (\<lambda>_ s.
      emit_loop_split adv greedy quant_max (start + 11) s))
    (\<lambda>_. becomes pre s)"
proof -
  let ?off = "6 + (if adv then 1 else 0) * 2 + len + 10"
  have len: "length (split_code greedy ?off @ set_i32_code quant_max @ char_pos_code adv) < 2 ^ 31"
    by (simp add: split_code_eq set_i32_code_def char_pos_code_def)
  show ?thesis
  proof (rule goes_bind [OF goes_insert_at [where pre = pre and bs = "code_bytes t", OF _ len]])
    fix x s1
    let ?P = "ps_inv s \<and> P \<and> cc s \<le> cc s1 \<and> kept s s1 \<and>
        content s1 = pre @ (split_code greedy ?off @ set_i32_code quant_max @ char_pos_code adv) @ code_bytes t"
    show "goes ?P s1 (emit_loop_split adv greedy quant_max (start + 11) s1) (\<lambda>_. becomes pre s)"
      by (rule goes_weaken [OF goes_loop_split [where pre = "pre @ split_code greedy ?off" and n = quant_max and t = t and P = ?P]])
        (use assms in \<open>auto simp: becomes_def holds_def counted_facts split_code_eq add.commute
          intro!: exI [of _ "Opt greedy (counted greedy adv quant_max quant_max t)"]\<close>)
  qed (use assms in \<open>auto simp: holds_def\<close>)
qed

text \<open>A quantifier that never runs its atom cuts the code off.\<close>

lemma goes_cut:
  assumes "ps_inv s \<Longrightarrow> P \<Longrightarrow> holds pre t s \<and> start = length pre"
  shows "goes P s (Done () (s\<lparr>byte_code := (byte_code s)\<lparr>dbuf_size := start\<rparr>\<rparr>)) (\<lambda>_. becomes pre s)"
proof -
  let ?s = "s\<lparr>byte_code := (byte_code s)\<lparr>dbuf_size := start\<rparr>\<rparr>"
  have "ps_inv ?s \<and> becomes pre s ?s" if "ps_inv s" P
  proof -
    have c: "content s = pre @ code_bytes t" "start = length pre" using assms [OF that] by (simp_all add: holds_def)
    have "dbuf_size (byte_code s) = length (content s)" using ps_inv_size [OF that(1)] by (simp add: bc_size_def)
    then have le: "start \<le> dbuf_size (byte_code s)" using c by simp
    then have "content ?s = take start (content s)" by (simp add: content_def dbuf_content_def min_def)
    with c have "holds pre Nop ?s" by (simp add: holds_def)
    moreover have "ps_inv ?s" using that(1) le by (auto simp: ps_inv_def bc_ok_def dbuf_wf_def)
    ultimately show ?thesis by (auto simp: becomes_def)
  qed
  then show ?thesis by (auto simp: goes_def runs_def halts_def fine_def)
qed

text \<open>All the forms of a quantifier.\<close>

lemma becomes_Seq:
  assumes "becomes (pre @ reop_byte op # bs) s s'" "op_ok (cc s) op bs"
  shows "becomes pre s s'"
proof -
  from assms(1) obtain t where "kept s s'" "content s' = (pre @ reop_byte op # bs) @ code_bytes t" "code_ok (cc s') t"
    by (auto simp: becomes_def holds_def)
  with assms(2) show ?thesis
    unfolding becomes_def holds_def by (intro conjI exI [of _ "Seq (Op op bs) t"]) auto
qed

lemma goes_from_zero:
  assumes "ps_inv s \<Longrightarrow> P \<Longrightarrow> holds pre t s \<and> start = length pre \<and> len = csize t"
  shows "goes P s (quantify_from_zero start len quant_max greedy adv need_capture_init lcc s) (\<lambda>_. becomes pre s)"
proof -
  let ?reset = "\<not> need_capture_init \<and> lcc \<noteq> cc s"
  let ?start = "if ?reset then start + 3 else start"
  let ?Q = "\<lambda>s'. kept s s' \<and> (if ?reset then \<exists>op bs. op_ok (cc s) op bs \<and> length bs = 2 \<and>
        content s' = pre @ reop_byte op # bs @ code_bytes t else content s' = content s)"
  have body: "goes (ps_inv s \<and> P \<and> cc s \<le> cc s1 \<and> ?Q s1) s1 (f s1) (\<lambda>_. becomes pre s)"
    if f: "\<And>pre P. (ps_inv s1 \<Longrightarrow> P \<Longrightarrow> holds pre t s1 \<and> ?start = length pre \<and> len = csize t) \<Longrightarrow>
        goes P s1 (f s1) (\<lambda>_. becomes pre s1)" for f s1
  proof (cases ?reset)
    case True
    have one: "goes (ps_inv s \<and> P \<and> kept s s1 \<and> op_ok (cc s) op bs \<and> length bs = 2 \<and>
        content s1 = pre @ reop_byte op # bs @ code_bytes t) s1 (f s1) (\<lambda>_. becomes pre s)" for op bs
      by (rule goes_weaken [OF f [where pre = "pre @ reop_byte op # bs" and P = "ps_inv s \<and> P \<and> kept s s1 \<and> op_ok (cc s) op bs \<and> length bs = 2 \<and>
        content s1 = pre @ reop_byte op # bs @ code_bytes t"]])
        (use assms True in \<open>auto simp: holds_def intro: becomes_trans becomes_Seq\<close>)
    show ?thesis
      by (rule goes_pre [OF goes_exists [OF goes_exists [OF one]]]) (use True in auto)
  next
    case False
    show ?thesis
      by (rule goes_weaken [OF f [where pre = pre and P = "ps_inv s \<and> P \<and> cc s \<le> cc s1 \<and> ?Q s1"]])
        (use assms False in \<open>auto simp: holds_def intro: becomes_trans\<close>)
  qed
  show ?thesis
    unfolding quantify_from_zero_def Let_def
  proof (rule goes_bind [OF goes_reset [where pre = pre and t = t]], goal_cases)
    case (2 x s1)
    show ?case
    proof (rule body, goal_cases)
      case (1 pre' P')
      have h: "holds pre' t s1 \<and> ?start = length pre'" if "ps_inv s1" P' using 1 that by blast
      show ?case by (intro goes_if goes_cut [OF h] goes_optional [unfolded Let_def, OF 1] goes_bounded [OF 1])
    qed
  qed (use assms in blast)
qed

lemma goes_quantifier:
  assumes "ps_inv s \<Longrightarrow> P \<Longrightarrow> holds pre t s \<and> start = length pre"
  shows "goes P s (re_emit_quantifier start lcc quant_min quant_max greedy s) (\<lambda>_. becomes pre s)"
proof -
  have body: "goes (ps_inv s \<and> P \<and> cc s \<le> cc s1 \<and> kept s s1 \<and> (if reset then \<exists>op bs. op_ok (cc s) op bs \<and> length bs = 2 \<and>
        content s1 = pre @ reop_byte op # bs @ code_bytes t else content s1 = content s)) s1 (f s1) (\<lambda>_. becomes pre s)"
    if f: "\<And>P t. (ps_inv s1 \<Longrightarrow> P \<Longrightarrow> holds pre t s1 \<and> start = length pre) \<Longrightarrow> goes P s1 (f s1) (\<lambda>_. becomes pre s1)" for f s1 reset
  proof (cases reset)
    case True
    have one: "goes (ps_inv s \<and> P \<and> kept s s1 \<and> op_ok (cc s) op bs \<and> length bs = 2 \<and>
        content s1 = pre @ reop_byte op # bs @ code_bytes t) s1 (f s1) (\<lambda>_. becomes pre s)" for op bs
      by (rule goes_weaken [OF f [where t = "Seq (Op op bs) t" and P = "ps_inv s \<and> P \<and> kept s s1 \<and> op_ok (cc s) op bs \<and> length bs = 2 \<and>
        content s1 = pre @ reop_byte op # bs @ code_bytes t"]])
        (use assms in \<open>auto simp: holds_def intro: becomes_trans\<close>)
    show ?thesis
      by (rule goes_pre [OF goes_exists [OF goes_exists [OF one]]]) (use True in auto)
  next
    case False
    show ?thesis
      by (rule goes_weaken [OF f [where t = t and P = "ps_inv s \<and> P \<and> kept s s1 \<and> content s1 = content s"]])
        (use assms False in \<open>auto simp: holds_def intro: becomes_trans\<close>)
  qed
  have plus: "goes P s1 (Done () (snd (re_emit_goto (reop_byte REOP_split_next_first - of_bool greedy) (word_of_nat start) s1)))
      (\<lambda>_. becomes pre s1)" if h: "ps_inv s1 \<Longrightarrow> P \<Longrightarrow> holds pre t s1 \<and> start = length pre" for s1 t P
    unfolding op_bytes
    by (rule goes_goto)
      (use h in \<open>auto simp: becomes_def holds_def add.commute intro!: exI [of _ "Plus greedy t"]\<close>)
  have rest: "goes P s1 (let len = bc_size s1 - start in
     if quant_min = 0 then quantify_from_zero start len quant_max greedy adv need_capture_init lcc s1
     else if quant_min = 1 \<and> quant_max = INT32_MAX \<and> \<not> adv then
       Done () (snd (re_emit_goto (reop_byte REOP_split_next_first - of_bool greedy) (word_of_nat start) s1))
     else quantify_counted start quant_min quant_max greedy adv s1) (\<lambda>_. becomes pre s1)"
    if h: "ps_inv s1 \<Longrightarrow> P \<Longrightarrow> holds pre t s1 \<and> start = length pre" for s1 t P adv need_capture_init
    unfolding Let_def
    by (intro goes_if goes_from_zero [where t = t] plus [OF h] goes_counted [OF h])
      (use h in \<open>auto simp: holds_def ps_inv_size\<close>)
  show ?thesis
    unfolding re_emit_quantifier_def
    by (intro goes_options goes_pair_case, rule goes_bind [OF goes_reset [where pre = pre and t = t]], use assms in blast,
        rule body, rule rest)
qed

end
