(* ===== verification/ParseTerms.thy ===== *)
theory ParseTerms
  imports ParseCode
begin

text \<open>
  Groups, references, terms, alternatives and disjunctions append the code of a tree.
\<close>

section \<open>Quantifiers in the pattern\<close>

lemma quiet_expect: "quiet s (re_parse_expect c p s) (\<lambda>q. q = p + 1)"
  unfolding re_parse_expect_def by (intro quiet_intros) simp

lemma quiet_counts: "quiet s (parse_counts p s) (\<lambda>r. \<forall>a b q. r = Some (a, b, q) \<longrightarrow> p < q)"
  unfolding parse_counts_def parse_brace_counts_def Let_def invalid_repetition_def
  by (intro quiet_intros quiet_parse_digits quiet_bind [OF quiet_expect]) auto

lemma goes_parse_quantifier:
  assumes "ps_inv s \<Longrightarrow> P \<Longrightarrow> holds pre t s \<and> start = length pre"
  shows "goes P s (re_parse_quantifier start lcc p s) (\<lambda>q s'. becomes pre s s' \<and> p \<le> q)"
proof -
  have q: "goes P s (parse_then (re_emit_quantifier start lcc qmin qmax g s) (\<lambda>_. Done q))
      (\<lambda>q s'. becomes pre s s' \<and> p \<le> q)" if "p \<le> q" for qmin qmax g q
    by (rule goes_bind [OF goes_quantifier [OF assms]], assumption+) (use that in \<open>auto intro: goes_Done\<close>)
  show ?thesis
    unfolding re_parse_quantifier_def Let_def
    by (intro goes_quiet_bind [OF quiet_counts] goes_intros goes_Done q)
      (use assms in \<open>auto simp: becomes_def\<close>)
qed

section \<open>Groups\<close>

text \<open>What the recursive calls do, with fuel \<open>n\<close>.\<close>

definition parses :: "nat \<Rightarrow> (bool \<Rightarrow> re_parse_state \<Rightarrow> unit parsed) \<Rightarrow> bool" where
  "parses n sub \<longleftrightarrow> (\<forall>b s. goes (enough s n (buf_ptr s)) s (sub b s)
     (\<lambda>_ s'. emits s s' \<and> buf_ptr s \<le> buf_ptr s'))"

lemma enough_ptr [simp]: "enough (s\<lparr>buf_ptr := p\<rparr>) n q = enough s n q"
  by (simp add: enough_def)

lemma ps_inv_ptr [simp]: "ps_inv (s\<lparr>buf_ptr := p\<rparr>) = ps_inv s"
  by (simp add: ps_inv_def bc_ok_def)

lemma goes_sub:
  assumes "parses n sub"
  shows "goes (enough s n p) s (sub b (s\<lparr>buf_ptr := p\<rparr>)) (\<lambda>_ s'. emits s s' \<and> p \<le> buf_ptr s')"
proof -
  have "goes (enough s n p) (s\<lparr>buf_ptr := p\<rparr>) (sub b (s\<lparr>buf_ptr := p\<rparr>)) (\<lambda>_ s'. emits s s' \<and> p \<le> buf_ptr s')"
    using assms [unfolded parses_def, rule_format, of "s\<lparr>buf_ptr := p\<rparr>" b] by (simp add: emits_ptr)
  then show ?thesis by (rule goes_enter [rotated 3, OF goes_pre]) simp_all
qed

lemma goes_group:
  assumes "parses n sub"
  shows "goes (enough s n p) s (term_group sub b p s) (atom_post p s)"
  unfolding term_group_def Let_def
  by (intro goes_bind [OF goes_sub [OF assms]] goes_quiet_bind [OF quiet_expect] goes_Done)
    (auto simp: atom_post_def ps_inv_size)

lemma quiet_modifiers: "quiet s (modifiers_loop s p seen) (\<lambda>(v, q). p \<le> q)"
proof (induction s p seen rule: modifiers_loop.induct)
  case (1 s p seen)
  show ?case
  proof (cases "rd (pat s) p")
    case None
    then show ?thesis by (subst modifiers_loop.simps) (simp add: quiet_stop)
  next
    case (Some b)
    have next_one: "quiet s (modifiers_loop s (p + 1) (seen OR val)) (\<lambda>(v, q). p \<le> q)"
      if "val = (if b = 0x69 then LRE_FLAG_IGNORECASE else if b = 0x6d then LRE_FLAG_MULTILINE
                 else if b = 0x73 then LRE_FLAG_DOTALL else 0)" "val \<noteq> 0" "\<not> seen AND val \<noteq> 0" for val
      by (rule quiet_weaken [OF "1.IH" [OF Some that]]) auto
    show ?thesis
      unfolding modifiers_loop.simps [of s p] Some option.case Let_def
      by (intro quiet_if quiet_errors quiet_Done next_one) auto
  qed
qed

lemma quiet_re_modifiers: "quiet s (re_parse_modifiers p s) (\<lambda>(v, q). p \<le> q)"
  unfolding re_parse_modifiers_def by (rule quiet_modifiers)

lemma goes_modifiers:
  assumes "parses n sub"
  shows "goes (enough s n p) s (term_modifiers sub b p s) (atom_post p s)"
proof -
  have group: "goes (enough s n q) s
      (parse_then (term_group sub b q (s\<lparr>ignore_case := i, multi_line := m, dotall := d\<rparr>)) (\<lambda>r s.
        Done r (s\<lparr>ignore_case := i', multi_line := m', dotall := d'\<rparr>))) (atom_post q s)" for q i m d i' m' d'
  proof (rule goes_enter [where ?s1.0 = "s\<lparr>ignore_case := i, multi_line := m, dotall := d\<rparr>"])
    let ?s = "s\<lparr>ignore_case := i, multi_line := m, dotall := d\<rparr>"
    show "goes (ps_inv s \<and> enough s n q) ?s
       (parse_then (term_group sub b q ?s) (\<lambda>r s. Done r (s\<lparr>ignore_case := i', multi_line := m', dotall := d'\<rparr>)))
       (atom_post q s)"
      by (rule goes_leave [OF goes_pre [OF goes_group [OF assms, of ?s q b]]])
        (auto simp: enough_def atom_post_def emits_flags content_def)
  qed (simp_all add: ps_inv_def bc_ok_def)
  have neg: "quiet s (if c = c_minus then re_parse_modifiers (q + 1) s else Done (0, q) s) (\<lambda>(v, q'). q \<le> q')" for c q
    by (intro quiet_if quiet_weaken [OF quiet_re_modifiers] quiet_Done) auto
  have later: "goes (enough s n p) s m (atom_post p s)"
    if "goes (enough s n q) s m (atom_post q s)" "p \<le> q" for q and m :: "atom_result parsed"
    by (rule goes_weaken [OF that(1)]) (use that(2) in \<open>auto simp: enough_def atom_post_def\<close>)
  show ?thesis
    unfolding term_modifiers_def Let_def
    by (intro goes_quiet_bind [OF quiet_re_modifiers] goes_quiet_bind [OF neg]
        goes_quiet_bind [OF quiet_expect] goes_intros later [OF group]) auto
qed

lemma goes_lookahead:
  assumes "parses n sub"
  shows "goes (enough s n p) s (term_lookahead sub neg back p s) (atom_post p s)"
proof -
  let ?atom = "if \<not> s_is_unicode s \<and> \<not> back then Some (bc_size s, cc s) else None"
  show ?thesis
    unfolding term_lookahead_def Let_def op_bytes
  proof (rule goes_op_u32)
    fix pos s1
    let ?P = "ps_inv s \<and> enough s n p \<and> kept s s1 \<and>
        content s1 = content s @ reop_byte (look_op neg) # le32 0 \<and> pos = length (content s) + 1"
    have sub: "goes ?P s1 (sub back (s1\<lparr>buf_ptr := p\<rparr>)) (\<lambda>_ s2. emits s1 s2 \<and> p \<le> buf_ptr s2)"
      by (rule goes_pre [OF goes_sub [OF assms]]) (auto simp: enough_def)
    let ?Q = "\<lambda>s2. ps_inv s1 \<and> ?P \<and> cc s1 \<le> cc s2 \<and> emits s1 s2 \<and> p \<le> buf_ptr s2"
    have patch: "goes (?Q s2) s2
        (if dbuf_err (byte_code (re_emit_op (reop_byte (look_match_op neg)) s2)) then Fail s'
         else parse_then (patch_u32 pos (word_of_nat (bc_size (re_emit_op (reop_byte (look_match_op neg)) s2)) -
             word_of_nat (pos + 4)) (re_emit_op (reop_byte (look_match_op neg)) s2))
           (\<lambda>_ s. Done (q, ?atom) s)) (atom_post p s)" if "q = buf_ptr s2 + 1" for q s2 s'
    proof -
      let ?s3 = "re_emit_op (reop_byte (look_match_op neg)) s2"
      have one: "goes (?Q s2 \<and> code_ok (cc s2) t \<and> content s2 = content s1 @ code_bytes t) s2
          (parse_then (patch_u32 pos (word_of_nat (bc_size ?s3) - word_of_nat (pos + 4)) ?s3) (\<lambda>_ s. Done (q, ?atom) s))
          (atom_post p s)" for t
      proof (rule goes_puts [OF puts_emit_op], rule goes_bind [OF goes_patch_ahead
            [where pre = "content s @ [reop_byte (look_op neg)]" and v = 0
              and post = "code_bytes t @ [reop_byte (look_match_op neg)]"]], goal_cases)
        case (2 x s4)
        show ?case
        proof (rule goes_Done, goal_cases)
          case 1
          then have "emits s s4" by (intro emitsI [where t = "Look neg t"]) (auto simp: emits_def)
          with 1 show ?case by (auto simp: atom_post_def ps_inv_size that)
        qed
      qed simp
      have "goes (?Q s2) s2
          (parse_then (patch_u32 pos (word_of_nat (bc_size ?s3) - word_of_nat (pos + 4)) ?s3) (\<lambda>_ s. Done (q, ?atom) s))
          (atom_post p s)"
        by (rule goes_pre [OF goes_exists [OF one]]) (auto simp: emits_def)
      then show ?thesis by (intro goes_if goes_stop)
    qed
    show "goes ?P s1 (parse_then (sub back (s1\<lparr>buf_ptr := p\<rparr>)) (\<lambda>_ s.
        parse_then (re_parse_expect c_rparen (buf_ptr s) s) (\<lambda>p s.
          if dbuf_err (byte_code (re_emit_op (reop_byte (look_match_op neg)) s)) then Fail (re_emit_op (reop_byte (look_match_op neg)) s)
          else parse_then (patch_u32 pos (word_of_nat (bc_size (re_emit_op (reop_byte (look_match_op neg)) s)) -
              word_of_nat (pos + 4)) (re_emit_op (reop_byte (look_match_op neg)) s)) (\<lambda>_ s. Done (p, ?atom) s))))
        (atom_post p s)"
      by (rule goes_bind [OF sub], rule goes_quiet_bind [OF quiet_expect], rule patch)
  qed
qed

text \<open>A capture; the names are one ahead of the count when it begins.\<close>

lemma unat_capture: "k < CAPTURE_COUNT_MAX \<Longrightarrow> unat (word_of_nat k :: u8) = k"
  by (simp add: CAPTURE_COUNT_MAX_def unsigned_of_nat take_bit_nat_eq_self)

lemma goes_capture:
  assumes sub: "parses n sub" and same: "byte_code s2 = byte_code s" "kept s s2"
    and names: "ps_inv s \<Longrightarrow> names_inv (cc s) (group_names s2)"
  shows "goes (enough s n p) s (term_capture sub b p s2) (atom_post p s)"
proof (cases "cc s2 \<ge> CAPTURE_COUNT_MAX")
  case True
  then show ?thesis by (simp add: term_capture_def goes_errors)
next
  case False
  let ?s3 = "s2\<lparr>s_capture_count := cc s2 + 1\<rparr>"
  let ?i = "word_of_nat (cc s) :: u8"
  let ?op1 = "if b then REOP_save_end else REOP_save_start"
  let ?op2 = "if b then REOP_save_start else REOP_save_end"
  have save: "op_ok m op [?i]" if "op \<in> {?op1, ?op2}" "cc s < m" for op m
    using that False same by (intro ok_save; cases b) (auto simp: save_ops_def unat_capture)
  have c: "content ?s3 = content s" using same by (simp add: content_def)
  have "goes (ps_inv s \<and> enough s n p) ?s3
      (parse_then (sub b ((re_emit_op_u8 (reop_byte ?op1) ?i ?s3)\<lparr>buf_ptr := p\<rparr>)) (\<lambda>_ s1.
        parse_then (re_parse_expect c_rparen (buf_ptr (re_emit_op_u8 (reop_byte ?op2) ?i s1))
            (re_emit_op_u8 (reop_byte ?op2) ?i s1)) (\<lambda>p s1.
          Done (p, Some (bc_size s2, cc s2)) s1))) (atom_post p s)"
  proof (rule goes_puts [OF puts_op_u8])
    let ?s4 = "re_emit_op_u8 (reop_byte ?op1) ?i ?s3"
    let ?P = "ps_inv ?s3 \<and> (ps_inv s \<and> enough s n p) \<and> kept ?s3 ?s4 \<and> content ?s4 = content ?s3 @ [reop_byte ?op1, ?i]"
    have s4: "goes ?P ?s4 (sub b (?s4\<lparr>buf_ptr := p\<rparr>)) (\<lambda>_ s5. emits ?s4 s5 \<and> p \<le> buf_ptr s5)"
      by (rule goes_pre [OF goes_sub [OF sub]]) (use same in \<open>auto simp: enough_def\<close>)
    show "goes ?P ?s4 (parse_then (sub b (?s4\<lparr>buf_ptr := p\<rparr>)) (\<lambda>_ s1.
        parse_then (re_parse_expect c_rparen (buf_ptr (re_emit_op_u8 (reop_byte ?op2) ?i s1))
            (re_emit_op_u8 (reop_byte ?op2) ?i s1)) (\<lambda>p s1.
          Done (p, Some (bc_size s2, cc s2)) s1))) (atom_post p s)"
    proof (rule goes_bind [OF s4], rule goes_puts [OF puts_op_u8], rule goes_quiet_bind [OF quiet_expect], rule goes_Done)
      fix x s5 q
      let ?s6 = "re_emit_op_u8 (reop_byte ?op2) ?i s5"
      assume q: "q = buf_ptr ?s6 + 1"
        and a: "ps_inv s5 \<and> (ps_inv ?s4 \<and> ?P \<and> cc ?s4 \<le> cc s5 \<and> emits ?s4 s5 \<and> p \<le> buf_ptr s5) \<and>
          kept s5 ?s6 \<and> content ?s6 = content s5 @ [reop_byte ?op2, ?i]"
      then obtain t where t: "code_ok (cc s5) t" "content s5 = content ?s4 @ code_bytes t" "pat s5 = pat s" "buf_end s5 = buf_end s"
        using same by (auto simp: emits_def)
      have cc: "cc s < cc s5" using a same by simp
      have "emits s ?s6"
        by (rule emitsI [where t = "Seq (Op ?op1 [?i]) (Seq t (Op ?op2 [?i]))"])
          (use a t c cc same save in \<open>simp_all del: if_split\<close>)
      moreover have "buf_ptr ?s6 = buf_ptr s5" by (simp add: re_emit_op_u8_def emit_u8_def)
      moreover have "bc_size s2 = length (content s)" using a same(1) ps_inv_size [of s] by (simp add: bc_size_def)
      ultimately show "atom_post p s (q, Some (bc_size s2, cc s2)) ?s6"
        using a q by (simp add: atom_post_def)
    qed
  qed
  then have "goes (enough s n p) s (parse_then (sub b ((re_emit_op_u8 (reop_byte ?op1) ?i ?s3)\<lparr>buf_ptr := p\<rparr>)) (\<lambda>_ s1.
        parse_then (re_parse_expect c_rparen (buf_ptr (re_emit_op_u8 (reop_byte ?op2) ?i s1))
            (re_emit_op_u8 (reop_byte ?op2) ?i s1)) (\<lambda>p s1.
          Done (p, Some (bc_size s2, cc s2)) s1))) (atom_post p s)"
    by (rule goes_enter [rotated 3]) (use same names False in \<open>auto simp: ps_inv_def bc_ok_def\<close>)
  with False same show ?thesis
    by (simp add: term_capture_def Let_def op_bytes del: reop_byte.simps)
qed

lemma goes_named_capture:
  assumes "parses n sub"
  shows "goes (enough s n p) s (term_named_capture sub b p s) (atom_post p s)"
proof -
  have one: "goes (enough s n p) s
      (term_capture sub b q ((put_group_name (cstr buf) scope (s\<lparr>u_buf := buf\<rparr>))\<lparr>has_named_captures := 1\<rparr>)) (atom_post p s)"
    if "p < q" for q buf scope
    by (rule goes_weaken [OF goes_capture [OF assms, where p = q]])
      (use that names_put_group [of "cc s - 1" "s\<lparr>u_buf := buf\<rparr>" buf scope] in
        \<open>auto simp: put_group_name_def Let_def enough_def atom_post_def ps_inv_def\<close>)
  show ?thesis
    unfolding term_named_capture_def Let_def
    by (intro goes_quiet_bind [OF quiet_group_name] goes_intros) (auto intro: one)
qed

lemma goes_paren:
  assumes "parses n sub"
  shows "goes (enough s (Suc n) p) s (term_paren sub b p s) (atom_post p s)"
proof -
  have later: "goes (enough s (Suc n) p) s m (atom_post p s)"
    if "goes (enough s n q) s m (atom_post q s)" "p < length (pat s)" "p < q" for q and m :: "atom_result parsed"
    by (rule goes_weaken [OF that(1)]) (use that(2,3) in \<open>auto simp: atom_post_def intro: enough_step\<close>)
  have capture: "goes (enough s n q) s (term_capture sub b q (put_no_name s)) (atom_post q s)" for q
    by (rule goes_capture [OF assms])
      (use names_put_none [of "cc s - 1" s] in \<open>auto simp: put_no_name_def Let_def ps_inv_def\<close>)
  show ?thesis
    unfolding term_paren_def
    by (intro goes_intros later [OF goes_group [OF assms]] later [OF goes_modifiers [OF assms]]
        later [OF goes_lookahead [OF assms]] later [OF goes_named_capture [OF assms]] later [OF capture]) auto
qed

section \<open>References and escapes\<close>

lemma reference_op: "\<exists>op. back_reference_op b s = reop_byte op \<and> op \<in> ref_ops"
proof -
  let ?op = "if b then if ignore_case s then REOP_backward_back_reference_i else REOP_backward_back_reference
      else if ignore_case s then REOP_back_reference_i else REOP_back_reference"
  have "back_reference_op b s = reop_byte ?op" by (simp add: back_reference_op_def)
  moreover have "?op \<in> ref_ops" by (simp add: ref_ops_def)
  ultimately show ?thesis by blast
qed

text \<open>The result of a scan that counts only is its state.\<close>

lemma counting_scan:
  "find_group_name name False s = Done r s' \<Longrightarrow> s' = s"
  "re_parse_captures (Some name) False s = Done x s' \<Longrightarrow> s' = s"
  using restate_find_name [of s s name False 0 1 0] restate_captures [of s s "buf_end s + 1" name False 0 1 0 False]
  by (simp_all add: find_group_name_def re_parse_captures_def del: captures_loop.simps)

lemma goes_self: "goes P s m Q \<Longrightarrow> goes P s m (\<lambda>x s'. m = Done x s' \<and> Q x s')"
  by (auto simp: goes_def runs_def halts_def)

lemma goes_class_later: "p \<le> q \<Longrightarrow> goes P s (term_class_atom b q s) (atom_post p s)"
  by (rule goes_weaken [OF goes_class_atom]) (auto simp: atom_post_def)

lemma goes_name_error:
  assumes "content s1 = content s" "kept s s1" "byte_code s1 = byte_code s" "group_names s1 = group_names s"
  shows "goes P s (group_name_error b p msg s1) (atom_post p s)"
proof -
  have "goes P s1 (group_name_error b p msg s1) (atom_post p s)"
    unfolding group_name_error_def
  proof (intro goes_intros, rule goes_bind [OF goes_has_named], intro goes_intros)
    fix named s2
    show "goes (ps_inv s1 \<and> P \<and> cc s1 \<le> cc s2 \<and> content s2 = content s1 \<and> kept s1 s2) s2
        (term_class_atom b p s2) (atom_post p s)"
      by (rule goes_weaken [OF goes_class_atom]) (use assms in \<open>auto simp: atom_post_def emits_def\<close>)
  qed
  then show ?thesis
    by (rule goes_enter [rotated 3, OF goes_pre]) (use assms in \<open>auto simp: ps_inv_def bc_ok_def\<close>)
qed

text \<open>The instruction and its numbers; the first scan has counted them.\<close>

lemma goes_numbers:
  assumes n: "ps_inv s \<Longrightarrow> P \<Longrightarrow> n < 256" and name: "name \<noteq> []" and p: "p < q"
    and first: "is_forward \<Longrightarrow> re_parse_captures (Some name) False s = Done (n, h) s"
      "\<not> is_forward \<Longrightarrow> find_group_name name False s = Done n s"
  shows "goes P s
    (parse_then
      (if is_forward then parse_then (re_parse_captures (Some name) True (re_emit_op_u8 (back_reference_op b s) (word_of_nat n) s)) (\<lambda>_ s. Done () s)
       else parse_then (find_group_name name True (re_emit_op_u8 (back_reference_op b s) (word_of_nat n) s)) (\<lambda>_ s. Done () s)) (\<lambda>_ s1.
      Done (q, Some (bc_size s, lcc)) s1)) (atom_post p s)"
proof -
  obtain op where op: "back_reference_op b s = reop_byte op" "op \<in> ref_ops" using reference_op by blast
  let ?s1 = "re_emit_op_u8 (reop_byte op) (word_of_nat n) s"
  have same: "group_names s = group_names ?s1" "pat s = pat ?s1" "buf_end s = buf_end ?s1"
    by (simp_all add: re_emit_op_u8_def emit_u8_def)
  have scan: "goes P1 ?s1
      (if is_forward then parse_then (re_parse_captures (Some name) True ?s1) (\<lambda>_ s. Done () s)
       else parse_then (find_group_name name True ?s1) (\<lambda>_ s. Done () s)) (\<lambda>_ s2. numbers True 0 ?s1 n s2)" for P1
  proof (rule goes_if)
    assume f: is_forward
    show "goes P1 ?s1 (parse_then (re_parse_captures (Some name) True ?s1) (\<lambda>_ s. Done () s)) (\<lambda>_ s2. numbers True 0 ?s1 n s2)"
      by (rule goes_bind [OF goes_self [OF goes_parse_captures]], rule goes_Done)
        (use captures_again [OF first(1) [OF f] _ same(2,3)] in auto)
  next
    assume f: "\<not> is_forward"
    show "goes P1 ?s1 (parse_then (find_group_name name True ?s1) (\<lambda>_ s. Done () s)) (\<lambda>_ s2. numbers True 0 ?s1 n s2)"
      by (rule goes_bind [OF goes_self [OF goes_find_name [OF name]]], rule goes_Done)
        (use find_name_again [OF first(2) [OF f] _ same(1)] in auto)
  qed
  show ?thesis
    unfolding op(1)
  proof (rule goes_puts [OF puts_op_u8], rule goes_bind [OF scan], rule goes_Done, goal_cases)
    case (1 x s2)
    then obtain bs where bs: "length bs = n" "content s2 = content s @ reop_byte op # word_of_nat n # bs"
      "pat s2 = pat s" "buf_end s2 = buf_end s" "cc s2 = cc s"
      by (auto simp: numbers_def)
    have "unat (word_of_nat n :: u8) = n" using n 1 by (simp add: unsigned_of_nat take_bit_nat_eq_self)
    with op(2) bs(1) have "op_ok 0 op (word_of_nat n # bs)" by (intro ok_ref) simp_all
    with bs have "emits s s2"
      by (intro emitsI [where t = "Op op (word_of_nat n # bs)"]) (auto intro: op_ok_mono)
    with 1 p show ?case by (simp add: atom_post_def ps_inv_size)
  qed
qed

lemma goes_named_reference: "goes P s (term_named_reference b p s) (atom_post p s)"
proof -
  have u: "goes P s m (atom_post p s)" if "goes P (s\<lparr>u_buf := buf\<rparr>) m (atom_post p (s\<lparr>u_buf := buf\<rparr>))" for buf m P
    by (rule goes_enter [where ?s1.0 = "s\<lparr>u_buf := buf\<rparr>"], simp_all add: ps_inv_def bc_ok_def,
        rule goes_weaken [OF that])
      (auto simp: atom_post_def emits_def content_def)
  have after: "goes P s (parse_then (find_group_name name False s) (\<lambda>n s.
           let is_forward = n = 0 in
           parse_then (if is_forward then re_parse_captures (Some name) False s else Done (n, False) s) (\<lambda>(n, _) s.
           if n = 0 then group_name_error b p msg s
           else
             (let start = bc_size s; lcc = s_capture_count s;
                  s = re_emit_op_u8 (back_reference_op b s) (word_of_nat n) s
              in parse_then
                   (if is_forward then parse_then (re_parse_captures (Some name) True s) (\<lambda>_ s. Done () s)
                    else parse_then (find_group_name name True s) (\<lambda>_ s. Done () s)) (\<lambda>_ s.
                 Done (q, Some (start, lcc)) s))))) (atom_post p s)"
    if "name \<noteq> []" "p < q" for name q msg P and s :: re_parse_state
    unfolding Let_def
  proof (rule goes_bind_same [OF goes_find_name [OF that(1)] counting_scan(1)], assumption)
    fix n assume find: "find_group_name name False s = Done n s"
    let ?P = "ps_inv s \<and> P \<and> numbers False 0 s n s \<and> n < 256"
    let ?next = "\<lambda>n is_forward s. if n = 0 then group_name_error b p msg s
           else
             parse_then
                   (if is_forward then parse_then (re_parse_captures (Some name) True (re_emit_op_u8 (back_reference_op b s) (word_of_nat n) s)) (\<lambda>_ s. Done () s)
                    else parse_then (find_group_name name True (re_emit_op_u8 (back_reference_op b s) (word_of_nat n) s)) (\<lambda>_ s. Done () s)) (\<lambda>_ s1.
                 Done (q, Some (bc_size s, cc s)) s1)"
    show "goes ?P s (parse_then (if n = 0 then re_parse_captures (Some name) False s else Done (n, False) s)
        (\<lambda>(na, _) s. ?next na (n = 0) s)) (atom_post p s)"
    proof (cases "n = 0")
      case True
      have "goes ?P s (parse_then (re_parse_captures (Some name) False s) (\<lambda>(na, _) s. ?next na True s)) (atom_post p s)"
      proof (rule goes_bind_same [OF goes_parse_captures counting_scan(2)], assumption, rule goes_pair_case)
        fix x m h assume "re_parse_captures (Some name) False s = Done x s" "x = (m, h)"
        then have c: "re_parse_captures (Some name) False s = Done (m, h) s" by simp
        show "goes (ps_inv s \<and> ?P \<and> (case x of (r, b) \<Rightarrow> \<lambda>s'. numbers False 0 s r s' \<and> r < 256) s) s (?next m True s) (atom_post p s)"
          by (intro goes_if goes_name_error goes_numbers [OF _ that, where h = h]) (use c \<open>x = (m, h)\<close> in auto)
      qed
      then show ?thesis by (simp add: True cong: if_cong)
    next
      case False
      have "goes ?P s (?next n False s) (atom_post p s)"
        by (intro goes_if goes_name_error goes_numbers [OF _ that]) (use find in auto)
      then show ?thesis by (simp add: False cong: if_cong)
    qed
  qed
  show ?thesis
    unfolding term_named_reference_def Let_def
    by (intro goes_intros goes_quiet_bind [OF quiet_group_name] goes_name_error u [OF after [unfolded Let_def]])
      (auto simp: content_def dest: named_buf_cstr)
qed

lemma goes_zero_escape: "goes P s (term_zero_escape b p s) (atom_post p s)"
  unfolding term_zero_escape_def Let_def
  by (intro goes_intros goes_normal_char) auto

lemma goes_legacy_octal: "p \<le> q \<Longrightarrow> goes P s (term_legacy_octal b q s) (atom_post p s)"
proof -
  assume "p \<le> q"
  then have char: "goes P s (term_normal_char b c None q' s) (atom_post p s)" if "q < q'" for c q'
    by (intro goes_normal_char) (use that in auto)
  have octal: "octal_digit c" if "c \<le> 0x37" "\<not> c \<le> 0x33" for c
    using that by (simp add: octal_digit_def word_le_nat_alt)
  show ?thesis
    unfolding term_legacy_octal_def Let_def
    by (intro goes_intros char) (auto dest: octal split: if_splits)
qed

lemma goes_numbered_reference: "goes P s (term_numbered_reference b p s) (atom_post p s)"
proof -
  have emit: "goes P1 s1 (Done (q, Some (bc_size s1, cc s1)) (emit_u8 (word_of_int c) (re_emit_op_u8 (back_reference_op b s1) 1 s1)))
      (atom_post p s1)" if "p < q" for s1 q c P1
  proof -
    obtain op where op: "back_reference_op b s1 = reop_byte op" "op \<in> ref_ops" using reference_op by blast
    have "op_ok m op [1, word_of_int c]" for m using op(2) by (intro ok_ref) simp_all
    then have "emits s1 s2" if "kept s1 s2" "content s2 = content s1 @ [reop_byte op, 1] @ [word_of_int c]" for s2
      using that by (intro emitsI [where t = "Op op [1, word_of_int c]"]) auto
    with that show ?thesis
      unfolding op(1)
      by (intro goes_puts_Done [OF puts_trans [OF puts_op_u8 puts_emit_u8]]) (auto simp: atom_post_def ps_inv_size)
  qed
  have range: "goes P s (if c < 0 then Done True s
        else if c \<ge> int (s_capture_count s) then parse_then (re_count_captures s) (\<lambda>n s. Done (c \<ge> n) s)
        else Done False s) (\<lambda>_ s'. content s' = content s \<and> kept s s')" for c
    by (intro goes_if goes_Done goes_bind [OF goes_count_captures]) auto
  have here: "goes (ps_inv s \<and> P \<and> cc s \<le> cc s1 \<and> content s1 = content s \<and> kept s s1) s1 m (atom_post p s)"
    if "goes True s1 m (atom_post p s1)" for s1 m
    by (rule goes_weaken [OF that]) (auto simp: atom_post_def emits_def)
  show ?thesis
    unfolding term_numbered_reference_def Let_def
    by (rule goes_parse_digits, rule goes_bind [OF range], rule here)
      (intro goes_intros emit goes_legacy_octal, auto)
qed

lemma goes_backslash: "goes P s (term_backslash b p s) (atom_post p s)"
proof -
  have op: "goes P s (Done (p + 2, None) (re_emit_op (reop_byte op) s)) (atom_post p s)" if "op \<in> unit_ops" for op
    by (rule goes_unit [OF that], rule goes_Done) (simp add: atom_post_def)
  show ?thesis
    unfolding term_backslash_def Let_def
    by (intro goes_intros goes_named_reference goes_zero_escape goes_numbered_reference goes_class_atom)
      (simp_all add: op [simplified] unit_in del: reop_byte.simps)
qed

section \<open>Terms\<close>

lemma goes_term_atom:
  assumes "parses n sub"
  shows "goes (enough s (Suc n) (buf_ptr s)) s (term_atom sub b s) (atom_post (buf_ptr s) s)"
proof -
  let ?P = "enough s (Suc n) (buf_ptr s)"
  have op: "goes ?P s (Done (buf_ptr s + 1, None) (re_emit_op (reop_byte op) s)) (atom_post (buf_ptr s) s)"
    if "op \<in> unit_ops" for op
    by (rule goes_unit [OF that], rule goes_Done) (simp add: atom_post_def)
  have dot: "goes ?P s (Done (buf_ptr s + 1, Some (bc_size s, cc s))
      (emit_prev_if b (re_emit_op (reop_byte op) (emit_prev_if b s)))) (atom_post (buf_ptr s) s)"
    if "op \<in> unit_ops" for op
    by (rule goes_prev [of _ _ b], rule goes_unit [OF that], rule goes_prev [of _ _ b], rule goes_Done)
      (auto simp: atom_post_def ps_inv_size intro: emits_trans)
  have cls: "goes ?P s (parse_then (re_parse_char_class (buf_ptr s) (emit_prev_if b s)) (\<lambda>p s1.
           Done (p, Some (bc_size s, cc s)) (emit_prev_if b s1))) (atom_post (buf_ptr s) s)"
  proof (rule goes_prev [of _ _ b], rule goes_bind [OF goes_char_class], rule goes_prev [of _ _ b], rule goes_Done, goal_cases)
    case (1 q s1)
    then have "emits (emit_prev_if b s) s1" by (auto intro: emitsI code_ok_0)
    with 1 have "emits s (emit_prev_if b s1)" by (blast intro: emits_trans)
    with 1 show ?case by (simp add: atom_post_def ps_inv_size)
  qed
  show ?thesis
    unfolding term_atom_def Let_def
    by (intro goes_intros goes_brace goes_errors2 goes_paren [OF assms] goes_backslash goes_class_atom cls)
      (simp_all add: op [simplified] dot [simplified] unit_in del: reop_byte.simps)
qed

lemma goes_term:
  assumes "parses n sub"
  shows "goes (enough s (Suc n) (buf_ptr s)) s (re_parse_term sub b s) (\<lambda>_ s'. emits s s' \<and> buf_ptr s < buf_ptr s')"
proof -
  let ?P = "enough s (Suc n) (buf_ptr s)"
  let ?A = "\<lambda>p atom s1. ps_inv s \<and> ?P \<and> cc s \<le> cc s1 \<and> atom_post (buf_ptr s) s (p, atom) s1"
  have quantifier: "goes (?A p atom s1) s1
      (case atom of None \<Rightarrow> Done p s1 | Some (start, lcc) \<Rightarrow> re_parse_quantifier start lcc p s1)
      (\<lambda>q s2. emits s s2 \<and> buf_ptr s < q)" for p atom s1
  proof (cases atom)
    case None
    then show ?thesis by (auto simp: atom_post_def intro: goes_Done)
  next
    case (Some x)
    obtain start lcc where x: "x = (start, lcc)" by fastforce
    have "goes (?A p atom s1 \<and> code_ok (cc s1) t \<and> content s1 = content s @ code_bytes t) s1
        (re_parse_quantifier start lcc p s1) (\<lambda>q s2. emits s s2 \<and> buf_ptr s < q)" for t
    proof (rule goes_weaken [OF goes_parse_quantifier [where pre = "content s" and t = t
          and P = "?A p atom s1 \<and> code_ok (cc s1) t \<and> content s1 = content s @ code_bytes t"]], goal_cases)
      case (3 q s2)
      then obtain u where "content s2 = content s @ code_bytes u" "code_ok (cc s2) u" "kept s1 s2"
        by (auto simp: becomes_def holds_def)
      with 3 show ?case by (auto simp: atom_post_def emits_def)
    qed (use Some x in \<open>auto simp: holds_def atom_post_def\<close>)
    then have "goes (?A p atom s1) s1 (re_parse_quantifier start lcc p s1) (\<lambda>q s2. emits s s2 \<and> buf_ptr s < q)"
      by (rule goes_pre [OF goes_exists]) (auto simp: atom_post_def emits_def)
    with Some x show ?thesis by simp
  qed
  have set_ptr: "goes P2 s2 (Done () (s2\<lparr>buf_ptr := q\<rparr>)) (\<lambda>_ s'. emits s s' \<and> buf_ptr s < buf_ptr s')"
    if "P2 \<Longrightarrow> emits s s2 \<and> buf_ptr s < q" for P2 s2 q
    by (rule goes_update) (use that in \<open>auto simp: emits_ptr\<close>)
  show ?thesis
    unfolding re_parse_term_def
    by (rule goes_bind [OF goes_term_atom [OF assms]], rule goes_pair_case, rule goes_bind, simp only:, rule quantifier,
        rule set_ptr) blast
qed

section \<open>Alternatives\<close>

text \<open>In a lookbehind the code of a term moves in front of the code before it.\<close>

lemma move_bytes:
  assumes "length ys \<le> length rest"
    and "mem = mem_move (pre @ xs @ ys @ rest) (length pre + length ys) (length pre) (length (xs @ ys))"
  shows "mem_write mem (length pre) (take (length ys) (drop (length (pre @ xs @ ys)) mem)) =
    pre @ ys @ xs @ ys @ drop (length ys) rest"
proof -
  define zs where "zs = take (length ys) (xs @ ys @ rest)"
  have "mem = pre @ zs @ xs @ ys @ drop (length ys) rest"
    by (simp add: assms(2) mem_move_def mem_write_def zs_def)
  moreover have "length zs = length ys" by (simp add: zs_def)
  ultimately show ?thesis by (simp add: mem_write_def)
qed

lemma goes_move:
  assumes "ps_inv s \<Longrightarrow> P \<Longrightarrow> content s = pre @ xs @ ys \<and> start = length pre \<and> term_start = length (pre @ xs)"
  shows "goes P s (move_term_to_front start term_start s)
    (\<lambda>_ s'. kept s s' \<and> buf_ptr s' = buf_ptr s \<and> content s' = pre @ ys @ xs)"
proof -
  let ?e = "bc_size s"
  obtain rc d where claim: "dbuf_claim (lre_bytecode_realloc s) (byte_code s) (?e - term_start) = (rc, d)" by fastforce
  let ?s = "\<lambda>m. s\<lparr>byte_code := d\<lparr>dbuf_mem := m\<rparr>\<rparr>"
  let ?mem = "mem_move (dbuf_mem d) (start + (?e - term_start)) start (?e - start)"
  let ?mem2 = "mem_write ?mem start (take (?e - term_start) (drop ?e ?mem))"
  have run: "move_term_to_front start term_start s =
      (if rc \<noteq> 0 then Fail (s\<lparr>byte_code := d\<rparr>)
       else if \<not> ?e + (?e - term_start) \<le> length (dbuf_mem d) then Fault (s\<lparr>byte_code := d\<rparr>)
       else Done () (?s ?mem2))"
    by (simp add: move_term_to_front_def Let_def claim)
  have fine: "fine s" if "fine (?s m)" for m
    using dbuf_claim_err [of "byte_code s" "lre_bytecode_realloc s" "?e - term_start"] claim that by (auto simp: fine_def)
  have "ps_inv (?s ?mem2) \<and> content (?s ?mem2) = pre @ ys @ xs"
    if inv: "ps_inv s" P and ok: "rc = 0" "?e + (?e - term_start) \<le> length (dbuf_mem d)" "fine (?s ?mem2)"
  proof -
    have c: "content s = pre @ xs @ ys" and p: "start = length pre" "term_start = length (pre @ xs)"
      using assms [OF inv] by simp_all
    have e: "?e = length (pre @ xs @ ys)" using ps_inv_size [OF inv(1)] c by simp
    have wf: "dbuf_wf (byte_code s)" "dbuf_allocated (byte_code s) \<le> 0x3fffffff"
      using inv(1) by (simp_all add: ps_inv_def bc_ok_def)
    note cs = dbuf_claim_cases [OF wf(1) claim]
    have small: "?e - term_start < 2 ^ 31"
      using content_bound [OF ps_inv_bc_ok [OF inv(1)]] ps_inv_size [OF inv(1)] by simp
    have "\<not> dbuf_err d" using ok(3) by (simp add: fine_def)
    with dbuf_claim_bounded [OF wf _ small realloc_bound claim] have alloc: "dbuf_allocated d \<le> 0x3fffffff" by simp
    obtain rest where mem: "dbuf_mem d = pre @ xs @ ys @ rest"
      using cs(2) c append_take_drop_id [of "dbuf_size d" "dbuf_mem d"]
      by (metis append.assoc content_def dbuf_content_def)
    have rest: "length ys \<le> length rest" using ok(2) e p mem by simp
    have "?mem2 = pre @ ys @ xs @ ys @ drop (length ys) rest"
      using move_bytes [OF rest refl, of pre xs] e p by (simp add: mem)
    moreover have "dbuf_size d = length (pre @ ys @ xs)" using cs(3) e by (simp add: bc_size_def)
    ultimately show ?thesis
      using cs(1) alloc inv(1) mem rest by (simp add: ps_inv_def bc_ok_def dbuf_wf_def content_def dbuf_content_def)
  qed
  with fine show ?thesis by (auto simp: run goes_def runs_def halts_def)
qed

lemma goes_place:
  "goes (\<exists>t u. code_ok (cc s) t \<and> code_ok (cc s) u \<and> content s = pre @ code_bytes t @ code_bytes u \<and>
      start = length pre \<and> term_start = length (pre @ code_bytes t)) s
    (if b then move_term_to_front start term_start s else Done () s)
    (\<lambda>_ s'. kept s s' \<and> buf_ptr s' = buf_ptr s \<and> (\<exists>t. holds pre t s'))"
proof (intro goes_exists goes_if)
  fix t u
  let ?P = "code_ok (cc s) t \<and> code_ok (cc s) u \<and> content s = pre @ code_bytes t @ code_bytes u \<and>
      start = length pre \<and> term_start = length (pre @ code_bytes t)"
  show "goes ?P s (move_term_to_front start term_start s)
    (\<lambda>_ s'. kept s s' \<and> buf_ptr s' = buf_ptr s \<and> (\<exists>t. holds pre t s'))"
    by (rule goes_weaken [OF goes_move [where P = ?P and pre = pre and xs = "code_bytes t" and ys = "code_bytes u"]])
      (auto simp: holds_def intro: exI [of _ "Seq u t"])
  show "goes ?P s (Done () s) (\<lambda>_ s'. kept s s' \<and> buf_ptr s' = buf_ptr s \<and> (\<exists>t. holds pre t s'))"
    by (rule goes_Done) (auto simp: holds_def intro: exI [of _ "Seq t u"])
qed

definition alt_post :: "u8 list \<Rightarrow> re_parse_state \<Rightarrow> re_parse_state \<Rightarrow> bool" where
  "alt_post pre s s' \<longleftrightarrow> cc s \<le> cc s' \<and> pat s' = pat s \<and> buf_end s' = buf_end s \<and> buf_ptr s \<le> buf_ptr s' \<and> (\<exists>t. holds pre t s')"

lemma goes_alternative_loop:
  assumes sub: "parses n sub"
  shows "goes (enough s k (buf_ptr s) \<and> enough s (Suc n) (buf_ptr s) \<and> (\<exists>t. holds pre t s) \<and> start = length pre) s
    (alternative_loop k sub b start s) (\<lambda>_. alt_post pre s)"
proof (induction k arbitrary: s)
  case 0
  show ?case by (simp add: goes_def runs_stop halts_def)
next
  case (Suc k)
  let ?P = "enough s (Suc k) (buf_ptr s) \<and> enough s (Suc n) (buf_ptr s) \<and> (\<exists>t. holds pre t s) \<and> start = length pre"
  have stop: "goes ?P s (Done () s) (\<lambda>_. alt_post pre s)"
    by (rule goes_Done) (simp add: alt_post_def)
  have turn: "goes ?P s (parse_then (re_parse_term sub b s) (\<lambda>_ s1.
           parse_then (if b then move_term_to_front start (bc_size s) s1 else Done () s1) (\<lambda>_ s2.
             alternative_loop k sub b start s2))) (\<lambda>_. alt_post pre s)"
    if p: "buf_ptr s < length (pat s)"
  proof (rule goes_bind [OF goes_pre [OF goes_term [OF sub]]], simp, rule goes_bind [OF goes_pre [OF goes_place [where pre = pre]]], goal_cases)
    case (1 x s1)
    then obtain t u where "content s = pre @ code_bytes t" "code_ok (cc s) t" "content s1 = content s @ code_bytes u"
      "code_ok (cc s1) u" "cc s \<le> cc s1"
      by (auto simp: holds_def emits_def)
    with 1 show ?case by (intro exI [of _ t] exI [of _ u]) (auto simp: ps_inv_size intro: code_ok_mono)
  next
    case (2 x s1 y s2)
    show ?case
      by (rule goes_weaken [OF Suc.IH])
        (use enough_step [OF _ p] in \<open>auto simp: alt_post_def emits_def enough_def\<close>)
  qed
  show ?case
    unfolding alternative_loop.simps Let_def
    by (intro goes_intros stop turn)
qed

lemma goes_alternative:
  assumes "parses n sub"
  shows "goes (enough s (Suc n) (buf_ptr s)) s (re_parse_alternative sub b s)
    (\<lambda>_ s'. emits s s' \<and> buf_ptr s \<le> buf_ptr s')"
  unfolding re_parse_alternative_def
  by (rule goes_weaken [OF goes_alternative_loop [OF assms, where pre = "content s"]])
    (auto simp: alt_post_def holds_def emits_def enough_start [simplified] ps_inv_size intro: exI [of _ Nop])

section \<open>Disjunctions\<close>

lemma goes_scope:
  assumes "parses n sub"
  shows "goes (enough s (Suc n) (buf_ptr s)) s (re_parse_alternative sub b (s\<lparr>group_name_scope := g\<rparr>))
    (\<lambda>_ s'. emits s s' \<and> buf_ptr s \<le> buf_ptr s')"
proof -
  let ?s = "s\<lparr>group_name_scope := g\<rparr>"
  have "goes (enough ?s (Suc n) (buf_ptr ?s)) ?s (re_parse_alternative sub b ?s) (\<lambda>_ s'. emits ?s s' \<and> buf_ptr ?s \<le> buf_ptr s')"
    by (rule goes_alternative [OF assms])
  then have "goes (enough ?s (Suc n) (buf_ptr ?s)) ?s (re_parse_alternative sub b ?s) (\<lambda>_ s'. emits s s' \<and> buf_ptr s \<le> buf_ptr s')"
    by (rule goes_weaken) (auto simp: emits_def content_def)
  then show ?thesis
    by (rule goes_enter [rotated 3, OF goes_pre]) (auto simp: ps_inv_def bc_ok_def enough_def)
qed

lemma goes_disjunction_turn:
  assumes sub: "parses n sub"
  shows "goes (enough s (Suc n) (buf_ptr s) \<and> holds pre t s \<and> start = length pre) s
    (parse_then (bc_insert start (reop_byte REOP_split_next_first # le32 (word_of_nat (bc_size s - start + 5))) s) (\<lambda>_ s.
        case re_emit_op_u32 (reop_byte REOP_goto) 0 s of (pos, s) \<Rightarrow>
        parse_then (re_parse_alternative sub b (s\<lparr>group_name_scope := group_name_scope s + 1\<rparr>)) (\<lambda>_ s.
        patch_u32 pos (word_of_nat (bc_size s) - word_of_nat (pos + 4)) s)))
    (\<lambda>_. alt_post pre s)"
proof (rule goes_bind [OF goes_insert_at [where pre = pre and bs = "code_bytes t"]], goal_cases)
  case (3 x s1)
  show ?case
  proof (rule goes_op_u32, rule goes_bind [OF goes_pre [OF goes_scope [OF sub]]], goal_cases)
    case (2 pos s2 y s3)
    let ?P = "ps_inv s2 \<and>
      (ps_inv s1 \<and>
       (ps_inv s \<and> (enough s (Suc n) (buf_ptr s) \<and> holds pre t s \<and> start = length pre) \<and> cc s \<le> cc s1 \<and> kept s s1 \<and>
        content s1 = pre @ (reop_byte REOP_split_next_first # le32 (word_of_nat (bc_size s - start + 5))) @ code_bytes t) \<and>
       kept s1 s2 \<and> content s2 = content s1 @ reop_byte REOP_goto # le32 0 \<and> pos = length (content s1) + 1) \<and>
      cc s2 \<le> cc s3 \<and> emits s2 s3 \<and> buf_ptr s2 \<le> buf_ptr s3"
    have one: "goes (?P \<and> code_ok (cc s3) u \<and> content s3 = content s2 @ code_bytes u) s3
        (patch_u32 pos (word_of_nat (bc_size s3) - word_of_nat (pos + 4)) s3) (\<lambda>_. alt_post pre s)" for u
    proof (rule goes_weaken [OF goes_patch_ahead [where pre = "pre @ reop_byte REOP_split_next_first # fwd (csize t + 5) @
          code_bytes t @ [reop_byte REOP_goto]" and v = 0 and post = "code_bytes u" and
          P = "?P \<and> code_ok (cc s3) u \<and> content s3 = content s2 @ code_bytes u"]], goal_cases)
      case 1
      then show ?case by (auto simp: holds_def ps_inv_size fwd_def)
    next
      case 2
      then show ?case by simp
    next
      case (3 z s4)
      then have "holds pre (Alt t u) s4" by (auto simp: holds_def emits_def intro: code_ok_mono)
      with 3 show ?case by (auto simp: alt_post_def emits_def)
    qed
    show ?case by (rule goes_pre [OF goes_exists [OF one]]) (auto simp: emits_def)
  qed (auto simp: enough_def)
qed (auto simp: holds_def)

lemma goes_disjunction_loop:
  assumes sub: "parses n sub"
  shows "goes (enough s k (buf_ptr s) \<and> enough s (Suc n) (buf_ptr s) \<and> (\<exists>t. holds pre t s) \<and> start = length pre) s
    (disjunction_loop k sub b start s) (\<lambda>_. alt_post pre s)"
proof (induction k arbitrary: s)
  case 0
  show ?case by (simp add: goes_def runs_stop halts_def)
next
  case (Suc k)
  let ?P = "enough s (Suc k) (buf_ptr s) \<and> enough s (Suc n) (buf_ptr s) \<and> (\<exists>t. holds pre t s) \<and> start = length pre"
  let ?s = "s\<lparr>buf_ptr := buf_ptr s + 1\<rparr>"
  let ?turn = "parse_then (bc_insert start (reop_byte REOP_split_next_first # le32 (word_of_nat (bc_size ?s - start + 5))) ?s) (\<lambda>_ s.
        case re_emit_op_u32 (reop_byte REOP_goto) 0 s of (pos, s) \<Rightarrow>
        parse_then (re_parse_alternative sub b (s\<lparr>group_name_scope := group_name_scope s + 1\<rparr>)) (\<lambda>_ s.
        patch_u32 pos (word_of_nat (bc_size s) - word_of_nat (pos + 4)) s))"
  have stop: "goes ?P s (Done () s) (\<lambda>_. alt_post pre s)"
    by (rule goes_Done) (simp add: alt_post_def)
  have turn: "goes ?P ?s ?turn (\<lambda>_. alt_post pre ?s)"
    by (rule goes_pre [OF goes_exists [OF goes_disjunction_turn [OF sub, where pre = pre and start = start]]])
      (auto simp: enough_def holds_def content_def)
  have step: "goes ?P s (parse_then ?turn (\<lambda>_ s. disjunction_loop k sub b start s)) (\<lambda>_. alt_post pre s)"
    if p: "buf_ptr s < length (pat s)"
  proof (rule goes_enter [where ?s1.0 = ?s])
    show "goes (ps_inv s \<and> ?P) ?s (parse_then ?turn (\<lambda>_ s. disjunction_loop k sub b start s)) (\<lambda>_. alt_post pre s)"
    proof (rule goes_bind [OF goes_pre [OF turn]], blast)
      fix x s1
      show "goes (ps_inv ?s \<and> (ps_inv s \<and> ?P) \<and> cc ?s \<le> cc s1 \<and> alt_post pre ?s s1) s1
          (disjunction_loop k sub b start s1) (\<lambda>_. alt_post pre s)"
        by (rule goes_weaken [OF Suc.IH]) (use p in \<open>auto simp: alt_post_def enough_def\<close>)
    qed
  qed (simp_all add: ps_inv_def bc_ok_def)
  have eq: "disjunction_loop (Suc k) sub b start s =
     at s (buf_ptr s) (\<lambda>c. if c \<noteq> c_bar then Done () s else parse_then ?turn (\<lambda>_ s. disjunction_loop k sub b start s))"
    by (simp add: Let_def parse_then_assoc case_prod_unfold cong: if_cong)
  show ?case
    unfolding eq by (intro goes_intros stop step)
qed

lemma goes_disjunction: "parses n (re_parse_disjunction n)"
proof (induction n)
  case 0
  show ?case by (simp add: parses_def goes_def runs_stop halts_def)
next
  case (Suc n)
  show ?case
    unfolding parses_def re_parse_disjunction.simps
  proof (intro allI, rule goes_bind [OF goes_alternative [OF Suc]])
    fix b s x s1
    show "goes (ps_inv s \<and> enough s (Suc n) (buf_ptr s) \<and> cc s \<le> cc s1 \<and> emits s s1 \<and> buf_ptr s \<le> buf_ptr s1) s1
        (disjunction_loop (length (pat s) + 1) (re_parse_disjunction n) b (bc_size s) s1)
        (\<lambda>_ s'. emits s s' \<and> buf_ptr s \<le> buf_ptr s')"
      by (rule goes_weaken [OF goes_disjunction_loop [OF Suc, where pre = "content s"]])
        (auto simp: alt_post_def holds_def emits_def enough_def ps_inv_size)
  qed
qed

end
