(* ===== verification/CompileCode.thy ===== *)
theory CompileCode
  imports ParseTerms
begin

text \<open>
  What \<^verbatim>\<open>lre_compile\<close> makes: a header, the code of a tree with its registers assigned, the
  operation \<open>match\<close>, and perhaps the names of the groups. Hence the matcher runs it safely.
\<close>

section \<open>The prologue and the pattern\<close>

lemma init_inv: "ps_inv (re_parse_init env buf flags)" "content (re_parse_init env buf flags) = []"
  by (simp_all add: re_parse_init_def ps_inv_def bc_ok_def names_inv_def dbuf_init2_def dbuf_wf_def dbuf_content_def
      content_def CAPTURE_COUNT_MAX_def)

lemma puts_header: "puts s (le16 (ucast flags) @ [0, 0] @ le32 0) (emit_header flags s)"
  using puts_trans [OF puts_trans [OF puts_trans [OF puts_emit_u16 puts_emit_u8] puts_emit_u8] puts_emit_u32]
  by (simp add: emit_header_def)

definition search_loop :: "u32 \<Rightarrow> code" where
  "search_loop flags = (if has_flag flags LRE_FLAG_STICKY then Nop else Star False (Op REOP_any []))"

lemma puts_search_loop: "puts s (code_bytes (Star False (Op REOP_any []))) (emit_search_loop s)"
proof -
  have "(- (5 + 1 + 5) :: u32) = - word_of_nat 11" "(1 + 5 :: u32) = word_of_nat 6" by simp_all
  then have "emit_search_loop s = snd (re_emit_op_u32 (reop_byte REOP_goto) (- word_of_nat 11)
      (re_emit_op (reop_byte REOP_any) (snd (re_emit_op_u32 (reop_byte REOP_split_goto_first) (word_of_nat 6) s))))"
    by (simp only: emit_search_loop_def Let_def)
  with puts_trans [OF puts_trans [OF puts_op_u32 puts_emit_op] puts_op_u32]
  show ?thesis by (simp add: fwd_def bwd_def split_op_def)
qed

lemma puts_prologue:
  "puts s ((le16 (ucast flags) @ [0, 0] @ le32 0) @ code_bytes (Seq (search_loop flags) (Op REOP_save_start [0])))
     (emit_prologue flags s)"
proof -
  let ?s1 = "emit_header flags s"
  let ?s2 = "if has_flag flags LRE_FLAG_STICKY then ?s1 else emit_search_loop ?s1"
  have "puts ?s1 (code_bytes (search_loop flags)) ?s2"
    by (simp add: search_loop_def puts_refl puts_search_loop del: code_bytes_simps(6))
  from puts_trans [OF puts_trans [OF puts_header this] puts_op_u8 [of _ "reop_byte REOP_save_start" 0]]
  show ?thesis by (simp add: emit_prologue_def Let_def del: code_bytes_simps(6))
qed

text \<open>The tree of the whole program.\<close>

definition program :: "u32 \<Rightarrow> code \<Rightarrow> code" where
  "program flags t = Seq (Seq (search_loop flags) (Op REOP_save_start [0])) (Seq t (Op REOP_save_end [0]))"

lemma program_ok: "0 < n \<Longrightarrow> code_ok n t \<Longrightarrow> code_ok n (program flags t)"
  by (auto simp: program_def search_loop_def save_ops_def unit_ops_def intro!: ok_save ok_unit)

definition compiled_to :: "u32 \<Rightarrow> re_parse_state \<Rightarrow> bool" where
  "compiled_to flags s \<longleftrightarrow> ps_inv s \<and>
     (\<exists>t. code_ok (cc s) t \<and> content s = (le16 (ucast flags) @ [0, 0] @ le32 0) @ code_bytes (program flags t) @ [reop_byte REOP_match])"

lemma goes_pattern:
  assumes "ps_inv s" "content s = []"
  shows "goes True s
    (parse_then (re_parse_disjunction (length (pat s) + 1) False (emit_prologue flags s)) (\<lambda>_ s.
       Done () (re_emit_op (reop_byte REOP_match) (re_emit_op_u8 (reop_byte REOP_save_end) 0 s))))
    (\<lambda>_. compiled_to flags)"
proof (rule goes_puts [OF puts_prologue])
  let ?s = "emit_prologue flags s"
  have pat: "pat ?s = pat s" using puts_prologue [of s flags] by (simp add: puts_def)
  show "goes (ps_inv s \<and> True \<and> kept s ?s \<and> content ?s = content s @
        (le16 (ucast flags) @ [0, 0] @ le32 0) @ code_bytes (Seq (search_loop flags) (Op REOP_save_start [0]))) ?s
     (parse_then (re_parse_disjunction (length (pat s) + 1) False ?s) (\<lambda>_ s.
       Done () (re_emit_op (reop_byte REOP_match) (re_emit_op_u8 (reop_byte REOP_save_end) 0 s))))
     (\<lambda>_. compiled_to flags)"
  proof (rule goes_bind [OF goes_pre [OF goes_disjunction [unfolded parses_def, rule_format]]], goal_cases)
    case 1
    then show ?case by (simp add: enough_def pat)
  next
    case (2 x s1)
    show ?case
    proof (rule goes_puts_Done [OF puts_trans [OF puts_op_u8 puts_emit_op]], goal_cases)
      case 1
      then obtain t where "code_ok (cc s1) t" "content s1 = content ?s @ code_bytes t" by (auto simp: emits_def)
      with 1 assms show ?case
        by (auto simp: compiled_to_def program_def intro!: exI [of _ t])
    qed
  qed
qed

section \<open>The end of the program\<close>

text \<open>The program in the memory of the buffer, with \<open>names\<close> behind it in the content.\<close>

definition in_buffer :: "nat \<Rightarrow> nat \<Rightarrow> u8 list \<Rightarrow> u8 list \<Rightarrow> dynbuf \<Rightarrow> bool" where
  "in_buffer n r code names d \<longleftrightarrow> dbuf_wf d \<and>
     (\<exists>hdr. dbuf_content d = hdr @ code @ names \<and> length hdr = RE_HEADER_LEN \<and>
        hdr ! RE_HEADER_CAPTURE_COUNT = word_of_nat n \<and> hdr ! RE_HEADER_REGISTER_COUNT = word_of_nat r)"

lemma buffer_patch:
  assumes "dbuf_wf d" "dbuf_content d = hdr @ rest" "pos + length data \<le> length hdr"
  defines "d' \<equiv> d\<lparr>dbuf_mem := mem_write (dbuf_mem d) pos data\<rparr>"
  shows "dbuf_wf d'" "dbuf_content d' = mem_write hdr pos data @ rest"
proof -
  have size: "dbuf_size d = length (hdr @ rest)" "dbuf_size d \<le> length (dbuf_mem d)"
    using assms(1) arg_cong [OF assms(2), of length] by (auto simp: dbuf_wf_def dbuf_content_def)
  then have "pos + length data \<le> length (dbuf_mem d)" using assms(3) by simp
  then show "dbuf_wf d'" using assms(1) by (simp add: d'_def dbuf_wf_def length_mem_write)
  have "dbuf_content d' = mem_write (dbuf_content d) pos data"
    using size assms(3) by (simp add: d'_def dbuf_content_def take_mem_write)
  then show "dbuf_content d' = mem_write hdr pos data @ rest"
    using assms(2,3) by (simp add: mem_write_def)
qed

lemma finish_header_code:
  assumes "finish_header (int r) s = Done x s'" "dbuf_wf (byte_code s)"
    and "dbuf_content (byte_code s) = hdr @ code" "length hdr = RE_HEADER_LEN"
  shows "in_buffer (cc s) r code [] (byte_code s')" and "group_names s' = group_names s" and "cc s' = cc s"
proof -
  let ?d1 = "(byte_code s)\<lparr>dbuf_mem := mem_write (dbuf_mem (byte_code s)) RE_HEADER_CAPTURE_COUNT
      [word_of_nat (cc s), word_of_int (int r)]\<rparr>"
  let ?v = "le32 (word_of_nat (bc_size s - RE_HEADER_LEN))"
  have s': "s' = s\<lparr>byte_code := ?d1\<lparr>dbuf_mem := mem_write (dbuf_mem ?d1) RE_HEADER_BYTECODE_LEN ?v\<rparr>\<rparr>"
    using assms(1) by (auto simp: finish_header_def patch_u32_def patch_bytes_def bc_size_def split: if_splits)
  then show "group_names s' = group_names s" "cc s' = cc s" by simp_all
  let ?h1 = "mem_write hdr RE_HEADER_CAPTURE_COUNT [word_of_nat (cc s), word_of_int (int r)]"
  have l1: "RE_HEADER_CAPTURE_COUNT + length [word_of_nat (cc s), word_of_int (int r) :: u8] \<le> length hdr"
    using assms(4) by (simp add: RE_HEADER_CAPTURE_COUNT_def RE_HEADER_LEN_def)
  have h1: "length ?h1 = RE_HEADER_LEN" using l1 assms(4) by (simp add: length_mem_write)
  have l2: "RE_HEADER_BYTECODE_LEN + length ?v \<le> length ?h1"
    unfolding h1 by (simp add: RE_HEADER_BYTECODE_LEN_def RE_HEADER_LEN_def)
  note p1 = buffer_patch [OF assms(2,3) l1]
  note p2 = buffer_patch [OF p1 l2]
  define h1 where "h1 = ?h1"
  have fields: "h1 ! RE_HEADER_CAPTURE_COUNT = word_of_nat (cc s)" "h1 ! RE_HEADER_REGISTER_COUNT = word_of_nat r"
    unfolding h1_def using nth_mem_write [OF l1] assms(4)
    by (simp_all add: RE_HEADER_CAPTURE_COUNT_def RE_HEADER_REGISTER_COUNT_def RE_HEADER_LEN_def)
  let ?h2 = "mem_write h1 RE_HEADER_BYTECODE_LEN ?v"
  have "?h2 ! i = h1 ! i" if "i < RE_HEADER_BYTECODE_LEN" for i
    using that nth_mem_write [OF l2 [folded h1_def], of i] h1 [folded h1_def]
    by (simp add: RE_HEADER_BYTECODE_LEN_def RE_HEADER_LEN_def)
  with fields have "?h2 ! RE_HEADER_CAPTURE_COUNT = word_of_nat (cc s)" "?h2 ! RE_HEADER_REGISTER_COUNT = word_of_nat r"
    by (simp_all add: RE_HEADER_CAPTURE_COUNT_def RE_HEADER_REGISTER_COUNT_def RE_HEADER_BYTECODE_LEN_def)
  moreover have "length ?h2 = RE_HEADER_LEN"
    using length_mem_write [OF l2 [folded h1_def]] h1 [folded h1_def] by simp
  moreover note p2 [folded h1_def]
  ultimately show "in_buffer (cc s) r code [] (byte_code s')"
    unfolding in_buffer_def by (simp add: s')
qed

lemma append_names_code:
  assumes "append_group_names s = Done x s'" "in_buffer n r code [] (byte_code s)"
  shows "\<exists>names. in_buffer n r code names (byte_code s')"
proof (cases "dbuf_size (group_names s) > (s_capture_count s - 1) * LRE_GROUP_NAME_TRAILER_LEN")
  case False
  with assms show ?thesis by (auto simp: append_group_names_def)
next
  case True
  obtain rc d where put: "dbuf_put (lre_bytecode_realloc s) (byte_code s) (dbuf_content (group_names s)) = (rc, d)" by fastforce
  obtain hdr where hdr: "dbuf_content (byte_code s) = hdr @ code" "length hdr = RE_HEADER_LEN"
    "hdr ! RE_HEADER_CAPTURE_COUNT = word_of_nat n" "hdr ! RE_HEADER_REGISTER_COUNT = word_of_nat r"
    and wf: "dbuf_wf (byte_code s)"
    using assms(2) by (auto simp: in_buffer_def)
  note c = dbuf_put_cases [OF wf put]
  obtain names where names: "dbuf_content d = hdr @ code @ names"
    using c(3,4) hdr(1) by (cases "rc = 0") auto
  obtain fl where s': "s' = s\<lparr>byte_code := d\<lparr>dbuf_mem := mem_write (dbuf_mem d) RE_HEADER_FLAGS (le16 fl)\<rparr>\<rparr>"
    using assms(1) True put
    by (auto simp: append_group_names_def Let_def or_fault_def patch_bytes_def split: option.splits if_splits)
  have l: "RE_HEADER_FLAGS + length (le16 fl) \<le> length hdr"
    using hdr(2) by (simp add: RE_HEADER_FLAGS_def RE_HEADER_LEN_def f16.enc_length)
  note p = buffer_patch [OF c(1) names l]
  have "mem_write hdr RE_HEADER_FLAGS (le16 fl) ! i = hdr ! i" if "2 \<le> i" "i < 8" for i
    using nth_mem_write [OF l, of i] that hdr(2) by (simp add: RE_HEADER_FLAGS_def RE_HEADER_LEN_def f16.enc_length)
  with p l hdr(2-4) have "in_buffer n r code names (byte_code s')"
    unfolding in_buffer_def s'
    by (intro conjI exI [of _ "mem_write hdr RE_HEADER_FLAGS (le16 fl)"])
      (simp_all add: length_mem_write RE_HEADER_CAPTURE_COUNT_def RE_HEADER_REGISTER_COUNT_def)
  then show ?thesis by blast
qed

text \<open>The shape of the result.\<close>

definition program_of :: "nat \<Rightarrow> code \<Rightarrow> u8 list \<Rightarrow> bool" where
  "program_of n c bc \<longleftrightarrow> 0 < n \<and> n < 256 \<and> code_ok n c \<and> csize c < 2 ^ 31 \<and> regs c < 256 \<and>
     (\<exists>hdr names. bc = hdr @ flat reg8 0 c @ reop_byte REOP_match # names \<and> length hdr = RE_HEADER_LEN \<and>
        hdr ! RE_HEADER_CAPTURE_COUNT = word_of_nat n \<and> hdr ! RE_HEADER_REGISTER_COUNT = word_of_nat (regs c))"

lemma compile_tail:
  assumes run: "(at s (buf_ptr s) (\<lambda>b.
     if b \<noteq> 0 then re_parse_error (chars ''extraneous characters at the end'') s
     else if dbuf_err (byte_code s) then re_parse_out_of_memory s
     else
       or_fault s (compute_register_count (dbuf_mem (byte_code s)) (bc_size s)) (\<lambda>(register_count, mem).
       let s = s\<lparr>byte_code := (byte_code s)\<lparr>dbuf_mem := mem\<rparr>\<rparr> in
       if register_count < 0 then re_parse_error (chars ''too many imbricated quantifiers'') s
       else
         parse_then (finish_header register_count s) (\<lambda>_ s. append_group_names s)))) = Done x s'"
    and comp: "fine s \<Longrightarrow> compiled_to flags s"
  shows "\<exists>n c. program_of n c (dbuf_content (byte_code s'))"
proof -
  have fine: "fine s"
    using run by (auto simp: at_def fine_def re_parse_error_def re_parse_out_of_memory_def split: option.splits if_splits)
  from comp [OF this] obtain t where inv: "ps_inv s" and ok: "code_ok (cc s) t"
    and c: "content s = (le16 (ucast flags) @ [0, 0] @ le32 0) @ code_bytes (program flags t) @ [reop_byte REOP_match]"
    by (auto simp: compiled_to_def)
  let ?hdr = "le16 (ucast flags) @ [0, 0] @ le32 0" and ?c = "program flags t"
  have n: "0 < cc s" "cc s < 256" using inv by (auto simp: ps_inv_def CAPTURE_COUNT_MAX_def)
  have okc: "code_ok (cc s) ?c" using program_ok [OF n(1) ok] .
  have hdr: "length ?hdr = RE_HEADER_LEN" by (simp add: RE_HEADER_LEN_def f16.enc_length)
  have size: "bc_size s = RE_HEADER_LEN + csize ?c + 1" using ps_inv_size [OF inv] hdr by (simp add: c)
  obtain rest where mem: "dbuf_mem (byte_code s) = ?hdr @ flat (\<lambda>_. 0) 0 ?c @ reop_byte REOP_match # rest"
    using c append_take_drop_id [of "dbuf_size (byte_code s)" "dbuf_mem (byte_code s)"]
    by (metis (no_types, lifting) append.assoc append_Cons append_Nil code_bytes_def content_def dbuf_content_def)
  note regs = register_count_of_program [OF okc hdr size, of "\<lambda>_. 0" rest, folded mem]
  have wf: "dbuf_wf (byte_code s)" using inv by (simp add: ps_inv_def bc_ok_def)
  let ?mem = "?hdr @ flat reg8 0 ?c @ reop_byte REOP_match # rest"
  let ?s = "s\<lparr>byte_code := (byte_code s)\<lparr>dbuf_mem := ?mem\<rparr>\<rparr>"
  have r: "regs ?c \<le> 255" and fin: "parse_then (finish_header (int (regs ?c)) ?s) (\<lambda>_ s. append_group_names s) = Done x s'"
    using regs run by (auto simp: at_def or_fault_def re_parse_error_def re_parse_out_of_memory_def split: option.splits if_splits)
  obtain y s1 where s1: "finish_header (int (regs ?c)) ?s = Done y s1" "append_group_names s1 = Done x s'"
    using fin by (cases "finish_header (int (regs ?c)) ?s") auto
  have "length ?mem = length (dbuf_mem (byte_code s))" by (simp add: mem)
  then have wf': "dbuf_wf (byte_code ?s)" using wf by (simp add: dbuf_wf_def)
  have len: "dbuf_size (byte_code s) = length (?hdr @ flat reg8 0 ?c @ [reop_byte REOP_match])"
    using size hdr by (simp add: bc_size_def)
  have "take (length (?hdr @ flat reg8 0 ?c @ [reop_byte REOP_match])) ((?hdr @ flat reg8 0 ?c @ [reop_byte REOP_match]) @ rest) =
      ?hdr @ flat reg8 0 ?c @ [reop_byte REOP_match]"
    by (simp only: append_eq_conv_conj [THEN iffD1, OF refl, THEN conjunct1, symmetric])
  then have "dbuf_content (byte_code ?s) = ?hdr @ (flat reg8 0 ?c @ [reop_byte REOP_match])"
    using len by (simp only: dbuf_content_def append.assoc append_Cons append_Nil) simp
  from finish_header_code(1) [OF s1(1) wf' this hdr]
  have "in_buffer (cc s) (regs ?c) (flat reg8 0 ?c @ [reop_byte REOP_match]) [] (byte_code s1)" by simp
  from append_names_code [OF s1(2) this] obtain names where
    b: "in_buffer (cc s) (regs ?c) (flat reg8 0 ?c @ [reop_byte REOP_match]) names (byte_code s')" by blast
  moreover have "csize ?c < 2 ^ 31"
    using content_bound [OF ps_inv_bc_ok [OF inv]] ps_inv_size [OF inv] size by simp
  ultimately have "program_of (cc s) ?c (dbuf_content (byte_code s'))"
    using n okc r by (auto simp: program_of_def in_buffer_def)
  then show ?thesis by blast
qed

section \<open>The compiler and the matcher\<close>

lemma compile_body_split:
  "lre_compile_body flags s = parse_then
     (parse_then (re_parse_disjunction (length (pat s) + 1) False (emit_prologue flags s)) (\<lambda>_ s.
        Done () (re_emit_op (reop_byte REOP_match) (re_emit_op_u8 (reop_byte REOP_save_end) 0 s)))) (\<lambda>_ s.
     at s (buf_ptr s) (\<lambda>b.
     if b \<noteq> 0 then re_parse_error (chars ''extraneous characters at the end'') s
     else if dbuf_err (byte_code s) then re_parse_out_of_memory s
     else
       or_fault s (compute_register_count (dbuf_mem (byte_code s)) (bc_size s)) (\<lambda>(register_count, mem).
       let s = s\<lparr>byte_code := (byte_code s)\<lparr>dbuf_mem := mem\<rparr>\<rparr> in
       if register_count < 0 then re_parse_error (chars ''too many imbricated quantifiers'') s
       else
         parse_then (finish_header register_count s) (\<lambda>_ s. append_group_names s))))"
  by (simp add: lre_compile_body_def parse_then_assoc Let_def)

lemma compiled_program:
  assumes "lre_compile env k buf flags = Compiled bc"
  shows "\<exists>n c. program_of n c bc"
proof -
  let ?s = "re_parse_init env buf flags"
  obtain s' where body: "lre_compile_body flags ?s = Done () s'" and bc: "bc = dbuf_content (byte_code s')"
    using assms by (auto simp: lre_compile_def split: parsed.splits)
  obtain x s1 where s1: "parse_then (re_parse_disjunction (length (pat ?s) + 1) False (emit_prologue flags ?s)) (\<lambda>_ s.
        Done () (re_emit_op (reop_byte REOP_match) (re_emit_op_u8 (reop_byte REOP_save_end) 0 s))) = Done x s1"
    using body unfolding compile_body_split
    by (cases "parse_then (re_parse_disjunction (length (pat ?s) + 1) False (emit_prologue flags ?s)) (\<lambda>_ s.
        Done () (re_emit_op (reop_byte REOP_match) (re_emit_op_u8 (reop_byte REOP_save_end) 0 s)))") auto
  have "compiled_to flags s1" if "fine s1"
    using goes_pattern [OF init_inv, of env buf flags] s1 that init_inv(1) by (simp add: goes_def runs_def)
  with compile_tail [of s1 "()" s' flags] body s1 show ?thesis
    unfolding compile_body_split bc by simp
qed

lemma finish_no_fuel: "parse_then (finish_header r s) (\<lambda>_ s. append_group_names s) \<noteq> No_fuel s'"
  by (auto simp: finish_header_def append_group_names_def patch_u32_def patch_bytes_def or_fault_def Let_def
      split: option.split)

lemma compile_halts:
  assumes "lre_compile_body flags (re_parse_init env buf flags) = No_fuel s'"
  shows "dbuf_err (byte_code s')"
proof (rule ccontr)
  assume "\<not> dbuf_err (byte_code s')"
  then have fine: "fine s'" by (simp add: fine_def)
  let ?s = "re_parse_init env buf flags"
  have "parse_then (re_parse_disjunction (length (pat ?s) + 1) False (emit_prologue flags ?s)) (\<lambda>_ s.
        Done () (re_emit_op (reop_byte REOP_match) (re_emit_op_u8 (reop_byte REOP_save_end) 0 s))) = No_fuel s'"
    using assms finish_no_fuel unfolding compile_body_split
    by (cases "parse_then (re_parse_disjunction (length (pat ?s) + 1) False (emit_prologue flags ?s)) (\<lambda>_ s.
        Done () (re_emit_op (reop_byte REOP_match) (re_emit_op_u8 (reop_byte REOP_save_end) 0 s)))")
      (auto simp: at_def or_fault_def re_parse_error_def re_parse_out_of_memory_def Let_def split: option.splits if_splits)
  with goes_pattern [OF init_inv, of env buf flags] fine init_inv(1) show False
    by (simp add: goes_def halts_def)
qed

lemma program_header:
  assumes "program_of n c bc"
  shows "lre_get_capture_count bc = Some n" and "lre_get_alloc_count bc = Some (2 * n + regs c)"
proof -
  obtain hdr names where bc: "bc = hdr @ flat reg8 0 c @ reop_byte REOP_match # names" and len: "length hdr = RE_HEADER_LEN"
    and f: "hdr ! RE_HEADER_CAPTURE_COUNT = word_of_nat n" "hdr ! RE_HEADER_REGISTER_COUNT = word_of_nat (regs c)"
    and small: "n < 256" "regs c < 256"
    using assms by (auto simp: program_of_def)
  have w8: "unat (ucast m :: u32) = unat m" for m :: u8
    using unsigned_less [where ?'a = nat, of m] by (simp add: unsigned_ucast_eq take_bit_nat_eq_self)
  have u: "unat (word_of_nat n :: u8) = n" "unat (word_of_nat (regs c) :: u8) = regs c"
    using small by (simp_all add: unsigned_of_nat take_bit_nat_eq_self)
  have "get_u8 bc RE_HEADER_CAPTURE_COUNT = Some (ucast (word_of_nat n :: u8))"
    "get_u8 bc RE_HEADER_REGISTER_COUNT = Some (ucast (word_of_nat (regs c) :: u8))"
    using bc len f
    by (simp_all add: get_u8_def rd_def nth_append RE_HEADER_LEN_def RE_HEADER_CAPTURE_COUNT_def RE_HEADER_REGISTER_COUNT_def)
  then show "lre_get_capture_count bc = Some n" "lre_get_alloc_count bc = Some (2 * n + regs c)"
    by (simp_all add: lre_get_capture_count_def lre_get_alloc_count_def w8 u)
qed

lemma compiled_safe:
  assumes "lre_compile env k buf flags = Compiled bc" and "lre_get_alloc_count bc = Some m" and "m \<le> length caps0"
    and "slots_in e caps0" and "e \<le> length units"
    and "buf_offset type clen = Some e" and "0 \<le> cindex" and "cindex \<le> clen"
  shows "lre_exec alloc caps0 bc units cindex clen type \<noteq> Some outcome.Fault"
proof -
  obtain n c where p: "program_of n c bc" using compiled_program [OF assms(1)] by blast
  then obtain hdr names where bc: "bc = hdr @ flat reg8 0 c @ reop_byte REOP_match # names" and len: "length hdr = RE_HEADER_LEN"
    and c: "code_ok n c" "csize c < 2 ^ 31"
    by (auto simp: program_of_def)
  have m: "m = 2 * n + regs c" using program_header(2) [OF p] assms(2) by simp
  show ?thesis
    by (rule program_safe [OF bc len program_header(1) [OF p] assms(2) c _ assms(3-8)]) (simp add: m)
qed

end
