(* ===== verification/CompileProps.thy ===== *)
theory CompileProps
  imports CompileCode
begin

text \<open>
  What the pattern compiler promises: its byte code is well typed and the matcher runs it safely,
  the compiler ends, registers are assigned to the loops. Two runs are evaluated step by step: the
  pattern \<^verbatim>\<open>a{2}\<close>, and a pattern for which memory runs out.
\<close>

section \<open>Evaluating the compiler\<close>

text \<open>
  The functions are evaluated from the outside: what follows in the chain of calls stays as it is
  until the state before it is known.
\<close>

lemma eval_congs:
  "m = m' \<Longrightarrow> parse_then m f = parse_then m' f"
  "s = s' \<Longrightarrow> p = p' \<Longrightarrow> at s p g = at s' p' g"
  "s = s' \<Longrightarrow> x = x' \<Longrightarrow> or_fault s x h = or_fault s' x' h"
  "s = s' \<Longrightarrow> p = p' \<Longrightarrow> parse_digits s p a k = parse_digits s' p' a k"
  by simp_all

lemmas call_by_value = eval_congs let_weak_cong if_weak_cong option.case_cong_weak

lemma alternative_loop_numeral:
  "alternative_loop (numeral k) sub d start s =
     (if buf_ptr s \<ge> buf_end s then Done () s
      else
        at s (buf_ptr s) (\<lambda>b.
        if b = c_bar \<or> b = c_rparen then Done () s
        else
          (let term_start = bc_size s in
           parse_then (re_parse_term sub d s) (\<lambda>_ s.
           parse_then (if d then move_term_to_front start term_start s else Done () s) (\<lambda>_ s.
             alternative_loop (pred_numeral k) sub d start s)))))"
  by (simp add: numeral_eq_Suc)

lemma disjunction_loop_numeral:
  "disjunction_loop (numeral k) sub d start s =
     at s (buf_ptr s) (\<lambda>b.
     if b \<noteq> c_bar then Done () s
     else
       (let s = s\<lparr>buf_ptr := buf_ptr s + 1\<rparr>; len = bc_size s - start in
        parse_then (bc_insert start (reop_byte REOP_split_next_first # le32 (word_of_nat (len + 5))) s) (\<lambda>_ s.
        case re_emit_op_u32 (reop_byte REOP_goto) 0 s of (pos, s) \<Rightarrow>
        parse_then (re_parse_alternative sub d (s\<lparr>group_name_scope := group_name_scope s + 1\<rparr>)) (\<lambda>_ s.
        parse_then (patch_u32 pos (word_of_nat (bc_size s) - word_of_nat (pos + 4)) s) (\<lambda>_ s.
          disjunction_loop (pred_numeral k) sub d start s)))))"
  by (simp add: numeral_eq_Suc)

lemma re_parse_disjunction_numeral:
  "re_parse_disjunction (numeral k) d s =
     parse_then (re_parse_alternative (re_parse_disjunction (pred_numeral k)) d s) (\<lambda>_ s1.
     disjunction_loop (length (pat s) + 1) (re_parse_disjunction (pred_numeral k)) d (bc_size s) s1)"
  by (simp add: numeral_eq_Suc)

lemma update_numeral: "(x # xs)[numeral k := v] = x # xs[pred_numeral k := v]"
  by (simp add: numeral_eq_Suc)

lemma copies_numeral: "replicate (numeral k) x = x # replicate (pred_numeral k) x"
  by (simp add: numeral_eq_Suc)

lemmas numerals = alternative_loop_numeral disjunction_loop_numeral re_parse_disjunction_numeral
  update_numeral copies_numeral numeral_2_eq_2 [symmetric]

lemmas memory_defs = dbuf_putc_def dbuf_put_u16_def dbuf_put_u32_def dbuf_put_def dbuf_claim_def
  dbuf_init2_def dbuf_insert_def lre_bytecode_realloc_def INT32_MAX_def mem_write_def mem_move_def
  le16_def le32_def put_u16_def put_u32_def rd_def

lemmas emitter_defs = emit_header_def emit_u8_def emit_u16_def emit_u32_def re_emit_op_def re_emit_op_u8_def
  re_emit_op_u16_def re_emit_op_u32_def re_emit_goto_u8_def re_emit_char_def bc_insert_def patch_u32_def
  patch_bytes_def bc_size_def emit_prev_if_def

lemmas term_defs = at_def or_fault_def re_parse_alternative_def re_parse_term_def term_atom_def
  term_class_atom_def get_class_atom_def class_atom_with_def class_normal_char_def term_normal_char_def
  double_punctuators_def class_syntax_chars_def re_parse_quantifier_def parse_counts_def

lemmas count_defs = parse_brace_counts_def is_digit_def parse_digits_def re_parse_expect_def
  re_emit_quantifier_def re_need_check_adv_and_capture_init_def quantify_counted_def set_i32_code_def char_pos_code_def

lemmas compile_flag_defs = has_flag_def LRE_FLAG_STICKY_def LRE_FLAG_UNICODE_def LRE_FLAG_UNICODE_SETS_def
  LRE_FLAG_IGNORECASE_def LRE_FLAG_MULTILINE_def LRE_FLAG_DOTALL_def

lemmas op_defs = push_ops_def pop1_ops_def pop2_ops_def advancing_ops_def neutral_ops_def back_reference_ops_def
  reopcode_size_def reop_sizes_def var_len_def rd_def

section \<open>A counted loop\<close>

definition env_with :: "(nat \<Rightarrow> bool) \<Rightarrow> re_env" where
  "env_with alloc = \<lparr>e_alloc = alloc, e_script = \<lambda>_ _. Uni_unknown, e_category = \<lambda>_. Uni_unknown,
     e_prop = \<lambda>_. Uni_unknown, e_sequence = \<lambda>_. Uni_unknown\<rparr>"

definition state_of :: "(nat \<Rightarrow> bool) \<Rightarrow> dynbuf \<Rightarrow> u8 list \<Rightarrow> nat \<Rightarrow> re_parse_state" where
  "state_of alloc d buf p = \<lparr>s_env = env_with alloc, byte_code = d, pat = buf @ [0], buf_ptr = p, buf_end = length buf,
     s_is_unicode = False, unicode_sets = False, ignore_case = False, multi_line = False, dotall = False,
     group_name_scope = 0, s_capture_count = 1, total_capture_count = - 1, has_named_captures = - 1,
     group_names = dbuf_init2, u_buf = replicate TMP_BUF_SIZE 0\<rparr>"

lemma init_state: "re_parse_init (env_with alloc) buf LRE_FLAG_STICKY = state_of alloc dbuf_init2 buf 0"
  "re_parse_init (env_with alloc) buf 0 = state_of alloc dbuf_init2 buf 0"
  by (simp_all add: state_of_def re_parse_init_def compile_flag_defs)

definition pattern_a2 :: "u8 list" where "pattern_a2 = [0x61, 0x7b, 0x32, 0x7d]"

definition code_a2 :: "u8 list" where
  "code_a2 = [32, 0, 1, 1, 20, 0, 0, 0, 19, 0, 27, 0, 2, 0, 0, 0, 1, 97, 0, 22, 0, 247, 255, 255, 255, 20, 0, 16]"

lemma ops_by_number: "reop_of 1 = Some REOP_char" "reop_of 16 = Some REOP_match" "reop_of 19 = Some REOP_save_start"
  "reop_of 20 = Some REOP_save_end" "reop_of 22 = Some REOP_loop" "reop_of 27 = Some REOP_set_i32"
  by (simp_all add: reop_of_def reopcodes_def rd_def)

lemma counted_digits: "parse_digits_loop [97, 123, 50, 125, 0] True 2 0 = Some (2, 3)"
  by (simp add: parse_digits_loop.simps rd_def INT32_MAX_def)

lemma counted_needs: "need_check_loop [32, 0, 0, 0, 0, 0, 0, 0, 19, 0, 1, 97, 0, 0, 0, 0, 0, 0] 10 13 True False = Some (False, False)"
  by (simp add: need_check_loop.simps op_defs ops_by_number cong: call_by_value)

lemma counted_pattern:
  "re_parse_disjunction (length (pat (state_of (\<lambda>_. True) dbuf_init2 pattern_a2 0)) + 1) False
     (emit_prologue LRE_FLAG_STICKY (state_of (\<lambda>_. True) dbuf_init2 pattern_a2 0)) =
   Done () (state_of (\<lambda>_. True) \<lparr>dbuf_mem = [32, 0, 0, 0, 0, 0, 0, 0, 19, 0, 27, 0, 2, 0, 0, 0, 1, 97, 0, 22, 0, 247, 255, 255, 255, 0, 0],
     dbuf_size = 25, dbuf_allocated = 27, dbuf_err = False\<rparr> pattern_a2 4)"
  by (simp add: term_defs count_defs memory_defs emitter_defs numerals compile_flag_defs emit_prologue_def state_of_def
      env_with_def pattern_a2_def counted_digits counted_needs cong: call_by_value)

lemma counted_registers:
  "compute_register_count [32, 0, 0, 0, 0, 0, 0, 0, 19, 0, 27, 0, 2, 0, 0, 0, 1, 97, 0, 22, 0, 247, 255, 255, 255, 20, 0, 16, 0, 0, 0, 0, 0, 0, 0, 0, 0, 0, 0, 0] 28 =
   Some (1, [32, 0, 0, 0, 0, 0, 0, 0, 19, 0, 27, 0, 2, 0, 0, 0, 1, 97, 0, 22, 0, 247, 255, 255, 255, 20, 0, 16, 0, 0, 0, 0, 0, 0, 0, 0, 0, 0, 0, 0])"
  by (simp add: compute_register_count_def register_loop.simps RE_HEADER_LEN_def REGISTER_COUNT_MAX_def
      op_defs ops_by_number numerals cong: call_by_value)

lemma counted_compiles: "lre_compile (env_with (\<lambda>_. True)) 64 pattern_a2 LRE_FLAG_STICKY = Compiled code_a2"
  unfolding lre_compile_def init_state lre_compile_body_def counted_pattern
  by (simp add: state_of_def env_with_def pattern_a2_def memory_defs emitter_defs at_def or_fault_def numerals counted_registers
      finish_header_def append_group_names_def RE_HEADER_LEN_def RE_HEADER_BYTECODE_LEN_def RE_HEADER_CAPTURE_COUNT_def
      LRE_GROUP_NAME_TRAILER_LEN_def dbuf_content_def code_a2_def cong: call_by_value)

lemma counted_header: "lre_get_alloc_count code_a2 = Some 3"
  unfolding code_a2_def by code_simp

section \<open>Compiled code is well typed and safe\<close>

text \<open>
  C2. Byte code that \<^verbatim>\<open>lre_compile\<close> returned is safe to run: whatever the pattern, the flags and the
  sizes of memory blocks that the compiler's allocator refuses are, \<^verbatim>\<open>lre_exec\<close> on it never reads
  outside the code, the subject, the stack or the captures, never fails an assertion and never reads
  a register that is not set. The caller gives room for the slots that \<^verbatim>\<open>lre_get_alloc_count\<close> asks
  for and a subject of any of the three kinds whose \<^verbatim>\<open>clen << cbuf_type\<close> bytes, computed as an \<^verbatim>\<open>int\<close>,
  are there; the matcher's own allocator may fail at any time.
\<close>

theorem compile_safe:
  assumes "lre_compile env error_msg_size buf flags = Compiled bc" and "lre_get_alloc_count bc = Some m"
    and "m \<le> length capture0" and "\<forall>i. SPtr i \<in> set capture0 \<longrightarrow> i \<le> e"
    and "buf_offset type clen = Some e" and "e \<le> length units" and "0 \<le> cindex" and "cindex \<le> clen"
  shows "lre_exec alloc capture0 bc units cindex clen type \<noteq> Some outcome.Fault"
  using assms by (intro compiled_safe) (auto simp: slots_in_iff)

theorem compile_safe_witness:
  "lre_exec (\<lambda>_ _. True) [SUninit, SUninit, SUninit] code_a2 [0x61, 0x61] 0 2 0 \<noteq> Some outcome.Fault \<and>
   lre_exec (\<lambda>_ _. True) [SUninit, SUninit, SUninit] code_a2 [0x61, 0x61] 0 2 0 = Some (Ret 1 [SPtr 0, SPtr 2, SNum 0])"
proof
  show "lre_exec (\<lambda>_ _. True) [SUninit, SUninit, SUninit] code_a2 [0x61, 0x61] 0 2 0 \<noteq> Some outcome.Fault"
    by (rule compile_safe [OF counted_compiles counted_header, of _ 2]) (simp_all add: buf_offset_def)
  show "lre_exec (\<lambda>_ _. True) [SUninit, SUninit, SUninit] code_a2 [0x61, 0x61] 0 2 0 = Some (Ret 1 [SPtr 0, SPtr 2, SNum 0])"
    by code_simp
qed

text \<open>
  C3. The byte code of every pattern has a typing: at each place that the matcher can reach, the kinds
  of the loop registers in use and the lookaheads that enclose it are known, every jump goes to a
  place with the same registers, the captures and registers are below the numbers in the
  header, and the code starts with no register in use.
\<close>

theorem compile_well_typed:
  assumes "lre_compile env error_msg_size buf flags = Compiled bc"
  shows "\<exists>n r S. lre_get_capture_count bc = Some n \<and> lre_get_alloc_count bc = Some (2 * n + r) \<and>
    wt_code n r bc S \<and> (int RE_HEADER_LEN, [], []) \<in> S"
proof -
  from compiled_program [OF assms] obtain n c where p: "program_of n c bc" by blast
  then obtain hdr names where "bc = hdr @ flat reg8 0 c @ reop_byte REOP_match # names" "length hdr = RE_HEADER_LEN"
    "code_ok n c" "csize c < 2 ^ 31" "regs c < 256" by (auto simp: program_of_def)
  then have "\<exists>S. wt_code n (regs c) bc S \<and> (int RE_HEADER_LEN, [], []) \<in> S"
    by (intro program_wt) auto
  with program_header [OF p] show ?thesis by blast
qed

theorem compile_well_typed_witness:
  "\<exists>n r S. lre_get_capture_count code_a2 = Some n \<and> lre_get_alloc_count code_a2 = Some (2 * n + r) \<and>
    wt_code n r code_a2 S \<and> (int RE_HEADER_LEN, [], []) \<in> S"
  by (rule compile_well_typed [OF counted_compiles])

section \<open>The compiler ends\<close>

text \<open>
  C4. The compiler ends on every pattern: each loop of the parser moves the pointer into the
  pattern, and the depth of its recursion is at most the length of the pattern, so the fuel, one
  more than that length, is never used up while the byte code is complete.
\<close>

theorem compile_terminates:
  "case lre_compile_body flags (re_parse_init env buf flags) of
     No_fuel s \<Rightarrow> dbuf_err (byte_code s)
   | _ \<Rightarrow> True"
  by (auto split: parsed.split intro: compile_halts)

section \<open>Registers of loops\<close>

text \<open>
  C5. The pass over the finished code gives each loop the register above those of the loops around
  it, in every instruction that names it, leaves everything else as it is, and returns the largest
  number of registers in use at once; more than 255 are an error. No assertion in it fails.
\<close>

theorem register_count_correct:
  assumes "code_ok n c" and "length hdr = RE_HEADER_LEN"
  shows "\<exists>k mem. compute_register_count (hdr @ flat g 0 c @ reop_byte REOP_match # rest) (RE_HEADER_LEN + csize c + 1) = Some (k, mem) \<and>
    k = (if regs c \<le> 255 then int (regs c) else - 1) \<and>
    (regs c > 255 \<or> mem = hdr @ flat reg8 0 c @ reop_byte REOP_match # rest)"
  using register_count_of_program [OF assms refl, of g rest] by force

theorem register_count_correct_witness:
  "\<exists>k mem. compute_register_count (replicate RE_HEADER_LEN 0 @
       flat (\<lambda>_. 0) 0 (Loop 2 (Adv (Op REOP_any []))) @ reop_byte REOP_match # [7]) (RE_HEADER_LEN + 17 + 1) = Some (k, mem) \<and>
    k = 2 \<and> mem = replicate RE_HEADER_LEN 0 @ flat reg8 0 (Loop 2 (Adv (Op REOP_any []))) @ reop_byte REOP_match # [7]"
proof -
  have "code_ok 1 (Loop 2 (Adv (Op REOP_any [])))" by (auto intro: ok_unit simp: unit_ops_def)
  from register_count_correct [OF this, of "replicate RE_HEADER_LEN 0" "\<lambda>_. 0" "[7]"] show ?thesis by simp
qed

section \<open>Memory runs out\<close>

text \<open>
  When memory runs out while the goto of an alternative is emitted, the jump is patched all the
  same, at a position that was never written: the compiler writes 4 bytes behind the end of its
  buffer. Here the allocator refuses 28 bytes, and the pattern is \<^verbatim>\<open>|b\<close>.
\<close>

lemma compile_patch_out_of_memory:
  "\<exists>s. lre_compile (env_with (\<lambda>n. n < 28)) 64 [0x7c, 0x62] 0 = Compile_fault s \<and> dbuf_err (byte_code s)"
proof -
  have "\<exists>s. re_parse_disjunction (length (pat (state_of (\<lambda>n. n < 28) dbuf_init2 [0x7c, 0x62] 0)) + 1) False
      (emit_prologue 0 (state_of (\<lambda>n. n < 28) dbuf_init2 [0x7c, 0x62] 0)) = parsed.Fault s \<and> dbuf_err (byte_code s)"
    by (simp add: term_defs memory_defs emitter_defs numerals compile_flag_defs emit_prologue_def emit_search_loop_def state_of_def
      env_with_def cong: call_by_value)
  then show ?thesis
    unfolding lre_compile_def init_state lre_compile_body_def by auto
qed

end
