(* ===== verification/JsCompile.thy ===== *)
theory JsCompile
  imports JsProps CompileProps
begin

text \<open>
  \<^verbatim>\<open>compile\<close>, \<^verbatim>\<open>compile_safe\<close> and the string conversions of \<^verbatim>\<open>jsregexp.c\<close>, and what a compiled
  expression does in \<^verbatim>\<open>exec\<close>: the compiler and the matcher together.
\<close>

section \<open>Compiling from Lua\<close>

text \<open>
  \<open>Inl\<close> is the argument error that is raised, \<open>None\<close> undefined behaviour of the compiler. The
  message has room for 64 bytes, and the pattern ends at its first zero.
\<close>

definition jsregexp_compile :: "re_env \<Rightarrow> u8 list \<Rightarrow> string option \<Rightarrow> (u8 list + regexp) option" where
  "jsregexp_compile env regexp flags =
     (case jsregexp_compile_flags regexp flags of
        None \<Rightarrow> None
      | Some (Inl msg) \<Rightarrow> Some (Inl (chars msg))
      | Some (Inr re_flags) \<Rightarrow>
          (case lre_compile env 64 (cstr regexp) re_flags of
             Compiled code \<Rightarrow> Some (Inr \<lparr>expr = cstr regexp, bc = code, last_index = 0\<rparr>)
           | Compile_error error_msg \<Rightarrow> Some (Inl error_msg)
           | Compile_fault _ \<Rightarrow> None
           | Compile_no_fuel \<Rightarrow> None))"

text \<open>\<^verbatim>\<open>compile_safe\<close> returns the expression, or nil and the message.\<close>

definition jsregexp_compile_safe ::
  "re_env \<Rightarrow> u8 list \<Rightarrow> string option \<Rightarrow> (regexp option \<times> u8 list option) option" where
  "jsregexp_compile_safe env regexp flags =
     map_option (case_sum (\<lambda>msg. (None, Some msg)) (\<lambda>r. (Some r, None))) (jsregexp_compile env regexp flags)"

section \<open>Conversions to strings\<close>

definition regexp_tostring :: "regexp \<Rightarrow> u8 list option" where
  "regexp_tostring r =
     map_option (\<lambda>flags. [0x2f] @ cstr (expr r) @ [0x2f] @ chars flags) (regexp_pushflags r)"

text \<open>A match is the string at index 0 of its table.\<close>

definition match_tostring :: "js_match \<Rightarrow> u8 list option" where
  "match_tostring m = (case m_captures m of [] \<Rightarrow> None | global # _ \<Rightarrow> Some global)"

text \<open>The argument of \<^verbatim>\<open>exec\<close>: a string object, or a string that is converted.\<close>

datatype js_arg = Arg_jsstring jsstring | Arg_string "u8 list"

definition lua_tojsstring :: "js_arg \<Rightarrow> (string + jsstring) option" where
  "lua_tojsstring arg =
     (case arg of
        Arg_jsstring s \<Rightarrow> Some (Inr s)
      | Arg_string s \<Rightarrow> jsstring_new s)"

section \<open>String objects as subjects\<close>







section \<open>Compile, then exec\<close>


lemma jsregexp_compile_a2:
  "jsregexp_compile (env_with (\<lambda>_. True)) pattern_a2 (Some ''y'') =
   Some (Inr \<lparr>expr = pattern_a2, bc = code_a2, last_index = 0\<rparr>)"
proof -
  have "jsregexp_compile_flags pattern_a2 (Some ''y'') = Some (Inr LRE_FLAG_STICKY)" by code_simp
  moreover have "cstr pattern_a2 = pattern_a2" by code_simp
  ultimately show ?thesis by (simp add: jsregexp_compile_def counted_compiles)
qed


section \<open>Reading behind the subject\<close>

text \<open>
  The first steps of \<^verbatim>\<open>a{2}\<close>: the start of the match is saved and the counter set, then a character
  is read.
\<close>

lemma a2_fetches:
  "fetch8 code_a2 8 = Some 19" "fetch8 code_a2 9 = Some 0" "fetch8 code_a2 10 = Some 27" "fetch8 code_a2 11 = Some 0"
  "fetch32 code_a2 12 = Some 2" "fetch8 code_a2 16 = Some 1" "fetch16 code_a2 17 = Some 97"
  "reop_of 19 = Some REOP_save_start" "reop_of 27 = Some REOP_set_i32" "reop_of 1 = Some REOP_char"
  by code_simp+

lemma a2_header:
  "lre_get_flags code_a2 = Some LRE_FLAG_STICKY" "lre_get_capture_count code_a2 = Some 1"
  by code_simp+

lemmas a2_step_defs = exec_step_def instr_def and_then_def check_stack_space_def push_undo_def push2_def set_capture_def
  rd_def a2_fetches

lemma a2_first_step:
  assumes "pc s = 8" and "sp s = 0" and "length (stack_buf s) = 32" and "2 < length (capture s)" and "capture_count ctx = 1"
  shows "\<exists>s'. exec_step alloc code_a2 ctx s = Inl s' \<and> pc s' = 10 \<and> cptr s' = cptr s \<and> sp s' = 2 \<and> bp s' = bp s \<and>
    length (stack_buf s') = 32 \<and> length (capture s') = length (capture s) \<and> stack_buf s' ! 0 = EIdx 0"
  using assms
  by (auto simp: a2_step_defs exec_save_def save_capture_def nth_list_update)

lemma a2_second_step:
  assumes "pc s = 10" and "sp s = 2" and "bp s = 0" and "length (stack_buf s) = 32" and "2 < length (capture s)"
    and "capture_count ctx = 1" and "stack_buf s ! 0 = EIdx 0"
  shows "\<exists>s'. exec_step alloc code_a2 ctx s = Inl s' \<and> pc s' = 16 \<and> cptr s' = cptr s"
  using assms
  by (simp add: a2_step_defs exec_set_i32_def save_capture_check_def saved_above.simps)

lemma a2_third_step:
  assumes "pc s = 16" and "length (cbuf ctx) \<le> cptr s" and "cptr s < cbuf_end ctx"
  shows "exec_step alloc code_a2 ctx s = Inr outcome.Fault"
  using assms
  by (simp add: a2_step_defs exec_char_def next_char_def get_char_def)

lemma a2_reads_outside:
  assumes "length units \<le> k" and "k < n" and "n < 2 ^ 31" and "2 < length capture0"
  shows "lre_exec alloc capture0 code_a2 units (int k) (int n) 0 = Some outcome.Fault"
proof -
  define ctx where "ctx = \<lparr>cbuf = units, cbuf_end = n, cbuf_type = 0, capture_count = 1, is_unicode = False\<rparr>"
  define s where "s = exec_init 8 k (replicate (1 * 2) SNull @ drop (1 * 2) capture0)"
  have offsets: "buf_offset 0 (int n) = Some n" "buf_offset 0 (int k) = Some k" "\<not> length capture0 < 1 * 2"
    using assms(2-4) by (simp_all add: buf_offset_unit)
  have flags: "LRE_FLAG_STICKY AND (LRE_FLAG_UNICODE OR LRE_FLAG_UNICODE_SETS) = 0" by code_simp
  have "lre_exec alloc capture0 code_a2 units (int k) (int n) 0 = loop (exec_step alloc code_a2 ctx) s"
    unfolding ctx_def s_def lre_exec_def a2_header offsets flags Let_def
    by (simp add: lre_exec_backtrack_def RE_HEADER_LEN_def offsets(3) [simplified] flags)
  moreover obtain s1 where s1: "exec_step alloc code_a2 ctx s = Inl s1" "pc s1 = 10" "cptr s1 = k" "sp s1 = 2" "bp s1 = 0"
    "length (stack_buf s1) = 32" "2 < length (capture s1)" "stack_buf s1 ! 0 = EIdx 0"
    using a2_first_step [of s ctx alloc] assms(4) by (auto simp: s_def exec_init_def ctx_def STATIC_STACK_SIZE_def)
  moreover obtain s2 where "exec_step alloc code_a2 ctx s1 = Inl s2" "pc s2 = 16" "cptr s2 = k"
    using a2_second_step [of s1 ctx alloc] s1 by (auto simp: ctx_def)
  moreover from this have "exec_step alloc code_a2 ctx s2 = Inr outcome.Fault"
    using a2_third_step [of s2 ctx alloc] assms(1,2) by (simp add: ctx_def)
  ultimately show ?thesis by (simp add: loop.simps)
qed

text \<open>
  C38. For a Lua string with a zero byte the matcher reads outside the memory of the string: \<^verbatim>\<open>strdup\<close>
  copies the part before the zero, but the length is the one of the whole string. The expression is
  \<^verbatim>\<open>a{2}\<close> with the flag \<^verbatim>\<open>y\<close>, the string any one that has a zero byte and only ASCII characters
  before its first zero, and the search starts at any byte behind that zero.
\<close>

theorem exec_zero_byte_undefined:
  assumes "jsregexp_compile (env_with (\<lambda>_. True)) pattern_a2 (Some ''y'') = Some (Inr r)"
    and "\<forall>c \<in> set before. c \<noteq> 0 \<and> c AND 0x80 = 0" and "length before < k" and "k < length (before @ 0 # rest)"
    and "length (before @ 0 # rest) < 2 ^ 31"
  shows "\<exists>input. lua_tojsstring (Arg_string (before @ 0 # rest)) = Some (Inr input) \<and>
    regexp_exec alloc (r\<lparr>last_index := word_of_nat k\<rparr>) input = Some (Js_undefined, r\<lparr>last_index := word_of_nat k\<rparr>)"
proof -
  define s where "s = before @ 0 # rest"
  have r: "r = \<lparr>expr = pattern_a2, bc = code_a2, last_index = 0\<rparr>" using assms(1) jsregexp_compile_a2 by simp
  define input where "input = \<lparr>is_wide_char = False, js_len = length s, bstr = strdup s, bstr_len = length s,
    indices = [], rev_indices = [], js_units = map ucast (strdup s)\<rparr>"
  have "cstr s = before" using assms(2) unfolding s_def by (induction before) (auto simp: cstr_def)
  then have units: "length (js_units input) \<le> k" using assms(3) by (simp add: input_def strdup_def)
  have ascii: "utf8_contains_non_ascii (s @ [0]) = Some False"
    using assms(2) unfolding s_def by (induction before) auto
  have n: "unat (word_of_nat (length s) :: u32) = length s"
    using assms(5) by (simp add: s_def [symmetric] unsigned_of_nat take_bit_nat_eq_self)
  have "lua_tojsstring (Arg_string s) = Some (Inr input)"
    by (simp add: lua_tojsstring_def jsstring_new_def Let_def n ascii input_def)
  moreover have "unat (word_of_nat k :: u32) = k" using assms(4,5) by (simp add: unat_of_nat)
  then have "regexp_exec alloc (r\<lparr>last_index := word_of_nat k\<rparr>) input = Some (Js_undefined, r\<lparr>last_index := word_of_nat k\<rparr>)"
    using a2_reads_outside [OF units assms(4,5) [folded s_def], of "replicate (CAPTURE_COUNT_MAX * 2) SUninit" alloc] assms(4,5) [folded s_def]
    by (simp add: regexp_exec_def r a2_header start_index_def input_def Let_def to_int_small CAPTURE_COUNT_MAX_def
        LRE_FLAG_STICKY_def)
  ultimately show ?thesis unfolding s_def by blast
qed

theorem exec_zero_byte_undefined_witness:
  "\<exists>r r' input. jsregexp_compile (env_with (\<lambda>_. True)) pattern_a2 (Some ''y'') = Some (Inr r) \<and>
     lua_tojsstring (Arg_string [0x61, 0, 0x61, 0x61]) = Some (Inr input) \<and>
     regexp_exec (\<lambda>_ _. True) (r\<lparr>last_index := 2\<rparr>) input = Some (Js_undefined, r')"
  using exec_zero_byte_undefined [OF jsregexp_compile_a2, of "[0x61]" 2 "[0x61, 0x61]" "\<lambda>_ _. True"] jsregexp_compile_a2
  by fastforce

end
