(* ===== verification/JsEscape.thy ===== *)
theory JsEscape
  imports JsString ParseTerm
begin

text \<open>
  What the parser of \<^verbatim>\<open>libregexp.c\<close> makes of the text that \<^verbatim>\<open>escape\<close> of \<^verbatim>\<open>jsregexp.c\<close> writes.
\<close>

section \<open>Bytes by evaluation\<close>

lemma all_bytes:
  assumes "list_all (\<lambda>n. P (word_of_nat n)) [0..<256]"
  shows "P (c :: u8)"
proof -
  have "unat c < 256" using unsigned_less [where w = c] by simp
  then have "unat c \<in> set [0..<256]" by simp
  with assms have "P (word_of_nat (unat c))" unfolding list_all_iff by blast
  then show ?thesis by simp
qed

text \<open>The two hexadecimal digits.\<close>

lemma hex_digit_read: "d < 16 \<Longrightarrow> from_hex (uint (hex_digit d)) = uint d"
proof -
  assume d: "d < 16"
  have "list_all (\<lambda>n. from_hex (uint (hex_digit (word_of_nat n))) = int n) [0..<16]" by code_simp
  moreover have "unat d \<in> set [0..<16]" using d by (simp add: word_less_nat_alt)
  ultimately have "from_hex (uint (hex_digit (word_of_nat (unat d)))) = int (unat d)"
    unfolding list_all_iff by blast
  then show ?thesis by simp
qed

lemma hex_digits_read:
  "push_bit 4 (word_of_int (uint (drop_bit 4 c))) OR word_of_int (uint (c AND 0xf)) = (ucast (c :: u8) :: u32)"
proof (rule bit_word_eqI)
  fix n :: nat
  assume "n < LENGTH(32)"
  have nibble: "c AND 0xf = take_bit 4 c" by (simp add: take_bit_eq_mask mask_eq_exp_minus_1)
  show "bit (push_bit 4 (word_of_int (uint (drop_bit 4 c))) OR word_of_int (uint (c AND 0xf)) :: u32) n = bit (ucast c :: u32) n"
    unfolding nibble by (auto simp: bit_simps not_le)
qed

text \<open>What the parser's tables say about the bytes that stand for themselves or behind a backslash.\<close>

definition word_byte :: "u8 \<Rightarrow> bool" where
  "word_byte c \<longleftrightarrow> c \<ge> 0x30 \<and> c \<le> 0x39 \<or> c \<ge> 0x41 \<and> c \<le> 0x5a \<or> c \<ge> 0x61 \<and> c \<le> 0x7a \<or> c = 0x5f"

definition syntax_starts :: "u8 list" where
  "syntax_starts = [0, c_caret, c_dollar, c_dot, c_lbrace, c_star, c_plus, c_question, c_lparen, c_backslash,
     c_lbracket, c_rbracket, c_rbrace]"

definition word_byte_plain :: "u8 \<Rightarrow> bool" where
  "word_byte_plain c \<longleftrightarrow> (if word_byte c then c \<notin> set syntax_starts \<and> c \<notin> set double_punctuators \<and>
     c \<notin> set class_syntax_chars \<and> c < 128 else True)"

lemma word_byte_plain_all: "word_byte_plain c"
  by (rule all_bytes [of word_byte_plain]) code_simp

definition quoted_byte :: "u8 \<Rightarrow> bool" where
  "quoted_byte c \<longleftrightarrow> (if c < 33 then True else if c < 128 then
     (if word_byte c then True else if c \<in> set escape_punct then True else c \<in> set always_escapable \<or> c = 0x7f) else True)"

lemma quoted_byte_all: "quoted_byte c"
  by (rule all_bytes [of quoted_byte]) code_simp

text \<open>The forms of an escape.\<close>

definition control_letter :: "u8 \<Rightarrow> u8" where
  "control_letter c = [0x74, 0x6e, 0x76, 0x66, 0x72] ! unat (c - 9)"

lemma escape_cases:
  obtains (hex) "escape_byte i c = hex2 c"
    | (control) "c \<in> {9, 10, 11, 12, 13}" "escape_byte i c = [c_backslash, control_letter c]"
    | (plain) "word_byte c" "escape_byte i c = [c]"
    | (quoted) "c \<in> set always_escapable \<or> c = 0x7f" "escape_byte i c = [c_backslash, c]"
proof -
  have "c \<in> {9, 10, 11, 12, 13}" if "9 \<le> c" "c \<le> 13"
  proof -
    have "unat c \<in> {9 .. 13}" using that by (simp add: word_le_nat_alt)
    then show ?thesis by (auto simp: word_unat_eq_iff)
  qed
  then have "escape_byte i c = hex2 c \<or> c \<in> {9, 10, 11, 12, 13} \<and> escape_byte i c = [c_backslash, control_letter c] \<or>
    word_byte c \<and> escape_byte i c = [c] \<or>
    (c \<in> set always_escapable \<or> c = 0x7f) \<and> escape_byte i c = [c_backslash, c]"
    using quoted_byte_all [of c]
    unfolding escape_byte_def control_letter_def quoted_byte_def word_byte_def by (simp split: if_splits)
  with that show thesis by blast
qed

section \<open>Reading an escape\<close>

locale escaped_byte =
  fixes s :: re_parse_state and i :: nat and c :: u8 and before rest :: "u8 list"
  assumes block: "pat s = before @ escape_byte i c @ rest"
    and pos: "buf_ptr s = length before" and room: "length before + length (escape_byte i c) \<le> buf_end s"
begin

lemma first_bytes:
  "escape_byte i c = b # bs \<Longrightarrow> rd (pat s) (length before) = Some b"
  "escape_byte i c = b # b1 # bs \<Longrightarrow> rd (pat s) (Suc (length before)) = Some b1"
  "escape_byte i c = b # b1 # b2 # bs \<Longrightarrow> rd (pat s) (Suc (Suc (length before))) = Some b2"
  "escape_byte i c = b # b1 # b2 # b3 # bs \<Longrightarrow> rd (pat s) (Suc (Suc (Suc (length before)))) = Some b3"
  by (simp_all add: block rd_def nth_append)

lemma read_hex:
  assumes "escape_byte i c = hex2 c"
  shows "lre_parse_escape (pat s) (Suc (length before)) a = Some (sint (ucast c :: u32), length before + 4)"
proof -
  have d: "drop_bit 4 c < 16" by (rule all_bytes [of "\<lambda>c. drop_bit 4 c < 16"]) code_simp
  have l: "c AND 0xf < 16" by (rule all_bytes [of "\<lambda>c. c AND 0xf < 16"]) code_simp
  have "escape_hex (Suc (Suc 0)) (pat s) (Suc (Suc (length before))) 0 =
      Some (Some (ucast c, Suc (Suc (Suc (Suc (length before))))))"
    using first_bytes [OF assms [unfolded hex2_def]] d l hex_digits_read [of c]
    by (simp add: hex_digit_read)
  then have "escape_hex 2 (pat s) (Suc (Suc (length before))) 0 = Some (Some (ucast c, length before + 4))"
    by (simp only: numeral_2_eq_2) simp
  then show ?thesis
    using first_bytes(2) [OF assms [unfolded hex2_def]] by (simp add: lre_parse_escape_def Let_def)
qed

lemma read_control:
  assumes "c \<in> {9, 10, 11, 12, 13}" and "escape_byte i c = [c_backslash, control_letter c]"
  shows "lre_parse_escape (pat s) (Suc (length before)) a = Some (uint c, length before + 2)"
  using assms(1) first_bytes(2) [OF assms(2)]
  by (auto simp: lre_parse_escape_def Let_def control_letter_def)

lemma read_unknown:
  assumes "c = 0x7f" and "escape_byte i c = [c_backslash, c]"
  shows "lre_parse_escape (pat s) (Suc (length before)) a = Some (- 2, Suc (length before))"
  using assms(1) first_bytes(2) [OF assms(2)] by (simp add: lre_parse_escape_def)

text \<open>An escape that the parser hands on to \<^verbatim>\<open>lre_parse_escape\<close>.\<close>

lemma term_default_escape:
  assumes "rd (pat s) (length before) = Some c_backslash" and "rd (pat s) (Suc (length before)) = Some b"
    and "b \<in> {0x78, 0x74, 0x6e, 0x76, 0x66, 0x72, 0x7f}" and "2 \<le> length (escape_byte i c)"
  shows "term_atom sub back s =
    parse_then (class_default_escape (ucast b) (length before + 2) s) (\<lambda>(c, cr, p) s. term_normal_char back c cr p s)"
proof -
  have b: "b \<notin> set always_escapable" "b \<notin> {0x62, 0x42, 0x6b, 0x30, 0x64, 0x44, 0x73, 0x53, 0x77, 0x57, 0x63, c_minus, 0x70, 0x50, 0x71}"
    "\<not> (0x31 \<le> b \<and> b \<le> 0x39)"
    using assms(3) by (auto simp: always_escapable_def)
  have "term_atom sub back s = term_class_atom back (length before) s"
    using b(2,3) by (auto simp: term_atom_def at_def pos Let_def term_backslash_def assms(1,2))
  moreover have "\<not> buf_end s \<le> Suc (length before)" using assms(4) room by simp
  then have "get_class_atom (length before) False s = class_default_escape (ucast b) (length before + 2) s"
    using b(1,2) by (simp add: get_class_atom_def class_atom_with_def at_def class_escape_def Let_def assms(1,2))
  ultimately show ?thesis by (simp add: term_class_atom_def)
qed

lemma term_quoted:
  assumes "c \<in> set always_escapable" and "escape_byte i c = [c_backslash, c]"
  shows "term_atom sub back s = term_normal_char back (ucast c) None (length before + 2) s"
proof -
  note bytes = first_bytes(1,2) [OF assms(2)]
  have c: "c \<notin> {0x62, 0x42, 0x6b, 0x30, 0x64, 0x44, 0x73, 0x53, 0x77, 0x57, 0x63, c_minus}" "\<not> (0x31 \<le> c \<and> c \<le> 0x39)"
    using assms(1) by (auto simp: always_escapable_def)
  have "term_atom sub back s = term_class_atom back (length before) s"
    using c by (auto simp: term_atom_def at_def pos Let_def term_backslash_def bytes)
  moreover have "\<not> buf_end s \<le> Suc (length before)" using room by (simp add: assms(2))
  then have "get_class_atom (length before) False s = Done (ucast c, None, length before + 2) s"
    using c(1) assms(1) by (simp add: get_class_atom_def class_atom_with_def at_def class_escape_def Let_def bytes)
  ultimately show ?thesis by (simp add: term_class_atom_def)
qed

lemma term_plain:
  assumes "word_byte c" and "escape_byte i c = [c]"
  shows "term_atom sub back s = term_normal_char back (ucast c) None (length before + 1) s"
proof -
  note byte = first_bytes(1) [OF assms(2)]
  have c: "c \<notin> set syntax_starts" "c \<notin> set double_punctuators" "c \<notin> set class_syntax_chars" "c < 128"
    using word_byte_plain_all [of c] assms(1) by (simp_all add: word_byte_plain_def)
  have "term_atom sub back s = term_class_atom back (length before) s"
    using c(1) by (auto simp: syntax_starts_def term_atom_def at_def pos Let_def byte)
  moreover have "get_class_atom (length before) False s = class_normal_char (ucast c) (length before) s"
    using c(1-3) by (simp add: syntax_starts_def get_class_atom_def class_atom_with_def at_def Let_def byte)
  moreover have "(if c < 128 then \<not> 128 \<le> (ucast c :: u32) else True)"
    by (rule all_bytes [of "\<lambda>c. if c < 128 then \<not> 128 \<le> (ucast c :: u32) else True"]) code_simp
  ultimately show ?thesis using c(4) by (simp add: term_class_atom_def class_normal_char_def)
qed

lemma term_escape:
  "term_atom sub back s =
    (if c = 0x7f \<and> s_is_unicode s then invalid_escape s
     else term_normal_char back (ucast c) None (length before + length (escape_byte i c)) s)"
proof (cases i c rule: escape_cases)
  case hex
  have "c \<noteq> 0x7f" using hex by (auto simp: hex2_def escape_byte_def escape_punct_def)
  moreover have "sint (ucast c :: u32) = uint c"
    by (rule all_bytes [of "\<lambda>c. sint (ucast c :: u32) = uint c"]) code_simp
  ultimately show ?thesis
    using term_default_escape [OF first_bytes(1,2) [OF hex [unfolded hex2_def]]] read_hex [OF hex]
    by (simp add: class_default_escape_def or_fault_def hex hex2_def eval_nat_numeral)
next
  case control
  then have "control_letter c \<in> {0x78, 0x74, 0x6e, 0x76, 0x66, 0x72, 0x7f}" "c \<noteq> 0x7f"
    by (auto simp: control_letter_def)
  with term_default_escape [OF first_bytes(1,2) [OF control(2)] this(1)] read_control [OF control] show ?thesis
    by (simp add: class_default_escape_def or_fault_def control(2))
next
  case plain
  then have "c \<noteq> 0x7f" by (auto simp: word_byte_def)
  with term_plain [OF plain] show ?thesis by (simp add: plain(2))
next
  case quoted
  show ?thesis
  proof (cases "c = 0x7f")
    case False
    with quoted term_quoted show ?thesis by simp
  next
    case True
    note byte = quoted(2) [unfolded True]
    have "class_default_escape 0x7f (length before + 2) s =
        (if s_is_unicode s then invalid_escape s else Done (0x7f, None, length before + 2) s)"
      using read_unknown [OF True quoted(2)] by (simp add: class_default_escape_def or_fault_def class_normal_char_def)
    moreover have "invalid_escape s = (Fail (set_error (chars ''invalid escape sequence in regular expression'') s) :: 'x parsed)"
      by (simp add: invalid_escape_def re_parse_error_def)
    ultimately show ?thesis
      using term_default_escape [OF first_bytes(1,2) [OF quoted(2)]] True quoted(2)
      by (simp add: invalid_escape_def re_parse_error_def)
  qed
qed

end

text \<open>The pattern that is the escape of one byte.\<close>

interpretation single: escaped_byte "s\<lparr>pat := escape_byte i c @ [0], buf_ptr := 0, buf_end := length (escape_byte i c)\<rparr>"
  i c "[]" "[0]" for s i c
  by unfold_locales simp_all

text \<open>
  C30. How the regular expression parser reads what \<^verbatim>\<open>escape\<close> writes for a byte, in every mode and
  wherever it stands: as the one character with the code of the byte, and it goes on behind the
  escape, so no byte acts as syntax. The only exception is the byte 127: its escape, a backslash and
  the byte, is an invalid escape in Unicode mode. A byte from 128 on becomes the character with that
  code, not a part of a character in UTF-8.
\<close>

theorem escape_read_as_character:
  assumes "pat s = before @ escape_byte i c @ rest" and "buf_ptr s = length before"
    and "length before + length (escape_byte i c) \<le> buf_end s"
  shows "term_atom sub back s =
    (if c = 0x7f \<and> s_is_unicode s then invalid_escape s
     else term_normal_char back (ucast c) None (length before + length (escape_byte i c)) s)"
  using assms by (intro escaped_byte.term_escape) (unfold_locales, auto)

theorem escape_read_as_character_witness:
  "\<forall>sub s. term_atom sub False (s\<lparr>pat := [0x5c, 0x24, 0], buf_ptr := 0, buf_end := 2\<rparr>) =
     term_normal_char False 0x24 None 2 (s\<lparr>pat := [0x5c, 0x24, 0], buf_ptr := 0, buf_end := 2\<rparr>)"
proof -
  have "escape_byte 0 0x24 = [0x5c, 0x24]" by code_simp
  with escape_read_as_character [where s = "s\<lparr>pat := [0x5c, 0x24, 0], buf_ptr := 0, buf_end := 2\<rparr>" and before = "[]" and
      i = 0 and c = "0x24" and rest = "[0]" for s] show ?thesis by (simp flip: numeral_2_eq_2)
qed

end
