(* ===== verification/Spec2Isabelle.thy ===== *)
theory Spec2Isabelle
  imports DynBuf CharRange CaseConv MatchText MatchBounds JsProps SortExchange FoldSet UniTable RStringSet JsCompile
    JsEscape
begin

text \<open>
  A model of \<^verbatim>\<open>jsregexp\<close>, the ECMAScript regular expressions of QuickJS as a Lua module.

  The program. \<^verbatim>\<open>src/jsregexp.c\<close> is the Lua interface: \<^verbatim>\<open>compile\<close> makes a regexp object from a
  pattern and flags, which holds a byte code and \<^verbatim>\<open>last_index\<close>; \<^verbatim>\<open>exec\<close> converts the subject, runs the
  matcher and builds a match object. \<^verbatim>\<open>src/libregexp/libregexp.c\<close> compiles a pattern to a byte code
  and interprets it with a backtracking machine; \<^verbatim>\<open>libunicode.c\<close> has sets of characters, case
  folding and the Unicode tables of \<^verbatim>\<open>libunicode-table.h\<close>; \<^verbatim>\<open>cutils.c\<close> and \<^verbatim>\<open>cutils.h\<close> have the
  dynamic buffer, the UTF-8 codec and the sort. The matcher reads the byte code that the compiler
  writes, and both use the same character sets and case folding, so that a class and the character
  it is compared with are folded alike.

  Conventions. A machine integer is a word of its width; an index or a count that cannot wrap in
  the code is a natural number, and where \<^verbatim>\<open>size_t\<close>, \<^verbatim>\<open>uint32_t\<close> and \<^verbatim>\<open>int\<close> meet (the length of a
  subject, the arguments of \<^verbatim>\<open>lre_exec\<close>) the conversions are written out: \<open>jsstring_new\<close>, \<open>to_int\<close>,
  \<open>buf_offset\<close>. A block of memory is a list and a pointer into it an index or the rest of the list;
  a read or a write outside a block has no value (\<open>None\<close>, \<open>Undefined\<close>, \<open>Fault\<close>), and so has every
  other step that C leaves undefined, so that a theorem that gives a result also says that the code
  stays inside its memory. The allocator of the matcher is a function of the number of the request
  and its size. That of the compiler and of the character sets is a predicate on the size alone: two
  requests of the same size have the same success. Theorems about the compiler hold for every such
  predicate. A loop that may not end is a partial function (\<open>Prelude\<close>) or has fuel; every other
  function is total, with its termination proved.

  Theories and code: helpers.

  \<^item> \<open>Prelude\<close>: checked reads, unbounded loops with their fuel characterisation, the locales for
    loop invariants and for two loops in lock step.
  \<^item> \<open>Cutils\<close>, \<open>DynBuf\<close>, \<open>Utf8\<close> (\<^verbatim>\<open>cutils.c\<close>, \<^verbatim>\<open>cutils.h\<close>): integers in memory, C strings,
    the growing buffer with its error flag, and the codec, which is inverse to itself both ways.
  \<^item> \<open>Sort\<close>, \<open>SortProps\<close>, \<open>SortPart\<close>, \<open>SortExchange\<close> (\<^verbatim>\<open>rqsort\<close> and below): the quick sort with
    its stack of 50 segments and its heap sort, correct for every comparison that is a total
    preorder (locale \<open>comparator\<close>), and the exchange functions on bytes.

  Theories and code: sets of characters and of strings.

  \<^item> \<open>CharRange\<close> (\<^verbatim>\<open>libunicode.c\<close>, \<^verbatim>\<open>cr_*\<close>): sets of characters as sorted lists of bounds; the
    operations are the operations on sets and give canonical lists.
  \<^item> \<open>CaseConv\<close>, \<open>CaseFold\<close>, \<open>FoldMask\<close>, \<open>FoldIntervals\<close>, \<open>FoldChars\<close>, \<open>FoldSet\<close>: case
    conversion by table search (locale \<open>interval_table\<close>), and the folding of a set of
    characters, which is the image of the set under the folding of one.
  \<^item> \<open>UniTables\<close>, \<open>UniTable\<close>: the compressed property tables and their indexed search, equal to
    the decoding of the table without its index.
  \<^item> \<open>RStrings\<close>, \<open>RStringSet\<close> (\<^verbatim>\<open>libregexp.c\<close>, \<^verbatim>\<open>re_string_*\<close>): the operands of classes with the flag
    v, a range and a hash table of strings, as sets of strings (locale \<open>collector\<close>).

  Theories and code: the matcher (second half of \<^verbatim>\<open>libregexp.c\<close>).

  \<^item> \<open>Opcodes\<close>, \<open>Subject\<close>, \<open>Instr\<close>, \<open>Exec\<close>: the byte code (\<^verbatim>\<open>libregexp-opcode.h\<close>), the reading of
    the three kinds of subject, one definition per instruction, and \<^verbatim>\<open>lre_exec_backtrack\<close> with its
    explicit stack, undo entries and growth.
  \<^item> \<open>ExecSpec\<close>, \<open>Refine\<close>: the matcher without a shared stack, which copies the captures at each
    choice point, and the simulation between the two. \<open>MatchBounds\<close>: every capture lies in the
    subject.
  \<^item> \<open>MatchOps\<close>: what the range instructions accept. \<open>MatchText\<close>: the text of a subject as characters,
    and what back references, classes and assertions accept in it.

  Theories and code: the compiler (first half of \<^verbatim>\<open>libregexp.c\<close>).

  \<^item> \<open>ParseState\<close>, \<open>ParseLex\<close>, \<open>ParseClass\<close>, \<open>ParseGroups\<close>, \<open>ParseTerm\<close>, \<open>Compile\<close>: \<^verbatim>\<open>REParseState\<close> and
    the emitters, escapes and atoms of classes, classes, group names and the scan for groups, terms
    with their quantifiers, alternatives and disjunctions, the register pass and \<^verbatim>\<open>lre_compile\<close>.
  \<^item> \<open>Verifier\<close>, \<open>VerifierSound\<close>: a typing of the places of a byte code by the registers and
    lookaheads around them, and the proof that the matcher does nothing undefined on typed code.
  \<^item> \<open>CodeTree\<close>, \<open>CodeRegs\<close>, \<open>CodeEmit\<close>, \<open>CodeStrings\<close>: byte code as a tree of blocks, choices and
    loops; trees are typed, the register pass is exact on them, and the emitters build them.
  \<^item> \<open>ParseQuiet\<close>, \<open>ParseNames\<close>, \<open>ParseCaptures\<close>, \<open>ParseCode\<close>, \<open>ParseTerms\<close>, \<open>CompileCode\<close>,
    \<open>CompileProps\<close>: every function of the parser keeps the byte code a tree and advances in the
    pattern, so compiled code is typed, safe to run, and the compiler ends.

  Theories and code: the Lua module (\<^verbatim>\<open>jsregexp.c\<close>).

  \<^item> \<open>JsString\<close>, \<open>Jsregexp\<close>, \<open>JsProps\<close>: the conversion of the subject with its two index maps, \<^verbatim>\<open>escape\<close>,
    flags, \<^verbatim>\<open>last_index\<close>, \<^verbatim>\<open>exec\<close>, the match object, and what they promise.
  \<^item> \<open>JsCompile\<close>: \<^verbatim>\<open>compile\<close> and \<^verbatim>\<open>compile_safe\<close>, and the compiler and the matcher together.
    \<open>JsEscape\<close>: what the parser reads where \<^verbatim>\<open>escape\<close> wrote.

  Bounds and fuel. The recursive functions of the compiler have the length of the pattern and one as
  their fuel; \<open>compile_terminates\<close> shows that it is enough, because every round moves the pointer
  into the pattern, unless the byte code buffer has run out of memory. The fuel of \<open>loop_fuel\<close> is only
  a proof device: a loop returns exactly when some fuel suffices, and no theorem fixes a number. The
  sort ends because its segments shrink, and its stack holds 50 segments because the larger part is
  pushed. The interrupt counter of the matcher is kept; the callback it polls is the one of
  \<^verbatim>\<open>jsregexp.c\<close>, which never stops a match.

  What the model showed. Names of groups after the first are given to the wrong groups
  (\<open>group_names_shifted\<close>); a zero byte in a subject makes the matcher read behind its copy
  (\<open>exec_zero_byte_undefined\<close>), and a length of \<open>2 ^ 31\<close> makes it start with a negative one
  (\<open>exec_long_string_undefined\<close>); \<^verbatim>\<open>escape\<close> writes an escape that is not valid in Unicode mode, and
  takes the bytes of a character apart (\<open>escape_read_as_character\<close>); the array of captures in \<^verbatim>\<open>exec\<close>
  can be too small for the matcher (\<open>exec_capture_array_too_small\<close>); a group that did not take part
  makes \<^verbatim>\<open>exec\<close> compute with a null pointer when the subject is not ASCII
  (\<open>unmatched_group_wide_undefined\<close>); a jump is patched behind the end of the buffer when memory runs
  out (\<open>compile_patch_out_of_memory\<close>); a string added to an emptied list is not found
  (\<open>re_string_add_after_removal\<close>); and the folding of a set drops an interval silently when memory
  runs out in its loop.

  Not modelled: the sets of Unicode properties behind \<^verbatim>\<open>\p\<close> and normalisation, which are parameters of
  the compiler, and the registration of the module in Lua; the byte code dump and the test program
  are compiled out, and \<^verbatim>\<open>jsregexp.lua\<close> is not C code.
\<close>

end
